(* ===== verification/Prelude.thy ===== *)
theory Prelude
  imports Main "HOL-Library.Word" "HOL-Library.AList"
begin

text \<open>
  The vocabulary the component theories share: bytes and machine integers, results of Go
  functions (a value, an error or a run-time panic), slices with their bounds check, the
  parts of Go's \<^verbatim>\<open>encoding/binary\<close> that the sources call (big-endian integers and unsigned
  varints), and Go maps as association lists whose order is the iteration order.
  A Go \<^verbatim>\<open>string\<close> is its byte sequence, so keys and values are both \<open>bytes\<close>.
\<close>

unbundle bit_operations_syntax

named_theorems go_simps \<open>rewriting of results: bind, slices\<close>
named_theorems gomap_simps \<open>lookups in updated Go maps\<close>
named_theorems wire_simps \<open>decoders applied to encodings\<close>
named_theorems state_simps \<open>views of component states after an operation\<close>

section \<open>Types\<close>

type_synonym byte = "8 word"
type_synonym bytes = "byte list"
type_synonym u32 = "32 word"
type_synonym u64 = "64 word"
type_synonym ReplicaID = u64

section \<open>Results\<close>

text \<open>
  A call returns a value, returns an error, or panics. \<open>ErrCodec\<close> is the error a user
  codec returns; the others are the package's own error values.
\<close>

datatype goerror = ErrShortBuffer | ErrInvalidData | ErrUnknownOp | ErrShortAEDigest
  | ErrQuorumTimeout | ErrCodec

datatype 'a go = Ok 'a | Err goerror | Panic

fun go_bind :: "'a go \<Rightarrow> ('a \<Rightarrow> 'b go) \<Rightarrow> 'b go" where
  "go_bind (Ok x) f = f x"
| "go_bind (Err e) f = Err e"
| "go_bind Panic f = Panic"

fun go_map :: "('a \<Rightarrow> 'b) \<Rightarrow> 'a go \<Rightarrow> 'b go" where
  "go_map f (Ok x) = Ok (f x)"
| "go_map f (Err e) = Err e"
| "go_map f Panic = Panic"

lemma go_bind_Ok_iff [go_simps]: "go_bind r f = Ok y \<longleftrightarrow> (\<exists>x. r = Ok x \<and> f x = Ok y)"
  by (cases r) auto

lemma go_map_Ok_iff [go_simps]: "go_map f r = Ok y \<longleftrightarrow> (\<exists>x. r = Ok x \<and> y = f x)"
  by (cases r) auto

lemma go_bind_Panic_iff [go_simps]:
  "go_bind r f = Panic \<longleftrightarrow> r = Panic \<or> (\<exists>x. r = Ok x \<and> f x = Panic)"
  by (cases r) auto

section \<open>Go integers and slices\<close>

text \<open>
  \<open>int\<close> is 64 bits wide: \<open>goint\<close> is the value an addition wraps to, and the conversion
  \<^verbatim>\<open>int(x)\<close> of a \<^verbatim>\<open>uint64\<close> is \<open>sint x\<close>. A slice expression \<^verbatim>\<open>b[i:j]\<close>
  panics unless \<open>0 \<le> i \<le> j \<le> len b\<close>.
\<close>

definition goint :: "int \<Rightarrow> int" where
  "goint i = sint (word_of_int i :: 64 word)"

lemma goint_idle: "- (2 ^ 63) \<le> i \<Longrightarrow> i < 2 ^ 63 \<Longrightarrow> goint i = i"
  unfolding goint_def by (simp add: sint_sbintrunc' signed_take_bit_int_eq_self)

lemma goint_wrap: "2 ^ 63 \<le> i \<Longrightarrow> i < 2 ^ 64 + 2 ^ 63 \<Longrightarrow> goint i = i - 2 ^ 64"
proof -
  assume i: "2 ^ 63 \<le> i" "i < 2 ^ 64 + 2 ^ 63"
  have "word_of_int i = (word_of_int (i - 2 ^ 64) :: 64 word)"
    by (simp add: word_of_int_eq_iff take_bit_eq_mod)
  then have "goint i = goint (i - 2 ^ 64)" by (simp only: goint_def)
  with i show ?thesis using goint_idle [of "i - 2 ^ 64"] by simp
qed

definition slice :: "bytes \<Rightarrow> int \<Rightarrow> int \<Rightarrow> bytes go" where
  "slice b i j =
     (if 0 \<le> i \<and> i \<le> j \<and> j \<le> int (length b) then Ok (take (nat (j - i)) (drop (nat i) b)) else Panic)"

definition slice_from :: "bytes \<Rightarrow> int \<Rightarrow> bytes go" where
  "slice_from b i = slice b i (int (length b))"

lemma slice_from_Ok [go_simps]:
  "0 \<le> i \<Longrightarrow> i \<le> int (length b) \<Longrightarrow> slice_from b i = Ok (drop (nat i) b)"
  by (auto simp: slice_from_def slice_def nat_diff_distrib)

lemma slice_append [go_simps]:
  "slice (xs @ ys @ zs) (int (length xs)) (int (length xs) + int (length ys)) = Ok ys"
  by (simp add: slice_def)

section \<open>Big-endian integers (encoding/binary)\<close>

primrec beBytes :: "nat \<Rightarrow> 'a::len word \<Rightarrow> bytes" where
  "beBytes 0 v = []"
| "beBytes (Suc n) v = beBytes n (drop_bit 8 v) @ [ucast v]"

definition beWord :: "bytes \<Rightarrow> 'a::len word" where
  "beWord bs = foldl (\<lambda>acc b. push_bit 8 acc OR ucast b) 0 bs"

lemma length_beBytes [simp]: "length (beBytes n v) = n"
  by (induction n arbitrary: v) auto

lemma beWord_snoc: "beWord (bs @ [b]) = push_bit 8 (beWord bs) OR ucast b"
  by (simp add: beWord_def)

lemma beWord_beBytes: "beWord (beBytes n v) = take_bit (8 * n) (v :: 'a::len word)"
proof (induction n arbitrary: v)
  case 0
  then show ?case by (simp add: beWord_def)
next
  case (Suc n)
  show ?case
    by (rule bit_word_eqI) (auto simp: beWord_snoc Suc.IH bit_simps)
qed

definition PutUint64 :: "u64 \<Rightarrow> bytes" where
  "PutUint64 v = beBytes 8 v"

definition PutUint32 :: "u32 \<Rightarrow> bytes" where
  "PutUint32 v = beBytes 4 v"

definition Uint64 :: "bytes \<Rightarrow> u64 go" where
  "Uint64 b = (if length b < 8 then Panic else Ok (beWord (take 8 b)))"

definition Uint32 :: "bytes \<Rightarrow> u32 go" where
  "Uint32 b = (if length b < 4 then Panic else Ok (beWord (take 4 b)))"

lemma length_PutUint64 [simp]: "length (PutUint64 v) = 8"
  by (simp add: PutUint64_def)

lemma length_PutUint32 [simp]: "length (PutUint32 v) = 4"
  by (simp add: PutUint32_def)

lemma take_bit_full: "take_bit LENGTH('a) (v :: 'a::len word) = v"
  by (rule bit_word_eqI) (simp add: bit_simps)

lemma Uint64_PutUint64 [simp, wire_simps]: "Uint64 (PutUint64 v @ rest) = Ok v"
  using take_bit_full [of v] by (simp add: Uint64_def PutUint64_def beWord_beBytes)

lemma Uint64_PutUint64' [simp, wire_simps]: "Uint64 (PutUint64 v) = Ok v"
  using Uint64_PutUint64 [of v "[]"] by simp

lemma Uint32_PutUint32 [simp, wire_simps]: "Uint32 (PutUint32 v @ rest) = Ok v"
  using take_bit_full [of v] by (simp add: Uint32_def PutUint32_def beWord_beBytes)

lemma PutUint64_inject [simp]: "PutUint64 v = PutUint64 w \<longleftrightarrow> v = w"
  by (metis Uint64_PutUint64' go.inject(1))

section \<open>Word arithmetic\<close>

lemma unat_plus_one: "x \<noteq> - 1 \<Longrightarrow> unat (x + 1 :: 'a::len word) = Suc (unat x)"
proof -
  assume "x \<noteq> - 1"
  then have "1 + x \<noteq> 0" by (metis add_eq_0_iff minus_minus)
  then show ?thesis using unatSuc [of x] by (simp add: add.commute)
qed

lemma unat_of_nat_self: "n < 2 ^ LENGTH('a) \<Longrightarrow> unat (of_nat n :: 'a::len word) = n"
  by (simp add: unsigned_of_nat take_bit_nat_eq_self)

lemma sint_goint: "sint (x :: u64) = goint (uint x)"
  by (simp add: goint_def)

lemma sint_nonneg: "uint (x :: u64) < 2 ^ 63 \<Longrightarrow> sint x = uint x"
  unfolding sint_goint by (rule goint_idle) (auto intro: order_trans [of _ 0])

lemma sint_neg:
  assumes "2 ^ 63 \<le> uint (x :: u64)"
  shows "sint x = uint x - 2 ^ 64"
proof -
  have "uint x < 2 ^ 64 + 2 ^ 63"
    using unsigned_less [of x, where ?'a = int] by simp
  with assms show ?thesis unfolding sint_goint by (rule goint_wrap)
qed

lemma less_plus_one: "x \<noteq> - 1 \<Longrightarrow> (x :: 'a::len word) < x + 1"
  by (simp add: word_less_nat_alt unat_plus_one)

lemma less_iff_plus_one_le: "x \<noteq> - 1 \<Longrightarrow> (x :: 'a::len word) < y \<longleftrightarrow> x + 1 \<le> y"
  by (simp add: word_less_nat_alt word_le_nat_alt unat_plus_one Suc_le_eq)

lemma plus_one_gap: "h < c \<Longrightarrow> c \<noteq> h + 1 \<Longrightarrow> h + 1 < (c :: 'a::len word)"
  using less_iff_plus_one_le [of h c] by (cases "h = - 1") auto

lemma le_plus_one_iff: "h < h + 1 \<Longrightarrow> c \<le> h + 1 \<longleftrightarrow> c = h + 1 \<or> c \<le> (h :: 'a::len word)"
  using plus_one_gap [of h c] by (metis linorder_not_le order.strict_implies_order order_refl order_trans)

section \<open>Unsigned varints (encoding/binary)\<close>

function PutUvarint :: "u64 \<Rightarrow> bytes" where
  "PutUvarint x = (if 128 \<le> x then (ucast x OR 128) # PutUvarint (drop_bit 7 x) else [ucast x])"
  by pat_completeness auto
termination
  by (relation "measure unat") (auto simp: word_le_nat_alt unat_div_distrib drop_bit_eq_div)

declare PutUvarint.simps [simp del]

text \<open>
  \<open>Uvarint_from bs i x\<close> is the loop of \<^verbatim>\<open>binary.Uvarint\<close> at index \<open>i\<close> with shift \<open>7 * i\<close>:
  the value and the number of bytes read; 0 when the buffer ends, negative on overflow.
\<close>

fun Uvarint_from :: "bytes \<Rightarrow> nat \<Rightarrow> u64 \<Rightarrow> u64 \<times> int" where
  "Uvarint_from [] i x = (0, 0)"
| "Uvarint_from (b # bs) i x =
     (if i = 10 then (0, - (int i + 1))
      else if b < 128 then
        (if i = 9 \<and> b > 1 then (0, - (int i + 1))
         else (x OR push_bit (7 * i) (ucast b), int i + 1))
      else Uvarint_from bs (Suc i) (x OR push_bit (7 * i) (ucast (b AND 127))))"

definition Uvarint :: "bytes \<Rightarrow> u64 \<times> int" where
  "Uvarint bs = Uvarint_from bs 0 0"

lemma byte_127: "(127::byte) = mask 7"
  by (simp add: mask_eq_exp_minus_1)

lemma bit_128: "bit (128::int) n \<longleftrightarrow> n = 7"
  using bit_exp_iff [of 7 n, where ?'a = int] by auto

lemma continuation_low7: "ucast ((ucast x OR 128 :: byte) AND 127) = take_bit 7 (x :: u64)"
proof -
  have "((c OR 128) AND 127 :: byte) = take_bit 7 c" for c
    unfolding byte_127 by (rule bit_word_eqI) (auto simp: bit_simps bit_128)
  then show ?thesis
    by (simp only:) (rule bit_word_eqI, auto simp: bit_simps)
qed

lemma continuation_ge: "\<not> (c OR 128 :: byte) < 128"
proof -
  have "128 \<le> (c OR 128 :: byte)"
    by (subst or.commute) (rule le_word_or2)
  then show ?thesis by simp
qed

lemma split_low7: "(y :: u64) = take_bit 7 y OR push_bit 7 (drop_bit 7 y)"
proof (rule bit_word_eqI)
  fix n assume "n < LENGTH(64)"
  then show "bit y n = bit (take_bit 7 y OR push_bit 7 (drop_bit 7 y)) n"
    by (cases "n < 7") (auto simp: bit_simps)
qed

lemma Uvarint_shift:
  "x OR push_bit (7 * i) (take_bit 7 y) OR push_bit (7 * Suc i) (drop_bit 7 y)
     = x OR push_bit (7 * i) (y :: u64)"
proof -
  have "push_bit (7 * i) y = push_bit (7 * i) (take_bit 7 y OR push_bit 7 (drop_bit 7 y))"
    using split_low7 [of y] by simp
  also have "\<dots> = push_bit (7 * i) (take_bit 7 y) OR push_bit (7 * Suc i) (drop_bit 7 y)"
    by (simp add: push_bit_or add.commute)
  finally show ?thesis by (simp add: or.assoc)
qed

lemma unat_drop_bit7:
  assumes "Suc i \<le> 9" "unat (y :: u64) < 2 ^ (64 - 7 * i)"
  shows "unat (drop_bit 7 y) < 2 ^ (64 - 7 * Suc i)"
proof -
  have "(2::nat) ^ (64 - 7 * i) = 2 ^ (64 - 7 * Suc i) * 128"
    using assms(1) power_add [of "2::nat" "64 - 7 * Suc i" 7] by simp
  then show ?thesis
    using assms(2) by (simp add: drop_bit_eq_div unat_div_distrib less_mult_imp_div_less)
qed

lemma Uvarint_from_PutUvarint:
  "i \<le> 9 \<Longrightarrow> unat y < 2 ^ (64 - 7 * i) \<Longrightarrow>
   Uvarint_from (PutUvarint y @ rest) i x
     = (x OR push_bit (7 * i) y, int (i + length (PutUvarint y)))"
proof (induction y arbitrary: i x rule: PutUvarint.induct)
  case (1 y)
  show ?case
  proof (cases "128 \<le> y")
    case True
    then have i: "Suc i \<le> 9" using "1.prems" by (cases "i = 9") (auto simp: word_le_nat_alt)
    note IH = "1.IH" [OF True i unat_drop_bit7 [OF i "1.prems"(2)]]
    show ?thesis
      using True i IH [of "x OR push_bit (7 * i) (take_bit 7 y)"] Uvarint_shift [of x i y]
      by (simp add: PutUvarint.simps [of y] continuation_ge continuation_low7 or.assoc)
  next
    case False
    then have y: "unat y < 128" by (simp add: word_le_nat_alt)
    have u: "unat (ucast y :: byte) = unat y"
      using y by (simp add: unsigned_ucast_eq unsigned_take_bit_eq take_bit_nat_eq_self)
    have "(ucast y :: byte) < 128"
      using y by (simp add: word_less_nat_alt u)
    moreover have "\<not> (i = 9 \<and> 1 < (ucast y :: byte))"
      using "1.prems" by (auto simp: word_less_nat_alt u)
    moreover have "ucast (ucast y :: byte) = y"
      using y u by (intro unsigned_word_eqI [where ?'a = nat]) (simp add: unsigned_ucast_eq unsigned_take_bit_eq take_bit_nat_eq_self)
    ultimately show ?thesis
      using False "1.prems"(1) by (simp add: PutUvarint.simps [of y])
  qed
qed

lemma Uvarint_PutUvarint [simp, wire_simps]:
  "Uvarint (PutUvarint y @ rest) = (y, int (length (PutUvarint y)))"
proof -
  have "unat y < 2 ^ 64"
    using unsigned_less [of y, where ?'a = nat] by simp
  then show ?thesis
    using Uvarint_from_PutUvarint [of 0 y rest 0] by (simp add: Uvarint_def)
qed

lemma PutUvarint_nonempty [simp]: "PutUvarint y \<noteq> []"
  by (simp add: PutUvarint.simps [of y])

lemma length_PutUvarint_short: "n < 128 \<Longrightarrow> length (PutUvarint (of_nat n)) = 1"
proof -
  assume "n < 128"
  then have "(of_nat n :: u64) < 128" by (simp add: word_less_nat_alt unat_of_nat_self)
  then show ?thesis by (simp add: PutUvarint.simps [of "of_nat n"])
qed

lemma length_PutUvarint: "length (PutUvarint x) \<le> 10"
proof -
  have "unat x < 2 ^ (7 * n) \<Longrightarrow> length (PutUvarint x) \<le> max 1 n" for n
  proof (induction n arbitrary: x)
    case (Suc n)
    show ?case
    proof (cases "128 \<le> x")
      case True
      have "unat (drop_bit 7 x) = unat x div 2 ^ 7" by (simp add: unat_div_distrib drop_bit_eq_div)
      also have "\<dots> < 2 ^ (7 * n)" using Suc.prems by (intro less_mult_imp_div_less) (simp add: power_add mult.commute)
      finally have le: "length (PutUvarint (drop_bit 7 x)) \<le> max 1 n" by (rule Suc.IH)
      have "n \<noteq> 0" using True Suc.prems by (cases n) (auto simp: word_le_nat_alt)
      with le True show ?thesis by (simp add: PutUvarint.simps [of x])
    qed (simp add: PutUvarint.simps [of x])
  next
    case 0
    then have "x = 0" by (simp add: unat_eq_zero)
    then show ?case by (simp add: PutUvarint.simps [of 0])
  qed
  moreover have "unat x < 2 ^ (7 * 10)" using unsigned_less [of x, where ?'a = nat] by simp
  ultimately have "length (PutUvarint x) \<le> max 1 10" by blast
  then show ?thesis by simp
qed

lemma Uvarint_from_bounds: "snd (Uvarint_from bs i x) \<le> int i + int (length bs)"
proof (induction bs i x rule: Uvarint_from.induct)
  case (2 b bs i x)
  then show ?case by auto
qed simp

lemma Uvarint_bounds: "snd (Uvarint bs) \<le> int (length bs)"
  using Uvarint_from_bounds [of bs 0 0] by (simp add: Uvarint_def)

section \<open>Go maps\<close>

text \<open>
  A Go map is an association list with distinct keys; the order of the list is the order in
  which one \<^verbatim>\<open>range\<close> loop visits the entries, so a theorem about every such list holds for
  every iteration order. \<open>mget0\<close> is the index expression, which gives the zero value for an
  absent key.
\<close>

type_synonym ('k, 'v) gomap = "('k \<times> 'v) list"

abbreviation mget :: "('k, 'v) gomap \<Rightarrow> 'k \<Rightarrow> 'v option" where
  "mget m k \<equiv> map_of m k"

abbreviation mput :: "'k \<Rightarrow> 'v \<Rightarrow> ('k, 'v) gomap \<Rightarrow> ('k, 'v) gomap" where
  "mput \<equiv> AList.update"

abbreviation mdel :: "'k \<Rightarrow> ('k, 'v) gomap \<Rightarrow> ('k, 'v) gomap" where
  "mdel \<equiv> AList.delete"

definition mget0 :: "('k, 'v::zero) gomap \<Rightarrow> 'k \<Rightarrow> 'v" where
  "mget0 m k = (case map_of m k of None \<Rightarrow> 0 | Some v \<Rightarrow> v)"

definition wf_map :: "('k, 'v) gomap \<Rightarrow> bool" where
  "wf_map m \<longleftrightarrow> distinct (map fst m)"

lemma mget_mput [gomap_simps, simp]: "map_of (mput k v m) = (map_of m)(k \<mapsto> v)"
  by (rule update_conv')

lemma mget_mdel [gomap_simps, simp]: "map_of (mdel k m) = (map_of m)(k := None)"
  by (rule delete_conv')

lemma mget0_mput [gomap_simps]: "mget0 (mput k v m) l = (if l = k then v else mget0 m l)"
  by (simp add: mget0_def)

lemma mget0_Cons: "mget0 ((k, v) # m) l = (if l = k then v else mget0 m l)"
  by (simp add: mget0_def)

lemma mget0_fresh: "k \<notin> fst ` set m \<Longrightarrow> mget0 m k = 0"
  using map_of_eq_None_iff [of m k] by (simp add: mget0_def)

lemma mget0_Nil [simp]: "mget0 [] k = 0"
  by (simp add: mget0_def)

lemma wf_map_Nil [simp]: "wf_map []"
  by (simp add: wf_map_def)

lemma wf_map_mput [simp, intro]: "wf_map m \<Longrightarrow> wf_map (mput k v m)"
  by (simp add: wf_map_def distinct_update)

lemma wf_map_mdel [simp, intro]: "wf_map m \<Longrightarrow> wf_map (mdel k m)"
  by (simp add: wf_map_def distinct_delete)

lemma length_mdel_less: "k \<in> fst ` set m \<Longrightarrow> length (mdel k m) < length m"
  by (auto simp: AList.delete_eq intro: length_filter_less)

lemma fst_set_mdel [gomap_simps]: "fst ` set (mdel k m) = fst ` set m - {k}"
  by (auto simp: AList.delete_eq image_iff)

lemma fst_set_mput [gomap_simps]: "fst ` set (mput k v m) = insert k (fst ` set m)"
  using dom_update [of k v m] by simp

lemma wf_map_filter [simp, intro]: "wf_map m \<Longrightarrow> wf_map (filter P m)"
  by (auto simp: wf_map_def intro: distinct_map_filter)

lemma wf_map_Cons: "wf_map ((k, v) # m) \<longleftrightarrow> k \<notin> fst ` set m \<and> wf_map m"
  by (auto simp: wf_map_def)

lemma wf_map_mem: "wf_map m \<Longrightarrow> (k, v) \<in> set m \<longleftrightarrow> map_of m k = Some v"
  by (simp add: wf_map_def)

lemma wf_map_mget0_mem: "wf_map m \<Longrightarrow> (k, v) \<in> set m \<Longrightarrow> mget0 m k = v"
  by (simp add: wf_map_def mget0_def)

text \<open>\<^verbatim>\<open>for k, v := range m\<close> that stores every entry into a fresh map: a copy.\<close>

definition mclone :: "('k, 'v) gomap \<Rightarrow> ('k, 'v) gomap" where
  "mclone m = fold (\<lambda>(k, v) out. mput k v out) m []"

lemma mput_fresh: "k \<notin> fst ` set m \<Longrightarrow> mput k v m = m @ [(k, v)]"
  by (induction m) auto

lemma mclone_onto:
  "distinct (map fst (out @ m)) \<Longrightarrow> fold (\<lambda>(k, v) out. mput k v out) m out = out @ m"
proof (induction m arbitrary: out)
  case (Cons p m)
  obtain k v where p: "p = (k, v)" by (cases p)
  with Cons.prems have "k \<notin> fst ` set out" by (auto simp: image_iff)
  then have "mput k v out = out @ [(k, v)]" by (rule mput_fresh)
  with Cons p show ?case by simp
qed simp

lemma mclone_id [simp]: "wf_map m \<Longrightarrow> mclone m = m"
  using mclone_onto [of "[]" m] by (simp add: mclone_def wf_map_def)

lemma map_of_filter_key:
  "map_of (filter (\<lambda>(k, v). P k v) m) k
     = (if wf_map m then (case map_of m k of None \<Rightarrow> None | Some v \<Rightarrow> if P k v then Some v else None)
        else map_of (filter (\<lambda>(k, v). P k v) m) k)"
proof (induction m)
  case (Cons p m)
  obtain a b where p: "p = (a, b)" by (cases p)
  have "wf_map ((a, b) # m) \<Longrightarrow> map_of m a = None"
    by (auto simp: wf_map_Cons map_of_eq_None_iff)
  with Cons p show ?case
    by (auto simp: wf_map_Cons split: if_splits)
qed simp

lemma map_of_filter [gomap_simps]:
  "wf_map m \<Longrightarrow> map_of (filter (\<lambda>(k, v). P k v) m) k
     = (case map_of m k of None \<Rightarrow> None | Some v \<Rightarrow> if P k v then Some v else None)"
  using map_of_filter_key [of P m k] by simp

text \<open>Two maps hold the same entries, whatever their iteration orders.\<close>

definition same_map :: "('k, 'v) gomap \<Rightarrow> ('k, 'v) gomap \<Rightarrow> bool" where
  "same_map m m' \<longleftrightarrow> map_of m = map_of m'"

lemma same_map_set:
  assumes "wf_map m" "wf_map m'" "map_of m = map_of m'"
  shows "set m = set m'"
proof -
  have "(k, v) \<in> set m \<longleftrightarrow> (k, v) \<in> set m'" for k v
    using assms by (simp add: wf_map_mem)
  then show ?thesis by auto
qed

lemma same_map_length:
  assumes "wf_map m" "wf_map m'" "map_of m = map_of m'"
  shows "length m = length m'"
  using same_map_set [OF assms] assms(1,2)
  by (metis distinct_card distinct_map wf_map_def)

section \<open>Lists\<close>

text \<open>A loop that appends one result for the elements passing a test.\<close>

lemma concat_map_if:
  "concat (map (\<lambda>(a, b). if P a b then [f a b] else []) m) = map (\<lambda>(a, b). f a b) (filter (\<lambda>(a, b). P a b) m)"
  by (induction m) auto

lemma eq_by_bounds: "(\<And>b. x \<le> b \<longleftrightarrow> y \<le> b) \<Longrightarrow> x = (y :: 'a::order)"
  by (meson antisym order_refl)

end
