(* ===== verification/Dots.thy ===== *)
theory Dots
  imports Prelude
begin

text \<open>
  Dots and dot maps (\<^verbatim>\<open>dot.go\<close>) and the local counter that stamps them (\<^verbatim>\<open>clock.go\<close>).
  The last-write-wins order on dots is made the \<open>linorder\<close> of the record type, so that
  \<open>DotGT\<close> is its strict order. The locale \<open>clock_join\<close> states the contract of a merge
  of counters per replica; it is interpreted here for \<open>CombineDots\<close> and in the theory of
  vector clocks for \<open>Merge\<close>.
\<close>

section \<open>Definitions\<close>

record Dot =
  Replica :: ReplicaID
  Counter :: u64

type_synonym DotMap = "(ReplicaID, u64) gomap"

abbreviation mkDot :: "ReplicaID \<Rightarrow> u64 \<Rightarrow> Dot" where
  "mkDot r c \<equiv> \<lparr>Replica = r, Counter = c\<rparr>"

definition DotGT :: "Dot \<Rightarrow> Dot \<Rightarrow> bool" where
  "DotGT a b = (if Counter a \<noteq> Counter b then Counter a > Counter b else Replica a < Replica b)"

definition MaxDot :: "DotMap \<Rightarrow> Dot" where
  "MaxDot dm = fold (\<lambda>(r, c) best.
     let d = mkDot r c in if Counter best = 0 \<or> DotGT d best then d else best) dm (mkDot 0 0)"

definition CombineDots :: "DotMap \<Rightarrow> DotMap \<Rightarrow> DotMap" where
  "CombineDots a b =
     fold (\<lambda>(r, c) out. if c > mget0 out r then mput r c out else out) b (mclone a)"

definition NextDot :: "ReplicaID \<Rightarrow> DotMap \<Rightarrow> Dot" where
  "NextDot replica dm = mkDot replica (mget0 dm replica + 1)"

definition DotMember :: "DotMap \<Rightarrow> Dot \<Rightarrow> bool" where
  "DotMember dm d \<longleftrightarrow> mget0 dm (Replica d) \<ge> Counter d"

definition CloneDotMap :: "DotMap \<Rightarrow> DotMap" where
  "CloneDotMap dm = mclone dm"

definition DotMapLTE :: "DotMap \<Rightarrow> DotMap \<Rightarrow> bool" where
  "DotMapLTE a b \<longleftrightarrow>
     (if length a > length b then False else list_all (\<lambda>(r, c). \<not> c > mget0 b r) a)"

definition DotMapEqual :: "DotMap \<Rightarrow> DotMap \<Rightarrow> bool" where
  "DotMapEqual a b \<longleftrightarrow>
     (if length a \<noteq> length b then False else list_all (\<lambda>(r, c). mget0 b r = c) a)"

subsection \<open>The local clock\<close>

record localClock =
  lcReplica :: ReplicaID
  lcCounter :: u64

definition newLocalClock :: "ReplicaID \<Rightarrow> localClock" where
  "newLocalClock r = \<lparr>lcReplica = r, lcCounter = 0\<rparr>"

definition localClock_Next :: "localClock \<Rightarrow> localClock \<times> Dot" where
  "localClock_Next lc =
     (let lc' = lc\<lparr>lcCounter := lcCounter lc + 1\<rparr> in (lc', mkDot (lcReplica lc') (lcCounter lc')))"

definition localClock_Current :: "localClock \<Rightarrow> Dot" where
  "localClock_Current lc = mkDot (lcReplica lc) (lcCounter lc)"

definition localClock_Counter :: "localClock \<Rightarrow> u64" where
  "localClock_Counter lc = lcCounter lc"

definition localClock_Replica :: "localClock \<Rightarrow> ReplicaID" where
  "localClock_Replica lc = lcReplica lc"

definition localClock_SetCounter :: "localClock \<Rightarrow> u64 \<Rightarrow> localClock" where
  "localClock_SetCounter lc c = lc\<lparr>lcCounter := c\<rparr>"

section \<open>The order on dots\<close>

text \<open>Counters first; on equal counters the lower replica is the greater dot.\<close>

instantiation Dot_ext :: (linorder) linorder
begin

definition less_eq_Dot_ext :: "'a Dot_scheme \<Rightarrow> 'a Dot_scheme \<Rightarrow> bool" where
  "less_eq_Dot_ext a b \<longleftrightarrow> Counter a < Counter b \<or> Counter a = Counter b \<and>
     (Replica b < Replica a \<or> Replica a = Replica b \<and> Dot.more a \<le> Dot.more b)"

definition less_Dot_ext :: "'a Dot_scheme \<Rightarrow> 'a Dot_scheme \<Rightarrow> bool" where
  "less_Dot_ext a b \<longleftrightarrow> a \<le> b \<and> \<not> b \<le> (a :: 'a Dot_scheme)"

instance
proof
  fix x y z :: "'a Dot_scheme"
  show "x < y \<longleftrightarrow> x \<le> y \<and> \<not> y \<le> x" by (rule less_Dot_ext_def)
  show "x \<le> x" by (simp add: less_eq_Dot_ext_def)
  show "x \<le> y \<Longrightarrow> y \<le> z \<Longrightarrow> x \<le> z" by (auto simp: less_eq_Dot_ext_def)
  show "x \<le> y \<Longrightarrow> y \<le> x \<Longrightarrow> x = y"
    by (auto simp: less_eq_Dot_ext_def intro: Dot.equality)
  show "x \<le> y \<or> y \<le> x" by (auto simp: less_eq_Dot_ext_def)
qed

end

lemma DotGT_less: "DotGT a b \<longleftrightarrow> b < a"
  by (cases a; cases b) (auto simp: DotGT_def less_Dot_ext_def less_eq_Dot_ext_def)

lemma not_DotGT: "\<not> DotGT a b \<longleftrightarrow> a \<le> b"
  by (simp add: DotGT_less not_less)

lemma DotGT_irrefl [simp]: "\<not> DotGT a a"
  by (simp add: DotGT_less)

section \<open>Counters per replica\<close>

text \<open>A clock holds no zero counter: \<open>pos_map\<close>. The zero value of an absent replica is 0.\<close>

definition pos_map :: "(ReplicaID, u64) gomap \<Rightarrow> bool" where
  "pos_map m \<longleftrightarrow> wf_map m \<and> (\<forall>(r, c) \<in> set m. c \<noteq> 0)"

lemma pos_map_Nil [simp]: "pos_map []"
  by (simp add: pos_map_def)

lemma pos_map_wf [intro]: "pos_map m \<Longrightarrow> wf_map m"
  by (simp add: pos_map_def)

lemma set_mput_subset: "set (mput k v m) \<subseteq> insert (k, v) (set m)"
  by (induction m) auto

lemma pos_map_mput: "pos_map m \<Longrightarrow> c \<noteq> 0 \<Longrightarrow> pos_map (mput r c m)"
  using set_mput_subset [of r c m] by (auto simp: pos_map_def)

lemma pos_map_mput_gt: "pos_map m \<Longrightarrow> x < c \<Longrightarrow> pos_map (mput r c m)"
  by (rule pos_map_mput) auto

lemma pos_map_dom: "pos_map m \<Longrightarrow> r \<in> fst ` set m \<longleftrightarrow> mget0 m r \<noteq> 0"
proof -
  assume m: "pos_map m"
  have "r \<in> fst ` set m \<longleftrightarrow> map_of m r \<noteq> None"
    by (simp add: map_of_eq_None_iff)
  also have "\<dots> \<longleftrightarrow> mget0 m r \<noteq> 0"
    using m by (auto simp: mget0_def pos_map_def split: option.splits dest: map_of_SomeD)
  finally show ?thesis .
qed

lemma pos_map_filter [simp, intro]: "pos_map m \<Longrightarrow> pos_map (filter P m)"
  by (auto simp: pos_map_def)

lemma pos_map_mget: "pos_map m \<Longrightarrow> map_of m r = (if mget0 m r = 0 then None else Some (mget0 m r))"
  by (auto simp: mget0_def pos_map_def split: option.splits dest: map_of_SomeD)

lemma pos_map_ext:
  "pos_map m \<Longrightarrow> pos_map m' \<Longrightarrow> (\<And>r. mget0 m r = mget0 m' r) \<Longrightarrow> map_of m = map_of m'"
  by (rule ext) (simp add: pos_map_mget)

text \<open>The merging loop of \<open>CombineDots\<close> and \<open>VClock.Merge\<close>.\<close>

abbreviation join_loop :: "(ReplicaID, u64) gomap \<Rightarrow> (ReplicaID, u64) gomap \<Rightarrow> (ReplicaID, u64) gomap" where
  "join_loop b a \<equiv> fold (\<lambda>(r, c) out. if c > mget0 out r then mput r c out else out) b a"

lemma mget0_join_loop: "wf_map b \<Longrightarrow> mget0 (join_loop b a) r = max (mget0 a r) (mget0 b r)"
proof (induction b arbitrary: a)
  case (Cons p b)
  obtain k c where p: "p = (k, c)" by (cases p)
  with Cons.prems have wf: "wf_map b" and new: "mget0 b k = 0"
    by (auto simp: wf_map_Cons mget0_fresh)
  let ?a = "if c > mget0 a k then mput k c a else a"
  have "mget0 ?a r = max (mget0 a r) (if r = k then c else 0)"
    by (auto simp: mget0_mput max_def)
  with Cons.IH [OF wf, of ?a] new p show ?case
    by (cases "r = k") (simp_all add: mget0_Cons)
qed simp

lemma wf_map_join_loop: "wf_map a \<Longrightarrow> wf_map (join_loop b a)"
  by (induction b arbitrary: a) (simp_all add: split_beta)

lemma pos_map_join_loop: "pos_map a \<Longrightarrow> pos_map (join_loop b a)"
proof (induction b arbitrary: a)
  case (Cons p b)
  obtain r c where p: "p = (r, c)" by (cases p)
  have "pos_map (if c > mget0 a r then mput r c a else a)"
    using Cons.prems by (auto intro: pos_map_mput_gt)
  then show ?case using Cons.IH p by simp
qed simp

lemma lte_loop:
  assumes a: "pos_map a" and b: "wf_map b"
  shows "(if length a > length b then False else list_all (\<lambda>(r, c). \<not> c > mget0 b r) a)
    \<longleftrightarrow> (\<forall>r. mget0 a r \<le> mget0 b r)" (is "?L \<longleftrightarrow> ?R")
proof -
  have all: "list_all (\<lambda>(r, c). \<not> c > mget0 b r) a \<longleftrightarrow> ?R"
  proof
    assume l: "list_all (\<lambda>(r, c). \<not> c > mget0 b r) a"
    show ?R
    proof
      fix r
      from l show "mget0 a r \<le> mget0 b r"
        by (auto simp: mget0_def [of a] list_all_iff not_less split: option.splits dest!: map_of_SomeD)
    qed
  next
    assume ?R
    with a show "list_all (\<lambda>(r, c). \<not> c > mget0 b r) a"
      by (auto simp: list_all_iff not_less dest!: wf_map_mget0_mem [rotated] pos_map_wf)
  qed
  have "length a \<le> length b" if R: ?R
  proof -
    have "fst ` set a \<subseteq> fst ` set b"
    proof
      fix r assume "r \<in> fst ` set a"
      with pos_map_dom [OF a] R have "mget0 b r \<noteq> 0"
        by (metis le_zero_eq word_coorder.extremum_uniqueI)
      then show "r \<in> fst ` set b"
        by (auto simp: mget0_def image_iff split: option.splits dest!: map_of_SomeD) force
    qed
    then have "card (fst ` set a) \<le> card (fst ` set b)" by (intro card_mono) auto
    moreover have "card (fst ` set a) = length a"
      using a distinct_card [of "map fst a"] by (auto simp: pos_map_def wf_map_def)
    moreover have "card (fst ` set b) = length b"
      using b distinct_card [of "map fst b"] by (auto simp: wf_map_def)
    ultimately show ?thesis by simp
  qed
  with all show ?thesis by (auto simp: not_less)
qed

section \<open>The contract of a merge\<close>

locale clock_join =
  fixes get :: "'m \<Rightarrow> ReplicaID \<Rightarrow> u64"
    and join :: "'m \<Rightarrow> 'm \<Rightarrow> 'm"
    and lte :: "'m \<Rightarrow> 'm \<Rightarrow> bool"
    and inv :: "'m \<Rightarrow> bool"
  assumes get_join: "inv a \<Longrightarrow> inv b \<Longrightarrow> get (join a b) r = max (get a r) (get b r)"
    and lte_iff: "inv a \<Longrightarrow> inv b \<Longrightarrow> lte a b \<longleftrightarrow> (\<forall>r. get a r \<le> get b r)"
    and inv_join: "inv a \<Longrightarrow> inv b \<Longrightarrow> inv (join a b)"
begin

lemma join_upper: "inv a \<Longrightarrow> inv b \<Longrightarrow> lte a (join a b) \<and> lte b (join a b)"
  by (simp add: lte_iff get_join inv_join)

lemma join_least: "inv a \<Longrightarrow> inv b \<Longrightarrow> inv c \<Longrightarrow> lte a c \<Longrightarrow> lte b c \<Longrightarrow> lte (join a b) c"
  by (simp add: lte_iff get_join inv_join)

lemma join_comm: "inv a \<Longrightarrow> inv b \<Longrightarrow> get (join a b) = get (join b a)"
  by (simp add: fun_eq_iff get_join max.commute)

lemma join_assoc:
  "inv a \<Longrightarrow> inv b \<Longrightarrow> inv c \<Longrightarrow> get (join (join a b) c) = get (join a (join b c))"
  by (simp add: fun_eq_iff get_join inv_join max.assoc)

lemma join_idem: "inv a \<Longrightarrow> get (join a a) = get a"
  by (simp add: fun_eq_iff get_join)

lemma lte_refl: "inv a \<Longrightarrow> lte a a"
  by (simp add: lte_iff)

lemma lte_trans: "inv a \<Longrightarrow> inv b \<Longrightarrow> inv c \<Longrightarrow> lte a b \<Longrightarrow> lte b c \<Longrightarrow> lte a c"
  by (meson lte_iff order_trans)

lemma lte_antisym: "inv a \<Longrightarrow> inv b \<Longrightarrow> lte a b \<Longrightarrow> lte b a \<Longrightarrow> get a = get b"
  by (simp add: fun_eq_iff lte_iff antisym)

lemma lte_join_iff: "inv a \<Longrightarrow> inv b \<Longrightarrow> lte a b \<longleftrightarrow> get (join a b) = get b"
  by (auto simp: lte_iff get_join fun_eq_iff max_def)

end

interpretation dotmap: clock_join mget0 CombineDots DotMapLTE pos_map
proof
  fix a b :: DotMap and r
  assume a: "pos_map a" and b: "pos_map b"
  then show "mget0 (CombineDots a b) r = max (mget0 a r) (mget0 b r)"
    by (simp add: CombineDots_def mget0_join_loop pos_map_wf)
  show "DotMapLTE a b \<longleftrightarrow> (\<forall>r. mget0 a r \<le> mget0 b r)"
    using lte_loop [OF a pos_map_wf [OF b]] by (simp add: DotMapLTE_def)
  show "pos_map (CombineDots a b)"
    using a by (simp add: CombineDots_def pos_map_wf pos_map_join_loop)
qed


section \<open>Dots and dot maps\<close>

lemma DotMapEqual_iff:
  assumes a: "pos_map a" and b: "pos_map b"
  shows "DotMapEqual a b \<longleftrightarrow> map_of a = map_of b"
proof
  assume eq: "map_of a = map_of b"
  have "length a = length b"
    using same_map_length [OF pos_map_wf [OF a] pos_map_wf [OF b] eq] .
  moreover have "mget0 b r = c" if "(r, c) \<in> set a" for r c
    using that wf_map_mget0_mem [OF pos_map_wf [OF a]] eq by (metis mget0_def)
  ultimately show "DotMapEqual a b"
    by (auto simp: DotMapEqual_def list_all_iff)
next
  assume e: "DotMapEqual a b"
  then have len: "length a = length b" and mem: "\<And>r c. (r, c) \<in> set a \<Longrightarrow> mget0 b r = c"
    by (auto simp: DotMapEqual_def list_all_iff split: if_splits)
  have sub: "set a \<subseteq> set b"
  proof clarify
    fix r c assume rc: "(r, c) \<in> set a"
    then have "map_of b r = Some c"
      using mem [OF rc] a pos_map_mget [OF b, of r] by (auto simp: pos_map_def)
    then show "(r, c) \<in> set b" by (rule map_of_SomeD)
  qed
  moreover have "card (set a) = card (set b)"
    using len a b by (metis distinct_card distinct_map pos_map_def wf_map_def)
  ultimately have "set a = set b" by (intro card_subset_eq) auto
  then show "map_of a = map_of b"
    using a b by (simp add: pos_map_def wf_map_def map_of_inject_set)
qed

text \<open>\<open>MaxDot\<close> is the maximum of the dots of a map without zero counters.\<close>

definition dots_of :: "DotMap \<Rightarrow> Dot set" where
  "dots_of dm = (\<lambda>(r, c). mkDot r c) ` set dm"

lemma MaxDot_step:
  assumes "c \<noteq> 0" "Counter best \<noteq> 0"
  shows "(let d = mkDot r c in if Counter best = 0 \<or> DotGT d best then d else best) = max (mkDot r c) best"
  using assms by (auto simp: Let_def DotGT_less max_def not_less)

lemma MaxDot_fold:
  "\<forall>(r, c) \<in> set dm. c \<noteq> 0 \<Longrightarrow> Counter best \<noteq> 0 \<Longrightarrow>
   fold (\<lambda>(r, c) best. let d = mkDot r c in if Counter best = 0 \<or> DotGT d best then d else best) dm best
     = Max (insert best (dots_of dm))"
proof (induction dm arbitrary: best)
  case Nil
  then show ?case by (simp add: dots_of_def)
next
  case (Cons p dm)
  obtain r c where p: "p = (r, c)" by (cases p)
  have nz: "c \<noteq> 0" and tl: "\<forall>(r, c) \<in> set dm. c \<noteq> 0" using Cons.prems(1) p by auto
  have "Counter (max (mkDot r c) best) \<noteq> 0"
    using nz Cons.prems(2) by (auto simp: max_def)
  note IH = Cons.IH [OF tl this]
  have fin: "finite (dots_of dm)" by (simp add: dots_of_def)
  have "Max (insert (max (mkDot r c) best) (dots_of dm)) = Max (insert best (insert (mkDot r c) (dots_of dm)))"
    using fin by (cases "dots_of dm = {}") (auto simp: max.assoc max.left_commute max.commute)
  with IH show ?case
    using MaxDot_step [OF nz Cons.prems(2), of r] p by (simp add: dots_of_def)
qed

lemma MaxDot_Max:
  assumes "pos_map dm" "dm \<noteq> []"
  shows "MaxDot dm = Max (dots_of dm)"
proof -
  obtain r c dm' where dm: "dm = (r, c) # dm'" using assms(2) by (cases dm) auto
  with assms(1) have "c \<noteq> 0" and "\<forall>(r, c) \<in> set dm'. c \<noteq> 0" by (auto simp: pos_map_def)
  then show ?thesis
    using MaxDot_fold [of dm' "mkDot r c"] dm by (simp add: MaxDot_def dots_of_def)
qed

lemma MaxDot_Nil [simp]: "MaxDot [] = mkDot 0 0"
  by (simp add: MaxDot_def)

lemma NextDot_not_member:
  "mget0 dm r \<noteq> - 1 \<Longrightarrow> \<not> DotMember dm (NextDot r dm)"
  by (simp add: DotMember_def NextDot_def not_le less_plus_one)

section \<open>The local clock\<close>

text \<open>The counter of the \<open>n\<close>th dot a fresh local clock hands out.\<close>

primrec localClock_run :: "nat \<Rightarrow> localClock \<Rightarrow> localClock \<times> Dot list" where
  "localClock_run 0 lc = (lc, [])"
| "localClock_run (Suc n) lc =
     (let (lc', ds) = localClock_run n lc; (lc'', d) = localClock_Next lc' in (lc'', ds @ [d]))"

lemma localClock_run_fst:
  "fst (localClock_run n lc) = lc\<lparr>lcCounter := lcCounter lc + of_nat n\<rparr>"
  by (induction n) (auto simp: localClock_Next_def Let_def split_beta algebra_simps)

lemma localClock_run_snd:
  "snd (localClock_run n lc) = map (\<lambda>i. mkDot (lcReplica lc) (lcCounter lc + of_nat (Suc i))) [0..<n]"
  by (induction n) (auto simp: localClock_Next_def Let_def split_beta localClock_run_fst algebra_simps)

end
