(* ===== verification/VClocks.thy ===== *)
theory VClocks
  imports Dots
begin

text \<open>
  Vector clocks (\<^verbatim>\<open>vclock.go\<close>). A \<open>VClock\<close> is a Go map from replicas to counters; \<open>Merge\<close>
  and \<open>LTE\<close> satisfy the merge contract of \<open>clock_join\<close> on clocks without zero counters,
  \<open>LowerBound\<close> is the greatest lower bound, and a fingerprint does not depend on the order
  in which the map is visited. The seeded hash of \<^verbatim>\<open>hash/maphash\<close> is a parameter.
\<close>

section \<open>Definitions\<close>

type_synonym VClock = "(ReplicaID, u64) gomap"

definition newVClock :: VClock where
  "newVClock = []"

definition VClock_Get :: "VClock \<Rightarrow> ReplicaID \<Rightarrow> u64" where
  "VClock_Get vc replica = mget0 vc replica"

definition VClock_Clone :: "VClock \<Rightarrow> VClock" where
  "VClock_Clone vc = mclone vc"

definition VClock_Increment :: "VClock \<Rightarrow> ReplicaID \<Rightarrow> VClock" where
  "VClock_Increment vc replica =
     (let out = VClock_Clone vc in mput replica (mget0 out replica + 1) out)"

definition VClock_Merge :: "VClock \<Rightarrow> VClock \<Rightarrow> VClock" where
  "VClock_Merge vc other =
     fold (\<lambda>(r, c) out. if c > mget0 out r then mput r c out else out) other (VClock_Clone vc)"

definition VClock_LTE :: "VClock \<Rightarrow> VClock \<Rightarrow> bool" where
  "VClock_LTE vc other \<longleftrightarrow>
     (if length vc > length other then False else list_all (\<lambda>(r, c). \<not> c > mget0 other r) vc)"

definition VClock_Dominates :: "VClock \<Rightarrow> VClock \<Rightarrow> bool" where
  "VClock_Dominates vc other \<longleftrightarrow> VClock_LTE other vc"

definition VClock_Concurrent :: "VClock \<Rightarrow> VClock \<Rightarrow> bool" where
  "VClock_Concurrent vc other \<longleftrightarrow> \<not> VClock_LTE vc other \<and> \<not> VClock_LTE other vc"

definition VClock_Equal :: "VClock \<Rightarrow> VClock \<Rightarrow> bool" where
  "VClock_Equal vc other \<longleftrightarrow>
     (if length vc \<noteq> length other then False else list_all (\<lambda>(r, c). mget0 other r = c) vc)"

definition VClock_LowerBound :: "VClock \<Rightarrow> VClock \<Rightarrow> VClock" where
  "VClock_LowerBound vc other =
     fold (\<lambda>(r, c) out. case mget other r of None \<Rightarrow> out | Some oc \<Rightarrow> mput r (min c oc) out) vc []"

definition VClock_Fingerprint :: "(bytes \<Rightarrow> u64) \<Rightarrow> VClock \<Rightarrow> u64" where
  "VClock_Fingerprint sum64 vc = fold (\<lambda>(r, c) fp. fp XOR sum64 (PutUint64 r @ PutUint64 c)) vc 0"

section \<open>The merge contract\<close>

interpretation vclock: clock_join VClock_Get VClock_Merge VClock_LTE pos_map
proof
  fix a b :: VClock and r
  assume a: "pos_map a" and b: "pos_map b"
  then show "VClock_Get (VClock_Merge a b) r = max (VClock_Get a r) (VClock_Get b r)"
    by (simp add: VClock_Get_def VClock_Merge_def VClock_Clone_def mget0_join_loop pos_map_wf)
  show "VClock_LTE a b \<longleftrightarrow> (\<forall>r. VClock_Get a r \<le> VClock_Get b r)"
    using lte_loop [OF a pos_map_wf [OF b]] by (simp add: VClock_LTE_def VClock_Get_def)
  show "pos_map (VClock_Merge a b)"
    using a by (simp add: VClock_Merge_def VClock_Clone_def pos_map_wf pos_map_join_loop)
qed

lemma VClock_Equal_DotMapEqual: "VClock_Equal a b = DotMapEqual a b"
  by (simp add: VClock_Equal_def DotMapEqual_def)

lemma VClock_Get_ext:
  "pos_map a \<Longrightarrow> pos_map b \<Longrightarrow> VClock_Get a = VClock_Get b \<longleftrightarrow> map_of a = map_of b"
  by (auto simp: fun_eq_iff VClock_Get_def intro!: pos_map_ext [THEN fun_cong] cong: option.case_cong)
    (simp add: mget0_def)

section \<open>Lower bounds\<close>

abbreviation lower_loop :: "VClock \<Rightarrow> VClock \<Rightarrow> VClock \<Rightarrow> VClock" where
  "lower_loop other vc out \<equiv>
     fold (\<lambda>(r, c) out. case mget other r of None \<Rightarrow> out | Some oc \<Rightarrow> mput r (min c oc) out) vc out"

lemma wf_lower_loop: "wf_map out \<Longrightarrow> wf_map (lower_loop other vc out)"
  by (induction vc arbitrary: out) (auto split: option.splits)

lemma mget_lower_loop:
  "wf_map vc \<Longrightarrow> map_of (lower_loop other vc out) r =
     (case (map_of vc r, map_of other r) of (Some c, Some oc) \<Rightarrow> Some (min c oc) | _ \<Rightarrow> map_of out r)"
proof (induction vc arbitrary: out)
  case (Cons p vc)
  obtain k c where p: "p = (k, c)" by (cases p)
  with Cons.prems have "wf_map vc" and "map_of vc k = None"
    by (auto simp: wf_map_Cons map_of_eq_None_iff)
  with Cons.IH p show ?case
    by (auto split: option.splits)
qed simp

lemma mget_LowerBound:
  "wf_map a \<Longrightarrow> map_of (VClock_LowerBound a b) r =
     (case (map_of a r, map_of b r) of (Some c, Some oc) \<Rightarrow> Some (min c oc) | _ \<Rightarrow> None)"
  by (simp add: VClock_LowerBound_def mget_lower_loop split: option.split)

lemma wf_LowerBound: "wf_map (VClock_LowerBound a b)"
  by (simp add: VClock_LowerBound_def wf_lower_loop)

lemma Get_LowerBound:
  assumes "wf_map a"
  shows "VClock_Get (VClock_LowerBound a b) r = min (VClock_Get a r) (VClock_Get b r)"
  using assms
  by (auto simp: VClock_Get_def mget0_def mget_LowerBound split: option.splits)

lemma pos_map_LowerBound: "pos_map a \<Longrightarrow> pos_map b \<Longrightarrow> pos_map (VClock_LowerBound a b)"
  by (auto simp: pos_map_def wf_LowerBound wf_map_mem mget_LowerBound min_def
      split: option.splits if_splits dest!: map_of_SomeD)

section \<open>Increment\<close>

lemma Get_Increment:
  "wf_map vc \<Longrightarrow> VClock_Get (VClock_Increment vc r) k
     = (if k = r then VClock_Get vc r + 1 else VClock_Get vc k)"
  by (simp add: VClock_Increment_def VClock_Get_def VClock_Clone_def Let_def mget0_mput)

lemma pos_map_Increment:
  "pos_map vc \<Longrightarrow> VClock_Get vc r \<noteq> - 1 \<Longrightarrow> pos_map (VClock_Increment vc r)"
  using less_plus_one [of "VClock_Get vc r"]
  by (auto simp: VClock_Increment_def VClock_Clone_def VClock_Get_def Let_def pos_map_wf
      intro: pos_map_mput_gt)

lemma Increment_dominates:
  assumes "pos_map vc" "VClock_Get vc r \<noteq> - 1"
  shows "VClock_LTE vc (VClock_Increment vc r) \<and> \<not> VClock_LTE (VClock_Increment vc r) vc"
  using assms less_plus_one [OF assms(2)]
  by (auto simp: vclock.lte_iff pos_map_Increment Get_Increment pos_map_wf not_le intro: exI [of _ r])

section \<open>Fingerprints\<close>

lemma Fingerprint_fold:
  "fold (\<lambda>(r, c) fp. fp XOR h r c) m (x :: u64) = x XOR fold (\<lambda>(r, c) fp. fp XOR h r c) m 0"
proof (induction m arbitrary: x)
  case (Cons p m)
  obtain r c where p: "p = (r, c)" by (cases p)
  show ?case
    using Cons.IH [of "x XOR h r c"] Cons.IH [of "0 XOR h r c"] p by (simp add: xor.assoc)
qed simp

lemma fold_xor_remove1:
  assumes "(r, c) \<in> set m"
  shows "fold (\<lambda>(r, c) fp. fp XOR h r c) m (0 :: u64)
    = h r c XOR fold (\<lambda>(r, c) fp. fp XOR h r c) (remove1 (r, c) m) 0"
  using assms
proof (induction m)
  case (Cons p m)
  obtain k v where p: "p = (k, v)" by (cases p)
  show ?case
  proof (cases "p = (r, c)")
    case True
    then show ?thesis using Fingerprint_fold [of h m "h r c"] by simp
  next
    case False
    with Cons.prems have "(r, c) \<in> set m" by simp
    from Cons.IH [OF this] False p show ?thesis
      using Fingerprint_fold [of h m "h k v"]
        Fingerprint_fold [of h "remove1 (r, c) m" "h k v"]
      by (simp add: xor.left_commute)
  qed
qed simp

lemma fold_xor_set:
  "distinct m \<Longrightarrow> distinct m' \<Longrightarrow> set m = set m' \<Longrightarrow>
   fold (\<lambda>(r, c) fp. fp XOR h r c) m (0 :: u64) = fold (\<lambda>(r, c) fp. fp XOR h r c) m' 0"
proof (induction m arbitrary: m')
  case (Cons p m)
  obtain r c where p: "p = (r, c)" by (cases p)
  have "set m = set (remove1 p m')" and "distinct (remove1 p m')"
    using Cons.prems by (auto simp: set_remove1_eq)
  with Cons.IH [of "remove1 p m'"] Cons.prems(1)
  have IH: "fold (\<lambda>(r, c) fp. fp XOR h r c) m 0 = fold (\<lambda>(r, c) fp. fp XOR h r c) (remove1 p m') 0"
    by simp
  have "(r, c) \<in> set m'" using Cons.prems p by auto
  from fold_xor_remove1 [OF this, of h] IH p show ?case
    using Fingerprint_fold [of h m "h r c"] by simp
qed simp

lemma wf_map_distinct: "wf_map m \<Longrightarrow> distinct m"
  by (simp add: wf_map_def distinct_map)

lemma fold_xor_same_map:
  assumes "wf_map m" "wf_map m'" "map_of m = map_of m'"
  shows "fold (\<lambda>(r, c) fp. fp XOR h r c) m (0 :: u64) = fold (\<lambda>(r, c) fp. fp XOR h r c) m' 0"
  using assms by (intro fold_xor_set wf_map_distinct same_map_set)

end
