(* ===== verification/Received.thy ===== *)
theory Received
  imports VClocks
begin

text \<open>
  The received clock (\<^verbatim>\<open>received.go\<close>): which counters of each replica have arrived. Its
  specification is the set of counters seen per replica; the locale \<open>receive_log\<close> states
  what a log of received dots promises, and the interpretation shows that \<open>Record\<close> with its
  gap-filling loop keeps the high-water mark at the end of the contiguous prefix.
\<close>

section \<open>Definitions\<close>

record receivedClock =
  rcHwm :: "(ReplicaID, u64) gomap"
  rcPending :: "(ReplicaID, (u64, unit) gomap) gomap"

definition newReceivedClock :: receivedClock where
  "newReceivedClock = \<lparr>rcHwm = [], rcPending = []\<rparr>"

text \<open>The loop of \<open>advanceHWM\<close>, on the mark and the pending set of one replica.\<close>

function advanceLoop :: "u64 \<Rightarrow> (u64, unit) gomap \<Rightarrow> u64 \<times> (u64, unit) gomap" where
  "advanceLoop h p =
     (if mget p (h + 1) \<noteq> None then advanceLoop (h + 1) (mdel (h + 1) p) else (h, p))"
  by pat_completeness auto
termination
proof (relation "measure (\<lambda>(h, p). length p)")
  fix h :: u64 and p :: "(u64, unit) gomap"
  assume "mget p (h + 1) \<noteq> None"
  then have "h + 1 \<in> fst ` set p" by (simp add: map_of_eq_None_iff)
  then have "length (mdel (h + 1) p) < length p" by (rule length_mdel_less)
  then show "((h + 1, mdel (h + 1) p), (h, p)) \<in> measure (\<lambda>(h, p). length p)" by simp
qed simp

declare advanceLoop.simps [simp del]

definition receivedClock_advanceHWM :: "receivedClock \<Rightarrow> ReplicaID \<Rightarrow> receivedClock" where
  "receivedClock_advanceHWM rc replica =
     (case mget (rcPending rc) replica of
        None \<Rightarrow> rc
      | Some pending \<Rightarrow>
          (let (h, p) = advanceLoop (mget0 (rcHwm rc) replica) pending in
           rc\<lparr>rcHwm := (if h = mget0 (rcHwm rc) replica then rcHwm rc else mput replica h (rcHwm rc)),
              rcPending := (if p = [] then mdel replica (rcPending rc)
                            else mput replica p (rcPending rc))\<rparr>))"

definition receivedClock_Record :: "receivedClock \<Rightarrow> ReplicaID \<Rightarrow> u64 \<Rightarrow> receivedClock" where
  "receivedClock_Record rc replica counter =
     (if counter = 0 then rc
      else let current = mget0 (rcHwm rc) replica in
        if counter \<le> current then rc
        else if counter = current + 1 then
          receivedClock_advanceHWM (rc\<lparr>rcHwm := mput replica counter (rcHwm rc)\<rparr>) replica
        else
          (let p = (case mget (rcPending rc) replica of None \<Rightarrow> [] | Some p \<Rightarrow> p) in
           rc\<lparr>rcPending := mput replica (mput counter () p) (rcPending rc)\<rparr>))"

definition receivedClock_Get :: "receivedClock \<Rightarrow> ReplicaID \<Rightarrow> u64" where
  "receivedClock_Get rc replica = mget0 (rcHwm rc) replica"

definition receivedClock_HWM :: "receivedClock \<Rightarrow> VClock" where
  "receivedClock_HWM rc = mclone (rcHwm rc)"

definition receivedClock_Covers :: "receivedClock \<Rightarrow> ReplicaID \<Rightarrow> u64 \<Rightarrow> bool" where
  "receivedClock_Covers rc replica counter =
     (if counter \<le> mget0 (rcHwm rc) replica then True
      else case mget (rcPending rc) replica of
        None \<Rightarrow> False | Some pending \<Rightarrow> mget pending counter \<noteq> None)"

definition receivedClock_SetHWM :: "receivedClock \<Rightarrow> ReplicaID \<Rightarrow> u64 \<Rightarrow> receivedClock" where
  "receivedClock_SetHWM rc replica counter =
     receivedClock_advanceHWM (rc\<lparr>rcHwm := mput replica counter (rcHwm rc)\<rparr>) replica"

definition receivedClock_Clone :: "receivedClock \<Rightarrow> receivedClock" where
  "receivedClock_Clone rc =
     \<lparr>rcHwm = mclone (rcHwm rc), rcPending = mclone (map (\<lambda>(r, p). (r, mclone p)) (rcPending rc))\<rparr>"

section \<open>The specification: counters seen\<close>

definition pending_of :: "receivedClock \<Rightarrow> ReplicaID \<Rightarrow> u64 set" where
  "pending_of rc r = (case mget (rcPending rc) r of None \<Rightarrow> {} | Some p \<Rightarrow> fst ` set p)"

definition seen :: "receivedClock \<Rightarrow> ReplicaID \<Rightarrow> u64 set" where
  "seen rc r = {c. 0 < c \<and> c \<le> receivedClock_Get rc r} \<union> pending_of rc r"

text \<open>
  The invariant: the mark has no zero entry, and a pending set is never empty and lies
  above the first gap.
\<close>

definition rc_inv :: "receivedClock \<Rightarrow> bool" where
  "rc_inv rc \<longleftrightarrow> pos_map (rcHwm rc) \<and> wf_map (rcPending rc) \<and>
     (\<forall>r p. mget (rcPending rc) r = Some p \<longrightarrow> p \<noteq> [] \<and> wf_map p) \<and>
     (\<forall>r. \<forall>c \<in> pending_of rc r. receivedClock_Get rc r + 1 < c)"

text \<open>The end of the contiguous prefix of a set of counters.\<close>

definition prefix_end :: "u64 set \<Rightarrow> u64 \<Rightarrow> bool" where
  "prefix_end S n \<longleftrightarrow> (\<forall>c. 0 < c \<and> c \<le> n \<longrightarrow> c \<in> S) \<and> (n = - 1 \<or> n + 1 \<notin> S)"

lemma prefix_end_le: "prefix_end S n \<Longrightarrow> prefix_end S m \<Longrightarrow> n \<le> m"
proof (rule ccontr)
  assume n: "prefix_end S n" and m: "prefix_end S m" and "\<not> n \<le> m"
  then have lt: "m < n" by simp
  then have "m \<noteq> - 1" by auto
  then have "0 < m + 1" "m + 1 \<le> n"
    using lt less_iff_plus_one_le [of m n] less_plus_one [of m] by (auto intro: le_less_trans [of 0 m])
  with n have "m + 1 \<in> S" by (auto simp: prefix_end_def)
  with m \<open>m \<noteq> - 1\<close> show False by (simp add: prefix_end_def)
qed

lemma prefix_end_unique: "prefix_end S n \<Longrightarrow> prefix_end S m \<Longrightarrow> n = m"
  by (simp add: antisym prefix_end_le)

section \<open>The loop\<close>

lemma advanceLoop_ge:
  "(\<forall>c \<in> fst ` set p. h < c) \<Longrightarrow> wf_map p \<Longrightarrow> advanceLoop h p = (h', p') \<Longrightarrow>
   h \<le> h' \<and> wf_map p' \<and> {c. 0 < c \<and> c \<le> h'} \<union> fst ` set p' = {c. 0 < c \<and> c \<le> h} \<union> fst ` set p
   \<and> (\<forall>c \<in> fst ` set p'. h' + 1 < c)"
proof (induction h p arbitrary: h' p' rule: advanceLoop.induct)
  case (1 h p)
  show ?case
  proof (cases "mget p (h + 1) = None")
    case True
    then have eq: "h' = h" "p' = p" using "1.prems"(3) by (auto simp: advanceLoop.simps)
    have "h + 1 \<notin> fst ` set p" using True by (simp add: map_of_eq_None_iff)
    then have "h + 1 < c" if "c \<in> fst ` set p" for c
      using that "1.prems"(1) by (metis plus_one_gap)
    with eq "1.prems" show ?thesis by auto
  next
    case False
    then have mem: "h + 1 \<in> fst ` set p" by (simp add: map_of_eq_None_iff)
    then have up: "h < h + 1" using "1.prems"(1) by blast
    have run: "advanceLoop (h + 1) (mdel (h + 1) p) = (h', p')"
      using False "1.prems"(3) by (simp add: advanceLoop.simps [of h p])
    have gt: "\<forall>c \<in> fst ` set (mdel (h + 1) p). h + 1 < c"
      using "1.prems"(1) plus_one_gap [of h] by (auto simp: fst_set_mdel)
    have "0 < h + 1" using up by (rule le_less_trans [rotated]) simp
    then have split: "{c. 0 < c \<and> c \<le> h + 1} = insert (h + 1) {c. 0 < c \<and> c \<le> h}"
      by (auto simp: le_plus_one_iff [OF up])
    from "1.IH" [OF False gt _ run] "1.prems"(2) up mem show ?thesis
      by (auto simp: fst_set_mdel split)
  qed
qed


lemma rc_invD:
  assumes "rc_inv rc"
  shows "pos_map (rcHwm rc)" "wf_map (rcPending rc)"
    "\<And>r p. mget (rcPending rc) r = Some p \<Longrightarrow> p \<noteq> [] \<and> wf_map p"
    "\<And>r c. c \<in> pending_of rc r \<Longrightarrow> receivedClock_Get rc r + 1 < c"
  using assms by (auto simp: rc_inv_def)

text \<open>
  \<open>advanceHWM\<close> after the mark of \<open>r\<close> has been moved to \<open>h\<close>, below every pending counter:
  the counters seen are kept and the invariant is restored.
\<close>

lemma advanceHWM_other:
  assumes "k \<noteq> r"
  shows "mget0 (rcHwm (receivedClock_advanceHWM rc r)) k = mget0 (rcHwm rc) k"
    and "mget (rcPending (receivedClock_advanceHWM rc r)) k = mget (rcPending rc) k"
  using assms
  by (auto simp: receivedClock_advanceHWM_def Let_def split_beta mget0_mput split: option.splits)

lemma advanceHWM_self:
  assumes p: "mget (rcPending rc) r = Some p" and run: "advanceLoop (mget0 (rcHwm rc) r) p = (h, p')"
  shows "mget0 (rcHwm (receivedClock_advanceHWM rc r)) r = h"
    and "mget (rcPending (receivedClock_advanceHWM rc r)) r = (if p' = [] then None else Some p')"
  using assms by (auto simp: receivedClock_advanceHWM_def mget0_mput)

lemma advanceHWM_spec:
  assumes pos: "pos_map (rcHwm rc)" and wf: "wf_map (rcPending rc)"
    and pend: "\<And>k p. mget (rcPending rc) k = Some p \<Longrightarrow> p \<noteq> [] \<and> wf_map p"
    and gap: "\<And>k c. k \<noteq> r \<Longrightarrow> c \<in> pending_of rc k \<Longrightarrow> receivedClock_Get rc k + 1 < c"
    and above: "\<And>c. c \<in> pending_of rc r \<Longrightarrow> receivedClock_Get rc r < c"
  shows "rc_inv (receivedClock_advanceHWM rc r) \<and> seen (receivedClock_advanceHWM rc r) = seen rc"
proof (cases "mget (rcPending rc) r")
  case None
  then have "receivedClock_advanceHWM rc r = rc" by (simp add: receivedClock_advanceHWM_def)
  moreover have "receivedClock_Get rc k + 1 < c" if "c \<in> pending_of rc k" for k c
    using that gap [of k c] None by (cases "k = r") (auto simp: pending_of_def)
  then have "rc_inv rc"
    unfolding rc_inv_def using pos wf pend by blast
  ultimately show ?thesis by simp
next
  case (Some p)
  let ?rc = "receivedClock_advanceHWM rc r"
  obtain h p' where run: "advanceLoop (mget0 (rcHwm rc) r) p = (h, p')" by fastforce
  have "\<forall>c \<in> fst ` set p. mget0 (rcHwm rc) r < c"
    using above Some by (simp add: pending_of_def receivedClock_Get_def)
  note loop = advanceLoop_ge [OF this _ run]
  have wfp: "wf_map p" using pend [OF Some] by simp
  note self = advanceHWM_self [OF Some run]
  have pself: "pending_of ?rc r = fst ` set p'" by (simp add: pending_of_def self)
  have "pos_map (rcHwm ?rc)"
    using pos loop [OF wfp] Some run
    by (auto simp: receivedClock_advanceHWM_def order.order_iff_strict intro: pos_map_mput_gt)
  moreover have "wf_map (rcPending ?rc)"
    using wf Some run by (simp add: receivedClock_advanceHWM_def)
  moreover have "q \<noteq> [] \<and> wf_map q" if "mget (rcPending ?rc) k = Some q" for k q
    using that pend [of k q] self loop [OF wfp] advanceHWM_other [of k r rc]
    by (cases "k = r") (auto split: if_splits)
  moreover have "receivedClock_Get ?rc k + 1 < c" if "c \<in> pending_of ?rc k" for k c
    using that gap [of k c] self loop [OF wfp] advanceHWM_other [of k r rc] pself
    by (cases "k = r") (auto simp: receivedClock_Get_def pending_of_def)
  moreover have "seen ?rc k = seen rc k" for k
    using self loop [OF wfp] advanceHWM_other [of k r rc] pself Some
    by (cases "k = r") (auto simp: seen_def receivedClock_Get_def pending_of_def)
  ultimately show ?thesis by (auto simp: rc_inv_def)
qed

section \<open>Record\<close>

lemma Record_pending:
  assumes inv: "rc_inv rc" and c: "receivedClock_Get rc r < c" "c \<noteq> receivedClock_Get rc r + 1"
  shows "rc_inv (receivedClock_Record rc r c) \<and>
    seen (receivedClock_Record rc r c) = (seen rc)(r := insert c (seen rc r))"
proof -
  let ?rc = "receivedClock_Record rc r c"
  let ?p = "case mget (rcPending rc) r of None \<Rightarrow> [] | Some p \<Rightarrow> p"
  have rc: "?rc = rc\<lparr>rcPending := mput r (mput c () ?p) (rcPending rc)\<rparr>"
    using c by (auto simp: receivedClock_Record_def receivedClock_Get_def Let_def not_le)
  have pend: "pending_of ?rc k = (if k = r then insert c (pending_of rc r) else pending_of rc k)" for k
    by (auto simp: rc pending_of_def fst_set_mput split: option.splits)
  have get: "receivedClock_Get ?rc k = receivedClock_Get rc k" for k
    by (simp add: rc receivedClock_Get_def)
  have "q \<noteq> [] \<and> wf_map q" if "mget (rcPending ?rc) k = Some q" for k q
    using that rc_invD(3) [OF inv] by (auto simp: rc wf_map_Cons split: if_splits option.splits)
  moreover have "receivedClock_Get ?rc k + 1 < d" if "d \<in> pending_of ?rc k" for k d
    using that rc_invD(4) [OF inv] plus_one_gap [OF c] by (auto simp: pend get split: if_splits)
  ultimately have "rc_inv ?rc"
    using rc_invD(1,2) [OF inv] by (auto simp: rc_inv_def rc)
  moreover have "seen ?rc = (seen rc)(r := insert c (seen rc r))"
    by (auto simp: seen_def pend get fun_eq_iff)
  ultimately show ?thesis by simp
qed

lemma Record_next:
  assumes inv: "rc_inv rc" and c: "receivedClock_Get rc r < c" "c = receivedClock_Get rc r + 1"
  shows "rc_inv (receivedClock_Record rc r c) \<and>
    seen (receivedClock_Record rc r c) = (seen rc)(r := insert c (seen rc r))"
proof -
  let ?rc = "rc\<lparr>rcHwm := mput r c (rcHwm rc)\<rparr>"
  have "c \<noteq> 0" "\<not> c \<le> receivedClock_Get rc r" using c by auto
  then have rc: "receivedClock_Record rc r c = receivedClock_advanceHWM ?rc r"
    using c(2) by (simp add: receivedClock_Record_def receivedClock_Get_def Let_def)
  have get: "receivedClock_Get ?rc k = (if k = r then c else receivedClock_Get rc k)" for k
    by (simp add: receivedClock_Get_def mget0_mput)
  have pend: "pending_of ?rc k = pending_of rc k" for k
    by (simp add: pending_of_def)
  have "rc_inv (receivedClock_advanceHWM ?rc r) \<and> seen (receivedClock_advanceHWM ?rc r) = seen ?rc"
  proof (rule advanceHWM_spec)
    show "pos_map (rcHwm ?rc)" using rc_invD(1) [OF inv] \<open>c \<noteq> 0\<close> by (simp add: pos_map_mput)
    show "wf_map (rcPending ?rc)" using rc_invD(2) [OF inv] by simp
    show "p \<noteq> [] \<and> wf_map p" if "mget (rcPending ?rc) k = Some p" for k p
      using that rc_invD(3) [OF inv] by simp
    show "receivedClock_Get ?rc k + 1 < d" if "k \<noteq> r" "d \<in> pending_of ?rc k" for k d
      using that rc_invD(4) [OF inv, of d k] unfolding get pend by simp
    show "receivedClock_Get ?rc r < d" if "d \<in> pending_of ?rc r" for d
      using that rc_invD(4) [OF inv, of d r] unfolding get pend by (simp add: c(2))
  qed
  moreover have "0 < c" using c(1) by (rule le_less_trans [rotated]) simp
  moreover have "d \<le> c \<longleftrightarrow> d = c \<or> d \<le> receivedClock_Get rc r" for d
    using le_plus_one_iff [of "receivedClock_Get rc r" d] c by simp
  then have "seen ?rc = (seen rc)(r := insert c (seen rc r))"
    using \<open>0 < c\<close> by (auto simp: seen_def get pend fun_eq_iff)
  ultimately show ?thesis by (simp add: rc)
qed

lemma Record_spec:
  assumes "rc_inv rc"
  shows "rc_inv (receivedClock_Record rc r c) \<and>
    seen (receivedClock_Record rc r c) = (if c = 0 then seen rc else (seen rc)(r := insert c (seen rc r)))"
proof (cases "c \<le> receivedClock_Get rc r")
  case True
  then have "receivedClock_Record rc r c = rc"
    by (auto simp: receivedClock_Record_def receivedClock_Get_def Let_def)
  moreover have "c = 0 \<or> c \<in> seen rc r"
    using True by (auto simp: seen_def word_gt_0)
  ultimately show ?thesis using assms by (auto simp: insert_absorb)
next
  case False
  then have "receivedClock_Get rc r < c" by simp
  moreover from this have "c \<noteq> 0" by auto
  ultimately show ?thesis
    using Record_pending [OF assms] Record_next [OF assms] by (cases "c = receivedClock_Get rc r + 1") auto
qed

lemma Covers_seen: "receivedClock_Covers rc r c \<longleftrightarrow> c = 0 \<or> c \<in> seen rc r"
proof (cases "mget (rcPending rc) r")
  case (Some p)
  have "mget p c \<noteq> None \<longleftrightarrow> c \<in> fst ` set p" by (simp add: map_of_eq_None_iff)
  with Some show ?thesis
    by (auto simp: receivedClock_Covers_def seen_def receivedClock_Get_def pending_of_def word_gt_0)
qed (auto simp: receivedClock_Covers_def seen_def receivedClock_Get_def pending_of_def word_gt_0)

lemma Get_prefix_end:
  assumes "rc_inv rc"
  shows "prefix_end (seen rc r) (receivedClock_Get rc r)"
proof -
  have "receivedClock_Get rc r + 1 \<notin> seen rc r" if "receivedClock_Get rc r \<noteq> - 1"
    using rc_invD(4) [OF assms, of "receivedClock_Get rc r + 1" r] less_plus_one [OF that]
    by (auto simp: seen_def)
  then show ?thesis by (auto simp: prefix_end_def seen_def)
qed

text \<open>The loop over the dots of a delta: each is recorded in turn.\<close>

abbreviation record_loop :: "Dot list \<Rightarrow> receivedClock \<Rightarrow> receivedClock" where
  "record_loop \<equiv> fold (\<lambda>d rc. receivedClock_Record rc (Replica d) (Counter d))"

section \<open>The contract of a log of received counters\<close>

locale receive_log =
  fixes empty :: "'l" and record_dot :: "'l \<Rightarrow> ReplicaID \<Rightarrow> u64 \<Rightarrow> 'l"
    and covers :: "'l \<Rightarrow> ReplicaID \<Rightarrow> u64 \<Rightarrow> bool" and mark :: "'l \<Rightarrow> ReplicaID \<Rightarrow> u64"
    and arrived :: "'l \<Rightarrow> ReplicaID \<Rightarrow> u64 set" and inv :: "'l \<Rightarrow> bool"
  assumes inv_empty: "inv empty" and arrived_empty: "arrived empty = (\<lambda>_. {})"
    and inv_record: "inv l \<Longrightarrow> inv (record_dot l r c)"
    and arrived_record: "inv l \<Longrightarrow>
      arrived (record_dot l r c) = (if c = 0 then arrived l else (arrived l)(r := insert c (arrived l r)))"
    and covers_iff: "inv l \<Longrightarrow> covers l r c \<longleftrightarrow> c = 0 \<or> c \<in> arrived l r"
    and mark_end: "inv l \<Longrightarrow> prefix_end (arrived l r) (mark l r)"
begin

lemma record_all:
  fixes ds :: "Dot list"
  shows "inv l \<Longrightarrow> inv (fold (\<lambda>d l. record_dot l (Replica d) (Counter d)) ds l) \<and>
   arrived (fold (\<lambda>d l. record_dot l (Replica d) (Counter d)) ds l) r
     = arrived l r \<union> {c. c \<noteq> 0 \<and> mkDot r c \<in> set ds}"
proof (induction ds arbitrary: l)
  case (Cons d ds)
  have "mkDot r c = d \<longleftrightarrow> Replica d = r \<and> Counter d = c" for c by (cases d) auto
  then show ?case
    using Cons.IH [OF inv_record [OF Cons.prems], of "Replica d" "Counter d"]
      arrived_record [OF Cons.prems, of "Replica d" "Counter d"]
    by (cases "r = Replica d"; cases "Counter d = 0") auto
qed simp

text \<open>The order and the repetition of the recorded dots leave no trace.\<close>

lemma record_order:
  fixes ds es :: "Dot list"
  assumes "set ds = set es"
  defines "run \<equiv> \<lambda>ds. fold (\<lambda>d l. record_dot l (Replica d) (Counter d)) ds empty"
  shows "mark (run ds) = mark (run es)" and "covers (run ds) = covers (run es)"
proof -
  have eq: "arrived (run ds) r = arrived (run es) r" and inv: "inv (run ds)" "inv (run es)" for r
    using record_all [OF inv_empty] assms(1) by (simp_all add: run_def)
  show "mark (run ds) = mark (run es)"
  proof
    fix r
    show "mark (run ds) r = mark (run es) r"
      using mark_end [OF inv(1), of r] mark_end [OF inv(2), of r] eq by (simp add: prefix_end_unique)
  qed
  show "covers (run ds) = covers (run es)"
    by (intro ext) (simp add: covers_iff inv eq)
qed

end

interpretation received: receive_log newReceivedClock receivedClock_Record receivedClock_Covers
  receivedClock_Get seen rc_inv
proof
  show "rc_inv newReceivedClock" "seen newReceivedClock = (\<lambda>_. {})"
    by (auto simp: rc_inv_def newReceivedClock_def pending_of_def seen_def receivedClock_Get_def)
  fix l r c
  assume "rc_inv l"
  then show "rc_inv (receivedClock_Record l r c)"
    and "seen (receivedClock_Record l r c) = (if c = 0 then seen l else (seen l)(r := insert c (seen l r)))"
    and "receivedClock_Covers l r c \<longleftrightarrow> c = 0 \<or> c \<in> seen l r"
    and "prefix_end (seen l r) (receivedClock_Get l r)"
    by (simp_all add: Record_spec Covers_seen Get_prefix_end)
qed

lemma HWM_Get: "rc_inv rc \<Longrightarrow> VClock_Get (receivedClock_HWM rc) r = receivedClock_Get rc r"
  using rc_invD(1) by (simp add: receivedClock_HWM_def VClock_Get_def receivedClock_Get_def pos_map_wf)

lemma HWM_pos: "rc_inv rc \<Longrightarrow> pos_map (receivedClock_HWM rc)"
  using rc_invD(1) by (simp add: receivedClock_HWM_def pos_map_wf)

lemma Clone_id:
  assumes "rc_inv rc"
  shows "receivedClock_Clone rc = rc"
proof -
  have "map (\<lambda>(r, p). (r, mclone p)) (rcPending rc) = rcPending rc"
  proof (rule map_idI)
    fix x assume "x \<in> set (rcPending rc)"
    then have "mget (rcPending rc) (fst x) = Some (snd x)"
      using rc_invD(2) [OF assms] by (simp add: wf_map_def)
    then show "(\<lambda>(r, p). (r, mclone p)) x = x"
      using rc_invD(3) [OF assms] by (auto simp: split_beta)
  qed
  then show ?thesis
    using rc_invD(1,2) [OF assms] by (simp add: receivedClock_Clone_def pos_map_wf)
qed

section \<open>Properties\<close>

text \<open>
  C23: two replicas that received the same dots, in any order and with any repetition, agree
  on every high-water mark and on every coverage question.
\<close>

theorem received_order_free:
  fixes ds es :: "Dot list"
  assumes "set ds = set es"
  shows "receivedClock_Get (record_loop ds newReceivedClock) = receivedClock_Get (record_loop es newReceivedClock)
    \<and> receivedClock_Covers (record_loop ds newReceivedClock) = receivedClock_Covers (record_loop es newReceivedClock)"
  using received.record_order [OF assms] by simp

theorem received_order_free_witness:
  "receivedClock_Get (record_loop [mkDot 1 2, mkDot 1 1, mkDot 1 1] newReceivedClock)
   = receivedClock_Get (record_loop [mkDot 1 1, mkDot 1 2] newReceivedClock)"
  using received_order_free [of "[mkDot 1 2, mkDot 1 1, mkDot 1 1]" "[mkDot 1 1, mkDot 1 2]"] by auto

end
