(* ===== verification/Wire.thy ===== *)
theory Wire
  imports VClocks "HOL-Library.Multiset"
begin

text \<open>
  The wire formats (\<^verbatim>\<open>wire.go\<close>) and the codecs for user values (\<^verbatim>\<open>encodable.go\<close>): encoders
  and decoders of dots, dot maps and vector clocks, length-prefixed byte strings, the
  insertion sort behind the deterministic map encoding, and the contract of a codec as the
  locale \<open>codec_laws\<close>, interpreted for the four codecs of the package.
\<close>

section \<open>Definitions\<close>

definition opPut :: byte where "opPut = 1"
definition opRemove :: byte where "opRemove = 2"

definition encodeDot :: "Dot \<Rightarrow> bytes" where
  "encodeDot d = PutUint64 (Replica d) @ PutUint64 (Counter d)"

definition decodeDot :: "bytes \<Rightarrow> Dot go" where
  "decodeDot b =
     (if length b < 16 then Err ErrShortBuffer
      else go_bind (Uint64 b) (\<lambda>r. go_bind (Uint64 (drop 8 b)) (\<lambda>c. Ok (mkDot r c))))"

text \<open>The inner loop of the insertion sort moves \<open>keys[j]\<close> down while it is smaller.\<close>

fun insertDown :: "u64 list \<Rightarrow> nat \<Rightarrow> u64 list" where
  "insertDown keys 0 = keys"
| "insertDown keys (Suc j) =
     (if keys ! Suc j < keys ! j
      then insertDown (keys[Suc j := keys ! j, j := keys ! Suc j]) j else keys)"

definition sortedReplicaIDs :: "DotMap \<Rightarrow> u64 list" where
  "sortedReplicaIDs dm = foldl insertDown (map fst dm) [1..<length dm]"

definition encodeDotMap :: "DotMap \<Rightarrow> bytes" where
  "encodeDotMap dm =
     PutUint32 (of_nat (length dm)) @
     concat (map (\<lambda>r. PutUint64 r @ PutUint64 (mget0 dm r)) (sortedReplicaIDs dm))"

fun decodeEntries :: "nat \<Rightarrow> bytes \<Rightarrow> DotMap \<Rightarrow> DotMap go" where
  "decodeEntries 0 b dm = Ok dm"
| "decodeEntries (Suc n) b dm =
     go_bind (Uint64 b) (\<lambda>r. go_bind (Uint64 (drop 8 b)) (\<lambda>c.
       decodeEntries n (drop 16 b) (mput r c dm)))"

definition decodeDotMap :: "bytes \<Rightarrow> DotMap go" where
  "decodeDotMap b =
     (if length b < 4 then Err ErrShortBuffer
      else go_bind (Uint32 b) (\<lambda>w. let n = unat w in
        if length b < 4 + n * 16 then Err ErrShortBuffer else decodeEntries n (drop 4 b) []))"

definition encodeVClock :: "VClock \<Rightarrow> bytes" where
  "encodeVClock vc = encodeDotMap vc"

definition decodeVClock :: "bytes \<Rightarrow> VClock go" where
  "decodeVClock b = decodeDotMap b"

definition appendVarintBytes :: "bytes \<Rightarrow> bytes \<Rightarrow> bytes" where
  "appendVarintBytes dst data = dst @ PutUvarint (of_nat (length data)) @ data"

definition readVarintBytes :: "bytes \<Rightarrow> int \<Rightarrow> (bytes \<times> int) go" where
  "readVarintBytes b offset =
     (if offset \<ge> int (length b) then Err ErrShortBuffer
      else go_bind (slice_from b offset) (\<lambda>tl.
        let (len, n) = Uvarint tl in
        if n \<le> 0 then Err ErrShortBuffer
        else let offset' = offset + n; stop = goint (offset' + sint len) in
          if stop > int (length b) then Err ErrShortBuffer
          else go_map (\<lambda>s. (s, stop)) (slice b offset' stop)))"

subsection \<open>Codecs\<close>

text \<open>A codec is the user's code: it returns an error (\<open>Inl\<close>) or a result (\<open>Inr\<close>).\<close>

record 'v Codec =
  Encode :: "'v \<Rightarrow> goerror + bytes"
  Decode :: "bytes \<Rightarrow> goerror + 'v"

text \<open>A nil codec is \<open>None\<close>.\<close>

definition requireCodec :: "'v Codec option \<Rightarrow> unit go" where
  "requireCodec codec = (case codec of None \<Rightarrow> Panic | Some _ \<Rightarrow> Ok ())"

definition StringCodec :: "bytes Codec" where
  "StringCodec = \<lparr>Encode = (\<lambda>s. Inr s), Decode = (\<lambda>b. Inr b)\<rparr>"

definition Int64Codec :: "int Codec" where
  "Int64Codec = \<lparr>Encode = (\<lambda>i. Inr (PutUint64 (word_of_int i))),
     Decode = (\<lambda>b. if length b < 8 then Inl ErrShortBuffer else Inr (sint (beWord (take 8 b) :: u64)))\<rparr>"

definition Uint64Codec :: "u64 Codec" where
  "Uint64Codec = \<lparr>Encode = (\<lambda>u. Inr (PutUint64 u)),
     Decode = (\<lambda>b. if length b < 8 then Inl ErrShortBuffer else Inr (beWord (take 8 b)))\<rparr>"

definition BytesCodec :: "bytes Codec" where
  "BytesCodec = \<lparr>Encode = (\<lambda>b. Inr b), Decode = (\<lambda>b. Inr b)\<rparr>"

section \<open>Dots\<close>

lemma opPut_opRemove [simp]: "opPut \<noteq> opRemove" "opRemove \<noteq> opPut"
  by (simp_all add: opPut_def opRemove_def)

lemma length_encodeDot [simp]: "length (encodeDot d) = 16"
  by (simp add: encodeDot_def)

lemma decodeDot_encodeDot [simp, wire_simps]: "decodeDot (encodeDot d @ rest) = Ok d"
  by (simp add: decodeDot_def encodeDot_def)

lemma decodeDot_encodeDot' [simp, wire_simps]: "decodeDot (encodeDot d) = Ok d"
  using decodeDot_encodeDot [of d "[]"] by simp

lemma encodeDot_inject [simp]: "encodeDot d = encodeDot e \<longleftrightarrow> d = e"
  by (metis decodeDot_encodeDot' go.inject(1))

lemma decodeDot_cases: "decodeDot b = (if length b < 16 then Err ErrShortBuffer
    else Ok (mkDot (beWord (take 8 b)) (beWord (take 8 (drop 8 b)))))"
  by (auto simp: decodeDot_def Uint64_def)

lemma decodeDot_no_panic [simp]: "decodeDot b \<noteq> Panic"
  by (simp add: decodeDot_cases)

section \<open>Sorting\<close>

lemma insort_snoc: "x < z \<Longrightarrow> insort x (zs @ [z]) = insort x zs @ [z :: u64]"
  by (induction zs) auto

lemma insort_last:
  assumes "sorted (zs @ [z])" "\<not> x < (z :: u64)"
  shows "insort x (zs @ [z]) = zs @ [z, x]"
proof -
  have "sorted (zs @ [z, x])" using assms by (auto simp: sorted_append not_less)
  then have "sort (zs @ [z, x]) = zs @ [z, x]" by (simp add: sorted_sort_id)
  moreover have "sort (zs @ [z, x]) = insort x (zs @ [z])"
    using assms(1) by (intro properties_for_sort) (auto simp: sorted_insort)
  ultimately show ?thesis by simp
qed

lemma insertDown_insort:
  "sorted xs \<Longrightarrow> insertDown (xs @ x # ys) (length xs) = insort x xs @ ys"
proof (induction xs arbitrary: ys rule: rev_induct)
  case (snoc z zs)
  have s: "sorted zs" using snoc.prems by (simp add: sorted_append)
  show ?case
  proof (cases "x < z")
    case True
    have "insertDown ((zs @ [z]) @ x # ys) (length (zs @ [z])) = insertDown (zs @ x # z # ys) (length zs)"
      using True by (simp add: nth_append list_update_append)
    with snoc.IH [OF s, of "z # ys"] True show ?thesis by (simp add: insort_snoc)
  next
    case False
    with insort_last [OF snoc.prems False] show ?thesis by (simp add: nth_append)
  qed
qed simp

lemma sort_loop:
  "n \<le> length ks \<Longrightarrow> foldl insertDown ks [1..<n] = sort (take n ks) @ drop n ks"
proof (induction n)
  case (Suc n)
  show ?case
  proof (cases n)
    case 0
    then show ?thesis using Suc.prems by (cases ks) auto
  next
    case (Suc m)
    then have n: "n < length ks" "1 \<le> n" using Suc.prems by auto
    have "foldl insertDown ks [1..<Suc n] = insertDown (sort (take n ks) @ drop n ks) n"
      using Suc.IH n by (simp add: upt_Suc_append)
    also have "\<dots> = insort (ks ! n) (sort (take n ks)) @ drop (Suc n) ks"
      using insertDown_insort [of "sort (take n ks)" "ks ! n" "drop (Suc n) ks"] n
      by (simp add: Cons_nth_drop_Suc)
    also have "insort (ks ! n) (sort (take n ks)) = sort (take (Suc n) ks)"
      using n by (intro properties_for_sort [symmetric]) (auto simp: sorted_insort take_Suc_conv_app_nth)
    finally show ?thesis .
  qed
qed simp

lemma sortedReplicaIDs_sort: "sortedReplicaIDs dm = sort (map fst dm)"
  using sort_loop [of "length dm" "map fst dm"] by (simp add: sortedReplicaIDs_def)

section \<open>Dot maps and vector clocks\<close>

text \<open>What a decoder returns: the same entries in the order of the replica IDs.\<close>

definition sorted_map :: "DotMap \<Rightarrow> DotMap" where
  "sorted_map dm = map (\<lambda>r. (r, mget0 dm r)) (sortedReplicaIDs dm)"

lemma wf_sorted_map [simp]: "wf_map dm \<Longrightarrow> wf_map (sorted_map dm)"
  by (simp add: sorted_map_def wf_map_def sortedReplicaIDs_sort comp_def)

lemma map_of_sorted_map [simp]: "map_of (sorted_map dm) = map_of dm"
proof
  fix r
  have "map_of (map (\<lambda>r. (r, mget0 dm r)) ks) r = (if r \<in> set ks then Some (mget0 dm r) else None)" for ks
    by (induction ks) auto
  moreover have "r \<in> fst ` set dm \<longleftrightarrow> map_of dm r \<noteq> None"
    by (simp add: map_of_eq_None_iff)
  ultimately show "map_of (sorted_map dm) r = map_of dm r"
    by (auto simp: sorted_map_def sortedReplicaIDs_sort mget0_def split: option.splits)
qed

lemma mget0_sorted_map [simp]: "mget0 (sorted_map dm) = mget0 dm"
  by (simp add: fun_eq_iff mget0_def)

lemma pos_sorted_map [simp]: "pos_map dm \<Longrightarrow> pos_map (sorted_map dm)"
proof -
  assume "pos_map dm"
  then have "mget0 dm r \<noteq> 0" if "r \<in> fst ` set dm" for r
    using that by (simp add: pos_map_dom)
  then show ?thesis
    using \<open>pos_map dm\<close> by (auto simp: pos_map_def sorted_map_def sortedReplicaIDs_sort)
      (metis wf_sorted_map sorted_map_def sortedReplicaIDs_sort)
qed

lemma sorted_map_cong:
  assumes "wf_map a" "wf_map b" "map_of a = map_of b"
  shows "sorted_map a = sorted_map b"
proof -
  have "set (map fst a) = set (map fst b)"
    using same_map_set [OF assms] by simp
  then have "sort (map fst a) = sort (map fst b)"
    using assms(1,2) by (intro sorted_distinct_set_unique) (auto simp: wf_map_def)
  then show ?thesis
    using assms(3) by (simp add: sorted_map_def sortedReplicaIDs_sort mget0_def)
qed

lemma encodeDotMap_entries:
  "encodeDotMap dm = PutUint32 (of_nat (length dm)) @
     concat (map (\<lambda>(r, c). PutUint64 r @ PutUint64 c) (sorted_map dm))"
  by (simp add: encodeDotMap_def sorted_map_def comp_def)

lemma encodeDotMap_cong:
  assumes "wf_map a" "wf_map b" "map_of a = map_of b"
  shows "encodeDotMap a = encodeDotMap b"
  using sorted_map_cong [OF assms] same_map_length [OF assms] by (simp add: encodeDotMap_entries)

lemma decodeEntries_concat:
  "decodeEntries (length es) (concat (map (\<lambda>(r, c). PutUint64 r @ PutUint64 c) es) @ rest) dm
     = Ok (fold (\<lambda>(r, c) out. mput r c out) es dm)"
  by (induction es arbitrary: dm) (auto simp: split_beta)

lemma length_sorted_map [simp]: "length (sorted_map dm) = length dm"
  by (simp add: sorted_map_def sortedReplicaIDs_sort)

lemma length_encodeDotMap: "length (encodeDotMap dm) = 4 + 16 * length dm"
proof -
  have "length (concat (map (\<lambda>(r, c). PutUint64 r @ PutUint64 c) es)) = 16 * length es" for es
    by (induction es) auto
  then show ?thesis by (simp add: encodeDotMap_entries)
qed

lemma decodeDotMap_encodeDotMap [wire_simps]:
  assumes "wf_map dm" "length dm < 2 ^ 32"
  shows "decodeDotMap (encodeDotMap dm @ rest) = Ok (sorted_map dm)"
proof -
  have n: "unat (of_nat (length dm) :: u32) = length dm"
    using assms(2) by (simp add: unat_of_nat_self)
  have "fold (\<lambda>(r, c) out. mput r c out) (sorted_map dm) [] = sorted_map dm"
    using mclone_id [OF wf_sorted_map [OF assms(1)]] by (simp add: mclone_def)
  then show ?thesis
    using decodeEntries_concat [of "sorted_map dm" rest "[]"] length_encodeDotMap [of dm]
    by (simp add: decodeDotMap_def Let_def encodeDotMap_entries n)
qed

lemma decodeVClock_encodeVClock [wire_simps]:
  "wf_map vc \<Longrightarrow> length vc < 2 ^ 32 \<Longrightarrow> decodeVClock (encodeVClock vc @ rest) = Ok (sorted_map vc)"
  by (simp add: decodeVClock_def encodeVClock_def decodeDotMap_encodeDotMap)

lemma decodeVClock_encodeVClock' [wire_simps]:
  "wf_map vc \<Longrightarrow> length vc < 2 ^ 32 \<Longrightarrow> decodeVClock (encodeVClock vc) = Ok (sorted_map vc)"
  using decodeVClock_encodeVClock [of vc "[]"] by simp

lemma VClock_Get_sorted [simp]: "VClock_Get (sorted_map m) = VClock_Get m"
  by (simp add: VClock_Get_def fun_eq_iff)

lemma decodeEntries_total:
  "n * 16 \<le> length b \<Longrightarrow> wf_map dm \<Longrightarrow> \<exists>dm'. decodeEntries n b dm = Ok dm' \<and> wf_map dm'"
proof (induction n arbitrary: b dm)
  case (Suc n)
  then have "n * 16 \<le> length (drop 16 b)" by simp
  moreover have "wf_map (mput r c dm)" for r c using Suc.prems by simp
  moreover have "\<exists>r. Uint64 b = Ok r" "\<exists>c. Uint64 (drop 8 b) = Ok c"
    using Suc.prems by (auto simp: Uint64_def)
  ultimately show ?case using Suc.IH by fastforce
qed simp

lemma decodeDotMap_cases:
  "(\<exists>dm. decodeDotMap b = Ok dm \<and> wf_map dm) \<or> decodeDotMap b = Err ErrShortBuffer"
proof (cases "length b < 4 \<or> length b < 4 + unat (beWord (take 4 b) :: u32) * 16")
  case True
  then show ?thesis by (auto simp: decodeDotMap_def Uint32_def Let_def)
next
  case False
  then show ?thesis
    using decodeEntries_total [of "unat (beWord (take 4 b) :: u32)" "drop 4 b" "[]"]
    by (auto simp: decodeDotMap_def Uint32_def Let_def)
qed

lemma length_mput: "length (mput k v m) \<le> Suc (length m)"
  by (induction m) auto

lemma decodeEntries_length: "decodeEntries n b dm = Ok dm' \<Longrightarrow> length dm' \<le> n + length dm"
proof (induction n arbitrary: b dm)
  case (Suc n)
  then obtain r c where "decodeEntries n (drop 16 b) (mput r c dm) = Ok dm'"
    by (auto simp: go_simps)
  from Suc.IH [OF this] length_mput [of r c dm] show ?case by simp
qed simp

lemma decodeDotMap_length: "decodeDotMap b = Ok dm \<Longrightarrow> wf_map dm \<and> length dm < 2 ^ 32"
proof -
  assume ok: "decodeDotMap b = Ok dm"
  then obtain n :: u32 where "decodeEntries (unat n) (drop 4 b) [] = Ok dm"
    by (auto simp: decodeDotMap_def go_simps Let_def split: if_splits)
  from decodeEntries_length [OF this] have "length dm \<le> unat n" by simp
  also have "\<dots> < 2 ^ 32" using unsigned_less [of n, where ?'a = nat] by simp
  finally show ?thesis using ok decodeDotMap_cases [of b] by auto
qed

lemma decodeDotMap_no_panic [simp]: "decodeDotMap b \<noteq> Panic"
  using decodeDotMap_cases [of b] by auto

lemma decodeVClock_no_panic [simp]: "decodeVClock b \<noteq> Panic"
  by (simp add: decodeVClock_def)

section \<open>Length-prefixed byte strings\<close>

lemma length_append_varint [simp]:
  "length (appendVarintBytes dst data) = length dst + length (PutUvarint (of_nat (length data))) + length data"
  by (simp add: appendVarintBytes_def)

lemma appendVarintBytes_dst: "appendVarintBytes dst data = dst @ appendVarintBytes [] data"
  by (simp add: appendVarintBytes_def)

text \<open>Inside the buffer, a read succeeds on what the writer appended.\<close>

lemma readVarintBytes_at:
  assumes "length (pre @ appendVarintBytes [] data @ rest) < 2 ^ 63"
  shows "readVarintBytes (pre @ appendVarintBytes [] data @ rest) (int (length pre))
    = Ok (data, int (length (pre @ appendVarintBytes [] data)))"
proof -
  let ?w = "of_nat (length data) :: u64"
  let ?hd = "pre @ PutUvarint ?w"
  have "unat ?w = length data"
    using assms by (intro unat_of_nat_self) simp
  then have w: "uint ?w = int (length data)"
    using uint_nat [of ?w] by simp
  then have s: "sint ?w = int (length data)"
    using assms by (subst sint_nonneg) auto
  have go: "goint (int (length ?hd) + sint ?w) = int (length ?hd) + int (length data)"
    using assms s by (simp add: goint_idle)
  have sl: "slice (?hd @ data @ rest) (int (length ?hd)) (int (length ?hd) + int (length data)) = Ok data"
    by (rule slice_append)
  have lt: "int (length pre) < int (length (pre @ appendVarintBytes [] data @ rest))"
  proof -
    have "0 < length (PutUvarint ?w)" by simp
    then show ?thesis by (simp only: length_append length_append_varint of_nat_less_iff)
  qed
  have tl: "slice_from (pre @ appendVarintBytes [] data @ rest) (int (length pre)) =
      Ok (PutUvarint ?w @ data @ rest)"
    by (simp add: slice_from_Ok appendVarintBytes_def)
  show ?thesis
    using lt tl go sl s
    by (simp add: readVarintBytes_def appendVarintBytes_def Let_def add.assoc)
qed

lemma readVarintBytes_first [wire_simps]:
  assumes "length (appendVarintBytes [] data @ rest) < 2 ^ 63"
  shows "readVarintBytes (appendVarintBytes [] data @ rest) 0
    = Ok (data, int (length (appendVarintBytes [] data)))"
  using readVarintBytes_at [of "[]" data rest] assms by simp

text \<open>
  The two layouts of the delta formats: one length-prefixed field and a tail, or two fields
  and a tail. The offsets are those the parsers carry.
\<close>

lemma slice_tail:
  assumes "n \<le> length rest"
  shows "slice (pre @ rest) (int (length pre)) (int (length pre) + int n) = Ok (take n rest)"
  using assms by (simp add: slice_def)

lemma read_field:
  assumes "length (appendVarintBytes [] x @ rest) < 2 ^ 63"
  obtains off where "readVarintBytes (appendVarintBytes [] x @ rest) 0 = Ok (x, off)"
    and "off + int (length rest) = int (length (appendVarintBytes [] x @ rest))"
    and "slice_from (appendVarintBytes [] x @ rest) off = Ok rest"
    and "0 \<le> off"
    and "\<And>n. n \<le> length rest \<Longrightarrow> slice (appendVarintBytes [] x @ rest) off (off + int n) = Ok (take n rest)"
proof -
  let ?off = "int (length (appendVarintBytes [] x))"
  show ?thesis
  proof (rule that [of ?off])
    show "slice_from (appendVarintBytes [] x @ rest) ?off = Ok rest"
      by (subst slice_from_Ok) simp_all
    show "slice (appendVarintBytes [] x @ rest) ?off (?off + int n) = Ok (take n rest)"
      if "n \<le> length rest" for n
      using that by (rule slice_tail)
  qed (use readVarintBytes_first [OF assms] in simp_all)
qed

lemma read_two_fields:
  assumes "length (appendVarintBytes [] x @ appendVarintBytes [] y @ rest) < 2 ^ 63"
  obtains o1 off where "readVarintBytes (appendVarintBytes [] x @ appendVarintBytes [] y @ rest) 0 = Ok (x, o1)"
    and "readVarintBytes (appendVarintBytes [] x @ appendVarintBytes [] y @ rest) o1 = Ok (y, off)"
    and "off + int (length rest) = int (length (appendVarintBytes [] x @ appendVarintBytes [] y @ rest))"
    and "slice_from (appendVarintBytes [] x @ appendVarintBytes [] y @ rest) off = Ok rest"
    and "0 \<le> off"
    and "\<And>n. n \<le> length rest \<Longrightarrow>
      slice (appendVarintBytes [] x @ appendVarintBytes [] y @ rest) off (off + int n) = Ok (take n rest)"
proof -
  let ?pre = "appendVarintBytes [] x @ appendVarintBytes [] y"
  show ?thesis
  proof (rule that [of "int (length (appendVarintBytes [] x))" "int (length ?pre)"])
    show "readVarintBytes (appendVarintBytes [] x @ appendVarintBytes [] y @ rest) 0
        = Ok (x, int (length (appendVarintBytes [] x)))"
      by (rule readVarintBytes_first [OF assms])
    show "readVarintBytes (appendVarintBytes [] x @ appendVarintBytes [] y @ rest) (int (length (appendVarintBytes [] x)))
        = Ok (y, int (length ?pre))"
      by (rule readVarintBytes_at [OF assms])
    show "slice_from (appendVarintBytes [] x @ appendVarintBytes [] y @ rest) (int (length ?pre)) = Ok rest"
      by (subst slice_from_Ok) simp_all
    show "slice (appendVarintBytes [] x @ appendVarintBytes [] y @ rest) (int (length ?pre)) (int (length ?pre) + int n)
        = Ok (take n rest)" if "n \<le> length rest" for n
      using slice_tail [OF that, of ?pre] by simp
  qed simp_all
qed

lemma slice_dot:
  assumes "off + int (length (encodeDot d @ tail)) = int (length data)" "0 \<le> off"
    and "slice_from data off = Ok (encodeDot d @ tail)"
    and "\<And>n. n \<le> length (encodeDot d @ tail) \<Longrightarrow> slice data off (off + int n) = Ok (take n (encodeDot d @ tail))"
  shows "\<not> off + 16 > int (length data)" and "slice data off (off + 16) = Ok (encodeDot d)"
    and "slice_from data (off + 16) = Ok tail"
proof -
  show "slice data off (off + 16) = Ok (encodeDot d)" using assms(4) [of 16] by simp
  show le: "\<not> off + 16 > int (length data)" using assms(1) by simp
  have "drop (nat off) data = encodeDot d @ tail"
    using assms(1-3) by (simp add: slice_from_Ok)
  then have "drop (16 + nat off) data = tail"
    using drop_drop [of 16 "nat off" data] by simp
  moreover have "nat (off + 16) = 16 + nat off" using assms(2) by simp
  ultimately have "drop (nat (off + 16)) data = tail" by simp
  then show "slice_from data (off + 16) = Ok tail"
    using le assms(2) by (subst slice_from_Ok) auto
qed

lemma read_field_dot:
  assumes "length (appendVarintBytes [] x @ encodeDot d @ tail) < 2 ^ 63"
  obtains off where "readVarintBytes (appendVarintBytes [] x @ encodeDot d @ tail) 0 = Ok (x, off)"
    and "\<not> off + 16 > int (length (appendVarintBytes [] x @ encodeDot d @ tail))"
    and "slice_from (appendVarintBytes [] x @ encodeDot d @ tail) off = Ok (encodeDot d @ tail)"
    and "slice (appendVarintBytes [] x @ encodeDot d @ tail) off (off + 16) = Ok (encodeDot d)"
    and "slice_from (appendVarintBytes [] x @ encodeDot d @ tail) (off + 16) = Ok tail"
proof (rule read_field [OF assms])
  fix off
  assume r: "readVarintBytes (appendVarintBytes [] x @ encodeDot d @ tail) 0 = Ok (x, off)"
    and h: "off + int (length (encodeDot d @ tail)) = int (length (appendVarintBytes [] x @ encodeDot d @ tail))"
      "slice_from (appendVarintBytes [] x @ encodeDot d @ tail) off = Ok (encodeDot d @ tail)" "0 \<le> off"
    and sl: "\<And>n. n \<le> length (encodeDot d @ tail) \<Longrightarrow>
      slice (appendVarintBytes [] x @ encodeDot d @ tail) off (off + int n) = Ok (take n (encodeDot d @ tail))"
  from that [OF r slice_dot(1) [OF h(1,3,2) sl] h(2) slice_dot(2,3) [OF h(1,3,2) sl]] show thesis .
qed

lemma read_two_fields_dot:
  assumes "length (appendVarintBytes [] x @ appendVarintBytes [] y @ encodeDot d @ tail) < 2 ^ 63"
  obtains o1 off where
      "readVarintBytes (appendVarintBytes [] x @ appendVarintBytes [] y @ encodeDot d @ tail) 0 = Ok (x, o1)"
    and "readVarintBytes (appendVarintBytes [] x @ appendVarintBytes [] y @ encodeDot d @ tail) o1 = Ok (y, off)"
    and "\<not> off + 16 > int (length (appendVarintBytes [] x @ appendVarintBytes [] y @ encodeDot d @ tail))"
    and "slice_from (appendVarintBytes [] x @ appendVarintBytes [] y @ encodeDot d @ tail) off = Ok (encodeDot d @ tail)"
    and "slice (appendVarintBytes [] x @ appendVarintBytes [] y @ encodeDot d @ tail) off (off + 16) = Ok (encodeDot d)"
    and "slice_from (appendVarintBytes [] x @ appendVarintBytes [] y @ encodeDot d @ tail) (off + 16) = Ok tail"
proof (rule read_two_fields [OF assms])
  let ?data = "appendVarintBytes [] x @ appendVarintBytes [] y @ encodeDot d @ tail"
  fix o1 off
  assume r: "readVarintBytes ?data 0 = Ok (x, o1)" "readVarintBytes ?data o1 = Ok (y, off)"
    and h: "off + int (length (encodeDot d @ tail)) = int (length ?data)"
      "slice_from ?data off = Ok (encodeDot d @ tail)" "0 \<le> off"
    and sl: "\<And>n. n \<le> length (encodeDot d @ tail) \<Longrightarrow> slice ?data off (off + int n) = Ok (take n (encodeDot d @ tail))"
  from that [OF r slice_dot(1) [OF h(1,3,2) sl] h(2) slice_dot(2,3) [OF h(1,3,2) sl]] show thesis .
qed

text \<open>A successful read stays inside the buffer and moves forward.\<close>

lemma readVarintBytes_Ok:
  assumes "readVarintBytes b offset = Ok (s, stop)" "0 \<le> offset"
  shows "offset < stop \<and> stop \<le> int (length b) \<and> int (length s) < stop - offset
    \<and> s = drop (nat stop - length s) (take (nat stop) b)"
proof -
  obtain len n where u: "Uvarint (drop (nat offset) b) = (len, n)" by fastforce
  from assms u have n: "offset < int (length b)" "0 < n" "offset + n \<le> stop" "stop \<le> int (length b)"
      and sl: "s = take (nat (stop - (offset + n))) (drop (nat (offset + n)) b)"
    by (auto simp: readVarintBytes_def slice_from_Ok Let_def slice_def split: if_splits)
  from n sl assms(2) have "length s = nat (stop - (offset + n))" by simp
  with n assms(2) have "nat stop - length s = nat (offset + n)" by simp
  with n sl assms(2) show ?thesis
    by (auto simp: drop_take) (simp add: nat_diff_distrib)
qed

text \<open>
  The length prefix is converted with \<^verbatim>\<open>int(length)\<close>: from \<open>2 ^ 63\<close> on, the end offset
  wraps to a value below the start and the slice expression panics.
\<close>

lemma readVarintBytes_Panic_iff:
  assumes b: "length b < 2 ^ 63" and off: "0 \<le> offset" "offset < int (length b)"
    and u: "Uvarint (drop (nat offset) b) = (len, n)" and n: "0 < n"
  shows "readVarintBytes b offset = Panic \<longleftrightarrow> 2 ^ 63 \<le> offset + n + uint len"
proof -
  have le: "offset + n \<le> int (length b)"
    using Uvarint_bounds [of "drop (nat offset) b"] u off by simp
  have b': "int (length b) < 2 ^ 63" using b by simp
  have ub: "uint len < 2 ^ 64" "0 \<le> uint len"
    using unsigned_less [of len, where ?'a = int] by simp_all
  have pow: "(2::int) ^ 64 = 2 * 2 ^ 63" "(0::int) < 2 ^ 63" by simp_all
  let ?stop = "goint (offset + n + sint len)"
  have panic: "readVarintBytes b offset = Panic \<longleftrightarrow> ?stop \<le> int (length b) \<and> ?stop < offset + n"
    using off u n le by (auto simp: readVarintBytes_def slice_from_Ok Let_def slice_def)
  consider (neg) "2 ^ 63 \<le> uint len" | (wrap) "uint len < 2 ^ 63" "2 ^ 63 \<le> offset + n + uint len"
    | (fits) "offset + n + uint len < 2 ^ 63" by linarith
  then show ?thesis
  proof cases
    case neg
    have "?stop = offset + n + (uint len - 2 ^ 64)"
      unfolding sint_neg [OF neg] using neg off n le b' ub pow by (intro goint_idle) linarith+
    with neg ub off n le pow panic show ?thesis by linarith
  next
    case wrap
    have "?stop = offset + n + uint len - 2 ^ 64"
      unfolding sint_nonneg [OF wrap(1)] using wrap off n le b' ub pow by (intro goint_wrap) linarith+
    with wrap b' off n le pow panic show ?thesis by linarith
  next
    case fits
    then have "uint len < 2 ^ 63" using off n by linarith
    from sint_nonneg [OF this] have "?stop = offset + n + uint len"
      using fits off n ub pow by (simp only:) (intro goint_idle, linarith+)
    with fits ub off n panic show ?thesis by linarith
  qed
qed

section \<open>The contract of a codec\<close>

locale codec_laws =
  fixes c :: "'v Codec" and valid :: "'v \<Rightarrow> bool"
  assumes decode_encode: "valid v \<Longrightarrow> Encode c v = Inr b \<Longrightarrow> Decode c b = Inr v"
    and encode_ok: "valid v \<Longrightarrow> \<exists>b. Encode c v = Inr b"
begin

lemma encode_inj:
  "valid v \<Longrightarrow> valid w \<Longrightarrow> Encode c v = Encode c w \<Longrightarrow> v = w"
  by (metis decode_encode encode_ok sum.inject(2))

end

lemma beWord_PutUint64: "beWord (PutUint64 v) = v"
  using Uint64_PutUint64' [of v] by (simp add: Uint64_def)

interpretation stringCodec: codec_laws StringCodec "\<lambda>_. True"
  by unfold_locales (auto simp: StringCodec_def)

interpretation bytesCodec: codec_laws BytesCodec "\<lambda>_. True"
  by unfold_locales (auto simp: BytesCodec_def)

interpretation uint64Codec: codec_laws Uint64Codec "\<lambda>_. True"
  by unfold_locales (auto simp: Uint64Codec_def beWord_PutUint64)

interpretation int64Codec: codec_laws Int64Codec "\<lambda>i. - (2 ^ 63) \<le> i \<and> i < 2 ^ 63"
  using goint_idle by unfold_locales (auto simp: Int64Codec_def goint_def beWord_PutUint64)

end
