(* ===== verification/Clocks.thy ===== *)
theory Clocks
  imports Wire
begin

text \<open>
  The domination rules (\<^verbatim>\<open>interfaces.go\<close>, \<^verbatim>\<open>clock_*.go\<close>): whether a remote delta may be applied,
  decided from its causal summary (\<open>deltaInfo\<close>) and the local metadata that the storage
  type exposes (\<open>queryable\<close>). A nil \<open>Context\<close> is \<open>None\<close>.
\<close>

section \<open>Definitions\<close>

record deltaInfo =
  diOp :: byte
  diKey :: bytes
  diMeta :: bytes
  diContext :: "bytes option"
  diDots :: "Dot list"

record queryable =
  EntryMeta :: "bytes \<Rightarrow> bytes option"
  TombstoneMeta :: "bytes \<Rightarrow> bytes option"

type_synonym clock = "queryable \<Rightarrow> deltaInfo \<Rightarrow> bool"

definition alwaysMergeClock :: clock where
  "alwaysMergeClock q info = True"

definition maxWinsClock :: clock where
  "maxWinsClock q info =
     (if length (diMeta info) < 8 then False
      else case EntryMeta q (diKey info) of
        None \<Rightarrow> True
      | Some entryMeta \<Rightarrow>
          if length entryMeta < 8 then True
          else (case (Uint64 (diMeta info), Uint64 entryMeta) of
            (Ok remoteCount, Ok localCount) \<Rightarrow> remoteCount > localCount
          | _ \<Rightarrow> False))"

text \<open>The test \<^verbatim>\<open>err == nil && !DotGT(remoteDot, localDot)\<close> of the clocks.\<close>

definition beaten :: "Dot \<Rightarrow> bytes \<Rightarrow> bool" where
  "beaten remoteDot meta =
     (case decodeDot meta of Ok localDot \<Rightarrow> \<not> DotGT remoteDot localDot | _ \<Rightarrow> False)"

definition lwwClock :: clock where
  "lwwClock q info =
     (case decodeDot (diMeta info) of
        Ok remoteDot \<Rightarrow>
          (if (case EntryMeta q (diKey info) of Some m \<Rightarrow> beaten remoteDot m | None \<Rightarrow> False) then False
           else if (case TombstoneMeta q (diKey info) of Some m \<Rightarrow> beaten remoteDot m | None \<Rightarrow> False)
           then False else True)
      | _ \<Rightarrow> False)"

text \<open>A dot is covered by an encoded clock when the clock decodes and has seen its counter.\<close>

definition covered_by :: "bytes \<Rightarrow> Dot \<Rightarrow> bool" where
  "covered_by ctx d =
     (case decodeVClock ctx of Ok vc \<Rightarrow> VClock_Get vc (Replica d) \<ge> Counter d | _ \<Rightarrow> False)"

definition not_covered_by :: "bytes \<Rightarrow> Dot \<Rightarrow> bool" where
  "not_covered_by ctx d =
     (case decodeVClock ctx of Ok vc \<Rightarrow> VClock_Get vc (Replica d) < Counter d | _ \<Rightarrow> False)"

definition addWinsClock :: clock where
  "addWinsClock q info =
     (case decodeDot (diMeta info) of
        Ok remoteDot \<Rightarrow>
          (if diOp info = opPut then
             (if (case EntryMeta q (diKey info) of Some m \<Rightarrow> beaten remoteDot m | None \<Rightarrow> False) then False
              else case TombstoneMeta q (diKey info) of
                Some tombMeta \<Rightarrow>
                  (if length tombMeta > 16 then \<not> covered_by (drop 16 tombMeta) remoteDot else True)
              | None \<Rightarrow> True)
           else if diOp info = opRemove then
             (if (case EntryMeta q (diKey info) of
                    Some m \<Rightarrow> (case (decodeDot m, diContext info) of
                        (Ok entryDot, Some ctx) \<Rightarrow> not_covered_by ctx entryDot
                      | _ \<Rightarrow> False)
                  | None \<Rightarrow> False) then False
              else if (case TombstoneMeta q (diKey info) of Some m \<Rightarrow> beaten remoteDot m | None \<Rightarrow> False)
              then False else True)
           else False)
      | _ \<Rightarrow> False)"

section \<open>The rules on well-formed metadata\<close>

lemma beaten_encodeDot [simp]: "beaten d (encodeDot e @ rest) \<longleftrightarrow> d \<le> e"
  by (simp add: beaten_def not_DotGT)

lemma beaten_encodeDot' [simp]: "beaten d (encodeDot e) \<longleftrightarrow> d \<le> e"
  using beaten_encodeDot [of d e "[]"] by simp

lemma covered_by_encode [simp]:
  "wf_map vc \<Longrightarrow> length vc < 2 ^ 32 \<Longrightarrow>
   covered_by (encodeVClock vc @ rest) d \<longleftrightarrow> Counter d \<le> VClock_Get vc (Replica d)"
  by (simp add: covered_by_def decodeVClock_encodeVClock VClock_Get_def)

lemma not_covered_by_encode [simp]:
  "wf_map vc \<Longrightarrow> length vc < 2 ^ 32 \<Longrightarrow>
   not_covered_by (encodeVClock vc @ rest) d \<longleftrightarrow> VClock_Get vc (Replica d) < Counter d"
  by (simp add: not_covered_by_def decodeVClock_encodeVClock VClock_Get_def)

lemma lwwClock_dots:
  assumes "diMeta info = encodeDot d"
    and "EntryMeta q (diKey info) = map_option encodeDot e"
    and "TombstoneMeta q (diKey info) = map_option encodeDot t"
  shows "lwwClock q info \<longleftrightarrow> (\<forall>l. e = Some l \<longrightarrow> l < d) \<and> (\<forall>l. t = Some l \<longrightarrow> l < d)"
  using assms by (auto simp: lwwClock_def not_le split: option.splits)

lemma maxWinsClock_counts:
  assumes "diMeta info = PutUint64 c" and "EntryMeta q (diKey info) = map_option PutUint64 l"
  shows "maxWinsClock q info \<longleftrightarrow> (case l of None \<Rightarrow> True | Some lc \<Rightarrow> lc < c)"
  using assms by (auto simp: maxWinsClock_def split: option.splits)

end
