(* ===== verification/Merkle.thy ===== *)
theory Merkle
  imports VClocks "HOL-Library.List_Lexorder"
begin

text \<open>
  The hash map that replicas compare to detect divergence (\<^verbatim>\<open>merkle.go\<close>). \<^verbatim>\<open>hash/maphash\<close> is
  outside the repository: \<open>Sum64 mh seed bs\<close> is the hash of the bytes written under a seed
  and \<open>MakeSeed mh\<close> the seed a map draws. As documented, using the uninitialized seed
  (zero) panics. The entries of the zero value are the nil map, \<open>None\<close>.
\<close>

section \<open>Definitions\<close>

record maphash =
  Sum64 :: "u64 \<Rightarrow> bytes \<Rightarrow> u64"
  MakeSeed :: u64

record merkleMap =
  mmEntries :: "(bytes, bytes) gomap option"
  mmHash :: u64
  mmDirty :: bool
  mmSeed :: u64

abbreviation mm_entries :: "merkleMap \<Rightarrow> (bytes, bytes) gomap" where
  "mm_entries mm \<equiv> (case mmEntries mm of None \<Rightarrow> [] | Some m \<Rightarrow> m)"

definition newMerkleMap :: "maphash \<Rightarrow> merkleMap" where
  "newMerkleMap mh = \<lparr>mmEntries = Some [], mmHash = 0, mmDirty = False, mmSeed = MakeSeed mh\<rparr>"

definition merkleMap_Put :: "maphash \<Rightarrow> merkleMap \<Rightarrow> bytes \<Rightarrow> bytes \<Rightarrow> merkleMap" where
  "merkleMap_Put mh mm key v =
     (let mm = (if mmEntries mm = None then mm\<lparr>mmEntries := Some [], mmSeed := MakeSeed mh\<rparr> else mm)
      in mm\<lparr>mmEntries := Some (mput key v (mm_entries mm)), mmDirty := True\<rparr>)"

definition merkleMap_Delete :: "merkleMap \<Rightarrow> bytes \<Rightarrow> merkleMap" where
  "merkleMap_Delete mm key =
     (case mmEntries mm of None \<Rightarrow> mm
      | Some m \<Rightarrow> mm\<lparr>mmEntries := Some (mdel key m), mmDirty := True\<rparr>)"

definition merkleMap_Get :: "merkleMap \<Rightarrow> bytes \<Rightarrow> bytes option" where
  "merkleMap_Get mm key = (case mmEntries mm of None \<Rightarrow> None | Some m \<Rightarrow> mget m key)"

definition merkleMap_Len :: "merkleMap \<Rightarrow> nat" where
  "merkleMap_Len mm = length (mm_entries mm)"

definition merkleMap_recomputeHash :: "maphash \<Rightarrow> merkleMap \<Rightarrow> merkleMap go" where
  "merkleMap_recomputeHash mh mm =
     (if mmSeed mm = 0 then Panic
      else Ok (mm\<lparr>mmHash := fold (\<lambda>(k, v) fp. fp XOR Sum64 mh (mmSeed mm) (k @ v)) (mm_entries mm) 0\<rparr>))"

definition merkleMap_Hash :: "maphash \<Rightarrow> merkleMap \<Rightarrow> (merkleMap \<times> u64) go" where
  "merkleMap_Hash mh mm =
     (if mmDirty mm \<or> mmHash mm = 0 then
        go_map (\<lambda>mm. (mm\<lparr>mmDirty := False\<rparr>, mmHash mm)) (merkleMap_recomputeHash mh mm)
      else Ok (mm, mmHash mm))"

text \<open>\<open>Equal\<close> refreshes the hashes of both maps.\<close>

definition merkleMap_Equal ::
    "maphash \<Rightarrow> merkleMap \<Rightarrow> merkleMap \<Rightarrow> (merkleMap \<times> merkleMap \<times> bool) go" where
  "merkleMap_Equal mh mm other =
     (if merkleMap_Len mm \<noteq> merkleMap_Len other then Ok (mm, other, False)
      else go_bind (merkleMap_Hash mh mm) (\<lambda>(mm, h).
        go_map (\<lambda>(other, oh).
          (mm, other,
           if h \<noteq> oh then False
           else list_all (\<lambda>(k, v). case mget (mm_entries other) k of None \<Rightarrow> False | Some ov \<Rightarrow> v = ov)
                  (mm_entries mm)))
        (merkleMap_Hash mh other)))"

definition merkleMap_DivergentKeys :: "merkleMap \<Rightarrow> merkleMap \<Rightarrow> bytes list" where
  "merkleMap_DivergentKeys mm other =
     sort (map fst (filter (\<lambda>(k, v). case mget (mm_entries other) k of None \<Rightarrow> True | Some ov \<Rightarrow> v \<noteq> ov)
                     (mm_entries mm))
           @ filter (\<lambda>k. mget (mm_entries mm) k = None) (map fst (mm_entries other)))"

text \<open>A concrete hash for examples.\<close>

abbreviation demo_hash :: maphash where
  "demo_hash \<equiv> \<lparr>Sum64 = (\<lambda>s b. 1), MakeSeed = 1\<rparr>"

section \<open>The invariant and the root hash\<close>

definition root_hash :: "maphash \<Rightarrow> u64 \<Rightarrow> (bytes, bytes) gomap \<Rightarrow> u64" where
  "root_hash mh seed m = fold (\<lambda>(k, v) fp. fp XOR Sum64 mh seed (k @ v)) m 0"

definition mm_inv :: "maphash \<Rightarrow> merkleMap \<Rightarrow> bool" where
  "mm_inv mh mm \<longleftrightarrow> mmEntries mm \<noteq> None \<and> wf_map (mm_entries mm) \<and> mmSeed mm \<noteq> 0 \<and>
     (\<not> mmDirty mm \<longrightarrow> mmHash mm = 0 \<or> mmHash mm = root_hash mh (mmSeed mm) (mm_entries mm))"

lemma mm_inv_new: "MakeSeed mh \<noteq> 0 \<Longrightarrow> mm_inv mh (newMerkleMap mh)"
  by (simp add: mm_inv_def newMerkleMap_def)

lemma Get_new [simp]: "merkleMap_Get (newMerkleMap mh) = (\<lambda>_. None)"
  by (auto simp: merkleMap_Get_def newMerkleMap_def)

lemma mm_inv_Put: "mm_inv mh mm \<Longrightarrow> mm_inv mh (merkleMap_Put mh mm k v)"
  by (auto simp: mm_inv_def merkleMap_Put_def Let_def)

lemma mm_inv_Delete: "mm_inv mh mm \<Longrightarrow> mm_inv mh (merkleMap_Delete mm k)"
  by (auto simp: mm_inv_def merkleMap_Delete_def split: option.splits)

lemma Get_Put: "merkleMap_Get (merkleMap_Put mh mm k v) = (merkleMap_Get mm)(k \<mapsto> v)"
  by (auto simp: merkleMap_Get_def merkleMap_Put_def Let_def split: option.splits)

lemma Get_Delete: "merkleMap_Get (merkleMap_Delete mm k) = (merkleMap_Get mm)(k := None)"
  by (auto simp: merkleMap_Get_def merkleMap_Delete_def split: option.splits)

lemma Get_entries: "merkleMap_Get mm = map_of (mm_entries mm)"
  by (auto simp: merkleMap_Get_def split: option.splits)

lemma root_hash_cong:
  assumes "wf_map m" "wf_map m'" "map_of m = map_of m'"
  shows "root_hash mh seed m = root_hash mh seed m'"
  using fold_xor_same_map [OF assms, of "\<lambda>k v. Sum64 mh seed (k @ v)"] by (simp add: root_hash_def)

lemma Hash_spec:
  assumes inv: "mm_inv mh mm"
  obtains mm' where "merkleMap_Hash mh mm = Ok (mm', root_hash mh (mmSeed mm) (mm_entries mm))"
    and "mm_inv mh mm'" and "mmEntries mm' = mmEntries mm" and "mmSeed mm' = mmSeed mm"
proof (cases "mmDirty mm \<or> mmHash mm = 0")
  case True
  with inv show ?thesis
    by (intro that [of "mm\<lparr>mmHash := root_hash mh (mmSeed mm) (mm_entries mm), mmDirty := False\<rparr>"])
      (auto simp: mm_inv_def merkleMap_Hash_def merkleMap_recomputeHash_def root_hash_def)
next
  case False
  with inv show ?thesis by (intro that [of mm]) (auto simp: mm_inv_def merkleMap_Hash_def)
qed

lemma entries_agree:
  assumes m: "wf_map m" and m': "wf_map m'" and len: "length m = length m'"
  shows "list_all (\<lambda>(k, v). case mget m' k of None \<Rightarrow> False | Some ov \<Rightarrow> v = ov) m \<longleftrightarrow> map_of m = map_of m'"
proof
  assume all: "list_all (\<lambda>(k, v). case mget m' k of None \<Rightarrow> False | Some ov \<Rightarrow> v = ov) m"
  have "set m \<subseteq> set m'"
  proof clarify
    fix k v assume "(k, v) \<in> set m"
    with all have "mget m' k = Some v" by (auto simp: list_all_iff split: option.splits)
    then show "(k, v) \<in> set m'" by (rule map_of_SomeD)
  qed
  moreover have "card (set m) = card (set m')"
    using wf_map_distinct [OF m] wf_map_distinct [OF m'] len by (simp add: distinct_card)
  ultimately have "set m = set m'" by (intro card_subset_eq) auto
  with m m' show "map_of m = map_of m'" by (simp add: wf_map_def map_of_inject_set)
next
  assume "map_of m = map_of m'"
  then show "list_all (\<lambda>(k, v). case mget m' k of None \<Rightarrow> False | Some ov \<Rightarrow> v = ov) m"
    using m by (auto simp: list_all_iff wf_map_mem split: option.splits)
qed

text \<open>
  On initialized maps, \<open>Equal\<close> is equality of the entries together with equality of the
  root hashes, each taken under the map's own seed.
\<close>

lemma Equal_spec:
  assumes a: "mm_inv mh a" and b: "mm_inv mh b"
  obtains a' b' where "merkleMap_Equal mh a b = Ok (a', b', merkleMap_Get a = merkleMap_Get b \<and>
      root_hash mh (mmSeed a) (mm_entries a) = root_hash mh (mmSeed b) (mm_entries b))"
proof (cases "merkleMap_Len a = merkleMap_Len b")
  case True
  obtain a' where a': "merkleMap_Hash mh a = Ok (a', root_hash mh (mmSeed a) (mm_entries a))"
      "mmEntries a' = mmEntries a" using Hash_spec [OF a] by metis
  obtain b' where b': "merkleMap_Hash mh b = Ok (b', root_hash mh (mmSeed b) (mm_entries b))"
      "mmEntries b' = mmEntries b" using Hash_spec [OF b] by metis
  have wf: "wf_map (mm_entries a)" "wf_map (mm_entries b)" using a b by (auto simp: mm_inv_def)
  show ?thesis
    using True entries_agree [OF wf] a' b'
    by (intro that [of a' b']) (auto simp: merkleMap_Equal_def merkleMap_Len_def Get_entries)
next
  case False
  have "merkleMap_Get a \<noteq> merkleMap_Get b"
    using False same_map_length [of "mm_entries a" "mm_entries b"] a b
    by (auto simp: mm_inv_def merkleMap_Len_def Get_entries)
  with False show ?thesis by (intro that [of a b]) (auto simp: merkleMap_Equal_def)
qed

lemma divergent_left:
  assumes "wf_map m"
  shows "set (map fst (filter (\<lambda>(k, v). case mget m' k of None \<Rightarrow> True | Some ov \<Rightarrow> v \<noteq> ov) m))
    = {k. \<exists>v. mget m k = Some v \<and> mget m' k \<noteq> Some v}" (is "?l = _")
proof -
  have "k \<in> ?l \<longleftrightarrow> (\<exists>v. (k, v) \<in> set m \<and> mget m' k \<noteq> Some v)" for k
    by (cases "mget m' k") (force simp: image_iff)+
  then show ?thesis using assms by (auto simp: wf_map_mem)
qed

lemma divergent_right:
  "set (filter (\<lambda>k. mget m k = None) (map fst m')) = {k. mget m k = None \<and> mget m' k \<noteq> None}"
  using map_of_eq_None_iff [of m'] by auto

lemma divergent_split:
  "{k. \<exists>v. f k = Some v \<and> g k \<noteq> Some v} \<union> {k. f k = None \<and> g k \<noteq> None} = {k. f k \<noteq> g k}"
proof -
  have "(\<exists>v. f k = Some v \<and> g k \<noteq> Some v) \<or> f k = None \<and> g k \<noteq> None \<longleftrightarrow> f k \<noteq> g k" for k
    by (cases "f k"; cases "g k") auto
  then show ?thesis by blast
qed

section \<open>Properties\<close>

text \<open>
  C24: \<open>DivergentKeys\<close> lists, in order and without repetition, exactly the keys on which two
  maps differ, whatever the iteration orders of the two Go maps.
\<close>

theorem DivergentKeys_spec:
  assumes "mm_inv mh a" "mm_inv mh' b"
  shows "sorted (merkleMap_DivergentKeys a b) \<and> distinct (merkleMap_DivergentKeys a b) \<and>
    set (merkleMap_DivergentKeys a b) = {k. merkleMap_Get a k \<noteq> merkleMap_Get b k}"
proof -
  let ?ea = "mm_entries a" and ?eb = "mm_entries b"
  let ?l = "map fst (filter (\<lambda>(k, v). case mget ?eb k of None \<Rightarrow> True | Some ov \<Rightarrow> v \<noteq> ov) ?ea)"
  let ?r = "filter (\<lambda>k. mget ?ea k = None) (map fst ?eb)"
  have wf: "wf_map ?ea" "wf_map ?eb" using assms by (auto simp: mm_inv_def)
  have l: "set ?l = {k. \<exists>v. mget ?ea k = Some v \<and> mget ?eb k \<noteq> Some v}"
    by (rule divergent_left [OF wf(1)])
  have r: "set ?r = {k. mget ?ea k = None \<and> mget ?eb k \<noteq> None}"
    by (rule divergent_right)
  have "distinct ?l" "distinct ?r"
    using wf by (auto simp: wf_map_def intro: distinct_map_filter)
  moreover have "set ?l \<inter> set ?r = {}" unfolding l r by auto
  ultimately have "distinct (?l @ ?r)" by simp
  moreover have "set ?l \<union> set ?r = {k. merkleMap_Get a k \<noteq> merkleMap_Get b k}"
    unfolding l r Get_entries by (rule divergent_split)
  ultimately show ?thesis by (simp add: merkleMap_DivergentKeys_def)
qed

theorem DivergentKeys_spec_witness:
  "set (merkleMap_DivergentKeys
     (merkleMap_Put \<lparr>Sum64 = (\<lambda>s b. 0), MakeSeed = 1\<rparr> (newMerkleMap \<lparr>Sum64 = (\<lambda>s b. 0), MakeSeed = 1\<rparr>) [1] [2])
     (newMerkleMap \<lparr>Sum64 = (\<lambda>s b. 0), MakeSeed = 1\<rparr>)) = {[1]}"
proof -
  let ?mh = "\<lparr>Sum64 = (\<lambda>s b. 0), MakeSeed = 1\<rparr>"
  have "mm_inv ?mh (newMerkleMap ?mh)" by (rule mm_inv_new) simp
  from DivergentKeys_spec [OF mm_inv_Put [OF this] this]
  show ?thesis by (auto simp: Get_Put)
qed

text \<open>
  The hash of a map never fails on an initialized map, leaves the entries alone, and two
  maps with the same seed and the same entries have the same hash, whatever the insertion
  history and the iteration order.
\<close>

theorem Hash_deterministic:
  assumes "mm_inv mh a" "mm_inv mh b" "mmSeed a = mmSeed b" "merkleMap_Get a = merkleMap_Get b"
  shows "\<exists>a' b' h. merkleMap_Hash mh a = Ok (a', h) \<and> merkleMap_Hash mh b = Ok (b', h) \<and>
    merkleMap_Get a' = merkleMap_Get a \<and> merkleMap_Get b' = merkleMap_Get b"
proof -
  have "root_hash mh (mmSeed a) (mm_entries a) = root_hash mh (mmSeed b) (mm_entries b)"
    using assms by (auto simp: mm_inv_def Get_entries intro: root_hash_cong)
  then show ?thesis
    using Hash_spec [OF assms(1)] Hash_spec [OF assms(2)] by (metis Get_entries)
qed

theorem Hash_deterministic_witness:
  "\<exists>a' b' h. merkleMap_Hash \<lparr>Sum64 = (\<lambda>s b. of_nat (length b)), MakeSeed = 1\<rparr>
       (newMerkleMap \<lparr>Sum64 = (\<lambda>s b. of_nat (length b)), MakeSeed = 1\<rparr>) = Ok (a', h) \<and>
     merkleMap_Hash \<lparr>Sum64 = (\<lambda>s b. of_nat (length b)), MakeSeed = 1\<rparr>
       (merkleMap_Delete (newMerkleMap \<lparr>Sum64 = (\<lambda>s b. of_nat (length b)), MakeSeed = 1\<rparr>) [7]) = Ok (b', h)"
proof -
  let ?mh = "\<lparr>Sum64 = (\<lambda>s b. of_nat (length b)), MakeSeed = 1\<rparr>"
  have inv: "mm_inv ?mh (newMerkleMap ?mh)" by (rule mm_inv_new) simp
  show ?thesis
    using Hash_deterministic [OF inv mm_inv_Delete [OF inv, of "[7]"]]
    by (auto simp: Get_Delete newMerkleMap_def merkleMap_Delete_def fun_eq_iff merkleMap_Get_def)
qed

text \<open>
  Two replicas draw their own seeds, so identical entries need not give equal hashes:
  for some hash function, two fresh maps with one and the same entry hash differently and
  \<open>Equal\<close> answers no.
\<close>

theorem Equal_needs_common_seed:
  "\<exists>mh1 mh2 k v. MakeSeed mh1 \<noteq> 0 \<and> MakeSeed mh2 \<noteq> 0 \<and> Sum64 mh1 = Sum64 mh2 \<and>
     merkleMap_Get (merkleMap_Put mh1 (newMerkleMap mh1) k v) = merkleMap_Get (merkleMap_Put mh2 (newMerkleMap mh2) k v) \<and>
     (\<exists>a b. merkleMap_Equal mh1 (merkleMap_Put mh1 (newMerkleMap mh1) k v)
              (merkleMap_Put mh2 (newMerkleMap mh2) k v) = Ok (a, b, False))"
  by (rule exI [of _ "\<lparr>Sum64 = (\<lambda>s b. s), MakeSeed = 1\<rparr>"], rule exI [of _ "\<lparr>Sum64 = (\<lambda>s b. s), MakeSeed = 2\<rparr>"])
    (simp add: Get_Put, simp add: merkleMap_Equal_def merkleMap_Put_def newMerkleMap_def merkleMap_Len_def
      merkleMap_Hash_def merkleMap_recomputeHash_def)

text \<open>
  The zero value, documented as ready to use, panics when asked for its hash.
\<close>

theorem Hash_zero_value:
  "merkleMap_Hash mh \<lparr>mmEntries = None, mmHash = 0, mmDirty = False, mmSeed = 0\<rparr> = Panic"
  by (simp add: merkleMap_Hash_def merkleMap_recomputeHash_def)

end
