(* ===== verification/Backends.thy ===== *)
theory Backends
  imports Prelude
begin

text \<open>
  Entry storage: the \<open>Backend\<close> interface (\<^verbatim>\<open>store.go\<close>) as the locale \<open>backend\<close> and the
  in-memory implementation (\<^verbatim>\<open>memory.go\<close>) as its interpretation. A nil Go map reads as an
  empty one and is allocated on the first write, so both are the empty association list.
  A range loop with a callback is \<open>rangeLoop\<close>: the callback changes the captured variables,
  passed as a state, and returns whether the iteration goes on.
\<close>

section \<open>Definitions\<close>

fun rangeLoop :: "('a \<Rightarrow> 's \<Rightarrow> 's \<times> bool) \<Rightarrow> 'a list \<Rightarrow> 's \<Rightarrow> 's" where
  "rangeLoop fn [] s = s"
| "rangeLoop fn (x # xs) s = (let (s', go_on) = fn x s in if go_on then rangeLoop fn xs s' else s')"

record memEntry =
  meValue :: bytes
  meMeta :: bytes

record memoryBackend =
  mbEntries :: "(bytes, memEntry) gomap"
  mbTombstones :: "(bytes, bytes) gomap"

definition newMemoryBackend :: memoryBackend where
  "newMemoryBackend = \<lparr>mbEntries = [], mbTombstones = []\<rparr>"

definition memoryBackend_GetEntry :: "memoryBackend \<Rightarrow> bytes \<Rightarrow> (bytes \<times> bytes) option" where
  "memoryBackend_GetEntry m key =
     (case mget (mbEntries m) key of None \<Rightarrow> None | Some e \<Rightarrow> Some (meValue e, meMeta e))"

definition memoryBackend_PutEntry :: "memoryBackend \<Rightarrow> bytes \<Rightarrow> bytes \<Rightarrow> bytes \<Rightarrow> memoryBackend" where
  "memoryBackend_PutEntry m key v meta =
     m\<lparr>mbEntries := mput key \<lparr>meValue = v, meMeta = meta\<rparr> (mbEntries m)\<rparr>"

definition memoryBackend_DeleteEntry :: "memoryBackend \<Rightarrow> bytes \<Rightarrow> memoryBackend" where
  "memoryBackend_DeleteEntry m key = m\<lparr>mbEntries := mdel key (mbEntries m)\<rparr>"

definition memoryBackend_RangeEntries ::
    "memoryBackend \<Rightarrow> (bytes \<Rightarrow> bytes \<Rightarrow> bytes \<Rightarrow> 's \<Rightarrow> 's \<times> bool) \<Rightarrow> 's \<Rightarrow> 's" where
  "memoryBackend_RangeEntries m fn s =
     rangeLoop (\<lambda>(k, e). fn k (meValue e) (meMeta e)) (mbEntries m) s"

definition memoryBackend_EntryLen :: "memoryBackend \<Rightarrow> nat" where
  "memoryBackend_EntryLen m = length (mbEntries m)"

definition memoryBackend_GetTombstone :: "memoryBackend \<Rightarrow> bytes \<Rightarrow> bytes option" where
  "memoryBackend_GetTombstone m key = mget (mbTombstones m) key"

definition memoryBackend_PutTombstone :: "memoryBackend \<Rightarrow> bytes \<Rightarrow> bytes \<Rightarrow> memoryBackend" where
  "memoryBackend_PutTombstone m key meta = m\<lparr>mbTombstones := mput key meta (mbTombstones m)\<rparr>"

definition memoryBackend_DeleteTombstone :: "memoryBackend \<Rightarrow> bytes \<Rightarrow> memoryBackend" where
  "memoryBackend_DeleteTombstone m key = m\<lparr>mbTombstones := mdel key (mbTombstones m)\<rparr>"

definition memoryBackend_RangeTombstones ::
    "memoryBackend \<Rightarrow> (bytes \<Rightarrow> bytes \<Rightarrow> 's \<Rightarrow> 's \<times> bool) \<Rightarrow> 's \<Rightarrow> 's" where
  "memoryBackend_RangeTombstones m fn s = rangeLoop (\<lambda>(k, meta). fn k meta) (mbTombstones m) s"

definition memoryBackend_TombstoneLen :: "memoryBackend \<Rightarrow> nat" where
  "memoryBackend_TombstoneLen m = length (mbTombstones m)"

section \<open>Range loops\<close>

lemma rangeLoop_all:
  assumes "\<And>x s. snd (fn x s)"
  shows "rangeLoop fn xs s = fold (\<lambda>x s. fst (fn x s)) xs s"
  by (induction xs arbitrary: s) (auto simp: assms split_beta Let_def)

text \<open>A callback that appends a list of results for each element and goes on.\<close>

lemma rangeLoop_collect:
  assumes "\<And>x s. fn x s = (s @ g x, True)"
  shows "rangeLoop fn xs s = s @ concat (map g xs)"
  by (induction xs arbitrary: s) (auto simp: assms)

section \<open>The contract of a backend\<close>

text \<open>
  The two maps a backend holds are observed through its reads; every write is a point
  update of one of them.
\<close>

locale backend =
  fixes empty :: "'b"
    and get :: "'b \<Rightarrow> bytes \<Rightarrow> (bytes \<times> bytes) option"
    and put :: "'b \<Rightarrow> bytes \<Rightarrow> bytes \<Rightarrow> bytes \<Rightarrow> 'b"
    and del :: "'b \<Rightarrow> bytes \<Rightarrow> 'b"
    and tget :: "'b \<Rightarrow> bytes \<Rightarrow> bytes option"
    and tput :: "'b \<Rightarrow> bytes \<Rightarrow> bytes \<Rightarrow> 'b"
    and tdel :: "'b \<Rightarrow> bytes \<Rightarrow> 'b"
    and inv :: "'b \<Rightarrow> bool"
  assumes inv_empty: "inv empty" and get_empty: "get empty k = None" and tget_empty: "tget empty k = None"
    and inv_put: "inv b \<Longrightarrow> inv (put b k v m)" and inv_del: "inv b \<Longrightarrow> inv (del b k)"
    and inv_tput: "inv b \<Longrightarrow> inv (tput b k m)" and inv_tdel: "inv b \<Longrightarrow> inv (tdel b k)"
    and get_put: "inv b \<Longrightarrow> get (put b k v m) = (get b)(k \<mapsto> (v, m))"
    and get_del: "inv b \<Longrightarrow> get (del b k) = (get b)(k := None)"
    and get_tput: "inv b \<Longrightarrow> get (tput b k m) = get b"
    and get_tdel: "inv b \<Longrightarrow> get (tdel b k) = get b"
    and tget_tput: "inv b \<Longrightarrow> tget (tput b k m) = (tget b)(k \<mapsto> m)"
    and tget_tdel: "inv b \<Longrightarrow> tget (tdel b k) = (tget b)(k := None)"
    and tget_put: "inv b \<Longrightarrow> tget (put b k v m) = tget b"
    and tget_del: "inv b \<Longrightarrow> tget (del b k) = tget b"
begin

lemmas laws = inv_put inv_del inv_tput inv_tdel get_put get_del get_tput get_tdel
  tget_tput tget_tdel tget_put tget_del

text \<open>
  The two compound writes of the map types: a live entry replaces the tombstone of its key,
  a tombstone replaces the entry; no key is both live and tombstoned.
\<close>

definition exclusive :: "'b \<Rightarrow> bool" where
  "exclusive b \<longleftrightarrow> (\<forall>k. get b k = None \<or> tget b k = None)"

lemma live_write:
  "inv b \<Longrightarrow> get (tdel (put b k v m) k) = (get b)(k \<mapsto> (v, m)) \<and>
   tget (tdel (put b k v m) k) = (tget b)(k := None) \<and> inv (tdel (put b k v m) k)"
  by (simp add: laws)

lemma tombstone_write:
  "inv b \<Longrightarrow> get (tput (del b k) k m) = (get b)(k := None) \<and>
   tget (tput (del b k) k m) = (tget b)(k \<mapsto> m) \<and> inv (tput (del b k) k m)"
  by (simp add: laws)

lemma exclusive_empty: "exclusive empty"
  by (simp add: exclusive_def get_empty)

lemma exclusive_live_write: "inv b \<Longrightarrow> exclusive b \<Longrightarrow> exclusive (tdel (put b k v m) k)"
  by (simp add: exclusive_def live_write)

lemma exclusive_tombstone_write: "inv b \<Longrightarrow> exclusive b \<Longrightarrow> exclusive (tput (del b k) k m)"
  by (simp add: exclusive_def tombstone_write)

end

definition mb_inv :: "memoryBackend \<Rightarrow> bool" where
  "mb_inv m \<longleftrightarrow> wf_map (mbEntries m) \<and> wf_map (mbTombstones m)"

interpretation memory: backend newMemoryBackend memoryBackend_GetEntry memoryBackend_PutEntry
  memoryBackend_DeleteEntry memoryBackend_GetTombstone memoryBackend_PutTombstone
  memoryBackend_DeleteTombstone mb_inv
  by unfold_locales
    (auto simp: mb_inv_def newMemoryBackend_def memoryBackend_GetEntry_def memoryBackend_PutEntry_def
      memoryBackend_DeleteEntry_def memoryBackend_GetTombstone_def memoryBackend_PutTombstone_def
      memoryBackend_DeleteTombstone_def fun_eq_iff)

section \<open>The in-memory backend\<close>

lemma mb_entry_mem:
  "mb_inv m \<Longrightarrow> (k, e) \<in> set (mbEntries m) \<longleftrightarrow> memoryBackend_GetEntry m k = Some (meValue e, meMeta e)"
  by (auto simp: mb_inv_def memoryBackend_GetEntry_def wf_map_mem split: option.splits)

lemma mb_tomb_mem:
  "mb_inv m \<Longrightarrow> (k, t) \<in> set (mbTombstones m) \<longleftrightarrow> memoryBackend_GetTombstone m k = Some t"
  by (simp add: mb_inv_def memoryBackend_GetTombstone_def wf_map_mem)

lemma EntryLen_card:
  "mb_inv m \<Longrightarrow> memoryBackend_EntryLen m = card (dom (memoryBackend_GetEntry m))"
proof -
  assume "mb_inv m"
  then have "distinct (map fst (mbEntries m))" by (simp add: mb_inv_def wf_map_def)
  then have "length (mbEntries m) = card (fst ` set (mbEntries m))"
    using distinct_card [of "map fst (mbEntries m)"] by simp
  moreover have "dom (memoryBackend_GetEntry m) = fst ` set (mbEntries m)"
    using dom_map_of_conv_image_fst [of "mbEntries m"]
    by (auto simp: memoryBackend_GetEntry_def dom_def split: option.splits)
  ultimately show ?thesis by (simp add: memoryBackend_EntryLen_def)
qed

end
