(* ===== verification/Convergence.thy ===== *)
theory Convergence
  imports Main
begin

text \<open>
  Delivery of deltas in any order and any number of times. A storage type is an instance of
  \<open>delta_crdt\<close> when the state a reader sees (\<open>view\<close>) moves under a delivered delta by a
  pure step that commutes with the steps of compatible deltas and is idempotent; two
  deltas are incompatible only when a replica would have issued both under one dot. The
  conclusion is strong eventual consistency: the view is a function of the set of
  delivered deltas. \<open>delta_lattice\<close> is the case in which the step is a join.
\<close>

locale delta_crdt =
  fixes deliver :: "'d \<Rightarrow> 's \<Rightarrow> 's"
    and view :: "'s \<Rightarrow> 'a"
    and vstep :: "'d \<Rightarrow> 'a \<Rightarrow> 'a"
    and ok :: "'d \<Rightarrow> bool"
    and compat :: "'d \<Rightarrow> 'd \<Rightarrow> bool"
    and inv :: "'s \<Rightarrow> bool"
  assumes inv_deliver: "inv s \<Longrightarrow> ok d \<Longrightarrow> inv (deliver d s)"
    and view_deliver: "inv s \<Longrightarrow> ok d \<Longrightarrow> view (deliver d s) = vstep d (view s)"
    and vstep_commute: "compat d e \<Longrightarrow> vstep d (vstep e a) = vstep e (vstep d a)"
    and vstep_idem: "vstep d (vstep d a) = vstep d a"
begin

lemma deliver_all:
  "inv s \<Longrightarrow> list_all ok ds \<Longrightarrow>
   inv (fold deliver ds s) \<and> view (fold deliver ds s) = fold vstep ds (view s)"
  by (induction ds arbitrary: s) (auto simp: inv_deliver view_deliver)

lemma view_of_set:
  assumes "inv s" "list_all ok ds" "\<forall>d \<in> set ds. \<forall>e \<in> set ds. compat d e"
  shows "view (fold deliver ds s) = Finite_Set.fold vstep (view s) (set ds)"
proof -
  have cfi: "comp_fun_idem_on (set ds) vstep"
    using assms(3) by unfold_locales (auto simp: vstep_commute vstep_idem fun_eq_iff)
  have "Finite_Set.fold vstep (view s) (set ds) = fold vstep ds (view s)"
    using comp_fun_idem_on.fold_set_fold [OF cfi] by simp
  with deliver_all [OF assms(1,2)] show ?thesis by simp
qed

lemma converge:
  assumes "inv s" "list_all ok ds" "\<forall>d \<in> set ds. \<forall>e \<in> set ds. compat d e" "set ds = set es"
  shows "view (fold deliver ds s) = view (fold deliver es s)"
proof -
  have "list_all ok es" using assms(2,4) by (simp add: list_all_iff)
  with view_of_set [OF assms(1-3)] view_of_set [OF assms(1), of es] assms(3,4) show ?thesis by simp
qed

text \<open>Two replicas that start with the same view and receive the same deltas agree.\<close>

lemma converge_two:
  assumes "inv s" "inv t" "view s = view t" "list_all ok ds"
    "\<forall>d \<in> set ds. \<forall>e \<in> set ds. compat d e" "set ds = set es"
  shows "view (fold deliver ds s) = view (fold deliver es t)"
proof -
  have "list_all ok es" using assms(4,6) by (simp add: list_all_iff)
  then show ?thesis
    using view_of_set [OF assms(1,4,5)] view_of_set [OF assms(2), of es] assms by simp
qed

lemma deliver_again:
  assumes "inv s" "list_all ok ds" "\<forall>d \<in> set ds. \<forall>e \<in> set ds. compat d e" "d \<in> set ds"
  shows "view (deliver d (fold deliver ds s)) = view (fold deliver ds s)"
proof -
  have "view (fold deliver (ds @ [d]) s) = view (fold deliver ds s)"
    using assms by (intro converge) (auto simp: list_all_iff)
  then show ?thesis by simp
qed

end

text \<open>
  The lattice case: the step joins the contribution of the delta, pointwise on a view that
  is a function into a linear order.
\<close>

locale delta_lattice =
  fixes deliver :: "'d \<Rightarrow> 's \<Rightarrow> 's"
    and view :: "'s \<Rightarrow> 'k \<Rightarrow> 'v::linorder"
    and delta_key :: "'d \<Rightarrow> 'k"
    and delta_val :: "'d \<Rightarrow> 'v"
    and ok :: "'d \<Rightarrow> bool"
    and inv :: "'s \<Rightarrow> bool"
  assumes inv_join: "inv s \<Longrightarrow> ok d \<Longrightarrow> inv (deliver d s)"
    and view_join: "inv s \<Longrightarrow> ok d \<Longrightarrow>
      view (deliver d s) k = (if k = delta_key d then max (view s k) (delta_val d) else view s k)"
begin

definition join_step :: "'d \<Rightarrow> ('k \<Rightarrow> 'v) \<Rightarrow> 'k \<Rightarrow> 'v" where
  "join_step d a k = (if k = delta_key d then max (a k) (delta_val d) else a k)"

end

sublocale delta_lattice \<subseteq> delta_crdt deliver view join_step ok "\<lambda>_ _. True" inv
  by unfold_locales (auto simp: join_step_def fun_eq_iff inv_join view_join max.commute max.left_commute)

context delta_lattice
begin

lemma grows: "inv s \<Longrightarrow> ok d \<Longrightarrow> view s k \<le> view (deliver d s) k"
  by (simp add: view_join)

lemma grows_all: "inv s \<Longrightarrow> list_all ok ds \<Longrightarrow> view s k \<le> view (fold deliver ds s) k"
  by (induction ds arbitrary: s) (auto intro: order_trans grows inv_join)

lemma view_bound:
  "inv s \<Longrightarrow> list_all ok ds \<Longrightarrow> view (fold deliver ds s) k \<le> b \<longleftrightarrow>
     view s k \<le> b \<and> (\<forall>d \<in> set ds. delta_key d = k \<longrightarrow> delta_val d \<le> b)"
  by (induction ds arbitrary: s) (auto simp: inv_join view_join)

end

section \<open>Last-writer-wins cells\<close>

text \<open>
  The specification of the last-writer-wins types: a map from keys to a stamp and a content,
  written only by a greater stamp. Stamps are unique per write, so two deltas with the same
  key and stamp are the same write.
\<close>

definition lww_step :: "'k \<times> 't::linorder \<times> 'c \<Rightarrow> ('k \<Rightarrow> ('t \<times> 'c) option) \<Rightarrow> 'k \<Rightarrow> ('t \<times> 'c) option" where
  "lww_step d a =
     (let (k, t, c) = d in
      if (case a k of None \<Rightarrow> True | Some (l, _) \<Rightarrow> l < t) then a(k \<mapsto> (t, c)) else a)"

definition same_write :: "'k \<times> 't \<times> 'c \<Rightarrow> 'k \<times> 't \<times> 'c \<Rightarrow> bool" where
  "same_write d e \<longleftrightarrow> (fst d = fst e \<and> fst (snd d) = fst (snd e) \<longrightarrow> d = e)"

lemma lww_step_idem: "lww_step d (lww_step d a) = lww_step d a"
  by (cases d) (auto simp: lww_step_def split: option.splits)

lemma lww_step_commute:
  assumes "same_write d e"
  shows "lww_step d (lww_step e a) = lww_step e (lww_step d a)"
proof -
  obtain k t c where d: "d = (k, t, c)" by (cases d)
  obtain k' t' c' where e: "e = (k', t', c')" by (cases e)
  show ?thesis
  proof (cases "k = k'")
    case True
    have "t = t' \<Longrightarrow> c = c'" using assms True by (simp add: d e same_write_def)
    then show ?thesis
      unfolding d e True
      by (cases "a k'") (auto simp: lww_step_def fun_eq_iff split: prod.splits)
  qed (auto simp: d e lww_step_def fun_eq_iff split: option.splits)
qed

text \<open>
  After any sequence of deliveries a cell holds one of the writes, or what it held before,
  and nothing delivered or held is newer.
\<close>

lemma lww_fold_keeps:
  "a k = Some (l, c) \<Longrightarrow> \<exists>l' c'. fold lww_step xs a k = Some (l', c') \<and> l \<le> l'"
proof (induction xs arbitrary: a l c)
  case (Cons x xs)
  obtain k' t v where x: "x = (k', t, v)" by (cases x)
  have "\<exists>m v'. lww_step x a k = Some (m, v') \<and> l \<le> m"
    using Cons.prems by (auto simp: x lww_step_def)
  then obtain m v' where m: "lww_step x a k = Some (m, v')" "l \<le> m" by blast
  from Cons.IH [of "lww_step x a", OF m(1)] m(2) show ?case by (auto intro: order_trans)
qed simp

lemma lww_fold_covers:
  "(k, t, c) \<in> set xs \<Longrightarrow> \<exists>l' c'. fold lww_step xs a k = Some (l', c') \<and> t \<le> l'"
proof (induction xs arbitrary: a)
  case (Cons x xs)
  show ?case
  proof (cases "x = (k, t, c)")
    case True
    then have "\<exists>m v'. lww_step x a k = Some (m, v') \<and> t \<le> m"
      by (auto simp: lww_step_def split: option.splits)
    then obtain m v' where m: "lww_step x a k = Some (m, v')" "t \<le> m" by blast
    from lww_fold_keeps [where a = "lww_step x a" and k = k and xs = xs, OF m(1)] m(2) show ?thesis by (auto intro: order_trans)
  qed (use Cons in auto)
qed simp

lemma lww_fold_origin:
  "fold lww_step xs a k = a k \<or> (\<exists>t c. (k, t, c) \<in> set xs \<and> fold lww_step xs a k = Some (t, c))"
proof (induction xs arbitrary: a)
  case (Cons x xs)
  obtain k' t v where x: "x = (k', t, v)" by (cases x)
  have "lww_step x a k = a k \<or> k = k' \<and> lww_step x a k = Some (t, v)"
    by (auto simp: x lww_step_def)
  with Cons.IH [of "lww_step x a"] x show ?case by auto
qed simp

end
