(* ===== verification/Replica.thy ===== *)
theory Replica
  imports Received Clocks Merkle Backends Convergence
begin

text \<open>
  The replica (\<^verbatim>\<open>replica.go\<close>), its options (\<^verbatim>\<open>store.go\<close>) and its messages (\<^verbatim>\<open>concern.go\<close>).
  The type parameter \<^verbatim>\<open>M mergeable\<close> is the dictionary \<open>'s mergeable\<close> of the storage type's
  methods: \<open>ParseDelta\<close> and \<open>Apply\<close> return the state, since an implementation may change it
  even when it returns an error. The mutex makes every method one atomic step. What a method
  hands to \<^verbatim>\<open>transport.Send\<close> in goroutines is returned as a list of sends; the transport
  itself, the ticker and the topology provider are outside the package, and a configured
  provider is represented by the peers it answers.
\<close>

section \<open>Definitions\<close>

subsection \<open>Messages and write concerns (concern.go)\<close>

type_synonym WriteConcern = int

definition WLocal :: WriteConcern where "WLocal = 0"
definition WMajority :: WriteConcern where "WMajority = 1"
definition WAll :: WriteConcern where "WAll = 2"

record TransportMessage =
  tmFrom :: ReplicaID
  tmDot :: Dot
  tmDelta :: bytes
  tmAck :: bool

type_synonym sends = "(ReplicaID \<times> TransportMessage) list"

definition TransportMessage_From :: "TransportMessage \<Rightarrow> ReplicaID" where
  "TransportMessage_From m = tmFrom m"

definition TransportMessage_Marshal :: "TransportMessage \<Rightarrow> bytes" where
  "TransportMessage_Marshal m =
     (let flags = (if tmAck m then 0 OR 1 else 0) in
      [flags] @ PutUint64 (Replica (tmDot m)) @ PutUint64 (Counter (tmDot m)) @ tmDelta m)"

definition UnmarshalTransportMessage :: "ReplicaID \<Rightarrow> bytes \<Rightarrow> TransportMessage option go" where
  "UnmarshalTransportMessage from data =
     (if length data < 17 then Ok None
      else go_bind (Uint64 (take 8 (drop 1 data))) (\<lambda>r. go_bind (Uint64 (take 8 (drop 9 data))) (\<lambda>c.
        Ok (Some \<lparr>tmFrom = from, tmDot = mkDot r c, tmDelta = drop 17 data,
                  tmAck = (data ! 0 AND 1 \<noteq> 0)\<rparr>))))"

subsection \<open>Options (store.go)\<close>

record options =
  oBackend :: "memoryBackend option"
  oTransport :: bool
  oTopology :: "ReplicaID list option"
  oConcern :: WriteConcern
  oAeInterval :: int

type_synonym Option = "options \<Rightarrow> options"

definition applyOptions :: "Option list \<Rightarrow> options" where
  "applyOptions opts = fold (\<lambda>fn os. fn os) opts
     \<lparr>oBackend = None, oTransport = False, oTopology = None, oConcern = 0, oAeInterval = 0\<rparr>"

definition WithBackend :: "memoryBackend option \<Rightarrow> Option" where
  "WithBackend b os = os\<lparr>oBackend := b\<rparr>"

definition WithTransport :: "bool \<Rightarrow> Option" where
  "WithTransport t os = os\<lparr>oTransport := t\<rparr>"

definition WithTopology :: "ReplicaID list option \<Rightarrow> Option" where
  "WithTopology t os = os\<lparr>oTopology := t\<rparr>"

definition WithAntiEntropyInterval :: "int \<Rightarrow> Option" where
  "WithAntiEntropyInterval d os = os\<lparr>oAeInterval := d\<rparr>"

definition WithWriteConcern :: "WriteConcern \<Rightarrow> Option" where
  "WithWriteConcern wc os = os\<lparr>oConcern := wc\<rparr>"

subsection \<open>The storage interface (interfaces.go)\<close>

record 's mergeable =
  mEntryMeta :: "'s \<Rightarrow> bytes \<Rightarrow> bytes option"
  mTombstoneMeta :: "'s \<Rightarrow> bytes \<Rightarrow> bytes option"
  mParseDelta :: "'s \<Rightarrow> bytes \<Rightarrow> 's \<times> deltaInfo go"
  mApply :: "'s \<Rightarrow> bytes \<Rightarrow> 's \<times> unit go"
  mDeltasSince :: "'s \<Rightarrow> VClock \<Rightarrow> bytes list"
  mGCTombstones :: "('s \<Rightarrow> VClock \<Rightarrow> 's) option"

definition queryable_of :: "'s mergeable \<Rightarrow> 's \<Rightarrow> queryable" where
  "queryable_of M s = \<lparr>EntryMeta = mEntryMeta M s, TombstoneMeta = mTombstoneMeta M s\<rparr>"

subsection \<open>The replica (replica.go)\<close>

definition msgDelta :: byte where "msgDelta = 0"
definition msgAEDigest :: byte where "msgAEDigest = 1"

text \<open>One second, in the nanoseconds of \<^verbatim>\<open>time.Duration\<close>.\<close>

definition defaultAEInterval :: int where "defaultAEInterval = 1000000000"

text \<open>\<open>rAeStop\<close> is nil (\<open>None\<close>), open (\<open>Some False\<close>) or closed (\<open>Some True\<close>).\<close>

record 's replica =
  rData :: 's
  rStrategy :: clock
  rLocal :: localClock
  rReceived :: receivedClock
  rMerkle :: merkleMap
  rTransport :: bool
  rTopology :: "ReplicaID list option"
  rConcern :: WriteConcern
  rAeInterval :: int
  rAeStop :: "bool option"
  rPeerHWMs :: "(ReplicaID, VClock) gomap"

definition newReplica :: "maphash \<Rightarrow> ReplicaID \<Rightarrow> 's \<Rightarrow> clock \<Rightarrow> Option list \<Rightarrow> 's replica" where
  "newReplica mh replicaID data strategy opts =
     (let os = applyOptions opts;
          aeInterval = (if oAeInterval os = 0 \<and> oTransport os then defaultAEInterval else oAeInterval os)
      in \<lparr>rData = data, rStrategy = strategy, rLocal = newLocalClock replicaID,
          rReceived = newReceivedClock, rMerkle = newMerkleMap mh, rTransport = oTransport os,
          rTopology = oTopology os, rConcern = oConcern os, rAeInterval = aeInterval,
          rAeStop = (if oTransport os \<and> aeInterval > 0 then Some False else None),
          rPeerHWMs = []\<rparr>)"

definition replica_Close :: "'s replica \<Rightarrow> 's replica" where
  "replica_Close r =
     (case rAeStop r of None \<Rightarrow> r | Some True \<Rightarrow> r | Some False \<Rightarrow> r\<lparr>rAeStop := Some True\<rparr>)"

definition replica_nextDot :: "'s replica \<Rightarrow> 's replica \<times> Dot" where
  "replica_nextDot r =
     (let (lc, d) = localClock_Next (rLocal r) in
      (r\<lparr>rLocal := lc, rReceived := receivedClock_Record (rReceived r) (Replica d) (Counter d)\<rparr>, d))"

definition replica_trackKey :: "maphash \<Rightarrow> 's mergeable \<Rightarrow> 's replica \<Rightarrow> bytes \<Rightarrow> 's replica" where
  "replica_trackKey mh M r key0 =
     (let key = (if key0 = [] then [0] else key0) in
      case mEntryMeta M (rData r) key of
        Some meta \<Rightarrow> r\<lparr>rMerkle := merkleMap_Put mh (rMerkle r) key meta\<rparr>
      | None \<Rightarrow>
          (case mTombstoneMeta M (rData r) key of
             Some meta \<Rightarrow> r\<lparr>rMerkle := merkleMap_Put mh (rMerkle r) key meta\<rparr>
           | None \<Rightarrow> r\<lparr>rMerkle := merkleMap_Delete (rMerkle r) key\<rparr>))"

definition replica_applyDelta ::
    "maphash \<Rightarrow> 's mergeable \<Rightarrow> 's replica \<Rightarrow> ReplicaID \<Rightarrow> Dot \<Rightarrow> bytes \<Rightarrow> 's replica \<times> unit go" where
  "replica_applyDelta mh M r from dot delta =
     (let (s, p) = mParseDelta M (rData r) delta; r = r\<lparr>rData := s\<rparr> in
      case p of
        Err e \<Rightarrow> (r, Err e)
      | Panic \<Rightarrow> (r, Panic)
      | Ok info \<Rightarrow>
          (let (r, a) =
             (if rStrategy r (queryable_of M (rData r)) info
              then let (s, a) = mApply M (rData r) delta in (r\<lparr>rData := s\<rparr>, a)
              else (r, Ok ())) in
           case a of
             Err e \<Rightarrow> (r, Err e)
           | Panic \<Rightarrow> (r, Panic)
           | Ok _ \<Rightarrow>
               (let r = r\<lparr>rReceived := record_loop (diDots info) (rReceived r)\<rparr> in
                (replica_trackKey mh M r (diKey info), Ok ()))))"

definition tagDelta :: "bytes \<Rightarrow> bytes" where
  "tagDelta delta = [msgDelta] @ delta"

definition quorumSize :: "'s replica \<Rightarrow> nat \<Rightarrow> nat" where
  "quorumSize r peerCount =
     (let total = peerCount + 1 in
      if rConcern r = WMajority then
        (let majority = total div 2 + 1; fromPeers = majority - 1 in
         if fromPeers > peerCount then peerCount else fromPeers)
      else if rConcern r = WAll then peerCount
      else 0)"

text \<open>A write result holds the quorum it waits for; \<open>wrAckCh\<close> tells whether the channel exists.\<close>

record WriteResult =
  wrAckCh :: bool
  wrNeeded :: nat
  wrTotal :: nat

definition replica_propagate :: "'s replica \<Rightarrow> Dot \<Rightarrow> bytes \<Rightarrow> sends \<times> WriteResult" where
  "replica_propagate r d delta =
     (let none = \<lparr>wrAckCh = False, wrNeeded = 0, wrTotal = 0\<rparr> in
      if \<not> rTransport r then ([], none)
      else case rTopology r of
        None \<Rightarrow> ([], none)
      | Some peers \<Rightarrow>
          if length peers = 0 then ([], none)
          else let tagged = tagDelta delta; needed = quorumSize r (length peers) in
            if needed = 0 then
              (map (\<lambda>peer. (peer, \<lparr>tmFrom = 0, tmDot = d, tmDelta = tagged, tmAck = False\<rparr>)) peers, none)
            else
              (map (\<lambda>peer. (peer, \<lparr>tmFrom = 0, tmDot = d, tmDelta = tagged, tmAck = True\<rparr>)) peers,
               \<lparr>wrAckCh = True, wrNeeded = needed, wrTotal = length peers\<rparr>))"

definition replica_broadcast :: "'s replica \<Rightarrow> Dot \<Rightarrow> bytes \<Rightarrow> sends" where
  "replica_broadcast r d delta =
     (if \<not> rTransport r then []
      else case rTopology r of
        None \<Rightarrow> []
      | Some peers \<Rightarrow>
          map (\<lambda>peer. (peer, \<lparr>tmFrom = 0, tmDot = d, tmDelta = tagDelta delta, tmAck = False\<rparr>)) peers)"

subsection \<open>Anti-entropy (replica.go)\<close>

definition encodeAEDigest :: "u64 \<Rightarrow> VClock \<Rightarrow> bytes" where
  "encodeAEDigest hash hwm = [msgAEDigest] @ PutUint64 hash @ encodeVClock hwm"

definition decodeAEDigest :: "bytes \<Rightarrow> (u64 \<times> VClock) go" where
  "decodeAEDigest payload =
     (if length payload < 8 then Err ErrShortAEDigest
      else go_bind (Uint64 (take 8 payload)) (\<lambda>hash.
        go_bind (decodeVClock (drop 8 payload)) (\<lambda>hwm. Ok (hash, hwm))))"

text \<open>
  The garbage collection of \<open>sendDigests\<close> runs between the reading of the digest and its sending, under the
  same lock. A topology without a transport makes \<open>sendDigests\<close> call a method of a nil interface; only the
  anti-entropy loop calls it, which is started with a transport.
\<close>

definition replica_sendDigests :: "maphash \<Rightarrow> 's mergeable \<Rightarrow> 's replica \<Rightarrow> ('s replica \<times> sends) go" where
  "replica_sendDigests mh M r =
     (case rTopology r of
        None \<Rightarrow> Ok (r, [])
      | Some peers \<Rightarrow>
          if length peers = 0 then Ok (r, [])
          else go_bind (merkleMap_Hash mh (rMerkle r)) (\<lambda>(mm, hash).
            let r = r\<lparr>rMerkle := mm\<rparr>;
                hwm = receivedClock_HWM (rReceived r);
                r = (case mGCTombstones M of
                       Some gc \<Rightarrow>
                         if length (rPeerHWMs r) > 0 then
                           r\<lparr>rData := gc (rData r)
                              (fold (\<lambda>(_, ph) minHWM. VClock_LowerBound minHWM ph) (rPeerHWMs r) (VClock_Clone hwm))\<rparr>
                         else r
                     | None \<Rightarrow> r);
                msg = encodeAEDigest hash hwm
            in if \<not> rTransport r then Panic
               else Ok (r, map (\<lambda>peer. (peer, \<lparr>tmFrom = 0, tmDot = mkDot 0 0, tmDelta = msg, tmAck = False\<rparr>)) peers)))"

definition replica_handleSyncDigest ::
    "maphash \<Rightarrow> 's mergeable \<Rightarrow> 's replica \<Rightarrow> ReplicaID \<Rightarrow> bytes \<Rightarrow> ('s replica \<times> sends) go" where
  "replica_handleSyncDigest mh M r from payload =
     (case decodeAEDigest payload of
        Err _ \<Rightarrow> Ok (r, [])
      | Panic \<Rightarrow> Panic
      | Ok (peerHash, peerHWM) \<Rightarrow>
          (let r = r\<lparr>rPeerHWMs := mput from peerHWM (rPeerHWMs r)\<rparr> in
           go_bind (merkleMap_Hash mh (rMerkle r)) (\<lambda>(mm, localHash).
             let r = r\<lparr>rMerkle := mm\<rparr> in
             if localHash = peerHash then Ok (r, [])
             else Ok (r, map (\<lambda>d. (from, \<lparr>tmFrom = 0, tmDot = mkDot 0 0, tmDelta = tagDelta d, tmAck = False\<rparr>))
                           (mDeltasSince M (rData r) peerHWM)))))"

definition replica_handleMessage ::
    "maphash \<Rightarrow> 's mergeable \<Rightarrow> 's replica \<Rightarrow> ReplicaID \<Rightarrow> Dot \<Rightarrow> bytes \<Rightarrow> ('s replica \<times> sends) go" where
  "replica_handleMessage mh M r from dot msg =
     (case msg of
        [] \<Rightarrow> Ok (r, [])
      | t # rest \<Rightarrow>
          if t = msgDelta then
            (let (r, res) = replica_applyDelta mh M r from dot rest in
             case res of Panic \<Rightarrow> Panic | _ \<Rightarrow> Ok (r, []))
          else if t = msgAEDigest then replica_handleSyncDigest mh M r from rest
          else Ok (r, []))"

text \<open>
  The message handler is registered with a transport, and runs only where there is one.

  The anti-entropy goroutine over the events its \<^verbatim>\<open>select\<close> sees: the ticker fires or the
  stop channel is closed.
\<close>

datatype aeEvent = Tick | Stopped

fun replica_runAntiEntropy ::
    "maphash \<Rightarrow> 's mergeable \<Rightarrow> 's replica \<Rightarrow> aeEvent list \<Rightarrow> ('s replica \<times> sends) go" where
  "replica_runAntiEntropy mh M r [] = Ok (r, [])"
| "replica_runAntiEntropy mh M r (Stopped # es) = Ok (r, [])"
| "replica_runAntiEntropy mh M r (Tick # es) =
     go_bind (replica_sendDigests mh M r) (\<lambda>(r, out).
       go_map (\<lambda>(r, out'). (r, out @ out')) (replica_runAntiEntropy mh M r es))"

section \<open>Messages\<close>

lemma Unmarshal_Marshal:
  "UnmarshalTransportMessage from (TransportMessage_Marshal m) = Ok (Some (m\<lparr>tmFrom := from\<rparr>))"
proof (cases m)
  case (fields f d dl a)
  have drops: "drop 8 (x @ y @ z) = y @ z" "drop 16 (x @ y @ z) = z"
    if "length x = 8" "length y = 8" for x y z :: bytes
    using that by simp_all
  show ?thesis
    by (cases d) (simp add: fields UnmarshalTransportMessage_def TransportMessage_Marshal_def Let_def)
qed

lemma Unmarshal_no_panic: "UnmarshalTransportMessage from data \<noteq> Panic"
  by (auto simp: UnmarshalTransportMessage_def Uint64_def)

lemma decodeAEDigest_encode:
  assumes "wf_map hwm" "length hwm < 2 ^ 32"
  shows "decodeAEDigest (drop 1 (encodeAEDigest h hwm)) = Ok (h, sorted_map hwm)"
  using assms by (simp add: decodeAEDigest_def encodeAEDigest_def decodeVClock_encodeVClock')

lemma decodeAEDigest_no_panic: "decodeAEDigest p \<noteq> Panic"
proof -
  have "Uint64 (take 8 p) \<noteq> Panic" if "\<not> length p < 8" using that by (auto simp: Uint64_def)
  then show ?thesis by (auto simp: decodeAEDigest_def go_bind_Panic_iff)
qed

section \<open>Quorums\<close>

lemma quorumSize_le: "quorumSize r n \<le> n"
  by (auto simp: quorumSize_def Let_def)

lemma quorumSize_majority: "rConcern r = WMajority \<Longrightarrow> quorumSize r n = (n + 1) div 2"
  by (auto simp: quorumSize_def Let_def WMajority_def)

section \<open>One delivered delta\<close>

lemma newReplica_fields [simp]:
  "rData (newReplica mh rid s st opts) = s" "rStrategy (newReplica mh rid s st opts) = st"
  "lcReplica (rLocal (newReplica mh rid s st opts)) = rid" "lcCounter (rLocal (newReplica mh rid s st opts)) = 0"
  "rReceived (newReplica mh rid s st opts) = newReceivedClock"
  "rMerkle (newReplica mh rid s st opts) = newMerkleMap mh" "rPeerHWMs (newReplica mh rid s st opts) = []"
  by (simp_all add: newReplica_def newLocalClock_def Let_def)

text \<open>The state after a delta that parses without touching the state and is allowed or not.\<close>

lemma applyDelta_parsed:
  assumes "mParseDelta M (rData r) delta = (rData r, Ok info)"
  shows "fst (replica_applyDelta mh M r from dot delta) =
    (if \<not> rStrategy r (queryable_of M (rData r)) info
     then replica_trackKey mh M (r\<lparr>rReceived := record_loop (diDots info) (rReceived r)\<rparr>) (diKey info)
     else let (s, a) = mApply M (rData r) delta in
       case a of Ok _ \<Rightarrow> replica_trackKey mh M
           (r\<lparr>rData := s, rReceived := record_loop (diDots info) (rReceived r)\<rparr>) (diKey info)
       | _ \<Rightarrow> r\<lparr>rData := s\<rparr>)"
  using assms by (auto simp: replica_applyDelta_def Let_def split: go.splits prod.splits)

lemma trackKey_fields [simp]:
  "rData (replica_trackKey mh M r k) = rData r"
  "rStrategy (replica_trackKey mh M r k) = rStrategy r"
  "rLocal (replica_trackKey mh M r k) = rLocal r"
  "rReceived (replica_trackKey mh M r k) = rReceived r"
  "rPeerHWMs (replica_trackKey mh M r k) = rPeerHWMs r"
  "rTopology (replica_trackKey mh M r k) = rTopology r"
  "rTransport (replica_trackKey mh M r k) = rTransport r"
  "rConcern (replica_trackKey mh M r k) = rConcern r"
  by (simp_all add: replica_trackKey_def Let_def split: option.splits)

lemma nextDot_simps [simp]:
  "rData (fst (replica_nextDot r)) = rData r" "rStrategy (fst (replica_nextDot r)) = rStrategy r"
  "snd (replica_nextDot r) = mkDot (lcReplica (rLocal r)) (lcCounter (rLocal r) + 1)"
  "rReceived (fst (replica_nextDot r)) =
     receivedClock_Record (rReceived r) (lcReplica (rLocal r)) (lcCounter (rLocal r) + 1)"
  by (simp_all add: replica_nextDot_def localClock_Next_def Let_def)

lemma applyDelta_strategy [simp]:
  "rStrategy (fst (replica_applyDelta mh M r from dot delta)) = rStrategy r"
  by (auto simp: replica_applyDelta_def Let_def split: go.splits prod.splits if_splits)

lemma applyDelta_local [simp]: "rLocal (fst (replica_applyDelta mh M r from dot delta)) = rLocal r"
  by (auto simp: replica_applyDelta_def Let_def split: go.splits prod.splits if_splits)

lemma applyDelta_data:
  assumes "mParseDelta M (rData r) delta = (rData r, Ok info)"
  shows "rData (fst (replica_applyDelta mh M r from dot delta)) =
    (if rStrategy r (queryable_of M (rData r)) info then fst (mApply M (rData r) delta) else rData r)"
  using applyDelta_parsed [OF assms, of mh "from" dot] by (auto simp: split_beta split: go.splits)

lemma applyDelta_rejected:
  assumes "mParseDelta M (rData r) delta = (rData r, Err e)"
  shows "replica_applyDelta mh M r from dot delta = (r, Err e)"
  using assms by (simp add: replica_applyDelta_def Let_def)

text \<open>Every dot of a delta that parses and applies is recorded, allowed or not.\<close>

lemma applyDelta_received:
  assumes "mParseDelta M (rData r) delta = (rData r, Ok info)"
    and "snd (mApply M (rData r) delta) = Ok ()"
  shows "rReceived (fst (replica_applyDelta mh M r from dot delta)) = record_loop (diDots info) (rReceived r)"
  using applyDelta_parsed [OF assms(1), of mh "from" dot] assms(2) by (auto simp: split_beta split: go.splits)

text \<open>The sender and the dot beside the delta play no role.\<close>

lemma applyDelta_from:
  "replica_applyDelta mh M r from dot delta = replica_applyDelta mh M r 0 (mkDot 0 0) delta"
  by (simp only: replica_applyDelta_def)

text \<open>
  The handler registered with the transport, as far as the receiving state goes, and a sequence of messages. A panic
  ends the process.
\<close>

definition replica_receive :: "maphash \<Rightarrow> 's mergeable \<Rightarrow> ReplicaID \<Rightarrow> TransportMessage \<Rightarrow> 's replica \<Rightarrow> 's replica go" where
  "replica_receive mh M from m r = go_map fst (replica_handleMessage mh M r from (tmDot m) (tmDelta m))"

fun receive_all :: "maphash \<Rightarrow> 's mergeable \<Rightarrow> (ReplicaID \<times> TransportMessage) list \<Rightarrow> 's replica \<Rightarrow> 's replica go" where
  "receive_all mh M [] r = Ok r"
| "receive_all mh M ((from, m) # ms) r = go_bind (replica_receive mh M from m r) (receive_all mh M ms)"

lemma receive_delta:
  "tmDelta m = tagDelta d \<Longrightarrow> snd (replica_applyDelta mh M r 0 (mkDot 0 0) d) \<noteq> Panic \<Longrightarrow>
   replica_receive mh M from m r = Ok (fst (replica_applyDelta mh M r 0 (mkDot 0 0) d))"
  using applyDelta_from [of mh M r "from" "tmDot m" d]
  by (auto simp: replica_receive_def replica_handleMessage_def tagDelta_def split: go.splits prod.splits)

text \<open>A sequence of deltas, applied one after the other.\<close>

abbreviation apply_all :: "maphash \<Rightarrow> 's mergeable \<Rightarrow> bytes list \<Rightarrow> 's replica \<Rightarrow> 's replica" where
  "apply_all mh M \<equiv> fold (\<lambda>delta r. fst (replica_applyDelta mh M r 0 (mkDot 0 0) delta))"

lemma applyDelta_ok:
  assumes "mParseDelta M (rData r) delta = (rData r, Ok info)" "snd (mApply M (rData r) delta) = Ok ()"
  shows "snd (replica_applyDelta mh M r from dot delta) = Ok ()"
  using assms by (auto simp: replica_applyDelta_def Let_def split_beta split: go.splits)

section \<open>The untracked hash map\<close>

text \<open>
  A replica that tracks no key hashes to zero, and two such replicas take each other to be in
  sync: neither answers the digest of the other.
\<close>

definition untracked :: "'s replica \<Rightarrow> bool" where
  "untracked r \<longleftrightarrow> mmEntries (rMerkle r) = Some [] \<and> (mmDirty (rMerkle r) \<or> mmHash (rMerkle r) = 0)"

lemma untracked_Hash:
  assumes "untracked r" "merkleMap_Hash mh (rMerkle r) = Ok (mm, h)"
  shows "h = 0 \<and> untracked (r\<lparr>rMerkle := mm\<rparr>)"
  using assms by (auto simp: untracked_def merkleMap_Hash_def merkleMap_recomputeHash_def split: if_splits)

lemma untracked_fields [simp]:
  "untracked (r\<lparr>rData := s\<rparr>) = untracked r" "untracked (r\<lparr>rReceived := rc\<rparr>) = untracked r"
  "untracked (r\<lparr>rPeerHWMs := ph\<rparr>) = untracked r" "untracked (r\<lparr>rLocal := l\<rparr>) = untracked r"
  by (simp_all add: untracked_def)

lemma untracked_nextDot: "untracked r \<Longrightarrow> untracked (fst (replica_nextDot r))"
  by (simp add: replica_nextDot_def localClock_Next_def Let_def untracked_def)

lemma untracked_handleSyncDigest:
  assumes "untracked r" "replica_handleSyncDigest mh M r from payload = Ok (r', out)"
  shows "untracked r'"
proof -
  have step: "untracked (r\<lparr>rPeerHWMs := ph, rMerkle := mm\<rparr>)"
    if "merkleMap_Hash mh (rMerkle r) = Ok (mm, h)" for ph mm h
    using untracked_Hash [of "r\<lparr>rPeerHWMs := ph\<rparr>" mh mm h] assms(1) that by simp
  from assms show ?thesis
    by (auto simp: replica_handleSyncDigest_def Let_def go_simps step split: go.splits prod.splits if_splits)
qed

lemma sendDigests_untracked:
  assumes "untracked r" "replica_sendDigests mh M r = Ok (r', out)"
  shows "untracked r' \<and> (\<forall>(p, m) \<in> set out. tmDelta m = encodeAEDigest 0 (receivedClock_HWM (rReceived r)))"
proof (cases "rTopology r = None \<or> rTopology r = Some []")
  case True
  with assms show ?thesis by (auto simp: replica_sendDigests_def)
next
  case False
  then obtain p ps where t: "rTopology r = Some (p # ps)" by (cases "rTopology r") (auto simp: neq_Nil_conv)
  with assms(2) obtain mm h where h: "merkleMap_Hash mh (rMerkle r) = Ok (mm, h)"
    by (auto simp: replica_sendDigests_def go_simps)
  have "untracked (r\<lparr>rMerkle := mm, rData := s\<rparr>)" for s
    using untracked_Hash [OF assms(1) h] by simp
  with untracked_Hash [OF assms(1) h] t h assms(2) show ?thesis
    by (auto simp: replica_sendDigests_def Let_def split: option.splits if_splits)
qed

lemma answer_untracked:
  assumes "untracked a" "untracked b" "replica_sendDigests mh' M' b = Ok (b', sent)" "(p, m) \<in> set sent"
    and "replica_handleMessage mh M a from (tmDot m) (tmDelta m) = Ok (a', out)"
  shows "out = []"
proof -
  have m: "tmDelta m = encodeAEDigest 0 (receivedClock_HWM (rReceived b))"
    using sendDigests_untracked [OF assms(2,3)] assms(4) by auto
  have hash: "h = 0" if "decodeAEDigest (PutUint64 0 @ encodeVClock vc) = Ok (h, hwm)" for h vc hwm
    using that by (auto simp: decodeAEDigest_def go_simps)
  have local: "h = 0" if "merkleMap_Hash mh (rMerkle a) = Ok (mm, h)" for mm h
    using untracked_Hash [OF assms(1) that] by simp
  from assms(5) hash local show ?thesis
    by (auto simp: m encodeAEDigest_def replica_handleMessage_def msgAEDigest_def msgDelta_def
        replica_handleSyncDigest_def Let_def go_simps split: go.splits prod.splits if_splits)
qed

lemma untracked_talk:
  assumes "untracked a" "untracked b" "rTransport b" "rTopology b = Some [q]" "mm_inv mh (rMerkle a)" "mm_inv mh' (rMerkle b)"
  shows "\<exists>b' m a' out. replica_sendDigests mh' M' b = Ok (b', [(q, m)]) \<and>
    replica_handleMessage mh M a from (tmDot m) (tmDelta m) = Ok (a', out)"
proof -
  have hash: "\<exists>mm. merkleMap_Hash h (rMerkle x) = Ok (mm, 0)" if "untracked x" "mm_inv h (rMerkle x)" for h and x :: "'z replica"
    using that by (auto simp: untracked_def mm_inv_def merkleMap_Hash_def merkleMap_recomputeHash_def)
  obtain mm mm' where h: "merkleMap_Hash mh' (rMerkle b) = Ok (mm, 0)" "merkleMap_Hash mh (rMerkle a) = Ok (mm', 0)"
    using hash [OF assms(1,5)] hash [OF assms(2,6)] by blast
  have "\<exists>a' out. replica_handleSyncDigest mh M a from p = Ok (a', out)" for p
    using h(2) decodeAEDigest_no_panic [of p]
    by (cases "decodeAEDigest p") (auto simp: replica_handleSyncDigest_def Let_def)
  then show ?thesis
    using h(1) assms(3,4)
    by (auto simp: replica_sendDigests_def Let_def replica_handleMessage_def encodeAEDigest_def msgAEDigest_def msgDelta_def split: option.splits)
qed

section \<open>The contract of a storage type\<close>

text \<open>
  What a replica relies on: no delta, well-formed or not, breaks the storage invariant. The
  replica invariant adds the received clock, the hash map and the table of peers.
\<close>

locale storage =
  fixes M :: "'s mergeable" and inv :: "'s \<Rightarrow> bool"
  assumes parse_inv: "inv s \<Longrightarrow> inv (fst (mParseDelta M s delta))"
    and apply_inv: "inv s \<Longrightarrow> inv (fst (mApply M s delta))"
    and gc_inv: "mGCTombstones M = Some gc \<Longrightarrow> inv s \<Longrightarrow> inv (gc s hwm)"
begin

definition replica_inv :: "maphash \<Rightarrow> 's replica \<Rightarrow> bool" where
  "replica_inv mh r \<longleftrightarrow> inv (rData r) \<and> rc_inv (rReceived r) \<and> mm_inv mh (rMerkle r) \<and> wf_map (rPeerHWMs r)"

lemma trackKey_inv: "replica_inv mh r \<Longrightarrow> replica_inv mh (replica_trackKey mh M r k)"
  by (auto simp: replica_inv_def replica_trackKey_def Let_def mm_inv_Put mm_inv_Delete split: option.splits)

lemma record_loop_inv: "rc_inv rc \<Longrightarrow> rc_inv (record_loop ds rc)"
  using received.record_all by blast

lemma data_inv: "replica_inv mh r \<Longrightarrow> inv s \<Longrightarrow> replica_inv mh (r\<lparr>rData := s\<rparr>)"
  by (simp add: replica_inv_def)

lemma received_inv: "replica_inv mh r \<Longrightarrow> replica_inv mh (r\<lparr>rReceived := record_loop ds (rReceived r)\<rparr>)"
  by (simp add: replica_inv_def record_loop_inv)

lemma applyDelta_inv:
  assumes "replica_inv mh r"
  shows "replica_inv mh (fst (replica_applyDelta mh M r from dot delta))"
proof -
  have inv: "inv (rData r)" using assms by (simp add: replica_inv_def)
  obtain s p where sp: "mParseDelta M (rData r) delta = (s, p)" by fastforce
  have s: "inv s" using parse_inv [OF inv, of delta] sp by simp
  obtain s' a where sa: "mApply M s delta = (s', a)" by fastforce
  have s': "inv s'" using apply_inv [OF s, of delta] sa by simp
  note invs = data_inv [OF assms s] data_inv [OF assms s']
  show ?thesis
    using sp sa invs received_inv [OF invs(1)] received_inv [OF invs(2)]
    by (auto simp: replica_applyDelta_def Let_def trackKey_inv split: go.splits)
qed

lemma local_write_inv:
  "replica_inv mh r \<Longrightarrow> inv s \<Longrightarrow> rc_inv rc \<Longrightarrow>
   replica_inv mh (replica_trackKey mh M (r\<lparr>rData := s, rLocal := l, rReceived := rc\<rparr>) k)"
  by (rule trackKey_inv) (simp add: replica_inv_def)

lemma nextDot_inv: "replica_inv mh r \<Longrightarrow> replica_inv mh (fst (replica_nextDot r))"
  by (simp add: replica_inv_def replica_nextDot_def localClock_Next_def Let_def Record_spec)

text \<open>A local write: stamp, change the storage, track the key.\<close>

lemma local_op_inv:
  "replica_inv mh r \<Longrightarrow> inv s \<Longrightarrow> replica_inv mh (replica_trackKey mh M ((fst (replica_nextDot r))\<lparr>rData := s\<rparr>) k)"
  by (rule trackKey_inv, rule data_inv, rule nextDot_inv)

lemma handleSyncDigest_inv:
  assumes "replica_inv mh r" "replica_handleSyncDigest mh M r from payload = Ok (r', out)"
  shows "replica_inv mh r'"
proof -
  obtain mm' h where h: "merkleMap_Hash mh (rMerkle r) = Ok (mm', h)" "mm_inv mh mm'"
    using assms(1) Hash_spec [of mh "rMerkle r"] by (metis replica_inv_def)
  show ?thesis
  proof (cases "decodeAEDigest payload")
    case (Ok q)
    obtain ph hwm where q: "q = (ph, hwm)" by (cases q)
    have "r' = r\<lparr>rPeerHWMs := mput from hwm (rPeerHWMs r), rMerkle := mm'\<rparr>"
      using assms(2) Ok h(1) unfolding replica_handleSyncDigest_def Let_def q by (auto split: if_splits)
    with assms(1) h(2) show ?thesis by (auto simp: replica_inv_def)
  qed (use assms in \<open>auto simp: replica_handleSyncDigest_def\<close>)
qed

lemma handleSyncDigest_total:
  assumes "replica_inv mh r"
  obtains r' out where "replica_handleSyncDigest mh M r from payload = Ok (r', out)"
proof -
  obtain mm' h where h: "merkleMap_Hash mh (rMerkle r) = Ok (mm', h)"
    using assms Hash_spec [of mh "rMerkle r"] by (metis replica_inv_def)
  show ?thesis
  proof (cases "decodeAEDigest payload")
    case (Ok q)
    obtain ph hwm where q: "q = (ph, hwm)" by (cases q)
    have "\<exists>r' out. replica_handleSyncDigest mh M r from payload = Ok (r', out)"
      using Ok h by (cases "h = ph") (auto simp: q replica_handleSyncDigest_def Let_def)
    with that show ?thesis by blast
  next
    case (Err e)
    with that show ?thesis by (auto simp: replica_handleSyncDigest_def)
  qed (use decodeAEDigest_no_panic in auto)
qed

lemma handleMessage_inv:
  assumes "replica_inv mh r" "replica_handleMessage mh M r from dot msg = Ok (r', out)"
  shows "replica_inv mh r'"
proof (cases msg)
  case (Cons t rest)
  have a: "replica_inv mh (fst (replica_applyDelta mh M r from dot rest))"
    by (rule applyDelta_inv [OF assms(1)])
  consider (delta) "t = msgDelta" | (digest) "t \<noteq> msgDelta" "t = msgAEDigest" | (other) "t \<noteq> msgDelta" "t \<noteq> msgAEDigest"
    by blast
  then show ?thesis
  proof cases
    case delta
    with Cons assms(2) a show ?thesis
      by (auto simp: replica_handleMessage_def Let_def split: prod.splits go.splits)
  next
    case digest
    with Cons assms show ?thesis by (auto simp: replica_handleMessage_def intro: handleSyncDigest_inv)
  qed (use Cons assms in \<open>auto simp: replica_handleMessage_def\<close>)
qed (use assms in \<open>auto simp: replica_handleMessage_def\<close>)

lemma sendDigests_inv:
  assumes "replica_inv mh r" "replica_sendDigests mh M r = Ok (r', out)"
  shows "replica_inv mh r'"
proof -
  obtain mm h where h: "merkleMap_Hash mh (rMerkle r) = Ok (mm, h)" "mm_inv mh mm"
    using assms(1) Hash_spec [of mh "rMerkle r"] by (metis replica_inv_def)
  then show ?thesis
    using assms by (cases "mGCTombstones M"; cases "rPeerHWMs r = []")
      (auto simp: replica_sendDigests_def Let_def replica_inv_def gc_inv split: option.splits if_splits)
qed

lemma sendDigests_total:
  assumes "replica_inv mh r" "rTransport r"
  obtains r' out where "replica_sendDigests mh M r = Ok (r', out)"
proof -
  obtain mm h where h: "merkleMap_Hash mh (rMerkle r) = Ok (mm, h)"
    using assms(1) Hash_spec [of mh "rMerkle r"] by (metis replica_inv_def)
  have "\<exists>x. replica_sendDigests mh M r = Ok x"
    using h assms(2) by (auto simp: replica_sendDigests_def Let_def split: option.splits)
  then show ?thesis using that by auto
qed

end

text \<open>
  A storage type whose deltas change the metadata of one key only. Then the hash map holds,
  for every non-empty key, exactly the metadata of the storage: the entry's, or else the
  tombstone's.
\<close>

definition meta_of :: "'s mergeable \<Rightarrow> 's \<Rightarrow> bytes \<Rightarrow> bytes option" where
  "meta_of M s k = (case mEntryMeta M s k of Some m \<Rightarrow> Some m | None \<Rightarrow> mTombstoneMeta M s k)"

definition tracked :: "'s mergeable \<Rightarrow> 's replica \<Rightarrow> bool" where
  "tracked M r \<longleftrightarrow> (\<forall>k. k \<noteq> [] \<longrightarrow> merkleMap_Get (rMerkle r) k = meta_of M (rData r) k)"

lemma trackKey_Get:
  "merkleMap_Get (rMerkle (replica_trackKey mh M r k)) =
     (merkleMap_Get (rMerkle r))((if k = [] then [0] else k) := meta_of M (rData r) (if k = [] then [0] else k))"
  by (auto simp: replica_trackKey_def meta_of_def Let_def Get_Put Get_Delete fun_eq_iff split: option.splits)

lemma tracked_change:
  assumes "tracked M r" "\<And>k. k \<noteq> key \<Longrightarrow> meta_of M s k = meta_of M (rData r) k"
  shows "tracked M (replica_trackKey mh M (r\<lparr>rData := s, rReceived := rc\<rparr>) key)"
  using assms by (auto simp: tracked_def trackKey_Get)

locale tracked_storage = storage +
  assumes parse_pure: "fst (mParseDelta M s delta) = s"
    and apply_other: "inv s \<Longrightarrow> snd (mParseDelta M s delta) = Ok info \<Longrightarrow> k \<noteq> diKey info \<Longrightarrow>
      meta_of M (fst (mApply M s delta)) k = meta_of M s k"
    and apply_failed: "snd (mApply M s delta) \<noteq> Ok () \<Longrightarrow> fst (mApply M s delta) = s"
begin

lemma applyDelta_tracked:
  assumes r: "replica_inv mh r" and t: "tracked M r"
  shows "tracked M (fst (replica_applyDelta mh M r from dot delta))"
proof (cases "snd (mParseDelta M (rData r) delta)")
  case (Ok info)
  have p: "mParseDelta M (rData r) delta = (rData r, Ok info)"
    using parse_pure [of "rData r" delta] Ok by (cases "mParseDelta M (rData r) delta") auto
  have inv: "inv (rData r)" using r by (simp add: replica_inv_def)
  obtain s a where sa: "mApply M (rData r) delta = (s, a)" by fastforce
  have other: "meta_of M s k = meta_of M (rData r) k" if "k \<noteq> diKey info" for k
    using apply_other [OF inv Ok that] sa by simp
  have fail: "a = Ok () \<or> s = rData r" using apply_failed [of "rData r" delta] sa by auto
  have same: "tracked M (replica_trackKey mh M (r\<lparr>rReceived := rc\<rparr>) k)" for rc k
    using tracked_change [OF t, of k "rData r" mh rc] by simp
  show ?thesis
    unfolding applyDelta_parsed [OF p] using same tracked_change [OF t other] fail t sa
    by (auto split: go.splits)
next
  case (Err e)
  then have "mParseDelta M (rData r) delta = (rData r, Err e)"
    using parse_pure [of "rData r" delta] by (cases "mParseDelta M (rData r) delta") auto
  with t show ?thesis by (simp add: applyDelta_rejected)
next
  case Panic
  then have "mParseDelta M (rData r) delta = (rData r, Panic)"
    using parse_pure [of "rData r" delta] by (cases "mParseDelta M (rData r) delta") auto
  with t show ?thesis by (simp add: replica_applyDelta_def)
qed

text \<open>Whatever arrives, a message keeps the storage invariant and the hash map in step with the storage.\<close>

lemma receive_tracked:
  assumes r: "replica_inv mh r" and t: "tracked M r" and rcv: "replica_receive mh M from m r = Ok r'"
  shows "replica_inv mh r' \<and> tracked M r'"
proof -
  obtain out where h: "replica_handleMessage mh M r from (tmDot m) (tmDelta m) = Ok (r', out)"
    using rcv by (cases "replica_handleMessage mh M r from (tmDot m) (tmDelta m)") (auto simp: replica_receive_def)
  obtain mm h' where mm: "merkleMap_Hash mh (rMerkle r) = Ok (mm, h')" "mmEntries mm = mmEntries (rMerkle r)"
    using Hash_spec [of mh "rMerkle r"] r unfolding replica_inv_def by metis
  have digest: "tracked M r'" if d: "replica_handleSyncDigest mh M r from p = Ok (r', out)" for p
  proof (cases "decodeAEDigest p")
    case (Ok q)
    obtain ph hwm where q: "q = (ph, hwm)" by (cases q)
    have "r' = r\<lparr>rPeerHWMs := mput from hwm (rPeerHWMs r), rMerkle := mm\<rparr>"
      using d Ok mm(1) by (auto simp: q replica_handleSyncDigest_def Let_def split: if_splits)
    with t mm(2) show ?thesis by (simp add: tracked_def merkleMap_Get_def)
  qed (use d t in \<open>auto simp: replica_handleSyncDigest_def\<close>)
  have "tracked M r'"
    using h t applyDelta_tracked [OF r t] digest
    by (auto simp: replica_handleMessage_def Let_def split: list.splits if_splits prod.splits go.splits) (metis fst_conv)+
  with handleMessage_inv [OF r h] show ?thesis by simp
qed

lemma receive_all_tracked:
  "replica_inv mh r \<Longrightarrow> tracked M r \<Longrightarrow> receive_all mh M ms r = Ok r' \<Longrightarrow> replica_inv mh r' \<and> tracked M r'"
proof (induction ms arbitrary: r)
  case (Cons x ms)
  obtain i m where x: "x = (i, m)" by (cases x)
  obtain r1 where r1: "replica_receive mh M i m r = Ok r1" "receive_all mh M ms r1 = Ok r'"
    using Cons.prems(3) by (cases "replica_receive mh M i m r") (auto simp: x)
  from receive_tracked [OF Cons.prems(1,2) r1(1)] Cons.IH [of r1] r1(2) show ?case by blast
qed simp

text \<open>Two tracked replicas with different hash-map entries differ in metadata, and conversely.\<close>

lemma divergent_meta:
  assumes "replica_inv mh r" "replica_inv mh' r'" "tracked M r" "tracked M r'" "k \<noteq> []"
  shows "merkleMap_Get (rMerkle r) k \<noteq> merkleMap_Get (rMerkle r') k
     \<longleftrightarrow> meta_of M (rData r) k \<noteq> meta_of M (rData r') k"
  using assms by (simp add: tracked_def)

end

end
