(* ===== verification/Cluster.thy ===== *)
theory Cluster
  imports Replica
begin

text \<open>
  A cluster of replicas of one storage type, each with its own hash seed, over a network that may
  lose, repeat, delay and reorder messages: the steps are the operations of the public type (the relation \<open>local\<close>), the
  ticks of anti-entropy and the message handler. A message once sent may be received any number
  of times, or never. The ghost \<open>netGhost\<close> is the history a property speaks about. The locale
  \<open>cluster_protocol\<close> states what a storage type owes such a cluster, and shows that what
  it promises of one replica and of one payload holds in every reachable state.
\<close>

section \<open>Definitions\<close>

text \<open>
  The anti-entropy loop of a replica runs: \<^verbatim>\<open>newReplica\<close> starts it where there is a transport and a positive interval,
  and \<^verbatim>\<open>Close\<close> stops it. The message handler is registered where there is a transport.
\<close>

definition ticking :: "'s replica \<Rightarrow> bool" where
  "ticking r \<longleftrightarrow> rTransport r \<and> rAeStop r = Some False"

record ('s, 'g) net =
  netNodes :: "ReplicaID \<Rightarrow> 's replica"
  netSent :: "(ReplicaID \<times> ReplicaID \<times> TransportMessage) set"
  netGhost :: 'g

definition net_send :: "ReplicaID \<Rightarrow> sends \<Rightarrow> (ReplicaID \<times> ReplicaID \<times> TransportMessage) set" where
  "net_send i out = {(i, p, m) | p m. (p, m) \<in> set out}"

text \<open>The state after replica \<open>i\<close> has become \<open>r\<close> and handed \<open>out\<close> to the transport.\<close>

definition net_step :: "ReplicaID \<Rightarrow> 's replica \<Rightarrow> sends \<Rightarrow> ('s, 'g) net \<Rightarrow> ('s, 'g) net" where
  "net_step i r out s = s\<lparr>netNodes := (netNodes s)(i := r), netSent := netSent s \<union> net_send i out\<rparr>"

inductive cluster ::
    "(ReplicaID \<Rightarrow> maphash) \<Rightarrow> 's mergeable \<Rightarrow> (ReplicaID \<Rightarrow> 's replica \<Rightarrow> bool) \<Rightarrow> 'g \<Rightarrow>
     (ReplicaID \<Rightarrow> 'g \<Rightarrow> 's replica \<Rightarrow> 'g \<Rightarrow> 's replica \<Rightarrow> sends \<Rightarrow> bool) \<Rightarrow> ('s, 'g) net \<Rightarrow> bool"
  for mh M fresh g0 local where
  cluster_new: "\<lbrakk>\<And>i. fresh i (nodes i)\<rbrakk> \<Longrightarrow>
    cluster mh M fresh g0 local \<lparr>netNodes = nodes, netSent = {}, netGhost = g0\<rparr>"
| cluster_local: "\<lbrakk>cluster mh M fresh g0 local s; local i (netGhost s) (netNodes s i) g r out\<rbrakk> \<Longrightarrow>
    cluster mh M fresh g0 local (net_step i r out (s\<lparr>netGhost := g\<rparr>))"
| cluster_tick: "\<lbrakk>cluster mh M fresh g0 local s; replica_sendDigests (mh i) M (netNodes s i) = Ok (r, out);
    ticking (netNodes s i)\<rbrakk> \<Longrightarrow>
    cluster mh M fresh g0 local (net_step i r out s)"
| cluster_receive: "\<lbrakk>cluster mh M fresh g0 local s; (i, p, m) \<in> netSent s;
    replica_handleMessage (mh p) M (netNodes s p) i (tmDot m) (tmDelta m) = Ok (r, out); rTransport (netNodes s p)\<rbrakk> \<Longrightarrow>
    cluster mh M fresh g0 local (net_step p r out s)"


lemma net_step_simps [simp]:
  "netNodes (net_step i r out s) = (netNodes s)(i := r)"
  "netSent (net_step i r out s) = netSent s \<union> net_send i out"
  "netGhost (net_step i r out s) = netGhost s"
  by (simp_all add: net_step_def)

lemma net_send_iff [simp]: "(i, p, m) \<in> net_send j out \<longleftrightarrow> i = j \<and> (p, m) \<in> set out"
  by (auto simp: net_send_def)

lemma mkDot_collapse [simp]: "mkDot (Replica d) (Counter d) = d"
  by (cases d) simp

text \<open>The counter after one that does not wrap around.\<close>

lemma next_counter:
  fixes n :: u64
  assumes "n + 1 \<noteq> 0"
  shows "n < n + 1" "m \<le> n \<Longrightarrow> m \<le> n + 1" "m \<le> n + 1 \<Longrightarrow> m \<noteq> n + 1 \<Longrightarrow> m \<le> n"
proof -
  have "n \<noteq> - 1" using assms by auto
  then show "n < n + 1" by (rule less_plus_one)
  then show "m \<le> n \<Longrightarrow> m \<le> n + 1" by (meson less_imp_le order_trans)
  have suc: "unat (n + 1) = Suc (unat n)" using unatSuc [of n] assms by (simp add: add.commute)
  assume "m \<le> n + 1" "m \<noteq> n + 1"
  then have "m < n + 1" by simp
  then show "m \<le> n" by (simp add: word_less_nat_alt word_le_nat_alt suc)
qed

section \<open>What a replica sends\<close>

lemma propagate_sends: "(p, m) \<in> set (fst (replica_propagate r d delta)) \<Longrightarrow> tmDelta m = tagDelta delta"
  by (auto simp: replica_propagate_def Let_def split: option.splits if_splits)

lemma handleSyncDigest_sends:
  assumes "replica_handleSyncDigest mh M r from payload = Ok (r', out)"
  shows "rData r' = rData r" "rLocal r' = rLocal r" "rReceived r' = rReceived r" "rStrategy r' = rStrategy r"
    "\<forall>(p, m) \<in> set out. \<exists>hwm. \<exists>d \<in> set (mDeltasSince M (rData r) hwm). tmDelta m = tagDelta d"
proof -
  have "rData r' = rData r \<and> rLocal r' = rLocal r \<and> rReceived r' = rReceived r \<and> rStrategy r' = rStrategy r \<and>
    (\<forall>(p, m) \<in> set out. \<exists>hwm. \<exists>d \<in> set (mDeltasSince M (rData r) hwm). tmDelta m = tagDelta d)"
  proof (cases "decodeAEDigest payload")
    case (Ok x)
    obtain h hwm where x: "x = (h, hwm)" by (cases x)
    with assms Ok obtain mm h' where mm: "merkleMap_Hash mh (rMerkle r) = Ok (mm, h')"
      by (auto simp: replica_handleSyncDigest_def Let_def go_simps)
    have "r' = r\<lparr>rPeerHWMs := mput from hwm (rPeerHWMs r), rMerkle := mm\<rparr>"
      "out = [] \<or> out = map (\<lambda>d. (from, \<lparr>tmFrom = 0, tmDot = mkDot 0 0, tmDelta = tagDelta d, tmAck = False\<rparr>)) (mDeltasSince M (rData r) hwm)"
      using assms Ok x mm by (auto simp: replica_handleSyncDigest_def Let_def split: if_splits)
    then show ?thesis by auto blast
  qed (use assms in \<open>auto simp: replica_handleSyncDigest_def\<close>)
  then show "rData r' = rData r" "rLocal r' = rLocal r" "rReceived r' = rReceived r" "rStrategy r' = rStrategy r"
    "\<forall>(p, m) \<in> set out. \<exists>hwm. \<exists>d \<in> set (mDeltasSince M (rData r) hwm). tmDelta m = tagDelta d"
    by simp_all
qed

lemma sendDigests_sends:
  assumes "replica_sendDigests mh M r = Ok (r', out)"
  shows "rLocal r' = rLocal r" "rReceived r' = rReceived r" "rStrategy r' = rStrategy r"
    "rData r' = rData r \<or> (\<exists>gc hwm. mGCTombstones M = Some gc \<and> rData r' = gc (rData r) hwm)"
    "\<forall>(p, m) \<in> set out. \<exists>p. tmDelta m = msgAEDigest # p"
proof -
  have "(rLocal r' = rLocal r \<and> rReceived r' = rReceived r \<and> rStrategy r' = rStrategy r) \<and>
    (rData r' = rData r \<or> (\<exists>gc hwm. mGCTombstones M = Some gc \<and> rData r' = gc (rData r) hwm)) \<and>
    (\<forall>(p, m) \<in> set out. \<exists>p. tmDelta m = msgAEDigest # p)"
  proof (cases "rTopology r = None \<or> rTopology r = Some []")
    case True
    with assms show ?thesis by (auto simp: replica_sendDigests_def)
  next
    case False
    then obtain p ps where t: "rTopology r = Some (p # ps)" by (cases "rTopology r") (auto simp: neq_Nil_conv)
    with assms obtain mm h where h: "merkleMap_Hash mh (rMerkle r) = Ok (mm, h)"
      by (auto simp: replica_sendDigests_def go_simps)
    show ?thesis
      using assms t h by (cases "mGCTombstones M"; cases "rPeerHWMs r = []")
        (auto simp: replica_sendDigests_def Let_def encodeAEDigest_def split: if_splits)
  qed
  then show "rLocal r' = rLocal r" "rReceived r' = rReceived r" "rStrategy r' = rStrategy r"
    "rData r' = rData r \<or> (\<exists>gc hwm. mGCTombstones M = Some gc \<and> rData r' = gc (rData r) hwm)"
    "\<forall>(p, m) \<in> set out. \<exists>p. tmDelta m = msgAEDigest # p"
    by simp_all
qed

section \<open>The contract of a storage type in a cluster\<close>

text \<open>
  \<open>P\<close> is promised of every replica, over its local clock, received clock and storage, and
  \<open>payload\<close> of every delta in flight; both may mention the ghost. Operations of one replica
  keep the promises of the others.
\<close>

locale cluster_protocol = storage M inv for M :: "'s mergeable" and inv +
  fixes mh :: "ReplicaID \<Rightarrow> maphash" and strategy :: clock and fresh :: "ReplicaID \<Rightarrow> 's replica \<Rightarrow> bool" and g0 :: 'g
    and local :: "ReplicaID \<Rightarrow> 'g \<Rightarrow> 's replica \<Rightarrow> 'g \<Rightarrow> 's replica \<Rightarrow> sends \<Rightarrow> bool"
    and P :: "'g \<Rightarrow> ReplicaID \<Rightarrow> localClock \<Rightarrow> receivedClock \<Rightarrow> 's \<Rightarrow> bool"
    and payload :: "'g \<Rightarrow> bytes \<Rightarrow> bool"
  assumes fresh_ok: "fresh i r \<Longrightarrow> replica_inv (mh i) r \<and> rStrategy r = strategy \<and> P g0 i (rLocal r) (rReceived r) (rData r)"
    and local_ok: "replica_inv (mh i) r \<Longrightarrow> rStrategy r = strategy \<Longrightarrow> P g i (rLocal r) (rReceived r) (rData r) \<Longrightarrow>
      local i g r g' r' out \<Longrightarrow>
      replica_inv (mh i) r' \<and> rStrategy r' = strategy \<and> P g' i (rLocal r') (rReceived r') (rData r') \<and>
      (\<forall>(p, m) \<in> set out. \<exists>d. tmDelta m = tagDelta d \<and> payload g' d)"
    and local_others: "P g i (rLocal r) (rReceived r) (rData r) \<Longrightarrow> local i g r g' r' out \<Longrightarrow> j \<noteq> i \<Longrightarrow> P g j lc rc s \<Longrightarrow> P g' j lc rc s"
    and local_payload: "P g i (rLocal r) (rReceived r) (rData r) \<Longrightarrow> local i g r g' r' out \<Longrightarrow> payload g d \<Longrightarrow> payload g' d"
    and apply_ok: "replica_inv (mh i) r \<Longrightarrow> rStrategy r = strategy \<Longrightarrow> P g i (rLocal r) (rReceived r) (rData r) \<Longrightarrow> payload g d \<Longrightarrow>
      r' = fst (replica_applyDelta (mh i) M r 0 (mkDot 0 0) d) \<Longrightarrow> P g i (rLocal r) (rReceived r') (rData r')"
    and collect_ok: "mGCTombstones M = Some gc \<Longrightarrow> inv s \<Longrightarrow> P g i lc rc s \<Longrightarrow> P g i lc rc (gc s hwm)"
    and answer_ok: "inv s \<Longrightarrow> P g i lc rc s \<Longrightarrow> d \<in> set (mDeltasSince M s hwm) \<Longrightarrow> payload g d"
begin

definition node_ok :: "'g \<Rightarrow> ReplicaID \<Rightarrow> 's replica \<Rightarrow> bool" where
  "node_ok g i r \<longleftrightarrow> replica_inv (mh i) r \<and> rStrategy r = strategy \<and> P g i (rLocal r) (rReceived r) (rData r)"

definition msg_ok :: "'g \<Rightarrow> TransportMessage \<Rightarrow> bool" where
  "msg_ok g m \<longleftrightarrow> (\<exists>d. tmDelta m = tagDelta d \<and> payload g d) \<or> (\<exists>p. tmDelta m = msgAEDigest # p)"

definition net_ok :: "('s, 'g) net \<Rightarrow> bool" where
  "net_ok s \<longleftrightarrow> (\<forall>i. node_ok (netGhost s) i (netNodes s i)) \<and> (\<forall>(i, p, m) \<in> netSent s. msg_ok (netGhost s) m)"

lemma net_okD: "net_ok s \<Longrightarrow> node_ok (netGhost s) i (netNodes s i)"
  "net_ok s \<Longrightarrow> (i, p, m) \<in> netSent s \<Longrightarrow> msg_ok (netGhost s) m"
  by (auto simp: net_ok_def)

lemma node_digest:
  assumes "node_ok g i r" "replica_handleSyncDigest (mh i) M r from payload' = Ok (r', out)"
  shows "node_ok g i r' \<and> (\<forall>(p, m) \<in> set out. msg_ok g m)"
proof -
  note e = handleSyncDigest_sends [OF assms(2)]
  have r: "replica_inv (mh i) r" using assms(1) by (simp add: node_ok_def)
  then have inv: "inv (rData r)" by (simp add: replica_inv_def)
  have ans: "payload g d" if "d \<in> set (mDeltasSince M (rData r) hwm)" for d hwm
    using answer_ok [OF inv _ that, of g i "rLocal r" "rReceived r"] assms(1) by (simp add: node_ok_def)
  have "\<forall>(p, m) \<in> set out. msg_ok g m" using e(5) ans unfolding msg_ok_def by fast
  then show ?thesis using assms(1) handleSyncDigest_inv [OF r assms(2)] e by (simp add: node_ok_def)
qed

lemma node_delta:
  assumes "node_ok g i r" "payload g d"
  shows "node_ok g i (fst (replica_applyDelta (mh i) M r from dot d))"
  using assms apply_ok [OF _ _ _ assms(2) refl, of i r] applyDelta_inv [of "mh i" r "from" dot d] applyDelta_from [of "mh i" M r "from" dot d]
  by (simp add: node_ok_def)

lemma node_receive:
  assumes r: "node_ok g i r" and m: "msg_ok g m"
    and h: "replica_handleMessage (mh i) M r from (tmDot m) (tmDelta m) = Ok (r', out)"
  shows "node_ok g i r' \<and> (\<forall>(p, m) \<in> set out. msg_ok g m)"
  using m [unfolded msg_ok_def]
proof (elim disjE exE conjE)
  fix d
  assume "tmDelta m = tagDelta d" "payload g d"
  with h node_delta [OF r this(2), of "from" "tmDot m"] show ?thesis
    by (auto simp: tagDelta_def replica_handleMessage_def split: prod.splits go.splits)
next
  fix p
  assume "tmDelta m = msgAEDigest # p"
  with h have "replica_handleSyncDigest (mh i) M r from p = Ok (r', out)"
    by (simp add: replica_handleMessage_def msgAEDigest_def msgDelta_def)
  then show ?thesis by (rule node_digest [OF r])
qed

lemma node_tick:
  assumes r: "node_ok g i r" and t: "replica_sendDigests (mh i) M r = Ok (r', out)"
  shows "node_ok g i r' \<and> (\<forall>(p, m) \<in> set out. msg_ok g m)"
proof -
  have inv: "replica_inv (mh i) r" using r by (simp add: node_ok_def)
  then have "replica_inv (mh i) r'" using sendDigests_inv t by blast
  moreover have "P g i (rLocal r') (rReceived r') (rData r')"
    using r inv sendDigests_sends [OF t] collect_ok by (auto simp: node_ok_def replica_inv_def)
  ultimately show ?thesis
    using r sendDigests_sends [OF t] unfolding node_ok_def msg_ok_def by auto
qed

lemma node_local:
  assumes r: "node_ok g i r" and l: "local i g r g' r' out"
  shows "node_ok g' i r'" "\<forall>(p, m) \<in> set out. msg_ok g' m"
    "j \<noteq> i \<Longrightarrow> node_ok g j x \<Longrightarrow> node_ok g' j x" "msg_ok g m \<Longrightarrow> msg_ok g' m"
proof -
  have p: "replica_inv (mh i) r" "rStrategy r = strategy" "P g i (rLocal r) (rReceived r) (rData r)"
    using r by (auto simp: node_ok_def)
  show "node_ok g' i r'" using local_ok [OF p l] by (simp add: node_ok_def)
  show "\<forall>(p, m) \<in> set out. msg_ok g' m" using local_ok [OF p l] unfolding msg_ok_def by fast
  show "j \<noteq> i \<Longrightarrow> node_ok g j x \<Longrightarrow> node_ok g' j x" using local_others [OF p(3) l] by (simp add: node_ok_def)
  show "msg_ok g m \<Longrightarrow> msg_ok g' m" using local_payload [OF p(3) l] by (auto simp: msg_ok_def)
qed

lemma net_ok_step:
  assumes "net_ok s" "node_ok (netGhost s) i r" "\<forall>(p, m) \<in> set out. msg_ok (netGhost s) m"
  shows "net_ok (net_step i r out s)"
  using assms by (auto simp: net_ok_def)

theorem cluster_ok: "cluster mh M fresh g0 local s \<Longrightarrow> net_ok s"
proof (induction rule: cluster.induct)
  case (cluster_new nodes)
  then have "node_ok g0 i (nodes i)" for i using fresh_ok [of i "nodes i"] by (simp add: node_ok_def)
  then show ?case by (simp add: net_ok_def)
next
  case (cluster_local s i g r out)
  note n = node_local [OF net_okD(1) [OF cluster_local.IH] cluster_local.hyps(2)]
  have "net_ok (s\<lparr>netGhost := g, netNodes := (netNodes s)(i := r)\<rparr>)"
    using n net_okD [OF cluster_local.IH] by (auto simp: net_ok_def)
  with n(2) show ?case by (auto simp: net_ok_def)
next
  case (cluster_tick s i r out)
  from node_tick [OF net_okD(1) [OF cluster_tick.IH] cluster_tick.hyps(2)]
  show ?case using net_ok_step [OF cluster_tick.IH] by blast
next
  case (cluster_receive s i p m r out)
  from node_receive [OF net_okD(1) [OF cluster_receive.IH] net_okD(2) [OF cluster_receive.IH cluster_receive.hyps(2)] cluster_receive.hyps(3)]
  show ?case using net_ok_step [OF cluster_receive.IH] by blast
qed

text \<open>What the cluster's replicas and the deltas in flight can be relied on for.\<close>

lemma reachable:
  assumes "cluster mh M fresh g0 local s"
  shows "replica_inv (mh i) (netNodes s i)" "rStrategy (netNodes s i) = strategy"
    "P (netGhost s) i (rLocal (netNodes s i)) (rReceived (netNodes s i)) (rData (netNodes s i))"
  using net_okD(1) [OF cluster_ok [OF assms], of i] by (simp_all add: node_ok_def)

end

end
