(* ===== verification/GCounters.thy ===== *)
theory GCounters
  imports Replica
begin

text \<open>
  The grow-only counter: the storage type (\<^verbatim>\<open>gcounter.go\<close>) and the public type over a replica
  with the max-wins clock (\<^verbatim>\<open>node.go\<close>). Its view is the count per replica; a delivered delta
  joins one count, so the counter is an instance of \<open>delta_lattice\<close>.
\<close>

section \<open>Definitions\<close>

record gCounterState =
  gcCounts :: "(ReplicaID, u64) gomap"

definition newGCounterState :: gCounterState where
  "newGCounterState = \<lparr>gcCounts = []\<rparr>"

definition gCounterState_Increment :: "gCounterState \<Rightarrow> ReplicaID \<Rightarrow> u64 \<Rightarrow> gCounterState \<times> bytes" where
  "gCounterState_Increment c replica amount =
     (let newCount = mget0 (gcCounts c) replica + amount in
      (c\<lparr>gcCounts := mput replica newCount (gcCounts c)\<rparr>, PutUint64 replica @ PutUint64 newCount))"

definition gCounterState_Set :: "gCounterState \<Rightarrow> ReplicaID \<Rightarrow> u64 \<Rightarrow> gCounterState" where
  "gCounterState_Set c replica cnt = c\<lparr>gcCounts := mput replica cnt (gcCounts c)\<rparr>"

definition gCounterState_Get :: "gCounterState \<Rightarrow> ReplicaID \<Rightarrow> u64" where
  "gCounterState_Get c replica = mget0 (gcCounts c) replica"

definition gCounterState_Range :: "gCounterState \<Rightarrow> (ReplicaID \<Rightarrow> u64 \<Rightarrow> 'x \<Rightarrow> 'x \<times> bool) \<Rightarrow> 'x \<Rightarrow> 'x" where
  "gCounterState_Range c fn x = rangeLoop (\<lambda>(r, v). fn r v) (gcCounts c) x"

definition gCounterState_Int64 :: "gCounterState \<Rightarrow> int" where
  "gCounterState_Int64 c = sint (fold (\<lambda>(_, v) tot. tot + v) (gcCounts c) 0)"

definition gCounterState_Len :: "gCounterState \<Rightarrow> nat" where
  "gCounterState_Len c = length (gcCounts c)"

definition formatReplicaKey :: "ReplicaID \<Rightarrow> bytes" where
  "formatReplicaKey rid = PutUint64 rid"

text \<open>The guard keeps \<^verbatim>\<open>binary.BigEndian.Uint64\<close> from panicking.\<close>

definition parseReplicaKey :: "bytes \<Rightarrow> ReplicaID" where
  "parseReplicaKey key =
     (if length key < 8 then 0 else case Uint64 key of Ok r \<Rightarrow> r | _ \<Rightarrow> 0)"

definition gCounterState_EntryMeta :: "gCounterState \<Rightarrow> bytes \<Rightarrow> bytes option" where
  "gCounterState_EntryMeta c key =
     (case mget (gcCounts c) (parseReplicaKey key) of None \<Rightarrow> None | Some cnt \<Rightarrow> Some (PutUint64 cnt))"

definition gCounterState_TombstoneMeta :: "gCounterState \<Rightarrow> bytes \<Rightarrow> bytes option" where
  "gCounterState_TombstoneMeta c key = None"

definition gCounterState_ParseDelta :: "gCounterState \<Rightarrow> bytes \<Rightarrow> deltaInfo go" where
  "gCounterState_ParseDelta c delta =
     (if length delta < 16 then Err ErrShortBuffer
      else go_bind (Uint64 (take 8 delta)) (\<lambda>replica. go_bind (Uint64 (take 8 (drop 8 delta))) (\<lambda>cnt.
        Ok \<lparr>diOp = 0, diKey = formatReplicaKey replica, diMeta = take 8 (drop 8 delta),
            diContext = None, diDots = [mkDot replica cnt]\<rparr>)))"

definition gCounterState_Apply :: "gCounterState \<Rightarrow> bytes \<Rightarrow> gCounterState \<times> unit go" where
  "gCounterState_Apply c delta =
     (if length delta < 16 then (c, Err ErrShortBuffer)
      else case (Uint64 (take 8 delta), Uint64 (take 8 (drop 8 delta))) of
        (Ok replica, Ok cnt) \<Rightarrow> (c\<lparr>gcCounts := mput replica cnt (gcCounts c)\<rparr>, Ok ())
      | _ \<Rightarrow> (c, Panic))"

definition gCounterState_DeltasSince :: "gCounterState \<Rightarrow> VClock \<Rightarrow> bytes list" where
  "gCounterState_DeltasSince c peerHWM =
     concat (map (\<lambda>(replica, cnt).
       if cnt > VClock_Get peerHWM replica then [PutUint64 replica @ PutUint64 cnt] else []) (gcCounts c))"

definition gCounterM :: "gCounterState mergeable" where
  "gCounterM = \<lparr>mEntryMeta = gCounterState_EntryMeta, mTombstoneMeta = gCounterState_TombstoneMeta,
     mParseDelta = (\<lambda>c d. (c, gCounterState_ParseDelta c d)), mApply = gCounterState_Apply,
     mDeltasSince = gCounterState_DeltasSince, mGCTombstones = None\<rparr>"

subsection \<open>The public type (node.go)\<close>

type_synonym GCounter = "gCounterState replica"

definition NewGCounter :: "maphash \<Rightarrow> ReplicaID \<Rightarrow> Option list \<Rightarrow> GCounter" where
  "NewGCounter mh rid opts = newReplica mh rid newGCounterState maxWinsClock opts"

definition GCounter_Increment :: "maphash \<Rightarrow> GCounter \<Rightarrow> u64 \<Rightarrow> GCounter \<times> sends \<times> WriteResult" where
  "GCounter_Increment mh c amount =
     (let rid = localClock_Replica (rLocal c);
          (s, delta) = gCounterState_Increment (rData c) rid amount;
          newCount = gCounterState_Get s rid;
          c = c\<lparr>rData := s, rLocal := localClock_SetCounter (rLocal c) newCount,
                rReceived := receivedClock_Record (rReceived c) rid newCount\<rparr>;
          c = replica_trackKey mh gCounterM c (formatReplicaKey rid)
      in (c, replica_propagate c (mkDot rid newCount) delta))"

definition GCounter_Int64 :: "GCounter \<Rightarrow> int" where
  "GCounter_Int64 c = gCounterState_Int64 (rData c)"

definition GCounter_Close :: "GCounter \<Rightarrow> GCounter" where
  "GCounter_Close m = replica_Close m"

section \<open>Keys and deltas\<close>

lemma parse_format [simp]: "parseReplicaKey (formatReplicaKey r) = r"
  by (simp add: parseReplicaKey_def formatReplicaKey_def)

lemma format_nonempty [simp]: "formatReplicaKey r \<noteq> []"
  by (metis formatReplicaKey_def length_PutUint64 list.size(3) zero_neq_numeral)

lemma ParseDelta_encoded [wire_simps]:
  "gCounterState_ParseDelta c (PutUint64 r @ PutUint64 n) =
     Ok \<lparr>diOp = 0, diKey = formatReplicaKey r, diMeta = PutUint64 n, diContext = None, diDots = [mkDot r n]\<rparr>"
  by (simp add: gCounterState_ParseDelta_def)

lemma Apply_encoded [wire_simps]:
  "gCounterState_Apply c (PutUint64 r @ PutUint64 n) = (c\<lparr>gcCounts := mput r n (gcCounts c)\<rparr>, Ok ())"
  by (simp add: gCounterState_Apply_def)

text \<open>Every delta that does not fail to parse is the encoding of a pair, plus bytes that are ignored.\<close>

lemma ParseDelta_total:
  "gCounterState_ParseDelta c delta \<noteq> Panic \<and> snd (gCounterState_Apply c delta) \<noteq> Panic"
  by (auto simp: gCounterState_ParseDelta_def gCounterState_Apply_def Uint64_def)

section \<open>The total\<close>

lemma sum_mput_fresh:
  fixes m :: "(ReplicaID, u64) gomap"
  assumes "k \<notin> fst ` set m"
  shows "(\<Sum>r\<in>UNIV. mget0 ((k, v) # m) r) = v + (\<Sum>r\<in>UNIV. mget0 m r)"
proof -
  have "(\<Sum>r\<in>UNIV. mget0 ((k, v) # m) r) = v + (\<Sum>r\<in>UNIV - {k}. mget0 ((k, v) # m) r)"
    by (subst sum.remove [of UNIV k]) (auto simp: mget0_Cons)
  also have "(\<Sum>r\<in>UNIV - {k}. mget0 ((k, v) # m) r) = (\<Sum>r\<in>UNIV - {k}. mget0 m r)"
    by (rule sum.cong) (auto simp: mget0_Cons)
  also have "\<dots> = (\<Sum>r\<in>UNIV. mget0 m r)"
    using mget0_fresh [OF assms] by (subst sum.remove [of UNIV k]) auto
  finally show ?thesis .
qed

lemma total_fold:
  fixes m :: "(ReplicaID, u64) gomap"
  shows "wf_map m \<Longrightarrow> fold (\<lambda>(_, v) tot. tot + v) m (x :: u64) = x + (\<Sum>r\<in>UNIV. mget0 m r)"
proof (induction m arbitrary: x)
  case (Cons p m)
  obtain k v where p: "p = (k, v)" by (cases p)
  with Cons.prems have k: "k \<notin> fst ` set m" "wf_map m" by (auto simp: wf_map_Cons)
  show ?case using Cons.IH [OF k(2), of "x + v"] sum_mput_fresh [OF k(1), of v] p by (simp add: add.assoc)
qed simp

lemma Int64_sum: "wf_map (gcCounts c) \<Longrightarrow> gCounterState_Int64 c = sint (\<Sum>r\<in>UNIV. gCounterState_Get c r)"
  by (simp add: gCounterState_Int64_def total_fold gCounterState_Get_def)

section \<open>Delivery\<close>

definition gc_inv :: "maphash \<Rightarrow> GCounter \<Rightarrow> bool" where
  "gc_inv mh c \<longleftrightarrow> wf_map (gcCounts (rData c)) \<and> rc_inv (rReceived c) \<and> mm_inv mh (rMerkle c) \<and>
     wf_map (rPeerHWMs c) \<and> rStrategy c = maxWinsClock"

definition gc_view :: "GCounter \<Rightarrow> ReplicaID \<Rightarrow> u64" where
  "gc_view c r = gCounterState_Get (rData c) r"

definition gc_delta :: "ReplicaID \<times> u64 \<Rightarrow> bytes" where
  "gc_delta d = PutUint64 (fst d) @ PutUint64 (snd d)"

definition gc_deliver :: "maphash \<Rightarrow> ReplicaID \<times> u64 \<Rightarrow> GCounter \<Rightarrow> GCounter" where
  "gc_deliver mh d c = fst (replica_applyDelta mh gCounterM c 0 (mkDot 0 0) (gc_delta d))"

interpretation gcounter: storage gCounterM "\<lambda>c. wf_map (gcCounts c)"
  by unfold_locales (auto simp: gCounterM_def gCounterState_Apply_def split: go.splits)

lemma gc_inv_iff: "gc_inv mh c \<longleftrightarrow> gcounter.replica_inv mh c \<and> rStrategy c = maxWinsClock"
  by (auto simp: gc_inv_def gcounter.replica_inv_def)

lemma gCounterM_simps [simp]:
  "mEntryMeta gCounterM = gCounterState_EntryMeta" "mTombstoneMeta gCounterM = gCounterState_TombstoneMeta"
  "mParseDelta gCounterM = (\<lambda>c d. (c, gCounterState_ParseDelta c d))" "mApply gCounterM = gCounterState_Apply"
  "mDeltasSince gCounterM = gCounterState_DeltasSince" "mGCTombstones gCounterM = None"
  by (simp_all add: gCounterM_def)

lemma gc_allows:
  assumes "rStrategy c = maxWinsClock" "diKey info = formatReplicaKey r" "diMeta info = PutUint64 n"
  shows "rStrategy c (queryable_of gCounterM (rData c)) info \<longleftrightarrow>
    (case mget (gcCounts (rData c)) r of None \<Rightarrow> True | Some l \<Rightarrow> l < n)"
  using assms maxWinsClock_counts [OF assms(3), of "queryable_of gCounterM (rData c)" "mget (gcCounts (rData c)) r"]
  by (simp add: queryable_of_def gCounterState_EntryMeta_def map_option_case)

lemma gc_deliver_data:
  assumes "rStrategy c = maxWinsClock"
  shows "rData (gc_deliver mh (r, n) c) =
    (if (case mget (gcCounts (rData c)) r of None \<Rightarrow> True | Some l \<Rightarrow> l < n)
     then (rData c)\<lparr>gcCounts := mput r n (gcCounts (rData c))\<rparr> else rData c)"
proof -
  let ?info = "\<lparr>diOp = 0, diKey = formatReplicaKey r, diMeta = PutUint64 n, diContext = None, diDots = [mkDot r n]\<rparr>"
  have p: "mParseDelta gCounterM (rData c) (gc_delta (r, n)) = (rData c, Ok ?info)"
    by (simp add: gc_delta_def ParseDelta_encoded)
  have a: "rStrategy c (queryable_of gCounterM (rData c)) ?info \<longleftrightarrow>
      (case mget (gcCounts (rData c)) r of None \<Rightarrow> True | Some l \<Rightarrow> l < n)"
    by (rule gc_allows [OF assms]) simp_all
  show ?thesis
    unfolding gc_deliver_def applyDelta_data [OF p] a by (simp add: gc_delta_def Apply_encoded)
qed

lemma gc_deliver_view:
  assumes "gc_inv mh c"
  shows "gc_view (gc_deliver mh d c) k = (if k = fst d then max (gc_view c k) (snd d) else gc_view c k)"
proof (cases d)
  case (Pair r n)
  have "rStrategy c = maxWinsClock" using assms by (simp add: gc_inv_def)
  from gc_deliver_data [OF this, of mh r n] Pair show ?thesis
    by (auto simp: gc_view_def gCounterState_Get_def mget0_def max_def split: option.splits)
qed

lemma gc_deliver_inv: "gc_inv mh c \<Longrightarrow> gc_inv mh (gc_deliver mh d c)"
  by (simp add: gc_inv_iff gc_deliver_def gcounter.applyDelta_inv)

interpretation gcounter_sec: delta_lattice "gc_deliver mh" gc_view fst snd "\<lambda>_. True" "gc_inv mh" for mh
  by unfold_locales (auto simp: gc_deliver_inv gc_deliver_view)

lemma gc_inv_new: "MakeSeed mh \<noteq> 0 \<Longrightarrow> gc_inv mh (NewGCounter mh rid opts)"
  using received.inv_empty
  by (simp add: gc_inv_def NewGCounter_def newReplica_def newGCounterState_def mm_inv_new Let_def)

lemma gc_view_new: "gc_view (NewGCounter mh rid opts) = (\<lambda>_. 0)"
  by (simp add: gc_view_def NewGCounter_def newReplica_def newGCounterState_def gCounterState_Get_def Let_def fun_eq_iff)

lemma Int64_view: "gc_inv mh c \<Longrightarrow> GCounter_Int64 c = sint (\<Sum>r\<in>UNIV. gc_view c r)"
  by (simp add: GCounter_Int64_def gc_inv_def Int64_sum gc_view_def)

section \<open>Increments\<close>

lemma Increment_view:
  "gc_view (fst (GCounter_Increment mh c amount)) =
     (gc_view c)(lcReplica (rLocal c) := gc_view c (lcReplica (rLocal c)) + amount)"
  by (auto simp: GCounter_Increment_def gCounterState_Increment_def gCounterState_Get_def gc_view_def
      localClock_Replica_def Let_def mget0_mput fun_eq_iff)

lemma Increment_inv: "gc_inv mh c \<Longrightarrow> gc_inv mh (fst (GCounter_Increment mh c amount))"
  by (simp add: GCounter_Increment_def gCounterState_Increment_def Let_def gc_inv_iff)
    (rule gcounter.local_write_inv, auto simp: gcounter.replica_inv_def Record_spec)

lemma Increment_id: "lcReplica (rLocal (fst (GCounter_Increment mh c amount))) = lcReplica (rLocal c)"
  by (simp add: GCounter_Increment_def gCounterState_Increment_def Let_def localClock_SetCounter_def)

lemma Increment_sends:
  "(p, m) \<in> set (fst (snd (GCounter_Increment mh c amount))) \<Longrightarrow>
   tmDelta m = tagDelta (gc_delta (lcReplica (rLocal c), gc_view c (lcReplica (rLocal c)) + amount))"
  by (auto simp: GCounter_Increment_def gCounterState_Increment_def Let_def replica_propagate_def gc_delta_def
      localClock_Replica_def gCounterState_Get_def gc_view_def split: option.splits if_splits)

section \<open>Anti-entropy\<close>

lemma DeltasSince_gc:
  "gCounterState_DeltasSince c hwm = map gc_delta (filter (\<lambda>(r, n). n > VClock_Get hwm r) (gcCounts c))"
  by (simp add: gCounterState_DeltasSince_def concat_map_if gc_delta_def split_beta)

text \<open>
  Every recorded counter is covered by a count. This ties the high-water mark a replica
  advertises to what it really holds; an increment keeps it unless the count wraps.
\<close>

definition gc_covered :: "GCounter \<Rightarrow> bool" where
  "gc_covered c \<longleftrightarrow> (\<forall>r. \<forall>n \<in> seen (rReceived c) r. n \<le> gc_view c r)"

lemma gc_deliver_received:
  "rReceived (gc_deliver mh (r, n) c) = receivedClock_Record (rReceived c) r n"
proof -
  let ?info = "\<lparr>diOp = 0, diKey = formatReplicaKey r, diMeta = PutUint64 n, diContext = None, diDots = [mkDot r n]\<rparr>"
  have p: "mParseDelta gCounterM (rData c) (gc_delta (r, n)) = (rData c, Ok ?info)"
    by (simp add: gc_delta_def ParseDelta_encoded)
  have "snd (mApply gCounterM (rData c) (gc_delta (r, n))) = Ok ()"
    by (simp add: gc_delta_def Apply_encoded)
  from applyDelta_received [OF p this] show ?thesis by (simp add: gc_deliver_def)
qed

lemma gc_covered_deliver:
  assumes "gc_inv mh c" "gc_covered c"
  shows "gc_covered (gc_deliver mh d c)"
proof (cases d)
  case (Pair r n)
  have "rc_inv (rReceived c)" using assms(1) by (simp add: gc_inv_def)
  from Record_spec [OF this, of r n] assms Pair show ?thesis
    by (auto simp: gc_covered_def gc_deliver_received gc_deliver_view le_max_iff_disj split: if_splits)
qed

lemma gc_covered_Increment:
  assumes "gc_inv mh c" "gc_covered c"
    and "gc_view c (lcReplica (rLocal c)) \<le> gc_view c (lcReplica (rLocal c)) + amount"
  shows "gc_covered (fst (GCounter_Increment mh c amount))"
proof -
  let ?id = "lcReplica (rLocal c)"
  have rc: "rc_inv (rReceived c)" using assms(1) by (simp add: gc_inv_def)
  have rcv: "rReceived (fst (GCounter_Increment mh c amount)) =
      receivedClock_Record (rReceived c) ?id (gc_view c ?id + amount)"
    by (simp add: GCounter_Increment_def gCounterState_Increment_def Let_def localClock_Replica_def
        gCounterState_Get_def gc_view_def mget0_mput)
  have new: "n \<in> seen (rReceived c) r \<or> r = ?id \<and> n = gc_view c ?id + amount"
    if "n \<in> seen (rReceived (fst (GCounter_Increment mh c amount))) r" for n r
    using that Record_spec [OF rc, of ?id "gc_view c ?id + amount"] by (auto simp: rcv split: if_splits)
  have "n \<le> gc_view (fst (GCounter_Increment mh c amount)) r"
    if "n \<in> seen (rReceived (fst (GCounter_Increment mh c amount))) r" for n r
    using new [OF that] assms(2) order_trans [OF _ assms(3), of n] by (auto simp: gc_covered_def Increment_view)
  then show ?thesis by (simp add: gc_covered_def)
qed

lemma gc_covered_HWM:
  assumes "gc_inv mh c" "gc_covered c"
  shows "VClock_Get (receivedClock_HWM (rReceived c)) r \<le> gc_view c r"
proof -
  have rc: "rc_inv (rReceived c)" using assms(1) by (simp add: gc_inv_def)
  show ?thesis
    using assms(2) HWM_Get [OF rc, of r]
    by (cases "receivedClock_Get (rReceived c) r = 0") (auto simp: gc_covered_def seen_def word_gt_0)
qed

lemma gc_sync:
  assumes A: "wf_map (gcCounts (rData a))" and B: "gc_inv mh b"
    and hwm: "\<And>r. VClock_Get hwm r \<le> gc_view b r"
  shows "gc_view (fold (gc_deliver mh) (filter (\<lambda>(r, n). n > VClock_Get hwm r) (gcCounts (rData a))) b) k
    = max (gc_view a k) (gc_view b k)"
proof (rule eq_by_bounds)
  fix x
  let ?ds = "filter (\<lambda>(r, n). n > VClock_Get hwm r) (gcCounts (rData a))"
  have "(\<forall>d \<in> set ?ds. fst d = k \<longrightarrow> snd d \<le> x) \<longleftrightarrow> (\<forall>n. mget (gcCounts (rData a)) k = Some n \<longrightarrow> n > VClock_Get hwm k \<longrightarrow> n \<le> x)"
    using A by (auto simp: wf_map_mem)
  also have "\<dots> \<longleftrightarrow> gc_view a k \<le> VClock_Get hwm k \<or> gc_view a k \<le> x"
    by (cases "mget (gcCounts (rData a)) k") (auto simp: gc_view_def gCounterState_Get_def mget0_def)
  finally have ds: "(\<forall>d \<in> set ?ds. fst d = k \<longrightarrow> snd d \<le> x) \<longleftrightarrow> gc_view a k \<le> VClock_Get hwm k \<or> gc_view a k \<le> x" .
  have "list_all (\<lambda>_. True) ?ds" by (simp add: list_all_iff)
  from gcounter_sec.view_bound [OF B this, of k x] ds hwm [of k]
  show "gc_view (fold (gc_deliver mh) ?ds b) k \<le> x \<longleftrightarrow> max (gc_view a k) (gc_view b k) \<le> x"
    by auto
qed

lemma gc_delta_receive:
  "tmDelta m = tagDelta (gc_delta d) \<Longrightarrow> replica_receive mh gCounterM from m c = Ok (gc_deliver mh d c)"
proof -
  assume m: "tmDelta m = tagDelta (gc_delta d)"
  have "snd (replica_applyDelta mh gCounterM c 0 (mkDot 0 0) (gc_delta d)) = Ok ()"
    by (rule applyDelta_ok) (auto simp: gc_delta_def ParseDelta_encoded Apply_encoded)
  with receive_delta [OF m, of mh gCounterM c "from"] show ?thesis by (simp add: gc_deliver_def)
qed

lemma gc_receive_map:
  "receive_all mh gCounterM
     (map (\<lambda>d. (from, \<lparr>tmFrom = 0, tmDot = mkDot 0 0, tmDelta = tagDelta (gc_delta d), tmAck = False\<rparr>)) ds) c
   = Ok (fold (gc_deliver mh) ds c)"
  by (induction ds arbitrary: c) (simp_all add: gc_delta_receive)

section \<open>Properties\<close>

text \<open>
  C1: strong eventual consistency of the counter: two replicas that received the same deltas,
  in any order and any number of times, report the same total.
\<close>

theorem GCounter_converges:
  assumes "MakeSeed mh \<noteq> 0" "MakeSeed mh' \<noteq> 0" "set ds = set es"
  shows "GCounter_Int64 (fold (gc_deliver mh) ds (NewGCounter mh i opts))
    = GCounter_Int64 (fold (gc_deliver mh') es (NewGCounter mh' j opts'))"
proof -
  let ?a = "fold (gc_deliver mh) ds (NewGCounter mh i opts)"
  let ?b = "fold (gc_deliver mh') es (NewGCounter mh' j opts')"
  have all: "list_all (\<lambda>_. True) xs" for xs :: "(ReplicaID \<times> u64) list" by (simp add: list_all_iff)
  have "gc_view ?a = gc_view ?b"
    using gcounter_sec.view_of_set [OF gc_inv_new [OF assms(1)] all, of ds]
      gcounter_sec.view_of_set [OF gc_inv_new [OF assms(2)] all, of es] assms(3)
    by (simp add: gc_view_new)
  moreover have "gc_inv mh ?a" "gc_inv mh' ?b"
    using gcounter_sec.deliver_all [OF gc_inv_new all] assms(1,2) by blast+
  ultimately show ?thesis by (metis Int64_view)
qed

theorem GCounter_converges_witness:
  "GCounter_Int64 (fold (gc_deliver \<lparr>Sum64 = (\<lambda>s b. 0), MakeSeed = 1\<rparr>) [(1, 2), (2, 5), (1, 7)]
      (NewGCounter \<lparr>Sum64 = (\<lambda>s b. 0), MakeSeed = 1\<rparr> 3 []))
   = GCounter_Int64 (fold (gc_deliver \<lparr>Sum64 = (\<lambda>s b. 0), MakeSeed = 2\<rparr>) [(1, 7), (1, 2), (2, 5), (1, 2)]
      (NewGCounter \<lparr>Sum64 = (\<lambda>s b. 0), MakeSeed = 2\<rparr> 4 []))"
  by (rule GCounter_converges) auto

text \<open>
  C21: one round of anti-entropy brings a counter up to date: when replica \<open>b\<close> sends its digest
  and \<open>a\<close>, whose hash differs, answers, receiving the answer panics nowhere and makes \<open>b\<close> hold the larger count
  of the two for every replica.
\<close>

theorem GCounter_anti_entropy:
  assumes A: "gc_inv mh a" and B: "gc_inv mh' b" and cov: "gc_covered b"
    and len: "length (receivedClock_HWM (rReceived b)) < 2 ^ 32"
    and hash: "merkleMap_Hash mh (rMerkle a) = Ok (mm, h)" "h \<noteq> h'"
  shows "\<exists>a' out b'. replica_handleMessage mh gCounterM a j (mkDot 0 0)
        (encodeAEDigest h' (receivedClock_HWM (rReceived b))) = Ok (a', out) \<and>
      receive_all mh' gCounterM (map (\<lambda>(p, m). (i, m)) out) b = Ok b' \<and>
      (\<forall>k. gc_view b' k = max (gc_view a k) (gc_view b k))"
proof -
  let ?hwm = "receivedClock_HWM (rReceived b)"
  let ?ds = "filter (\<lambda>(r, n). n > VClock_Get (sorted_map ?hwm) r) (gcCounts (rData a))"
  have rc: "rc_inv (rReceived b)" using B by (simp add: gc_inv_def)
  have dec: "decodeAEDigest (PutUint64 h' @ encodeVClock ?hwm) = Ok (h', sorted_map ?hwm)"
    using decodeAEDigest_encode [OF pos_map_wf [OF HWM_pos [OF rc]] len, of h'] by (simp add: encodeAEDigest_def)
  have out: "\<exists>a'. replica_handleMessage mh gCounterM a j (mkDot 0 0) (encodeAEDigest h' ?hwm) =
      Ok (a', map (\<lambda>d. (j, \<lparr>tmFrom = 0, tmDot = mkDot 0 0, tmDelta = tagDelta (gc_delta d), tmAck = False\<rparr>)) ?ds)"
    using dec hash
    by (simp add: replica_handleMessage_def encodeAEDigest_def msgAEDigest_def msgDelta_def
        replica_handleSyncDigest_def DeltasSince_gc comp_def)
  have "VClock_Get (sorted_map ?hwm) r \<le> gc_view b r" for r
    using gc_covered_HWM [OF B cov, of r] by (simp add: VClock_Get_def)
  then have "gc_view (fold (gc_deliver mh') ?ds b) k = max (gc_view a k) (gc_view b k)" for k
    using A B by (intro gc_sync) (auto simp: gc_inv_def)
  with out show ?thesis by (auto simp: gc_receive_map comp_def)
qed

theorem GCounter_anti_entropy_witness:
  "\<exists>a' out b'. replica_handleMessage demo_hash gCounterM
        (fst (GCounter_Increment demo_hash (NewGCounter demo_hash 1 []) 5)) 2 (mkDot 0 0)
        (encodeAEDigest 0 (receivedClock_HWM (rReceived (NewGCounter demo_hash 2 [])))) = Ok (a', out) \<and>
      receive_all demo_hash gCounterM (map (\<lambda>(p, m). (1, m)) out) (NewGCounter demo_hash 2 []) = Ok b' \<and> gc_view b' 1 = 5"
proof -
  let ?a = "fst (GCounter_Increment demo_hash (NewGCounter demo_hash 1 []) 5)"
  let ?b = "NewGCounter demo_hash 2 []"
  have b: "gc_inv demo_hash ?b" and a: "gc_inv demo_hash ?a" by (simp_all add: gc_inv_new Increment_inv)
  have rcv: "rReceived ?b = newReceivedClock" by (simp add: NewGCounter_def newReplica_def Let_def)
  have cov: "gc_covered ?b" using received.arrived_empty by (simp add: gc_covered_def rcv)
  have len: "length (receivedClock_HWM (rReceived ?b)) < 2 ^ 32"
    by (simp add: rcv receivedClock_HWM_def newReceivedClock_def)
  have m: "mm_entries (rMerkle ?a) = [(formatReplicaKey 1, PutUint64 5)]"
    by (simp add: GCounter_Increment_def NewGCounter_def newReplica_def Let_def gCounterState_Increment_def
        replica_trackKey_def newMerkleMap_def merkleMap_Put_def newLocalClock_def localClock_Replica_def
        newGCounterState_def gCounterState_Get_def gCounterState_EntryMeta_def)
  obtain mm h where h: "merkleMap_Hash demo_hash (rMerkle ?a) = Ok (mm, h)" "h = root_hash demo_hash (mmSeed (rMerkle ?a)) (mm_entries (rMerkle ?a))"
    using Hash_spec [of demo_hash "rMerkle ?a"] a by (metis gc_inv_def)
  then have "h \<noteq> 0" by (simp add: m root_hash_def)
  have id: "lcReplica (rLocal (NewGCounter demo_hash 1 [])) = 1" by (simp add: NewGCounter_def)
  have "gc_view ?a 1 = 5" "gc_view ?b 1 = 0" by (simp_all add: Increment_view gc_view_new id)
  with GCounter_anti_entropy [OF a b cov len h(1) \<open>h \<noteq> 0\<close>, of 2 1] show ?thesis by fastforce
qed

end
