(* ===== verification/PNCounters.thy ===== *)
theory PNCounters
  imports Replica
begin

text \<open>
  The positive-negative counter: the storage type (\<^verbatim>\<open>pncounter.go\<close>) and the public type over a
  replica whose clock allows everything (\<^verbatim>\<open>node.go\<close>); the maximum is taken in \<open>Apply\<close>. The
  view is the count per side and replica.
\<close>

section \<open>Definitions\<close>

record pnEntry =
  pnCount :: u64
  pnDot :: Dot

record pnCounterState =
  pnPositive :: "(ReplicaID, pnEntry) gomap"
  pnNegative :: "(ReplicaID, pnEntry) gomap"

definition pnInc :: byte where "pnInc = 1"
definition pnDec :: byte where "pnDec = 2"

definition newPNCounterState :: pnCounterState where
  "newPNCounterState = \<lparr>pnPositive = [], pnNegative = []\<rparr>"

text \<open>The index expression of a map of entries: the zero entry for an absent replica.\<close>

definition pnIndex :: "(ReplicaID, pnEntry) gomap \<Rightarrow> ReplicaID \<Rightarrow> pnEntry" where
  "pnIndex m r = (case mget m r of None \<Rightarrow> \<lparr>pnCount = 0, pnDot = mkDot 0 0\<rparr> | Some e \<Rightarrow> e)"

definition encodePNDelta :: "byte \<Rightarrow> ReplicaID \<Rightarrow> u64 \<Rightarrow> Dot \<Rightarrow> bytes" where
  "encodePNDelta op replica cnt dot = [op] @ PutUint64 replica @ PutUint64 cnt @ encodeDot dot"

definition pnCounterState_Increment ::
    "pnCounterState \<Rightarrow> ReplicaID \<Rightarrow> u64 \<Rightarrow> Dot \<Rightarrow> pnCounterState \<times> bytes" where
  "pnCounterState_Increment c replica amount dot =
     (let e = pnIndex (pnPositive c) replica; e = e\<lparr>pnCount := pnCount e + amount\<rparr>; e = e\<lparr>pnDot := dot\<rparr>
      in (c\<lparr>pnPositive := mput replica e (pnPositive c)\<rparr>, encodePNDelta pnInc replica (pnCount e) dot))"

definition pnCounterState_Decrement ::
    "pnCounterState \<Rightarrow> ReplicaID \<Rightarrow> u64 \<Rightarrow> Dot \<Rightarrow> pnCounterState \<times> bytes" where
  "pnCounterState_Decrement c replica amount dot =
     (let e = pnIndex (pnNegative c) replica; e = e\<lparr>pnCount := pnCount e + amount\<rparr>; e = e\<lparr>pnDot := dot\<rparr>
      in (c\<lparr>pnNegative := mput replica e (pnNegative c)\<rparr>, encodePNDelta pnDec replica (pnCount e) dot))"

definition pnCounterState_SetPositive :: "pnCounterState \<Rightarrow> ReplicaID \<Rightarrow> u64 \<Rightarrow> pnCounterState" where
  "pnCounterState_SetPositive c replica cnt =
     (let e = (pnIndex (pnPositive c) replica)\<lparr>pnCount := cnt\<rparr> in c\<lparr>pnPositive := mput replica e (pnPositive c)\<rparr>)"

definition pnCounterState_SetNegative :: "pnCounterState \<Rightarrow> ReplicaID \<Rightarrow> u64 \<Rightarrow> pnCounterState" where
  "pnCounterState_SetNegative c replica cnt =
     (let e = (pnIndex (pnNegative c) replica)\<lparr>pnCount := cnt\<rparr> in c\<lparr>pnNegative := mput replica e (pnNegative c)\<rparr>)"

definition pnCounterState_GetPositive :: "pnCounterState \<Rightarrow> ReplicaID \<Rightarrow> u64" where
  "pnCounterState_GetPositive c replica = pnCount (pnIndex (pnPositive c) replica)"

definition pnCounterState_GetNegative :: "pnCounterState \<Rightarrow> ReplicaID \<Rightarrow> u64" where
  "pnCounterState_GetNegative c replica = pnCount (pnIndex (pnNegative c) replica)"

text \<open>Both sums wrap at 64 bits, and so does the difference of the two signed readings.\<close>

definition pnCounterState_Int64 :: "pnCounterState \<Rightarrow> int" where
  "pnCounterState_Int64 c =
     (let pos = fold (\<lambda>(_, e) pos. pos + pnCount e) (pnPositive c) 0;
          neg = fold (\<lambda>(_, e) neg. neg + pnCount e) (pnNegative c) 0
      in goint (sint pos - sint neg))"

definition pnCounterState_RangePositive ::
    "pnCounterState \<Rightarrow> (ReplicaID \<Rightarrow> u64 \<Rightarrow> 'x \<Rightarrow> 'x \<times> bool) \<Rightarrow> 'x \<Rightarrow> 'x" where
  "pnCounterState_RangePositive c fn x = rangeLoop (\<lambda>(r, e). fn r (pnCount e)) (pnPositive c) x"

definition pnCounterState_RangeNegative ::
    "pnCounterState \<Rightarrow> (ReplicaID \<Rightarrow> u64 \<Rightarrow> 'x \<Rightarrow> 'x \<times> bool) \<Rightarrow> 'x \<Rightarrow> 'x" where
  "pnCounterState_RangeNegative c fn x = rangeLoop (\<lambda>(r, e). fn r (pnCount e)) (pnNegative c) x"

definition pnCounterState_EntryMeta :: "pnCounterState \<Rightarrow> bytes \<Rightarrow> bytes option" where
  "pnCounterState_EntryMeta c key = None"

definition pnCounterState_TombstoneMeta :: "pnCounterState \<Rightarrow> bytes \<Rightarrow> bytes option" where
  "pnCounterState_TombstoneMeta c key = None"

definition pnCounterState_ParseDelta :: "pnCounterState \<Rightarrow> bytes \<Rightarrow> deltaInfo go" where
  "pnCounterState_ParseDelta c delta =
     (if length delta < 33 then Err ErrShortBuffer
      else go_bind (decodeDot (take 16 (drop 17 delta))) (\<lambda>dot.
        Ok \<lparr>diOp = delta ! 0, diKey = [], diMeta = [], diContext = None, diDots = [dot]\<rparr>))"

definition pnCounterState_Apply :: "pnCounterState \<Rightarrow> bytes \<Rightarrow> pnCounterState \<times> unit go" where
  "pnCounterState_Apply c delta =
     (if length delta < 33 then (c, Err ErrShortBuffer)
      else case go_bind (Uint64 (take 8 (drop 1 delta))) (\<lambda>replica. go_bind (Uint64 (take 8 (drop 9 delta))) (\<lambda>cnt.
          go_bind (decodeDot (take 16 (drop 17 delta))) (\<lambda>dot. Ok (replica, cnt, dot)))) of
        Err e \<Rightarrow> (c, Err e)
      | Panic \<Rightarrow> (c, Panic)
      | Ok (replica, cnt, dot) \<Rightarrow>
          if delta ! 0 = pnInc then
            (if cnt > pnCount (pnIndex (pnPositive c) replica)
             then (c\<lparr>pnPositive := mput replica \<lparr>pnCount = cnt, pnDot = dot\<rparr> (pnPositive c)\<rparr>, Ok ())
             else (c, Ok ()))
          else if delta ! 0 = pnDec then
            (if cnt > pnCount (pnIndex (pnNegative c) replica)
             then (c\<lparr>pnNegative := mput replica \<lparr>pnCount = cnt, pnDot = dot\<rparr> (pnNegative c)\<rparr>, Ok ())
             else (c, Ok ()))
          else (c, Err ErrUnknownOp))"

definition pnCounterState_DeltasSince :: "pnCounterState \<Rightarrow> VClock \<Rightarrow> bytes list" where
  "pnCounterState_DeltasSince c peerHWM =
     concat (map (\<lambda>(replica, e). if Counter (pnDot e) > VClock_Get peerHWM (Replica (pnDot e))
       then [encodePNDelta pnInc replica (pnCount e) (pnDot e)] else []) (pnPositive c)) @
     concat (map (\<lambda>(replica, e). if Counter (pnDot e) > VClock_Get peerHWM (Replica (pnDot e))
       then [encodePNDelta pnDec replica (pnCount e) (pnDot e)] else []) (pnNegative c))"

definition pnCounterM :: "pnCounterState mergeable" where
  "pnCounterM = \<lparr>mEntryMeta = pnCounterState_EntryMeta, mTombstoneMeta = pnCounterState_TombstoneMeta,
     mParseDelta = (\<lambda>c d. (c, pnCounterState_ParseDelta c d)), mApply = pnCounterState_Apply,
     mDeltasSince = pnCounterState_DeltasSince, mGCTombstones = None\<rparr>"

subsection \<open>The public type (node.go)\<close>

type_synonym PNCounter = "pnCounterState replica"

definition NewPNCounter :: "maphash \<Rightarrow> ReplicaID \<Rightarrow> Option list \<Rightarrow> PNCounter" where
  "NewPNCounter mh rid opts = newReplica mh rid newPNCounterState alwaysMergeClock opts"

definition PNCounter_Increment :: "maphash \<Rightarrow> PNCounter \<Rightarrow> u64 \<Rightarrow> PNCounter \<times> sends \<times> WriteResult" where
  "PNCounter_Increment mh c amount =
     (let (r, dot) = replica_nextDot c;
          (s, delta) = pnCounterState_Increment (rData r) (localClock_Replica (rLocal r)) amount dot;
          r = replica_trackKey mh pnCounterM (r\<lparr>rData := s\<rparr>) []
      in (r, replica_propagate r dot delta))"

definition PNCounter_Decrement :: "maphash \<Rightarrow> PNCounter \<Rightarrow> u64 \<Rightarrow> PNCounter \<times> sends \<times> WriteResult" where
  "PNCounter_Decrement mh c amount =
     (let (r, dot) = replica_nextDot c;
          (s, delta) = pnCounterState_Decrement (rData r) (localClock_Replica (rLocal r)) amount dot;
          r = replica_trackKey mh pnCounterM (r\<lparr>rData := s\<rparr>) []
      in (r, replica_propagate r dot delta))"

definition PNCounter_Int64 :: "PNCounter \<Rightarrow> int" where
  "PNCounter_Int64 c = pnCounterState_Int64 (rData c)"

definition PNCounter_Close :: "PNCounter \<Rightarrow> PNCounter" where
  "PNCounter_Close m = replica_Close m"

section \<open>The view and the deltas\<close>

text \<open>The key of a count: the side (\<open>True\<close> for positive) and the replica.\<close>

definition pn_view :: "PNCounter \<Rightarrow> bool \<times> ReplicaID \<Rightarrow> u64" where
  "pn_view c k = (if fst k then pnCounterState_GetPositive (rData c) (snd k)
                  else pnCounterState_GetNegative (rData c) (snd k))"

definition pn_wf :: "pnCounterState \<Rightarrow> bool" where
  "pn_wf c \<longleftrightarrow> wf_map (pnPositive c) \<and> wf_map (pnNegative c)"

text \<open>A delta: the key, the count and the dot.\<close>

type_synonym pn_delta = "(bool \<times> ReplicaID) \<times> u64 \<times> Dot"

definition pn_encode :: "pn_delta \<Rightarrow> bytes" where
  "pn_encode x = (case x of ((pos, r), n, d) \<Rightarrow> encodePNDelta (if pos then pnInc else pnDec) r n d)"

definition pn_deliver :: "maphash \<Rightarrow> pn_delta \<Rightarrow> PNCounter \<Rightarrow> PNCounter" where
  "pn_deliver mh x c = fst (replica_applyDelta mh pnCounterM c 0 (mkDot 0 0) (pn_encode x))"

lemma pnCounterM_simps [simp]:
  "mEntryMeta pnCounterM = pnCounterState_EntryMeta" "mTombstoneMeta pnCounterM = pnCounterState_TombstoneMeta"
  "mParseDelta pnCounterM = (\<lambda>c d. (c, pnCounterState_ParseDelta c d))" "mApply pnCounterM = pnCounterState_Apply"
  "mDeltasSince pnCounterM = pnCounterState_DeltasSince" "mGCTombstones pnCounterM = None"
  by (simp_all add: pnCounterM_def)

lemma pn_ops [simp]: "pnInc \<noteq> pnDec" "pnDec \<noteq> pnInc"
  by (simp_all add: pnInc_def pnDec_def)

lemma drop_PutUint64s [simp]:
  "drop 8 (PutUint64 a @ xs) = xs" "drop 16 (PutUint64 a @ PutUint64 b @ xs) = xs"
  by simp_all

lemma pn_read:
  "pnCounterState_ParseDelta c (encodePNDelta op r n d) =
     Ok \<lparr>diOp = op, diKey = [], diMeta = [], diContext = None, diDots = [d]\<rparr>"
  "pnCounterState_Apply c (encodePNDelta pnInc r n d) =
     (if n > pnCount (pnIndex (pnPositive c) r)
      then (c\<lparr>pnPositive := mput r \<lparr>pnCount = n, pnDot = d\<rparr> (pnPositive c)\<rparr>, Ok ()) else (c, Ok ()))"
  "pnCounterState_Apply c (encodePNDelta pnDec r n d) =
     (if n > pnCount (pnIndex (pnNegative c) r)
      then (c\<lparr>pnNegative := mput r \<lparr>pnCount = n, pnDot = d\<rparr> (pnNegative c)\<rparr>, Ok ()) else (c, Ok ()))"
  by (simp_all add: pnCounterState_ParseDelta_def pnCounterState_Apply_def encodePNDelta_def)

lemma pnIndex_mput: "pnIndex (mput r e m) r' = (if r' = r then e else pnIndex m r')"
  by (simp add: pnIndex_def)

interpretation pncounter: storage pnCounterM pn_wf
  by unfold_locales (auto simp: pnCounterState_Apply_def pn_wf_def split: go.splits)

definition pn_inv :: "maphash \<Rightarrow> PNCounter \<Rightarrow> bool" where
  "pn_inv mh c \<longleftrightarrow> pncounter.replica_inv mh c \<and> rStrategy c = alwaysMergeClock"

lemma pn_deliver_view:
  assumes "rStrategy c = alwaysMergeClock"
  shows "pn_view (pn_deliver mh x c) k = (if k = fst x then max (pn_view c k) (fst (snd x)) else pn_view c k)"
proof -
  obtain pos r n d where x: "x = ((pos, r), n, d)" by (cases x) auto
  have p: "mParseDelta pnCounterM (rData c) (pn_encode x) =
      (rData c, Ok \<lparr>diOp = (if pos then pnInc else pnDec), diKey = [], diMeta = [], diContext = None, diDots = [d]\<rparr>)"
    by (simp add: x pn_encode_def pn_read)
  have "rData (pn_deliver mh x c) = fst (pnCounterState_Apply (rData c) (pn_encode x))"
    unfolding pn_deliver_def applyDelta_data [OF p] assms by (simp add: alwaysMergeClock_def)
  then show ?thesis
    by (cases k) (auto simp: x pn_view_def pn_encode_def pn_read pnCounterState_GetPositive_def
        pnCounterState_GetNegative_def pnIndex_mput max_def)
qed

interpretation pncounter_sec: delta_lattice "pn_deliver mh" pn_view fst "\<lambda>x. fst (snd x)" "\<lambda>_. True" "pn_inv mh" for mh
proof
  fix c and x :: pn_delta and k
  assume c: "pn_inv mh c"
  show "pn_inv mh (pn_deliver mh x c)"
    using c by (simp add: pn_inv_def pn_deliver_def pncounter.applyDelta_inv)
  show "pn_view (pn_deliver mh x c) k = (if k = fst x then max (pn_view c k) (fst (snd x)) else pn_view c k)"
    using c by (intro pn_deliver_view) (simp add: pn_inv_def)
qed

section \<open>The total\<close>

lemma pn_sum_fresh:
  assumes "k \<notin> fst ` set m"
  shows "(\<Sum>r\<in>UNIV. pnCount (pnIndex ((k, v) # m) r)) = pnCount v + (\<Sum>r\<in>UNIV. pnCount (pnIndex m r))"
proof -
  have z: "pnCount (pnIndex m k) = 0" using assms map_of_eq_None_iff [of m k] by (simp add: pnIndex_def)
  have "(\<Sum>r\<in>UNIV. pnCount (pnIndex ((k, v) # m) r)) = pnCount v + (\<Sum>r\<in>UNIV - {k}. pnCount (pnIndex m r))"
    by (subst sum.remove [of UNIV k]) (auto simp: pnIndex_def intro!: sum.cong)
  also have "(\<Sum>r\<in>UNIV - {k}. pnCount (pnIndex m r)) = (\<Sum>r\<in>UNIV. pnCount (pnIndex m r))"
    using z by (subst sum.remove [of UNIV k]) auto
  finally show ?thesis .
qed

lemma pn_fold:
  "wf_map m \<Longrightarrow> fold (\<lambda>(_, e) s. s + pnCount e) m x = x + (\<Sum>r\<in>UNIV. pnCount (pnIndex m r))"
proof (induction m arbitrary: x)
  case (Cons p m)
  obtain k v where p: "p = (k, v)" by (cases p)
  with Cons.prems have k: "k \<notin> fst ` set m" "wf_map m" by (auto simp: wf_map_Cons)
  show ?case using Cons.IH [OF k(2), of "x + pnCount v"] pn_sum_fresh [OF k(1), of v] p by (simp add: add.assoc)
qed (simp add: pnIndex_def)

lemma PNCounter_Int64_view:
  assumes "pn_wf (rData c)"
  shows "PNCounter_Int64 c = goint (sint (\<Sum>r\<in>UNIV. pn_view c (True, r)) - sint (\<Sum>r\<in>UNIV. pn_view c (False, r)))"
  using assms by (simp add: PNCounter_Int64_def pnCounterState_Int64_def Let_def pn_wf_def pn_fold pn_view_def
      pnCounterState_GetPositive_def pnCounterState_GetNegative_def)

lemma pn_inv_new: "MakeSeed mh \<noteq> 0 \<Longrightarrow> pn_inv mh (NewPNCounter mh i opts)"
  using received.inv_empty
  by (simp add: pn_inv_def pncounter.replica_inv_def NewPNCounter_def newPNCounterState_def pn_wf_def mm_inv_new)

lemma pn_view_new: "pn_view (NewPNCounter mh i opts) = (\<lambda>_. 0)"
  by (auto simp: pn_view_def NewPNCounter_def newPNCounterState_def pnCounterState_GetPositive_def
      pnCounterState_GetNegative_def pnIndex_def)

section \<open>Local operations\<close>

lemma PNCounter_Increment_view:
  "pn_view (fst (PNCounter_Increment mh c a)) =
     (pn_view c)((True, lcReplica (rLocal c)) := pn_view c (True, lcReplica (rLocal c)) + a)"
  by (auto simp: PNCounter_Increment_def pnCounterState_Increment_def Let_def split_beta pn_view_def fun_eq_iff
      pnCounterState_GetPositive_def pnCounterState_GetNegative_def pnIndex_mput localClock_Replica_def
      replica_nextDot_def localClock_Next_def)

lemma PNCounter_Decrement_view:
  "pn_view (fst (PNCounter_Decrement mh c a)) =
     (pn_view c)((False, lcReplica (rLocal c)) := pn_view c (False, lcReplica (rLocal c)) + a)"
  by (auto simp: PNCounter_Decrement_def pnCounterState_Decrement_def Let_def split_beta pn_view_def fun_eq_iff
      pnCounterState_GetPositive_def pnCounterState_GetNegative_def pnIndex_mput localClock_Replica_def
      replica_nextDot_def localClock_Next_def)

lemma pn_ops_inv:
  assumes "pn_inv mh c"
  shows "pn_inv mh (fst (PNCounter_Increment mh c a))" "pn_inv mh (fst (PNCounter_Decrement mh c a))"
proof -
  have inv: "pncounter.replica_inv mh c" and wf: "pn_wf (rData c)"
    using assms by (auto simp: pn_inv_def pncounter.replica_inv_def)
  have "pn_wf ((rData c)\<lparr>pnPositive := mput r e (pnPositive (rData c))\<rparr>)"
    and "pn_wf ((rData c)\<lparr>pnNegative := mput r e (pnNegative (rData c))\<rparr>)" for r e
    using wf by (auto simp: pn_wf_def)
  note this [THEN pncounter.local_op_inv [OF inv]]
  then show "pn_inv mh (fst (PNCounter_Increment mh c a))" "pn_inv mh (fst (PNCounter_Decrement mh c a))"
    using assms by (simp_all add: pn_inv_def PNCounter_Increment_def PNCounter_Decrement_def
        pnCounterState_Increment_def pnCounterState_Decrement_def Let_def split_beta)
qed

lemma pn_ops_local:
  "lcReplica (rLocal (fst (PNCounter_Increment mh c a))) = lcReplica (rLocal c)"
  "lcReplica (rLocal (fst (PNCounter_Decrement mh c a))) = lcReplica (rLocal c)"
  by (simp_all add: PNCounter_Increment_def PNCounter_Decrement_def Let_def split_beta replica_nextDot_def localClock_Next_def)

text \<open>What an operation sends: the new count of its side, under the dot it has drawn.\<close>

lemma pn_ops_sends:
  "(p, m) \<in> set (fst (snd (PNCounter_Increment mh c a))) \<Longrightarrow> tmDelta m =
     tagDelta (pn_encode ((True, lcReplica (rLocal c)), pn_view c (True, lcReplica (rLocal c)) + a, snd (replica_nextDot c)))"
  "(p, m) \<in> set (fst (snd (PNCounter_Decrement mh c a))) \<Longrightarrow> tmDelta m =
     tagDelta (pn_encode ((False, lcReplica (rLocal c)), pn_view c (False, lcReplica (rLocal c)) + a, snd (replica_nextDot c)))"
  by (auto simp: PNCounter_Increment_def PNCounter_Decrement_def pnCounterState_Increment_def pnCounterState_Decrement_def
      Let_def split_beta pn_encode_def replica_propagate_def pn_view_def pnCounterState_GetPositive_def
      pnCounterState_GetNegative_def localClock_Replica_def replica_nextDot_def localClock_Next_def
      split: option.splits if_splits)

lemma sum_upd:
  fixes f :: "bool \<times> ReplicaID \<Rightarrow> u64"
  shows "(\<Sum>r\<in>UNIV. (f((b, i) := f (b, i) + a)) (b', r)) = (\<Sum>r\<in>UNIV. f (b', r)) + (if b' = b then a else (0 :: u64))"
proof (cases "b' = b")
  case True
  have "(\<Sum>r\<in>UNIV. (f((b, i) := f (b, i) + a)) (b, r)) = f (b, i) + a + (\<Sum>r\<in>UNIV - {i}. f (b, r))"
    by (subst sum.remove [of UNIV i]) (auto intro!: sum.cong)
  also have "\<dots> = (\<Sum>r\<in>UNIV. f (b, r)) + a"
    using sum.remove [of UNIV i "\<lambda>r. f (b, r)"] by (simp add: algebra_simps)
  finally show ?thesis using True by simp
qed simp

lemma word_of_goint: "(word_of_int (goint i) :: u64) = word_of_int i"
  by (simp add: goint_def)

lemma word_of_diff: "(word_of_int (goint (sint x - sint y)) :: u64) = x - (y :: u64)"
  by (simp add: word_of_goint wi_hom_sub [symmetric])

section \<open>The untracked hash map\<close>

text \<open>Every replica state a counter can reach, by its own operations, messages and ticks.\<close>

inductive pn_reach :: "maphash \<Rightarrow> PNCounter \<Rightarrow> bool" for mh where
  reach_new: "pn_reach mh (NewPNCounter mh i opts)"
| reach_inc: "pn_reach mh c \<Longrightarrow> pn_reach mh (fst (PNCounter_Increment mh c a))"
| reach_dec: "pn_reach mh c \<Longrightarrow> pn_reach mh (fst (PNCounter_Decrement mh c a))"
| reach_msg: "pn_reach mh c \<Longrightarrow> replica_handleMessage mh pnCounterM c from dot msg = Ok (c', out) \<Longrightarrow> pn_reach mh c'"
| reach_tick: "pn_reach mh c \<Longrightarrow> replica_sendDigests mh pnCounterM c = Ok (c', out) \<Longrightarrow> pn_reach mh c'"

lemma untracked_trackKey: "untracked r \<Longrightarrow> untracked (replica_trackKey mh pnCounterM r k)"
  by (simp add: untracked_def replica_trackKey_def Let_def pnCounterState_EntryMeta_def
      pnCounterState_TombstoneMeta_def merkleMap_Delete_def)

lemma untracked_applyDelta: "untracked r \<Longrightarrow> untracked (fst (replica_applyDelta mh pnCounterM r from dot delta))"
  by (auto simp: replica_applyDelta_def Let_def untracked_trackKey split: go.splits prod.splits if_splits)

lemma untracked_handleMessage:
  assumes "untracked r" "replica_handleMessage mh pnCounterM r from dot msg = Ok (r', out)"
  shows "untracked r'"
proof (cases msg)
  case (Cons t rest)
  consider (delta) "t = msgDelta" | (digest) "t \<noteq> msgDelta" "t = msgAEDigest" | (other) "t \<noteq> msgDelta" "t \<noteq> msgAEDigest"
    by blast
  then show ?thesis
  proof cases
    case delta
    with Cons assms untracked_applyDelta [OF assms(1), of mh "from" dot rest] show ?thesis
      by (auto simp: replica_handleMessage_def split: prod.splits go.splits)
  next
    case digest
    with Cons assms show ?thesis by (auto simp: replica_handleMessage_def intro: untracked_handleSyncDigest)
  qed (use Cons assms in \<open>auto simp: replica_handleMessage_def\<close>)
qed (use assms in \<open>auto simp: replica_handleMessage_def\<close>)

lemma pn_reach_untracked: "pn_reach mh c \<Longrightarrow> untracked c"
proof (induction rule: pn_reach.induct)
  case (reach_new i opts)
  show ?case by (simp add: untracked_def NewPNCounter_def newMerkleMap_def)
next
  case (reach_inc c a)
  then show ?case
    by (simp add: PNCounter_Increment_def Let_def split_beta untracked_trackKey untracked_nextDot)
next
  case (reach_dec c a)
  then show ?case
    by (simp add: PNCounter_Decrement_def Let_def split_beta untracked_trackKey untracked_nextDot)
next
  case (reach_msg c "from" dot msg c' out)
  then show ?case by (blast intro: untracked_handleMessage)
next
  case (reach_tick c c' out)
  then show ?case by (blast dest: sendDigests_untracked)
qed

section \<open>Properties\<close>

text \<open>
  strong eventual consistency of the positive-negative counter.
\<close>

theorem PNCounter_converges:
  assumes "MakeSeed mh \<noteq> 0" "MakeSeed mh' \<noteq> 0" "set ds = set es"
  shows "PNCounter_Int64 (fold (pn_deliver mh) ds (NewPNCounter mh i opts))
    = PNCounter_Int64 (fold (pn_deliver mh') es (NewPNCounter mh' j opts'))"
proof -
  let ?a = "fold (pn_deliver mh) ds (NewPNCounter mh i opts)"
  let ?b = "fold (pn_deliver mh') es (NewPNCounter mh' j opts')"
  have all: "list_all (\<lambda>_. True) xs" for xs :: "pn_delta list" by (simp add: list_all_iff)
  have "pn_view ?a = pn_view ?b"
    using pncounter_sec.view_of_set [OF pn_inv_new [OF assms(1)] all, of ds]
      pncounter_sec.view_of_set [OF pn_inv_new [OF assms(2)] all, of es] assms(3)
    by (simp add: pn_view_new)
  moreover have "pn_wf (rData ?a)" "pn_wf (rData ?b)"
    using pncounter_sec.deliver_all [OF pn_inv_new all] assms(1,2)
    by (auto simp: pn_inv_def pncounter.replica_inv_def)
  ultimately show ?thesis by (simp add: PNCounter_Int64_view)
qed

theorem PNCounter_converges_witness:
  "PNCounter_Int64 (fold (pn_deliver demo_hash) [((True, 1), 5, mkDot 1 1), ((False, 1), 2, mkDot 1 2)] (NewPNCounter demo_hash 3 []))
   = PNCounter_Int64 (fold (pn_deliver demo_hash) [((False, 1), 2, mkDot 1 2), ((True, 1), 5, mkDot 1 1)] (NewPNCounter demo_hash 4 []))"
  by (rule PNCounter_converges) auto

text \<open>
  An increment by \<open>a\<close> raises the value by \<open>a\<close> and a decrement lowers it by \<open>a\<close>, modulo \<open>2 ^ 64\<close>.
\<close>

theorem PNCounter_ops_value:
  assumes "pn_inv mh c"
  shows "(word_of_int (PNCounter_Int64 (fst (PNCounter_Increment mh c a))) :: u64) = word_of_int (PNCounter_Int64 c) + a \<and>
    (word_of_int (PNCounter_Int64 (fst (PNCounter_Decrement mh c a))) :: u64) = word_of_int (PNCounter_Int64 c) - a"
proof -
  have wf: "pn_wf (rData c)" "pn_wf (rData (fst (PNCounter_Increment mh c a)))" "pn_wf (rData (fst (PNCounter_Decrement mh c a)))"
    using assms pn_ops_inv [OF assms] by (auto simp: pn_inv_def pncounter.replica_inv_def)
  show ?thesis
    unfolding PNCounter_Int64_view [OF wf(1)] PNCounter_Int64_view [OF wf(2)] PNCounter_Int64_view [OF wf(3)]
      PNCounter_Increment_view PNCounter_Decrement_view sum_upd word_of_diff by simp
qed

theorem PNCounter_ops_value_witness:
  "(word_of_int (PNCounter_Int64 (fst (PNCounter_Decrement demo_hash (NewPNCounter demo_hash 1 []) 3))) :: u64)
   = word_of_int (PNCounter_Int64 (NewPNCounter demo_hash 1 [])) - 3"
  using PNCounter_ops_value [OF pn_inv_new [of demo_hash 1 "[]"], of 3] by simp

text \<open>
  No state of a positive-negative counter is ever tracked in the hash map, so the digests
  of all replicas carry the hash 0 and no replica ever answers one with a delta: deltas lost
  by the transport are not recovered by anti-entropy.
\<close>

theorem PNCounter_no_anti_entropy:
  assumes "pn_reach mh a" "pn_reach mh' b" "replica_sendDigests mh' pnCounterM b = Ok (b', out)" "(p, m) \<in> set out"
    and "replica_handleMessage mh pnCounterM a j (tmDot m) (tmDelta m) = Ok (a', answer)"
  shows "answer = []"
  by (rule answer_untracked [OF pn_reach_untracked [OF assms(1)] pn_reach_untracked [OF assms(2)] assms(3-5)])

theorem PNCounter_no_anti_entropy_witness:
  "\<exists>b' m a'. replica_sendDigests demo_hash pnCounterM
        (NewPNCounter demo_hash 1 [WithTransport True, WithTopology (Some [2])]) = Ok (b', [(2, m)]) \<and>
     replica_handleMessage demo_hash pnCounterM (fst (PNCounter_Increment demo_hash (NewPNCounter demo_hash 2 []) 5))
        1 (tmDot m) (tmDelta m) = Ok (a', [])"
proof -
  let ?b = "NewPNCounter demo_hash 1 [WithTransport True, WithTopology (Some [2])]"
  let ?a = "fst (PNCounter_Increment demo_hash (NewPNCounter demo_hash 2 []) 5)"
  have a: "pn_reach demo_hash ?a" and b: "pn_reach demo_hash ?b" by (intro pn_reach.intros)+
  have top: "rTransport ?b" "rTopology ?b = Some [2]"
    by (simp_all add: NewPNCounter_def newReplica_def Let_def applyOptions_def WithTransport_def WithTopology_def)
  have inv: "mm_inv demo_hash (rMerkle ?a)" "mm_inv demo_hash (rMerkle ?b)"
    using pn_ops_inv pn_inv_new by (simp_all add: pn_inv_def pncounter.replica_inv_def)
  from untracked_talk [OF pn_reach_untracked [OF a] pn_reach_untracked [OF b] top inv]
  obtain b' m a' out where bm: "replica_sendDigests demo_hash pnCounterM ?b = Ok (b', [(2, m)])"
      and out: "replica_handleMessage demo_hash pnCounterM ?a 1 (tmDot m) (tmDelta m) = Ok (a', out)"
    by blast
  have "out = []"
    using PNCounter_no_anti_entropy [OF a b bm _ out] by simp
  with bm out show ?thesis by blast
qed

end
