(* ===== verification/GLists.thy ===== *)
theory GLists
  imports Replica "HOL-Library.Product_Lexorder"
begin

text \<open>
  The grow-only list: the storage type (\<^verbatim>\<open>glist.go\<close>) and the public type over a replica whose
  clock allows everything (\<^verbatim>\<open>node.go\<close>). Items are keyed by the text \<^verbatim>\<open>replica:counter\<close> of their
  dot, which is shown to be injective; the view is the map from dots to items.
\<close>

section \<open>Definitions\<close>

text \<open>The decimal digits of \<^verbatim>\<open>%d\<close>, and the key \<^verbatim>\<open>fmt.Sprintf("%d:%d", dot.Replica, dot.Counter)\<close>.\<close>

fun decimal :: "nat \<Rightarrow> bytes" where
  "decimal n = (if n < 10 then [of_nat (48 + n)] else decimal (n div 10) @ [of_nat (48 + n mod 10)])"

declare decimal.simps [simp del]

definition dotKey :: "Dot \<Rightarrow> bytes" where
  "dotKey dot = decimal (unat (Replica dot)) @ [58] @ decimal (unat (Counter dot))"

record 'v gListState =
  glCodec :: "'v Codec"
  glBackend :: memoryBackend

definition newGListState :: "'v Codec option \<Rightarrow> Option list \<Rightarrow> 'v gListState go" where
  "newGListState codec opts =
     go_bind (requireCodec codec) (\<lambda>_.
       let os = applyOptions opts;
           b = (case oBackend os of None \<Rightarrow> newMemoryBackend | Some b \<Rightarrow> b)
       in Ok \<lparr>glCodec = the codec, glBackend = b\<rparr>)"

definition gListState_Append :: "'v gListState \<Rightarrow> 'v \<Rightarrow> Dot \<Rightarrow> 'v gListState \<times> bytes go" where
  "gListState_Append l v dot =
     (case Encode (glCodec l) v of
        Inl e \<Rightarrow> (l, Err e)
      | Inr valBytes \<Rightarrow>
          (l\<lparr>glBackend := memoryBackend_PutEntry (glBackend l) (dotKey dot) valBytes (encodeDot dot)\<rparr>,
           Ok (appendVarintBytes [] valBytes @ encodeDot dot)))"

definition gListState_AppendBytes :: "'v gListState \<Rightarrow> bytes \<Rightarrow> Dot \<Rightarrow> 'v gListState" where
  "gListState_AppendBytes l valBytes dot =
     l\<lparr>glBackend := memoryBackend_PutEntry (glBackend l) (dotKey dot) valBytes (encodeDot dot)\<rparr>"

definition gListState_Has :: "'v gListState \<Rightarrow> Dot \<Rightarrow> bool" where
  "gListState_Has l dot \<longleftrightarrow> memoryBackend_GetEntry (glBackend l) (dotKey dot) \<noteq> None"

text \<open>
  \<^verbatim>\<open>sort.Slice\<close> with the comparison by counter and then by replica; the dots are distinct, so
  the result does not depend on the stability of the sort. \<open>decodeDot\<close> never panics.
\<close>

definition gListState_Items :: "'v gListState \<Rightarrow> goerror + 'v list" where
  "gListState_Items l =
     (let (items, decErr) = memoryBackend_RangeEntries (glBackend l) (\<lambda>_ valBytes metaBytes (items, decErr).
            case Decode (glCodec l) valBytes of
              Inl err \<Rightarrow> ((items, Some err), False)
            | Inr v \<Rightarrow>
                (case decodeDot metaBytes of
                   Ok d \<Rightarrow> ((items @ [(v, d)], decErr), True)
                 | Err err \<Rightarrow> ((items, Some err), False)
                 | Panic \<Rightarrow> ((items, decErr), False))) ([], None)
      in case decErr of
           Some err \<Rightarrow> Inl err
         | None \<Rightarrow> Inr (map fst (sort_key (\<lambda>it. (Counter (snd it), Replica (snd it))) items)))"

definition gListState_Range ::
    "'v gListState \<Rightarrow> (bytes \<Rightarrow> Dot \<Rightarrow> 'x \<Rightarrow> 'x \<times> bool) \<Rightarrow> 'x \<Rightarrow> 'x" where
  "gListState_Range l fn x =
     memoryBackend_RangeEntries (glBackend l) (\<lambda>_ valBytes metaBytes x.
       case decodeDot metaBytes of Ok d \<Rightarrow> fn valBytes d x | _ \<Rightarrow> (x, True)) x"

definition gListState_Len :: "'v gListState \<Rightarrow> nat" where
  "gListState_Len l = memoryBackend_EntryLen (glBackend l)"

definition gListState_EntryMeta :: "'v gListState \<Rightarrow> bytes \<Rightarrow> bytes option" where
  "gListState_EntryMeta l key = map_option snd (memoryBackend_GetEntry (glBackend l) key)"

definition gListState_TombstoneMeta :: "'v gListState \<Rightarrow> bytes \<Rightarrow> bytes option" where
  "gListState_TombstoneMeta l key = None"

definition gListState_ParseDelta :: "'v gListState \<Rightarrow> bytes \<Rightarrow> deltaInfo go" where
  "gListState_ParseDelta l delta =
     go_bind (readVarintBytes delta 0) (\<lambda>(_, off).
       if off + 16 > int (length delta) then Err ErrShortBuffer
       else go_bind (go_bind (slice_from delta off) decodeDot) (\<lambda>dot. go_bind (slice delta off (off + 16)) (\<lambda>meta.
         Ok \<lparr>diOp = opPut, diKey = dotKey dot, diMeta = meta, diContext = None, diDots = [dot]\<rparr>)))"

definition gListState_Apply :: "'v gListState \<Rightarrow> bytes \<Rightarrow> 'v gListState \<times> unit go" where
  "gListState_Apply l delta =
     (case go_bind (readVarintBytes delta 0) (\<lambda>(valBytes, off).
         if off + 16 > int (length delta) then Err ErrShortBuffer
         else go_bind (go_bind (slice_from delta off) decodeDot) (\<lambda>remoteDot. Ok (valBytes, remoteDot))) of
        Ok (valBytes, remoteDot) \<Rightarrow>
          (if \<not> gListState_Has l remoteDot then gListState_AppendBytes l valBytes remoteDot else l, Ok ())
      | Err e \<Rightarrow> (l, Err e)
      | Panic \<Rightarrow> (l, Panic))"

definition gListState_DeltasSince :: "'v gListState \<Rightarrow> VClock \<Rightarrow> bytes list" where
  "gListState_DeltasSince l peerHWM =
     gListState_Range l (\<lambda>valBytes dot deltas.
       if Counter dot > VClock_Get peerHWM (Replica dot)
       then (deltas @ [appendVarintBytes [] valBytes @ encodeDot dot], True) else (deltas, True)) []"

definition gListM :: "'v gListState mergeable" where
  "gListM = \<lparr>mEntryMeta = gListState_EntryMeta, mTombstoneMeta = gListState_TombstoneMeta,
     mParseDelta = (\<lambda>l d. (l, gListState_ParseDelta l d)), mApply = gListState_Apply,
     mDeltasSince = gListState_DeltasSince, mGCTombstones = None\<rparr>"

subsection \<open>The public type (node.go)\<close>

type_synonym 'v GList = "'v gListState replica"

definition NewGList :: "maphash \<Rightarrow> ReplicaID \<Rightarrow> 'v Codec option \<Rightarrow> Option list \<Rightarrow> 'v GList go" where
  "NewGList mh rid codec opts =
     (let os = applyOptions opts;
          stateOpts = (if oBackend os \<noteq> None then [WithBackend (oBackend os)] else [])
      in go_map (\<lambda>state. newReplica mh rid state alwaysMergeClock opts) (newGListState codec stateOpts))"

definition GList_Append :: "maphash \<Rightarrow> 'v GList \<Rightarrow> 'v \<Rightarrow> 'v GList \<times> (sends \<times> WriteResult) go" where
  "GList_Append mh l v =
     (let (r, dot) = replica_nextDot l; (s, d) = gListState_Append (rData r) v dot; r = r\<lparr>rData := s\<rparr> in
      case d of
        Err e \<Rightarrow> (r, Err e)
      | Panic \<Rightarrow> (r, Panic)
      | Ok delta \<Rightarrow>
          (case gListState_ParseDelta (rData r) delta of
             Panic \<Rightarrow> (r, Panic)
           | p \<Rightarrow>
             (let r = (case p of Ok info \<Rightarrow> replica_trackKey mh gListM r (diKey info) | _ \<Rightarrow> r)
              in (r, Ok (replica_propagate r dot delta)))))"

definition GList_Items :: "'v GList \<Rightarrow> goerror + 'v list" where
  "GList_Items l = gListState_Items (rData l)"

definition GList_Len :: "'v GList \<Rightarrow> nat" where
  "GList_Len l = gListState_Len (rData l)"

definition GList_Close :: "'v GList \<Rightarrow> 'v GList" where
  "GList_Close m = replica_Close m"

section \<open>Keys\<close>

definition undecimal :: "bytes \<Rightarrow> nat" where
  "undecimal bs = foldl (\<lambda>acc b. 10 * acc + (unat b - 48)) 0 bs"

lemma digit_unat: "n < 10 \<Longrightarrow> unat (of_nat (48 + n) :: byte) = 48 + n"
  by (rule unat_of_nat_self) simp

lemma undecimal_decimal: "undecimal (decimal n) = n"
proof (induction n rule: decimal.induct)
  case (1 n)
  have digit: "unat (of_nat (48 + n mod 10) :: byte) = 48 + n mod 10" by (rule digit_unat) simp
  show ?case
  proof (cases "n < 10")
    case True
    then show ?thesis using digit_unat [OF True] by (simp add: decimal.simps [of n] undecimal_def)
  next
    case False
    then show ?thesis
      using "1.IH" digit by (simp add: decimal.simps [of n] undecimal_def)
  qed
qed

lemma decimal_no_colon: "58 \<notin> set (decimal n)"
proof (induction n rule: decimal.induct)
  case (1 n)
  have "of_nat (48 + m) \<noteq> (58 :: byte)" if "m < 10" for m
  proof
    assume "of_nat (48 + m) = (58 :: byte)"
    then have "unat (of_nat (48 + m) :: byte) = unat (58 :: byte)" by (rule arg_cong)
    with digit_unat [OF that] that show False by simp
  qed
  from this [of n] this [of "n mod 10"] 1 show ?case by (auto simp: decimal.simps [of n])
qed

lemma split_at_colon:
  assumes "xs @ [c] @ ys = xs' @ [c] @ ys'" "c \<notin> set xs" "c \<notin> set xs'"
  shows "xs = xs' \<and> ys = ys'"
proof -
  have tw: "takeWhile (\<lambda>b. b \<noteq> c) (zs @ [c] @ rest) = zs" if "c \<notin> set zs" for zs rest
    using that by (induction zs) auto
  have "xs = xs'" using tw [OF assms(2), of ys] tw [OF assms(3), of ys'] assms(1) by simp
  with assms(1) show ?thesis by simp
qed

lemma dotKey_inject [simp]: "dotKey d = dotKey e \<longleftrightarrow> d = e"
proof
  assume "dotKey d = dotKey e"
  then have "decimal (unat (Replica d)) = decimal (unat (Replica e)) \<and> decimal (unat (Counter d)) = decimal (unat (Counter e))"
    unfolding dotKey_def by (rule split_at_colon) (simp_all add: decimal_no_colon)
  then have "unat (Replica d) = unat (Replica e)" "unat (Counter d) = unat (Counter e)"
    by (metis undecimal_decimal)+
  then show "d = e" by (intro Dot.equality) (auto simp: word_unat_eq_iff)
qed simp

section \<open>The view and the deltas\<close>

definition gl_inv :: "'v gListState \<Rightarrow> bool" where
  "gl_inv l \<longleftrightarrow> mb_inv (glBackend l) \<and>
     (\<forall>k v m. memoryBackend_GetEntry (glBackend l) k = Some (v, m) \<longrightarrow> (\<exists>d. m = encodeDot d \<and> k = dotKey d))"

definition gl_view :: "'v gListState \<Rightarrow> Dot \<Rightarrow> bytes option" where
  "gl_view l d = map_option fst (memoryBackend_GetEntry (glBackend l) (dotKey d))"

definition gl_delta :: "Dot \<times> bytes \<Rightarrow> bytes" where
  "gl_delta x = appendVarintBytes [] (snd x) @ encodeDot (fst x)"

definition gl_fits :: "Dot \<times> bytes \<Rightarrow> bool" where
  "gl_fits x \<longleftrightarrow> length (gl_delta x) < 2 ^ 63"

definition gl_step :: "Dot \<times> bytes \<Rightarrow> (Dot \<Rightarrow> bytes option) \<Rightarrow> Dot \<Rightarrow> bytes option" where
  "gl_step x a = (if a (fst x) = None then a(fst x \<mapsto> snd x) else a)"

definition gl_same :: "Dot \<times> bytes \<Rightarrow> Dot \<times> bytes \<Rightarrow> bool" where
  "gl_same x y \<longleftrightarrow> (fst x = fst y \<longrightarrow> x = y)"

definition gl_deliver :: "maphash \<Rightarrow> Dot \<times> bytes \<Rightarrow> 'v GList \<Rightarrow> 'v GList" where
  "gl_deliver mh x l = fst (replica_applyDelta mh gListM l 0 (mkDot 0 0) (gl_delta x))"

lemma gListM_simps [simp]:
  "mEntryMeta gListM = gListState_EntryMeta" "mTombstoneMeta gListM = gListState_TombstoneMeta"
  "mParseDelta gListM = (\<lambda>l d. (l, gListState_ParseDelta l d))" "mApply gListM = gListState_Apply"
  "mDeltasSince gListM = gListState_DeltasSince" "mGCTombstones gListM = None"
  by (simp_all add: gListM_def)

lemma gl_AppendBytes:
  assumes "gl_inv l"
  shows "gl_inv (gListState_AppendBytes l b d)" "gl_view (gListState_AppendBytes l b d) = (gl_view l)(d \<mapsto> b)"
    "glCodec (gListState_AppendBytes l b d) = glCodec l"
  using assms
  by (auto simp: gl_inv_def gListState_AppendBytes_def memory.laws gl_view_def fun_eq_iff split: if_splits)

lemma gl_Has: "gListState_Has l d \<longleftrightarrow> gl_view l d \<noteq> None"
  by (simp add: gListState_Has_def gl_view_def)

lemma gl_delta_read:
  assumes "gl_fits (d, b)"
  shows "gListState_ParseDelta l (gl_delta (d, b)) =
      Ok \<lparr>diOp = opPut, diKey = dotKey d, diMeta = encodeDot d, diContext = None, diDots = [d]\<rparr>"
    and "gListState_Apply l (gl_delta (d, b)) =
      (if gl_view l d = None then gListState_AppendBytes l b d else l, Ok ())"
proof -
  have len: "length (appendVarintBytes [] b @ encodeDot d @ []) < 2 ^ 63"
    using assms by (simp add: gl_fits_def gl_delta_def)
  note [simp] = gl_delta_def gListState_ParseDelta_def gListState_Apply_def gl_Has
  show "gListState_ParseDelta l (gl_delta (d, b)) =
      Ok \<lparr>diOp = opPut, diKey = dotKey d, diMeta = encodeDot d, diContext = None, diDots = [d]\<rparr>"
    by (rule read_field_dot [OF len]) (simp del: length_append)
  show "gListState_Apply l (gl_delta (d, b)) = (if gl_view l d = None then gListState_AppendBytes l b d else l, Ok ())"
    by (rule read_field_dot [OF len]) (simp del: length_append)
qed

lemma gl_Apply_cases:
  "(\<exists>b d. fst (gListState_Apply l delta) = gListState_AppendBytes l b d \<and> snd (gListState_Apply l delta) = Ok () \<and>
      (\<forall>info. gListState_ParseDelta l delta = Ok info \<longrightarrow> diKey info = dotKey d)) \<or>
   fst (gListState_Apply l delta) = l"
  by (auto simp: gListState_Apply_def gListState_ParseDelta_def go_simps split: go.splits prod.splits)
    (rule exI, rule exI, rule conjI, rule refl, auto)

lemma gl_meta_other:
  assumes "gl_inv l" "k \<noteq> dotKey d"
  shows "meta_of gListM (gListState_AppendBytes l b d) k = meta_of gListM l k"
  using assms by (simp add: gl_inv_def meta_of_def gListState_EntryMeta_def gListState_AppendBytes_def memory.laws
      gListState_TombstoneMeta_def split: option.splits)

interpretation glist: tracked_storage gListM gl_inv
proof
  fix s :: "'a gListState" and delta
  assume "gl_inv s"
  then show "gl_inv (fst (mApply gListM s delta))"
    using gl_Apply_cases [of s delta] gl_AppendBytes(1) by auto
  fix info k
  assume "snd (mParseDelta gListM s delta) = Ok info" "k \<noteq> diKey info"
  with \<open>gl_inv s\<close> show "meta_of gListM (fst (mApply gListM s delta)) k = meta_of gListM s k"
    using gl_Apply_cases [of s delta] gl_meta_other by auto
next
  fix s :: "'a gListState" and delta
  assume "snd (mApply gListM s delta) \<noteq> Ok ()"
  then show "fst (mApply gListM s delta) = s"
    by (auto simp: gListState_Apply_def split: go.splits prod.splits)
qed simp_all

definition glr_inv :: "maphash \<Rightarrow> 'v GList \<Rightarrow> bool" where
  "glr_inv mh r \<longleftrightarrow> glist.replica_inv mh r \<and> rStrategy r = alwaysMergeClock"

lemma gl_deliver_data:
  assumes "rStrategy r = alwaysMergeClock" "gl_fits (d, b)"
  shows "rData (gl_deliver mh (d, b) r) =
    (if gl_view (rData r) d = None then gListState_AppendBytes (rData r) b d else rData r)"
proof -
  have p: "mParseDelta gListM (rData r) (gl_delta (d, b)) =
      (rData r, Ok \<lparr>diOp = opPut, diKey = dotKey d, diMeta = encodeDot d, diContext = None, diDots = [d]\<rparr>)"
    using gl_delta_read(1) [OF assms(2)] by simp
  show ?thesis
    unfolding gl_deliver_def applyDelta_data [OF p] assms(1)
    using gl_delta_read(2) [OF assms(2), of "rData r"] by (simp add: alwaysMergeClock_def)
qed

interpretation glist_sec: delta_crdt "gl_deliver mh" "\<lambda>r. gl_view (rData r)" gl_step gl_fits gl_same "glr_inv mh" for mh
proof
  fix r :: "'a GList" and x
  assume r: "glr_inv mh r" and x: "gl_fits x"
  show "glr_inv mh (gl_deliver mh x r)"
    using r by (simp add: glr_inv_def gl_deliver_def glist.applyDelta_inv)
  obtain d b where xd: "x = (d, b)" by (cases x)
  have "rStrategy r = alwaysMergeClock" "gl_inv (rData r)" using r by (auto simp: glr_inv_def glist.replica_inv_def)
  with x show "gl_view (rData (gl_deliver mh x r)) = gl_step x (gl_view (rData r))"
    by (simp add: xd gl_deliver_data gl_step_def gl_AppendBytes(2))
qed (auto simp: gl_step_def gl_same_def fun_eq_iff)

lemma gl_codec_deliver:
  "glr_inv mh r \<Longrightarrow> list_all gl_fits ds \<Longrightarrow> glCodec (rData (fold (gl_deliver mh) ds r)) = glCodec (rData r)"
proof (induction ds arbitrary: r)
  case (Cons x ds)
  obtain d b where x: "x = (d, b)" by (cases x)
  have "glr_inv mh (gl_deliver mh x r)" using Cons.prems by (simp add: glist_sec.inv_deliver)
  moreover have "rStrategy r = alwaysMergeClock" "gl_inv (rData r)"
    using Cons.prems(1) by (auto simp: glr_inv_def glist.replica_inv_def)
  ultimately show ?case using Cons x by (simp add: gl_deliver_data gl_AppendBytes(3))
qed simp

section \<open>Items\<close>

text \<open>When every value decodes, the items are the values in the order of their dots.\<close>

definition gl_decodes :: "'v gListState \<Rightarrow> bool" where
  "gl_decodes l \<longleftrightarrow> (\<forall>d b. gl_view l d = Some b \<longrightarrow> (\<exists>v. Decode (glCodec l) b = Inr v))"

lemma items_loop:
  assumes "\<forall>(k, e) \<in> set es. (\<exists>v. Decode c (meValue e) = Inr v) \<and> (\<exists>d. meMeta e = encodeDot d)"
  shows "\<exists>its. rangeLoop (\<lambda>(k, e). (\<lambda>_ valBytes metaBytes (items, decErr).
            case Decode c valBytes of
              Inl err \<Rightarrow> ((items, Some err), False)
            | Inr v \<Rightarrow>
                (case decodeDot metaBytes of
                   Ok d \<Rightarrow> ((items @ [(v, d)], decErr), True)
                 | Err err \<Rightarrow> ((items, Some err), False)
                 | Panic \<Rightarrow> ((items, decErr), False))) k (meValue e) (meMeta e)) es (acc, None) = (acc @ its, None)
      \<and> list_all2 (\<lambda>(k, e) (v, d). Decode c (meValue e) = Inr v \<and> meMeta e = encodeDot d) es its"
    (is "\<exists>its. rangeLoop ?f es (acc, None) = _ \<and> _")
  using assms
proof (induction es arbitrary: acc)
  case (Cons ke es)
  obtain k e where ke: "ke = (k, e)" by (cases ke)
  from Cons.prems ke obtain v d where vd: "Decode c (meValue e) = Inr v" "meMeta e = encodeDot d" by auto
  from Cons.prems have "\<forall>(k, e) \<in> set es. (\<exists>v. Decode c (meValue e) = Inr v) \<and> (\<exists>d. meMeta e = encodeDot d)" by simp
  from Cons.IH [OF this, of "acc @ [(v, d)]"] obtain its where its: "rangeLoop ?f es (acc @ [(v, d)], None) = (acc @ [(v, d)] @ its, None)"
      "list_all2 (\<lambda>(k, e) (v, d). Decode c (meValue e) = Inr v \<and> meMeta e = encodeDot d) es its" by auto
  with vd ke show ?case by (intro exI [of _ "(v, d) # its"]) simp
qed simp

lemma sort_key_unique:
  fixes f :: "'a \<Rightarrow> 'k::linorder"
  assumes "distinct (map f xs)" "distinct (map f ys)" "set xs = set ys"
  shows "sort_key f xs = sort_key f ys"
proof -
  have "map f (sort_key f xs) = map f (sort_key f ys)"
    by (rule sorted_distinct_set_unique) (use assms in \<open>auto simp: distinct_map\<close>)
  moreover have "inj_on f (set (sort_key f xs) \<union> set (sort_key f ys))"
    using assms by (simp add: distinct_map)
  ultimately show ?thesis by (rule map_inj_on)
qed

lemma gl_Items:
  assumes inv: "gl_inv l" and dec: "gl_decodes l"
  obtains its where "gListState_Items l = Inr (map fst (sort_key (\<lambda>it. (Counter (snd it), Replica (snd it))) its))"
    and "distinct (map snd its)"
    and "set its = {(v, d) | v d. \<exists>b. gl_view l d = Some b \<and> Decode (glCodec l) b = Inr v}"
proof -
  let ?es = "mbEntries (glBackend l)"
  have mb: "mb_inv (glBackend l)" using inv by (simp add: gl_inv_def)
  have key: "\<exists>d. meMeta e = encodeDot d \<and> k = dotKey d" if "(k, e) \<in> set ?es" for k e
    using inv that mb_entry_mem [OF mb] by (auto simp: gl_inv_def)
  have view: "gl_view l d = Some b \<longleftrightarrow> (\<exists>e. (dotKey d, e) \<in> set ?es \<and> meValue e = b)" for d b
    using mb_entry_mem [OF mb] by (auto simp: gl_view_def) (metis memEntry.select_convs)
  have ok: "\<forall>(k, e) \<in> set ?es. (\<exists>v. Decode (glCodec l) (meValue e) = Inr v) \<and> (\<exists>d. meMeta e = encodeDot d)"
  proof (intro ballI, clarify)
    fix k e assume mem: "(k, e) \<in> set ?es"
    then obtain d where d: "meMeta e = encodeDot d" "k = dotKey d" using key by blast
    then have "gl_view l d = Some (meValue e)" using mem view by blast
    with dec d show "(\<exists>v. Decode (glCodec l) (meValue e) = Inr v) \<and> (\<exists>d. meMeta e = encodeDot d)"
      by (auto simp: gl_decodes_def)
  qed
  obtain its where loop: "gListState_Items l = Inr (map fst (sort_key (\<lambda>it. (Counter (snd it), Replica (snd it))) its))"
    and all2: "list_all2 (\<lambda>(k, e) (v, d). Decode (glCodec l) (meValue e) = Inr v \<and> meMeta e = encodeDot d) ?es its"
    using items_loop [OF ok, of "[]"] by (auto simp: gListState_Items_def memoryBackend_RangeEntries_def Let_def)
  have len: "length ?es = length its" using all2 by (rule list_all2_lengthD)
  have nth: "\<exists>k e. ?es ! i = (k, e) \<and> Decode (glCodec l) (meValue e) = Inr (fst (its ! i)) \<and> k = dotKey (snd (its ! i))"
    if "i < length its" for i
    using list_all2_nthD [OF all2, of i] that len key [of "fst (?es ! i)" "snd (?es ! i)"] nth_mem [of i ?es]
    by (cases "?es ! i"; cases "its ! i") auto
  have keys: "map (dotKey \<circ> snd) its = map fst ?es"
  proof (rule nth_equalityI)
    fix i assume "i < length (map (dotKey \<circ> snd) its)"
    with nth [of i] len show "map (dotKey \<circ> snd) its ! i = map fst ?es ! i" by auto
  qed (simp add: len)
  have "distinct (map fst ?es)" using mb by (simp add: mb_inv_def wf_map_def)
  then have "distinct (map dotKey (map snd its))" using keys by (simp add: comp_def)
  then have "distinct (map snd its)" by (simp only: distinct_map)
  moreover have "(v, d) \<in> set its \<longleftrightarrow> (\<exists>b. gl_view l d = Some b \<and> Decode (glCodec l) b = Inr v)" for v d
  proof
    assume "(v, d) \<in> set its"
    then obtain i where i: "i < length its" "its ! i = (v, d)" by (auto simp: in_set_conv_nth)
    with nth [OF i(1)] obtain e where e: "?es ! i = (dotKey d, e)" "Decode (glCodec l) (meValue e) = Inr v" by auto
    then have "(dotKey d, e) \<in> set ?es" using i(1) len nth_mem [of i ?es] by simp
    with e(2) view show "\<exists>b. gl_view l d = Some b \<and> Decode (glCodec l) b = Inr v" by blast
  next
    assume "\<exists>b. gl_view l d = Some b \<and> Decode (glCodec l) b = Inr v"
    then obtain e where e: "(dotKey d, e) \<in> set ?es" "Decode (glCodec l) (meValue e) = Inr v" using view by auto
    then obtain i where i: "i < length its" "?es ! i = (dotKey d, e)" using len by (auto simp: in_set_conv_nth)
    from nth [OF i(1)] i(2) e(2) have "its ! i = (v, d)" by (auto intro: prod_eqI)
    with i(1) show "(v, d) \<in> set its" by (metis nth_mem)
  qed
  ultimately show ?thesis using loop by (intro that) auto
qed

lemma gl_Items_view:
  assumes "gl_inv l" "gl_decodes l" "gl_inv l'" "gl_view l = gl_view l'" "glCodec l = glCodec l'"
  shows "gListState_Items l = gListState_Items l'"
proof -
  have dec': "gl_decodes l'" using assms by (simp add: gl_decodes_def)
  obtain its where i: "gListState_Items l = Inr (map fst (sort_key (\<lambda>it. (Counter (snd it), Replica (snd it))) its))"
      "distinct (map snd its)" "set its = {(v, d) | v d. \<exists>b. gl_view l d = Some b \<and> Decode (glCodec l) b = Inr v}"
    by (rule gl_Items [OF assms(1,2)])
  obtain its' where i': "gListState_Items l' = Inr (map fst (sort_key (\<lambda>it. (Counter (snd it), Replica (snd it))) its'))"
      "distinct (map snd its')" "set its' = {(v, d) | v d. \<exists>b. gl_view l' d = Some b \<and> Decode (glCodec l') b = Inr v}"
    by (rule gl_Items [OF assms(3) dec'])
  have inj: "distinct (map (\<lambda>it. (Counter (snd it), Replica (snd it))) xs)" if "distinct (map snd xs)"
    for xs :: "('a \<times> Dot) list"
  proof -
    have "inj (\<lambda>d :: Dot. (Counter d, Replica d))" by (rule injI) (auto intro: Dot.equality)
    then have "distinct (map (\<lambda>d. (Counter d, Replica d)) (map snd xs))" using that by (simp add: distinct_map inj_on_def)
    then show ?thesis by (simp add: comp_def)
  qed
  have "sort_key (\<lambda>it. (Counter (snd it), Replica (snd it))) its = sort_key (\<lambda>it. (Counter (snd it), Replica (snd it))) its'"
    by (rule sort_key_unique) (use i i' inj assms(4,5) in auto)
  with i i' show ?thesis by simp
qed

lemma NewGList_Ok:
  assumes "MakeSeed mh \<noteq> 0" "oBackend (applyOptions opts) = None"
  obtains r where "NewGList mh i (Some c) opts = Ok r" "glr_inv mh r" "gl_view (rData r) = (\<lambda>_. None)"
    "glCodec (rData r) = c" "rLocal r = newLocalClock i"
proof -
  let ?m = "\<lparr>glCodec = c, glBackend = newMemoryBackend\<rparr>"
  let ?r = "newReplica mh i ?m alwaysMergeClock opts"
  have "gl_inv ?m" "gl_view ?m = (\<lambda>_. None)"
    by (simp_all add: gl_inv_def memory.inv_empty memory.get_empty gl_view_def fun_eq_iff)
  moreover have "rLocal ?r = newLocalClock i" by (simp add: newReplica_def Let_def)
  ultimately show ?thesis
    using assms received.inv_empty
    by (intro that [of ?r]) (simp_all add: NewGList_def newGListState_def requireCodec_def applyOptions_def
        glr_inv_def glist.replica_inv_def mm_inv_new Let_def)
qed

lemma gl_view_fold:
  "fold gl_step ds a d = Some b \<Longrightarrow> a d = Some b \<or> (d, b) \<in> set ds"
  by (induction ds arbitrary: a) (fastforce simp: gl_step_def split: if_splits)+

section \<open>Properties\<close>

text \<open>
  strong eventual consistency of the list: replicas that received the same items, in any
  order and any number of times, list them in the same order, as long as every item decodes
  and no two different items carry the same dot.
\<close>

theorem GList_converges:
  assumes "MakeSeed mh \<noteq> 0" "MakeSeed mh' \<noteq> 0"
    and "oBackend (applyOptions opts) = None" "oBackend (applyOptions opts') = None"
    and "NewGList mh i (Some c) opts = Ok r" "NewGList mh' j (Some c) opts' = Ok r'"
    and "list_all gl_fits ds" "\<forall>d \<in> set ds. \<forall>e \<in> set ds. gl_same d e" "set ds = set es"
    and "\<forall>(d, b) \<in> set ds. \<exists>v. Decode c b = Inr v"
  shows "GList_Items (fold (gl_deliver mh) ds r) = GList_Items (fold (gl_deliver mh') es r')"
proof -
  have r: "glr_inv mh r" "gl_view (rData r) = (\<lambda>_. None)" "glCodec (rData r) = c"
    using NewGList_Ok [OF assms(1,3), of i c] assms(5) by auto
  have r': "glr_inv mh' r'" "gl_view (rData r') = (\<lambda>_. None)" "glCodec (rData r') = c"
    using NewGList_Ok [OF assms(2,4), of j c] assms(6) by auto
  have es: "list_all gl_fits es" "\<forall>d \<in> set es. \<forall>e \<in> set es. gl_same d e"
    using assms(7-9) by (auto simp: list_all_iff)
  note all = glist_sec.deliver_all [OF r(1) assms(7)] glist_sec.deliver_all [OF r'(1) es(1)]
  have "gl_view (rData (fold (gl_deliver mh) ds r)) = gl_view (rData (fold (gl_deliver mh') es r'))"
    using glist_sec.view_of_set [OF r(1) assms(7,8)] glist_sec.view_of_set [OF r'(1) es] r(2) r'(2) assms(9) by simp
  moreover have "gl_decodes (rData (fold (gl_deliver mh) ds r))"
    unfolding gl_decodes_def gl_codec_deliver [OF r(1) assms(7)] r(3)
    using all(1) r(2) gl_view_fold [of ds "\<lambda>_. None"] assms(10) by fastforce
  moreover have "glCodec (rData (fold (gl_deliver mh) ds r)) = glCodec (rData (fold (gl_deliver mh') es r'))"
    using gl_codec_deliver [OF r(1) assms(7)] gl_codec_deliver [OF r'(1) es(1)] r(3) r'(3) by simp
  moreover have "gl_inv (rData (fold (gl_deliver mh) ds r))" "gl_inv (rData (fold (gl_deliver mh') es r'))"
    using all by (auto simp: glr_inv_def glist.replica_inv_def)
  ultimately show ?thesis
    unfolding GList_Items_def by (intro gl_Items_view)
qed

theorem GList_converges_witness:
  "\<exists>r r'. NewGList demo_hash 1 (Some StringCodec) [] = Ok r \<and> NewGList demo_hash 2 (Some StringCodec) [] = Ok r' \<and>
     GList_Items (fold (gl_deliver demo_hash) [(mkDot 3 1, []), (mkDot 4 1, [])] r)
     = GList_Items (fold (gl_deliver demo_hash) [(mkDot 4 1, []), (mkDot 3 1, [])] r')"
proof -
  have seed: "MakeSeed demo_hash \<noteq> 0" and opts: "oBackend (applyOptions []) = None"
    by (simp_all add: applyOptions_def)
  obtain r :: "bytes GList" where r: "NewGList demo_hash 1 (Some StringCodec) [] = Ok r"
    by (rule NewGList_Ok [OF seed opts])
  obtain r' :: "bytes GList" where r': "NewGList demo_hash 2 (Some StringCodec) [] = Ok r'"
    by (rule NewGList_Ok [OF seed opts])
  have "gl_fits (d, [])" for d by (simp add: gl_fits_def gl_delta_def PutUvarint.simps [of 0])
  then have "GList_Items (fold (gl_deliver demo_hash) [(mkDot 3 1, []), (mkDot 4 1, [])] r)
     = GList_Items (fold (gl_deliver demo_hash) [(mkDot 4 1, []), (mkDot 3 1, [])] r')"
    by (intro GList_converges [OF seed seed opts opts r r']) (auto simp: gl_same_def StringCodec_def)
  with r r' show ?thesis by blast
qed

text \<open>
  The key of an item determines its dot, so deduplication by key is deduplication by dot.
\<close>

theorem dotKey_determines_dot: "dotKey d = dotKey e \<longleftrightarrow> d = e"
  by simp

end
