(* ===== verification/LWWMaps.thy ===== *)
theory LWWMaps
  imports Replica
begin

text \<open>
  The last-writer-wins map: the storage type (\<^verbatim>\<open>lwwmap.go\<close>) and the public type over a replica
  with the last-writer-wins clock (\<^verbatim>\<open>node.go\<close>). Its view gives every key a dot and either a
  value or a tombstone; it refines the last-writer-wins cells of the convergence theory.
\<close>

section \<open>Definitions\<close>

record 'v lwwMapState =
  lmCodec :: "'v Codec"
  lmBackend :: memoryBackend

definition newLWWMapState :: "'v Codec option \<Rightarrow> Option list \<Rightarrow> 'v lwwMapState go" where
  "newLWWMapState codec opts =
     go_bind (requireCodec codec) (\<lambda>_.
       let os = applyOptions opts;
           b = (case oBackend os of None \<Rightarrow> newMemoryBackend | Some b \<Rightarrow> b)
       in Ok \<lparr>lmCodec = the codec, lmBackend = b\<rparr>)"

definition lwwMapState_Put ::
    "'v lwwMapState \<Rightarrow> bytes \<Rightarrow> 'v \<Rightarrow> Dot \<Rightarrow> 'v lwwMapState \<times> bytes go" where
  "lwwMapState_Put m key v dot =
     (case Encode (lmCodec m) v of
        Inl e \<Rightarrow> (m, Err e)
      | Inr valBytes \<Rightarrow>
          (m\<lparr>lmBackend := memoryBackend_DeleteTombstone
              (memoryBackend_PutEntry (lmBackend m) key valBytes (encodeDot dot)) key\<rparr>,
           Ok (appendVarintBytes (appendVarintBytes [opPut] key) valBytes @ encodeDot dot)))"

definition lwwMapState_PutBytes :: "'v lwwMapState \<Rightarrow> bytes \<Rightarrow> bytes \<Rightarrow> Dot \<Rightarrow> 'v lwwMapState" where
  "lwwMapState_PutBytes m key valBytes dot =
     m\<lparr>lmBackend := memoryBackend_DeleteTombstone
         (memoryBackend_PutEntry (lmBackend m) key valBytes (encodeDot dot)) key\<rparr>"

definition lwwMapState_Remove :: "'v lwwMapState \<Rightarrow> bytes \<Rightarrow> Dot \<Rightarrow> 'v lwwMapState \<times> bytes" where
  "lwwMapState_Remove m key dot =
     (m\<lparr>lmBackend := memoryBackend_PutTombstone (memoryBackend_DeleteEntry (lmBackend m) key) key (encodeDot dot)\<rparr>,
      appendVarintBytes [opRemove] key @ encodeDot dot)"

definition lwwMapState_Get :: "'v lwwMapState \<Rightarrow> bytes \<Rightarrow> ('v \<times> Dot) option" where
  "lwwMapState_Get m key =
     (case memoryBackend_GetEntry (lmBackend m) key of
        None \<Rightarrow> None
      | Some (valBytes, metaBytes) \<Rightarrow>
          (case Decode (lmCodec m) valBytes of
             Inr v \<Rightarrow> (case decodeDot metaBytes of Ok dot \<Rightarrow> Some (v, dot) | _ \<Rightarrow> None)
           | Inl _ \<Rightarrow> None))"

definition lwwMapState_GetBytes :: "'v lwwMapState \<Rightarrow> bytes \<Rightarrow> (bytes \<times> Dot) option" where
  "lwwMapState_GetBytes m key =
     (case memoryBackend_GetEntry (lmBackend m) key of
        None \<Rightarrow> None
      | Some (valBytes, metaBytes) \<Rightarrow>
          (case decodeDot metaBytes of Ok dot \<Rightarrow> Some (valBytes, dot) | _ \<Rightarrow> None))"

definition lwwMapState_GetTombstone :: "'v lwwMapState \<Rightarrow> bytes \<Rightarrow> Dot option" where
  "lwwMapState_GetTombstone m key =
     (case memoryBackend_GetTombstone (lmBackend m) key of
        None \<Rightarrow> None
      | Some metaBytes \<Rightarrow> (case decodeDot metaBytes of Ok dot \<Rightarrow> Some dot | _ \<Rightarrow> None))"

definition lwwMapState_Range ::
    "'v lwwMapState \<Rightarrow> (bytes \<Rightarrow> 'v \<Rightarrow> Dot \<Rightarrow> 'x \<Rightarrow> 'x \<times> bool) \<Rightarrow> 'x \<Rightarrow> 'x" where
  "lwwMapState_Range m fn x =
     memoryBackend_RangeEntries (lmBackend m) (\<lambda>key valBytes metaBytes x.
       case Decode (lmCodec m) valBytes of
         Inr v \<Rightarrow> (case decodeDot metaBytes of Ok dot \<Rightarrow> fn key v dot x | _ \<Rightarrow> (x, True))
       | Inl _ \<Rightarrow> (x, True)) x"

definition lwwMapState_RangeBytes ::
    "'v lwwMapState \<Rightarrow> (bytes \<Rightarrow> bytes \<Rightarrow> Dot \<Rightarrow> 'x \<Rightarrow> 'x \<times> bool) \<Rightarrow> 'x \<Rightarrow> 'x" where
  "lwwMapState_RangeBytes m fn x =
     memoryBackend_RangeEntries (lmBackend m) (\<lambda>key valBytes metaBytes x.
       case decodeDot metaBytes of Ok dot \<Rightarrow> fn key valBytes dot x | _ \<Rightarrow> (x, True)) x"

definition lwwMapState_RangeTombstones ::
    "'v lwwMapState \<Rightarrow> (bytes \<Rightarrow> Dot \<Rightarrow> 'x \<Rightarrow> 'x \<times> bool) \<Rightarrow> 'x \<Rightarrow> 'x" where
  "lwwMapState_RangeTombstones m fn x =
     memoryBackend_RangeTombstones (lmBackend m) (\<lambda>key metaBytes x.
       case decodeDot metaBytes of Ok dot \<Rightarrow> fn key dot x | _ \<Rightarrow> (x, True)) x"

definition lwwMapState_Len :: "'v lwwMapState \<Rightarrow> nat" where
  "lwwMapState_Len m = memoryBackend_EntryLen (lmBackend m)"

definition lwwMapState_TombstoneLen :: "'v lwwMapState \<Rightarrow> nat" where
  "lwwMapState_TombstoneLen m = memoryBackend_TombstoneLen (lmBackend m)"

definition lwwMapState_EntryMeta :: "'v lwwMapState \<Rightarrow> bytes \<Rightarrow> bytes option" where
  "lwwMapState_EntryMeta m key = map_option snd (memoryBackend_GetEntry (lmBackend m) key)"

definition lwwMapState_TombstoneMeta :: "'v lwwMapState \<Rightarrow> bytes \<Rightarrow> bytes option" where
  "lwwMapState_TombstoneMeta m key = memoryBackend_GetTombstone (lmBackend m) key"

definition lwwMapState_parsePutDelta :: "bytes \<Rightarrow> deltaInfo go" where
  "lwwMapState_parsePutDelta data =
     go_bind (readVarintBytes data 0) (\<lambda>(keyBytes, off). go_bind (readVarintBytes data off) (\<lambda>(_, off).
       if off + 16 > int (length data) then Err ErrShortBuffer
       else go_bind (go_bind (slice_from data off) decodeDot) (\<lambda>dot. go_bind (slice data off (off + 16)) (\<lambda>meta.
         Ok \<lparr>diOp = opPut, diKey = keyBytes, diMeta = meta, diContext = None, diDots = [dot]\<rparr>))))"

definition lwwMapState_parseRemoveDelta :: "bytes \<Rightarrow> deltaInfo go" where
  "lwwMapState_parseRemoveDelta data =
     go_bind (readVarintBytes data 0) (\<lambda>(keyBytes, off).
       if off + 16 > int (length data) then Err ErrShortBuffer
       else go_bind (go_bind (slice_from data off) decodeDot) (\<lambda>dot. go_bind (slice data off (off + 16)) (\<lambda>meta.
         Ok \<lparr>diOp = opRemove, diKey = keyBytes, diMeta = meta, diContext = None, diDots = [dot]\<rparr>)))"

definition lwwMapState_ParseDelta :: "'v lwwMapState \<Rightarrow> bytes \<Rightarrow> deltaInfo go" where
  "lwwMapState_ParseDelta m delta =
     (case delta of
        [] \<Rightarrow> Err ErrShortBuffer
      | b # data \<Rightarrow>
          if b = opPut then lwwMapState_parsePutDelta data
          else if b = opRemove then lwwMapState_parseRemoveDelta data
          else Err ErrUnknownOp)"

definition lwwMapState_applyPut :: "'v lwwMapState \<Rightarrow> bytes \<Rightarrow> 'v lwwMapState \<times> unit go" where
  "lwwMapState_applyPut m data =
     (case go_bind (readVarintBytes data 0) (\<lambda>(keyBytes, off). go_bind (readVarintBytes data off) (\<lambda>(valBytes, off).
         if off + 16 > int (length data) then Err ErrShortBuffer
         else go_bind (go_bind (slice_from data off) decodeDot) (\<lambda>remoteDot. Ok (keyBytes, valBytes, remoteDot)))) of
        Ok (keyBytes, valBytes, remoteDot) \<Rightarrow> (lwwMapState_PutBytes m keyBytes valBytes remoteDot, Ok ())
      | Err e \<Rightarrow> (m, Err e)
      | Panic \<Rightarrow> (m, Panic))"

definition lwwMapState_applyRemove :: "'v lwwMapState \<Rightarrow> bytes \<Rightarrow> 'v lwwMapState \<times> unit go" where
  "lwwMapState_applyRemove m data =
     (case go_bind (readVarintBytes data 0) (\<lambda>(keyBytes, off).
         if off + 16 > int (length data) then Err ErrShortBuffer
         else go_bind (go_bind (slice_from data off) decodeDot) (\<lambda>remoteDot. Ok (keyBytes, remoteDot))) of
        Ok (keyBytes, remoteDot) \<Rightarrow> (fst (lwwMapState_Remove m keyBytes remoteDot), Ok ())
      | Err e \<Rightarrow> (m, Err e)
      | Panic \<Rightarrow> (m, Panic))"

definition lwwMapState_Apply :: "'v lwwMapState \<Rightarrow> bytes \<Rightarrow> 'v lwwMapState \<times> unit go" where
  "lwwMapState_Apply m delta =
     (case delta of
        [] \<Rightarrow> (m, Err ErrShortBuffer)
      | b # data \<Rightarrow>
          if b = opPut then lwwMapState_applyPut m data
          else if b = opRemove then lwwMapState_applyRemove m data
          else (m, Err ErrUnknownOp))"

definition lwwMapState_DeltasSince :: "'v lwwMapState \<Rightarrow> VClock \<Rightarrow> bytes list" where
  "lwwMapState_DeltasSince m peerHWM =
     (let deltas = lwwMapState_RangeBytes m (\<lambda>key valBytes dot deltas.
            if Counter dot > VClock_Get peerHWM (Replica dot)
            then (deltas @ [appendVarintBytes (appendVarintBytes [opPut] key) valBytes @ encodeDot dot], True)
            else (deltas, True)) []
      in lwwMapState_RangeTombstones m (\<lambda>key dot deltas.
            if Counter dot > VClock_Get peerHWM (Replica dot)
            then (deltas @ [appendVarintBytes [opRemove] key @ encodeDot dot], True)
            else (deltas, True)) deltas)"

definition lwwMapM :: "'v lwwMapState mergeable" where
  "lwwMapM = \<lparr>mEntryMeta = lwwMapState_EntryMeta, mTombstoneMeta = lwwMapState_TombstoneMeta,
     mParseDelta = (\<lambda>m d. (m, lwwMapState_ParseDelta m d)), mApply = lwwMapState_Apply,
     mDeltasSince = lwwMapState_DeltasSince, mGCTombstones = None\<rparr>"

subsection \<open>The public type (node.go)\<close>

type_synonym 'v LWWMap = "'v lwwMapState replica"

definition NewLWWMap :: "maphash \<Rightarrow> ReplicaID \<Rightarrow> 'v Codec option \<Rightarrow> Option list \<Rightarrow> 'v LWWMap go" where
  "NewLWWMap mh rid codec opts =
     (let os = applyOptions opts;
          stateOpts = (if oBackend os \<noteq> None then [WithBackend (oBackend os)] else [])
      in go_map (\<lambda>state. newReplica mh rid state lwwClock opts) (newLWWMapState codec stateOpts))"

definition LWWMap_Put :: "maphash \<Rightarrow> 'v LWWMap \<Rightarrow> bytes \<Rightarrow> 'v \<Rightarrow> 'v LWWMap \<times> (sends \<times> WriteResult) go" where
  "LWWMap_Put mh m key v =
     (let (r, dot) = replica_nextDot m; (s, d) = lwwMapState_Put (rData r) key v dot; r = r\<lparr>rData := s\<rparr> in
      case d of
        Err e \<Rightarrow> (r, Err e)
      | Panic \<Rightarrow> (r, Panic)
      | Ok delta \<Rightarrow> (let r = replica_trackKey mh lwwMapM r key in (r, Ok (replica_propagate r dot delta))))"

definition LWWMap_Remove :: "maphash \<Rightarrow> 'v LWWMap \<Rightarrow> bytes \<Rightarrow> 'v LWWMap \<times> sends \<times> WriteResult" where
  "LWWMap_Remove mh m key =
     (let (r, dot) = replica_nextDot m; (s, delta) = lwwMapState_Remove (rData r) key dot;
          r = replica_trackKey mh lwwMapM (r\<lparr>rData := s\<rparr>) key
      in (r, replica_propagate r dot delta))"

definition LWWMap_Get :: "'v LWWMap \<Rightarrow> bytes \<Rightarrow> 'v option" where
  "LWWMap_Get m key = map_option fst (lwwMapState_Get (rData m) key)"

definition LWWMap_Len :: "'v LWWMap \<Rightarrow> nat" where
  "LWWMap_Len m = lwwMapState_Len (rData m)"

definition LWWMap_Range :: "'v LWWMap \<Rightarrow> (bytes \<Rightarrow> 'v \<Rightarrow> 'x \<Rightarrow> 'x \<times> bool) \<Rightarrow> 'x \<Rightarrow> 'x" where
  "LWWMap_Range m fn x = lwwMapState_Range (rData m) (\<lambda>key v _. fn key v) x"

definition LWWMap_Close :: "'v LWWMap \<Rightarrow> 'v LWWMap" where
  "LWWMap_Close m = replica_Close m"

section \<open>The invariant and the view\<close>

text \<open>No key is both live and tombstoned, and all stored metadata are encoded dots.\<close>

definition lm_inv :: "'v lwwMapState \<Rightarrow> bool" where
  "lm_inv m \<longleftrightarrow> mb_inv (lmBackend m) \<and> memory.exclusive (lmBackend m) \<and>
     (\<forall>k v e. memoryBackend_GetEntry (lmBackend m) k = Some (v, e) \<longrightarrow> (\<exists>d. e = encodeDot d)) \<and>
     (\<forall>k e. memoryBackend_GetTombstone (lmBackend m) k = Some e \<longrightarrow> (\<exists>d. e = encodeDot d))"

definition lm_view :: "'v lwwMapState \<Rightarrow> bytes \<Rightarrow> (Dot \<times> bytes option) option" where
  "lm_view m k =
     (case lwwMapState_GetBytes m k of
        Some (v, d) \<Rightarrow> Some (d, Some v)
      | None \<Rightarrow> map_option (\<lambda>d. (d, None)) (lwwMapState_GetTombstone m k))"

text \<open>The write that a delta performs once it is allowed.\<close>

definition lm_write :: "'v lwwMapState \<Rightarrow> bytes \<Rightarrow> Dot \<Rightarrow> bytes option \<Rightarrow> 'v lwwMapState" where
  "lm_write m k d c =
     (case c of Some v \<Rightarrow> lwwMapState_PutBytes m k v d | None \<Rightarrow> fst (lwwMapState_Remove m k d))"

definition lm_delta :: "bytes \<times> Dot \<times> bytes option \<Rightarrow> bytes" where
  "lm_delta x =
     (case x of (k, d, Some v) \<Rightarrow> appendVarintBytes (appendVarintBytes [opPut] k) v @ encodeDot d
      | (k, d, None) \<Rightarrow> appendVarintBytes [opRemove] k @ encodeDot d)"

lemma lm_writes:
  "lwwMapState_PutBytes m k v d = lm_write m k d (Some v)"
  "fst (lwwMapState_Remove m k d) = lm_write m k d None"
  by (simp_all add: lm_write_def)

lemma lm_inv_write: "lm_inv m \<Longrightarrow> lm_inv (lm_write m k d c)"
  by (cases c) (auto simp: lm_inv_def lm_write_def lwwMapState_PutBytes_def lwwMapState_Remove_def
      memory.live_write memory.tombstone_write memory.exclusive_live_write memory.exclusive_tombstone_write
      split: if_splits)

lemma GetBytes_write:
  "lm_inv m \<Longrightarrow> lwwMapState_GetBytes (lm_write m k d c) =
     (lwwMapState_GetBytes m)(k := map_option (\<lambda>v. (v, d)) c)"
  by (cases c) (auto simp: lm_inv_def lm_write_def lwwMapState_PutBytes_def lwwMapState_Remove_def
      lwwMapState_GetBytes_def memory.live_write memory.tombstone_write fun_eq_iff)

lemma GetTombstone_write:
  "lm_inv m \<Longrightarrow> lwwMapState_GetTombstone (lm_write m k d c) =
     (lwwMapState_GetTombstone m)(k := (if c = None then Some d else None))"
  by (cases c) (auto simp: lm_inv_def lm_write_def lwwMapState_PutBytes_def lwwMapState_Remove_def
      lwwMapState_GetTombstone_def memory.live_write memory.tombstone_write fun_eq_iff)

lemma lm_view_write: "lm_inv m \<Longrightarrow> lm_view (lm_write m k d c) = (lm_view m)(k \<mapsto> (d, c))"
  by (cases c) (auto simp: lm_view_def GetBytes_write GetTombstone_write fun_eq_iff split: option.splits)

text \<open>What a live entry and a tombstone say about the stored metadata.\<close>

lemma lm_view_cases:
  assumes "lm_inv m"
  shows "lm_view m k = Some (d, Some v) \<longleftrightarrow> memoryBackend_GetEntry (lmBackend m) k = Some (v, encodeDot d)"
    and "lm_view m k = Some (d, None) \<longleftrightarrow> memoryBackend_GetTombstone (lmBackend m) k = Some (encodeDot d)"
    and "lm_view m k = None \<longleftrightarrow> memoryBackend_GetEntry (lmBackend m) k = None \<and> memoryBackend_GetTombstone (lmBackend m) k = None"
proof -
  have ex: "memoryBackend_GetEntry (lmBackend m) k = None \<or> memoryBackend_GetTombstone (lmBackend m) k = None"
    and e: "\<And>v e. memoryBackend_GetEntry (lmBackend m) k = Some (v, e) \<Longrightarrow> \<exists>d. e = encodeDot d"
    and t: "\<And>e. memoryBackend_GetTombstone (lmBackend m) k = Some e \<Longrightarrow> \<exists>d. e = encodeDot d"
    using assms by (auto simp: lm_inv_def memory.exclusive_def)
  show "lm_view m k = Some (d, Some v) \<longleftrightarrow> memoryBackend_GetEntry (lmBackend m) k = Some (v, encodeDot d)"
    using e by (auto simp: lm_view_def lwwMapState_GetBytes_def split: option.splits go.splits)
  show "lm_view m k = Some (d, None) \<longleftrightarrow> memoryBackend_GetTombstone (lmBackend m) k = Some (encodeDot d)"
    using ex e t by (auto simp: lm_view_def lwwMapState_GetBytes_def lwwMapState_GetTombstone_def
        split: option.splits go.splits)
  show "lm_view m k = None \<longleftrightarrow> memoryBackend_GetEntry (lmBackend m) k = None \<and> memoryBackend_GetTombstone (lmBackend m) k = None"
    using e t by (auto simp: lm_view_def lwwMapState_GetBytes_def lwwMapState_GetTombstone_def
        split: option.splits go.splits)
qed

section \<open>Deltas\<close>

lemma lm_delta_Put: "Encode (lmCodec m) v = Inr b \<Longrightarrow>
    lwwMapState_Put m k v d = (lm_write m k d (Some b), Ok (lm_delta (k, d, Some b)))"
  by (simp add: lwwMapState_Put_def lm_write_def lwwMapState_PutBytes_def lm_delta_def)

lemma lm_delta_Remove: "lwwMapState_Remove m k d = (lm_write m k d None, lm_delta (k, d, None))"
  by (simp add: lwwMapState_Remove_def lm_write_def lm_delta_def)

lemma lm_delta_cons:
  "lm_delta (k, d, Some v) = opPut # appendVarintBytes [] k @ appendVarintBytes [] v @ encodeDot d"
  "lm_delta (k, d, None) = opRemove # appendVarintBytes [] k @ encodeDot d"
  by (simp_all add: lm_delta_def appendVarintBytes_def)

lemma lm_delta_put:
  assumes "length (lm_delta (k, d, Some v)) < 2 ^ 63"
  shows "lwwMapState_ParseDelta m (lm_delta (k, d, Some v)) =
      Ok \<lparr>diOp = opPut, diKey = k, diMeta = encodeDot d, diContext = None, diDots = [d]\<rparr>"
    and "lwwMapState_Apply m (lm_delta (k, d, Some v)) = (lm_write m k d (Some v), Ok ())"
proof -
  have len: "length (appendVarintBytes [] k @ appendVarintBytes [] v @ encodeDot d @ []) < 2 ^ 63"
    using assms by (simp add: lm_delta_cons)
  note [simp] = lm_delta_cons lwwMapState_ParseDelta_def lwwMapState_parsePutDelta_def
    lwwMapState_Apply_def lwwMapState_applyPut_def lm_write_def
  show
    "lwwMapState_ParseDelta m (lm_delta (k, d, Some v)) =
      Ok \<lparr>diOp = opPut, diKey = k, diMeta = encodeDot d, diContext = None, diDots = [d]\<rparr>"
    by (rule read_two_fields_dot [OF len]) (simp del: length_append)
  show
    "lwwMapState_Apply m (lm_delta (k, d, Some v)) = (lm_write m k d (Some v), Ok ())"
    by (rule read_two_fields_dot [OF len]) (simp del: length_append)
qed

lemma lm_delta_remove:
  assumes "length (lm_delta (k, d, None)) < 2 ^ 63"
  shows "lwwMapState_ParseDelta m (lm_delta (k, d, None)) =
      Ok \<lparr>diOp = opRemove, diKey = k, diMeta = encodeDot d, diContext = None, diDots = [d]\<rparr>"
    and "lwwMapState_Apply m (lm_delta (k, d, None)) = (lm_write m k d None, Ok ())"
proof -
  have len: "length (appendVarintBytes [] k @ encodeDot d @ []) < 2 ^ 63"
    using assms by (simp add: lm_delta_cons)
  note [simp] = lm_delta_cons lwwMapState_ParseDelta_def lwwMapState_parseRemoveDelta_def
    lwwMapState_Apply_def lwwMapState_applyRemove_def lm_write_def
  show
    "lwwMapState_ParseDelta m (lm_delta (k, d, None)) =
      Ok \<lparr>diOp = opRemove, diKey = k, diMeta = encodeDot d, diContext = None, diDots = [d]\<rparr>"
    by (rule read_field_dot [OF len]) (simp del: length_append)
  show
    "lwwMapState_Apply m (lm_delta (k, d, None)) = (lm_write m k d None, Ok ())"
    by (rule read_field_dot [OF len]) (simp del: length_append)
qed

section \<open>Delivery\<close>

lemma lwwMapM_simps [simp]:
  "mEntryMeta lwwMapM = lwwMapState_EntryMeta" "mTombstoneMeta lwwMapM = lwwMapState_TombstoneMeta"
  "mParseDelta lwwMapM = (\<lambda>m d. (m, lwwMapState_ParseDelta m d))" "mApply lwwMapM = lwwMapState_Apply"
  "mDeltasSince lwwMapM = lwwMapState_DeltasSince" "mGCTombstones lwwMapM = None"
  by (simp_all add: lwwMapM_def)

text \<open>Whatever the bytes, an accepted delta is one write, and a refused one changes nothing.\<close>

lemma lm_Apply_cases:
  "(\<exists>k d c. lwwMapState_Apply m delta = (lm_write m k d c, Ok ()) \<and>
      (\<forall>info. lwwMapState_ParseDelta m delta = Ok info \<longrightarrow> diKey info = k)) \<or>
   fst (lwwMapState_Apply m delta) = m \<and> snd (lwwMapState_Apply m delta) \<noteq> Ok ()"
proof (cases delta)
  case (Cons b data)
  consider (put) "b = opPut" | (rem) "b = opRemove" | (other) "b \<noteq> opPut" "b \<noteq> opRemove" by blast
  then show ?thesis
  proof cases
    case put
    then show ?thesis
      using Cons unfolding lwwMapState_Apply_def lwwMapState_applyPut_def lwwMapState_ParseDelta_def lwwMapState_parsePutDelta_def
      by (auto simp: go_simps lm_writes split: go.splits prod.splits) (rule exI, rule conjI, (rule exI)+, rule refl, auto)
  next
    case rem
    then show ?thesis
      using Cons unfolding lwwMapState_Apply_def lwwMapState_applyRemove_def lwwMapState_ParseDelta_def lwwMapState_parseRemoveDelta_def
      by (auto simp: go_simps lm_writes split: go.splits prod.splits) (rule exI, rule conjI, (rule exI)+, rule refl, auto)
  qed (use Cons in \<open>auto simp: lwwMapState_Apply_def\<close>)
qed (simp add: lwwMapState_Apply_def)

lemma lm_meta_other:
  assumes "lm_inv m" "k' \<noteq> k"
  shows "meta_of lwwMapM (lm_write m k d c) k' = meta_of lwwMapM m k'"
  using assms
  by (cases c) (auto simp: lm_inv_def lm_write_def lwwMapState_PutBytes_def lwwMapState_Remove_def meta_of_def
      lwwMapState_EntryMeta_def lwwMapState_TombstoneMeta_def memory.live_write memory.tombstone_write split: option.splits)

interpretation lwwmap: tracked_storage lwwMapM lm_inv
proof
  fix s :: "'a lwwMapState" and delta
  assume "lm_inv s"
  then show "lm_inv (fst (mApply lwwMapM s delta))"
    using lm_Apply_cases [of s delta] lm_inv_write by auto
  fix info k
  assume "snd (mParseDelta lwwMapM s delta) = Ok info" "k \<noteq> diKey info"
  with \<open>lm_inv s\<close> show "meta_of lwwMapM (fst (mApply lwwMapM s delta)) k = meta_of lwwMapM s k"
    using lm_Apply_cases [of s delta] lm_meta_other by auto
next
  fix s :: "'a lwwMapState" and delta
  assume "snd (mApply lwwMapM s delta) \<noteq> Ok ()"
  then show "fst (mApply lwwMapM s delta) = s"
    using lm_Apply_cases [of s delta] by auto
qed simp_all

definition lwwr_inv :: "maphash \<Rightarrow> 'v LWWMap \<Rightarrow> bool" where
  "lwwr_inv mh r \<longleftrightarrow> lwwmap.replica_inv mh r \<and> rStrategy r = lwwClock"

definition lm_deliver :: "maphash \<Rightarrow> bytes \<times> Dot \<times> bytes option \<Rightarrow> 'v LWWMap \<Rightarrow> 'v LWWMap" where
  "lm_deliver mh x r = fst (replica_applyDelta mh lwwMapM r 0 (mkDot 0 0) (lm_delta x))"

definition lm_fits :: "bytes \<times> Dot \<times> bytes option \<Rightarrow> bool" where
  "lm_fits x \<longleftrightarrow> length (lm_delta x) < 2 ^ 63"

lemma lm_allows:
  assumes "lm_inv m" "diKey info = k" "diMeta info = encodeDot d"
  shows "lwwClock (queryable_of lwwMapM m) info \<longleftrightarrow> (case lm_view m k of None \<Rightarrow> True | Some (l, _) \<Rightarrow> l < d)"
proof (cases "lm_view m k")
  case None
  then show ?thesis
    using assms lm_view_cases(3) [OF assms(1), of k]
    by (simp add: lwwClock_def queryable_of_def lwwMapState_EntryMeta_def lwwMapState_TombstoneMeta_def)
next
  case (Some lc)
  obtain l c where lc: "lc = (l, c)" by (cases lc)
  have ex: "memoryBackend_GetEntry (lmBackend m) k = None \<or> memoryBackend_GetTombstone (lmBackend m) k = None"
    using assms(1) by (auto simp: lm_inv_def memory.exclusive_def)
  note [simp] = lwwClock_def queryable_of_def lwwMapState_EntryMeta_def lwwMapState_TombstoneMeta_def
  show ?thesis
  proof (cases c)
    case None
    then have t: "memoryBackend_GetTombstone (lmBackend m) k = Some (encodeDot l)"
      using Some lc lm_view_cases(2) [OF assms(1), of k l] by simp
    with ex have "memoryBackend_GetEntry (lmBackend m) k = None" by simp
    with t Some lc assms(2,3) show ?thesis by (auto simp: not_le)
  next
    case (Some v)
    then have e: "memoryBackend_GetEntry (lmBackend m) k = Some (v, encodeDot l)"
      using \<open>lm_view m k = Some lc\<close> lc lm_view_cases(1) [OF assms(1), of k l v] by simp
    with ex have "memoryBackend_GetTombstone (lmBackend m) k = None" by simp
    with e \<open>lm_view m k = Some lc\<close> lc assms(2,3) show ?thesis by (auto simp: not_le)
  qed
qed

lemma lm_deliver_data:
  assumes "lwwr_inv mh r" "lm_fits (k, d, c)"
  shows "rData (lm_deliver mh (k, d, c) r) =
    (if (case lm_view (rData r) k of None \<Rightarrow> True | Some (l, _) \<Rightarrow> l < d) then lm_write (rData r) k d c else rData r)"
proof -
  have inv: "lm_inv (rData r)" and st: "rStrategy r = lwwClock"
    using assms(1) by (auto simp: lwwr_inv_def lwwmap.replica_inv_def)
  obtain info where info: "lwwMapState_ParseDelta (rData r) (lm_delta (k, d, c)) = Ok info"
      "diKey info = k" "diMeta info = encodeDot d"
      "lwwMapState_Apply (rData r) (lm_delta (k, d, c)) = (lm_write (rData r) k d c, Ok ())"
    using assms(2) lm_delta_put [of k d _ "rData r"] lm_delta_remove [of k d "rData r"]
    unfolding lm_fits_def by (cases c) auto
  then have p: "mParseDelta lwwMapM (rData r) (lm_delta (k, d, c)) = (rData r, Ok info)" by simp
  show ?thesis
    unfolding lm_deliver_def applyDelta_data [OF p] st using info lm_allows [OF inv info(2,3)] by simp
qed

lemma lm_deliver_view:
  assumes "lwwr_inv mh r" "lm_fits x"
  shows "lm_view (rData (lm_deliver mh x r)) = lww_step x (lm_view (rData r))"
proof -
  obtain k d c where x: "x = (k, d, c)" by (cases x)
  have "lm_inv (rData r)" using assms(1) by (auto simp: lwwr_inv_def lwwmap.replica_inv_def)
  with lm_deliver_data [of mh r k d c] assms show ?thesis
    by (auto simp: x lww_step_def lm_view_write)
qed

interpretation lwwmap_sec: delta_crdt "lm_deliver mh" "\<lambda>r. lm_view (rData r)" lww_step lm_fits same_write "lwwr_inv mh" for mh
proof
  fix r :: "'a LWWMap" and d
  assume r: "lwwr_inv mh r" and d: "lm_fits d"
  show "lwwr_inv mh (lm_deliver mh d r)"
    using r by (simp add: lwwr_inv_def lm_deliver_def lwwmap.applyDelta_inv)
  show "lm_view (rData (lm_deliver mh d r)) = lww_step d (lm_view (rData r))"
    by (rule lm_deliver_view [OF r d])
qed (rule lww_step_commute lww_step_idem, assumption?)+

lemma lm_codec_write [simp]: "lmCodec (lm_write m k d c) = lmCodec m"
  by (cases c) (simp_all add: lm_write_def lwwMapState_PutBytes_def lwwMapState_Remove_def)

lemma lm_deliver_codec:
  "lwwr_inv mh r \<Longrightarrow> list_all lm_fits ds \<Longrightarrow> lmCodec (rData (fold (lm_deliver mh) ds r)) = lmCodec (rData r)"
proof (induction ds arbitrary: r)
  case (Cons x ds)
  obtain k d c where x: "x = (k, d, c)" by (cases x)
  have "lwwr_inv mh (lm_deliver mh x r)" using Cons.prems by (simp add: lwwmap_sec.inv_deliver)
  with Cons x show ?case by (simp add: lm_deliver_data)
qed simp

section \<open>Reads, local writes and anti-entropy\<close>

definition lm_read :: "'v Codec \<Rightarrow> (Dot \<times> bytes option) option \<Rightarrow> 'v option" where
  "lm_read cd cell =
     (case cell of Some (_, Some b) \<Rightarrow> (case Decode cd b of Inr v \<Rightarrow> Some v | Inl _ \<Rightarrow> None) | _ \<Rightarrow> None)"

lemma LWWMap_Get_view: "LWWMap_Get r k = lm_read (lmCodec (rData r)) (lm_view (rData r) k)"
  by (auto simp: LWWMap_Get_def lwwMapState_Get_def lm_view_def lwwMapState_GetBytes_def lm_read_def
      split: option.splits go.splits sum.splits)

lemma NewLWWMap_Ok:
  assumes "MakeSeed mh \<noteq> 0" "oBackend (applyOptions opts) = None"
  obtains r where "NewLWWMap mh i (Some c) opts = Ok r" "lwwr_inv mh r" "lm_view (rData r) = (\<lambda>_. None)"
    "lmCodec (rData r) = c" "rLocal r = newLocalClock i"
proof -
  let ?m = "\<lparr>lmCodec = c, lmBackend = newMemoryBackend\<rparr>"
  let ?r = "newReplica mh i ?m lwwClock opts"
  have "lm_inv ?m" "lm_view ?m = (\<lambda>_. None)"
    by (simp_all add: lm_inv_def memory.inv_empty memory.exclusive_empty memory.get_empty memory.tget_empty
        lm_view_def lwwMapState_GetBytes_def lwwMapState_GetTombstone_def fun_eq_iff)
  moreover have "rLocal ?r = newLocalClock i" by (simp add: newReplica_def Let_def)
  ultimately show ?thesis
    using assms received.inv_empty
    by (intro that [of ?r]) (simp_all add: NewLWWMap_def newLWWMapState_def requireCodec_def applyOptions_def
        lwwr_inv_def lwwmap.replica_inv_def mm_inv_new Let_def)
qed

lemma LWWMap_Put_data:
  assumes "Encode (lmCodec (rData r)) v = Inr b"
  shows "rData (fst (LWWMap_Put mh r k v)) = lm_write (rData r) k (mkDot (lcReplica (rLocal r)) (lcCounter (rLocal r) + 1)) (Some b)"
  using assms
  by (simp add: LWWMap_Put_def Let_def split_beta lm_delta_Put)

lemma LWWMap_Remove_data:
  "rData (fst (LWWMap_Remove mh r k)) = lm_write (rData r) k (mkDot (lcReplica (rLocal r)) (lcCounter (rLocal r) + 1)) None"
  by (simp add: LWWMap_Remove_def Let_def split_beta lm_delta_Remove)

lemma LWWMap_Put_inv:
  assumes "lwwr_inv mh r" "Encode (lmCodec (rData r)) v = Inr b"
  shows "lwwr_inv mh (fst (LWWMap_Put mh r k v))"
proof -
  have "lm_inv (rData r)" using assms(1) by (simp add: lwwr_inv_def lwwmap.replica_inv_def)
  with assms show ?thesis
    using lwwmap.local_op_inv [of mh r, OF _ lm_inv_write]
    by (simp add: lwwr_inv_def LWWMap_Put_def Let_def split_beta lm_delta_Put)
qed

lemma LWWMap_Remove_inv:
  assumes "lwwr_inv mh r"
  shows "lwwr_inv mh (fst (LWWMap_Remove mh r k))"
proof -
  have "lm_inv (rData r)" using assms(1) by (simp add: lwwr_inv_def lwwmap.replica_inv_def)
  with assms show ?thesis
    using lwwmap.local_op_inv [of mh r, OF _ lm_inv_write]
    by (simp add: lwwr_inv_def LWWMap_Remove_def Let_def split_beta lm_delta_Remove)
qed

definition lm_since :: "'v lwwMapState \<Rightarrow> VClock \<Rightarrow> (bytes \<times> Dot \<times> bytes option) list" where
  "lm_since m hwm =
     concat (map (\<lambda>(k, e). case decodeDot (meMeta e) of
         Ok d \<Rightarrow> if Counter d > VClock_Get hwm (Replica d) then [(k, d, Some (meValue e))] else []
       | _ \<Rightarrow> []) (mbEntries (lmBackend m))) @
     concat (map (\<lambda>(k, t). case decodeDot t of
         Ok d \<Rightarrow> if Counter d > VClock_Get hwm (Replica d) then [(k, d, None)] else []
       | _ \<Rightarrow> []) (mbTombstones (lmBackend m)))"

lemma DeltasSince_lm:
  "lwwMapState_DeltasSince m hwm = map lm_delta (lm_since m hwm)"
proof -
  let ?e = "\<lambda>(k, e). map lm_delta (case decodeDot (meMeta e) of
         Ok d \<Rightarrow> if Counter d > VClock_Get hwm (Replica d) then [(k, d, Some (meValue e))] else [] | _ \<Rightarrow> [])"
  let ?t = "\<lambda>(k, t). map lm_delta (case decodeDot t of
         Ok d \<Rightarrow> if Counter d > VClock_Get hwm (Replica d) then [(k, d, None)] else [] | _ \<Rightarrow> [])"
  have e: "rangeLoop (\<lambda>(k, e). (\<lambda>key valBytes metaBytes x. case decodeDot metaBytes of
        Ok dot \<Rightarrow> (if Counter dot > VClock_Get hwm (Replica dot)
          then (x @ [appendVarintBytes (appendVarintBytes [opPut] key) valBytes @ encodeDot dot], True) else (x, True))
      | _ \<Rightarrow> (x, True)) k (meValue e) (meMeta e)) xs ys = ys @ concat (map ?e xs)" for xs ys
    by (rule rangeLoop_collect) (auto simp: lm_delta_def split: go.splits)
  have t: "rangeLoop (\<lambda>(k, m). (\<lambda>key metaBytes x. case decodeDot metaBytes of
        Ok dot \<Rightarrow> (if Counter dot > VClock_Get hwm (Replica dot)
          then (x @ [appendVarintBytes [opRemove] key @ encodeDot dot], True) else (x, True))
      | _ \<Rightarrow> (x, True)) k m) xs ys = ys @ concat (map ?t xs)" for xs ys
    by (rule rangeLoop_collect) (auto simp: lm_delta_def split: go.splits)
  show ?thesis
    unfolding lwwMapState_DeltasSince_def lwwMapState_RangeBytes_def lwwMapState_RangeTombstones_def
      memoryBackend_RangeEntries_def memoryBackend_RangeTombstones_def Let_def e t
    by (simp add: lm_since_def map_concat comp_def case_prod_unfold)
qed

lemma set_lm_since:
  assumes "lm_inv m"
  shows "(k, d, c) \<in> set (lm_since m hwm) \<longleftrightarrow> lm_view m k = Some (d, c) \<and> Counter d > VClock_Get hwm (Replica d)"
proof -
  have inv: "mb_inv (lmBackend m)" using assms by (simp add: lm_inv_def)
  have e: "(\<exists>v m'. memoryBackend_GetEntry (lmBackend m) k = Some (v, m') \<and> decodeDot m' = Ok d \<and> c = Some v)
      \<longleftrightarrow> lm_view m k = Some (d, c) \<and> c \<noteq> None"
    using assms by (cases c) (fastforce simp: lm_view_cases(1) [OF assms] lm_inv_def)+
  have t: "(\<exists>m'. memoryBackend_GetTombstone (lmBackend m) k = Some m' \<and> decodeDot m' = Ok d \<and> c = None)
      \<longleftrightarrow> lm_view m k = Some (d, c) \<and> c = None"
    using assms by (cases c) (fastforce simp: lm_view_cases(2) [OF assms] lm_inv_def)+
  have "(k, d, c) \<in> set (lm_since m hwm) \<longleftrightarrow> Counter d > VClock_Get hwm (Replica d) \<and>
      ((\<exists>e. (k, e) \<in> set (mbEntries (lmBackend m)) \<and> decodeDot (meMeta e) = Ok d \<and> c = Some (meValue e)) \<or>
       (\<exists>m'. (k, m') \<in> set (mbTombstones (lmBackend m)) \<and> decodeDot m' = Ok d \<and> c = None))"
    by (auto simp: lm_since_def split: go.splits if_splits) (metis go.inject(1))+
  also have "\<dots> \<longleftrightarrow> Counter d > VClock_Get hwm (Replica d) \<and> (lm_view m k = Some (d, c) \<and> c \<noteq> None \<or> lm_view m k = Some (d, c) \<and> c = None)"
    unfolding e [symmetric] t [symmetric] mb_entry_mem [OF inv] mb_tomb_mem [OF inv]
    by (metis memEntry.select_convs)
  finally show ?thesis by auto
qed

text \<open>
  The deltas selected for a clock that claims no more than the receiver holds bring it the newer cell of
  the two under every key.
\<close>

lemma lm_sync:
  assumes a: "lm_inv (rData a)" and b: "lwwr_inv mh b" and fits: "list_all lm_fits (lm_since (rData a) hwm)"
    and held: "\<forall>k d c. lm_view (rData a) k = Some (d, c) \<and> Counter d \<le> VClock_Get hwm (Replica d) \<longrightarrow>
      (\<exists>d' c'. lm_view (rData b) k = Some (d', c') \<and> d \<le> d')"
  defines "b' \<equiv> apply_all mh lwwMapM (lwwMapState_DeltasSince (rData a) hwm) b"
  shows "lm_view (rData a) k = Some (d, c) \<Longrightarrow> \<exists>d' c'. lm_view (rData b') k = Some (d', c') \<and> d \<le> d'"
    and "lm_view (rData b) k = Some (d, c) \<Longrightarrow> \<exists>d' c'. lm_view (rData b') k = Some (d', c') \<and> d \<le> d'"
    and "lm_view (rData b') k \<in> {lm_view (rData a) k, lm_view (rData b) k}"
    and "lmCodec (rData b') = lmCodec (rData b)"
proof -
  let ?xs = "lm_since (rData a) hwm"
  have b': "b' = fold (lm_deliver mh) ?xs b"
    by (simp add: b'_def DeltasSince_lm fold_map comp_def lm_deliver_def [abs_def])
  then have v: "lm_view (rData b') = fold lww_step ?xs (lm_view (rData b))"
    using lwwmap_sec.deliver_all [OF b fits] by simp
  show own: "\<exists>d' c'. lm_view (rData b') k = Some (d', c') \<and> d \<le> d'" if "lm_view (rData b) k = Some (d, c)" for k d c
    using lww_fold_keeps [where xs = ?xs, of "lm_view (rData b)", OF that] unfolding v .
  show "\<exists>d' c'. lm_view (rData b') k = Some (d', c') \<and> d \<le> d'" if k: "lm_view (rData a) k = Some (d, c)" for k d c
  proof (cases "Counter d \<le> VClock_Get hwm (Replica d)")
    case True
    then obtain e x where e: "lm_view (rData b) k = Some (e, x)" "d \<le> e" using held k by blast
    from own [OF e(1)] e(2) show ?thesis by (auto intro: order_trans)
  next
    case False
    then have "(k, d, c) \<in> set ?xs" using k by (simp add: set_lm_since [OF a] not_le)
    from lww_fold_covers [OF this] show ?thesis unfolding v .
  qed
  show "lm_view (rData b') k \<in> {lm_view (rData a) k, lm_view (rData b) k}"
    using lww_fold_origin [of ?xs "lm_view (rData b)" k] unfolding v by (auto simp: set_lm_since [OF a])
  show "lmCodec (rData b') = lmCodec (rData b)" using lm_deliver_codec [OF b fits] by (simp add: b')
qed

section \<open>Properties\<close>

text \<open>
  C2: strong eventual consistency of the last-writer-wins map: two replicas with the same codec
  that received the same deltas, in any order and any number of times, answer every read
  alike, as long as no two different deltas for a key carry the same dot.
\<close>

theorem LWWMap_converges:
  assumes "MakeSeed mh \<noteq> 0" "MakeSeed mh' \<noteq> 0"
    and "oBackend (applyOptions opts) = None" "oBackend (applyOptions opts') = None"
    and "NewLWWMap mh i (Some c) opts = Ok r" "NewLWWMap mh' j (Some c) opts' = Ok r'"
    and "list_all lm_fits ds" "\<forall>d \<in> set ds. \<forall>e \<in> set ds. same_write d e" "set ds = set es"
  shows "LWWMap_Get (fold (lm_deliver mh) ds r) k = LWWMap_Get (fold (lm_deliver mh') es r') k"
proof -
  have r: "lwwr_inv mh r" "lm_view (rData r) = (\<lambda>_. None)" "lmCodec (rData r) = c"
    using NewLWWMap_Ok [OF assms(1,3), of i c] assms(5) by auto
  have r': "lwwr_inv mh' r'" "lm_view (rData r') = (\<lambda>_. None)" "lmCodec (rData r') = c"
    using NewLWWMap_Ok [OF assms(2,4), of j c] assms(6) by auto
  have es: "list_all lm_fits es" "\<forall>d \<in> set es. \<forall>e \<in> set es. same_write d e"
    using assms(7-9) by (auto simp: list_all_iff)
  have "lm_view (rData (fold (lm_deliver mh) ds r)) = lm_view (rData (fold (lm_deliver mh') es r'))"
    using lwwmap_sec.view_of_set [OF r(1) assms(7,8)] lwwmap_sec.view_of_set [OF r'(1) es] r(2) r'(2) assms(9) by simp
  then show ?thesis
    using r r' by (simp add: LWWMap_Get_view lm_deliver_codec assms(7) es(1))
qed

lemma lm_fits_short: "length k < 128 \<Longrightarrow> (\<forall>v. c = Some v \<longrightarrow> length v < 128) \<Longrightarrow> lm_fits (k, d, c)"
  by (cases c) (simp_all add: lm_fits_def lm_delta_def length_PutUvarint_short)

theorem LWWMap_converges_witness:
  "\<exists>r r'. NewLWWMap demo_hash 1 (Some StringCodec) [] = Ok r \<and> NewLWWMap demo_hash 2 (Some StringCodec) [] = Ok r' \<and>
     LWWMap_Get (fold (lm_deliver demo_hash) [([7], mkDot 3 1, Some [5]), ([7], mkDot 4 2, Some [6])] r) [7]
     = LWWMap_Get (fold (lm_deliver demo_hash) [([7], mkDot 4 2, Some [6]), ([7], mkDot 3 1, Some [5])] r') [7]"
proof -
  have "oBackend (applyOptions []) = None" by (simp add: applyOptions_def)
  then obtain r r' :: "bytes LWWMap" where r: "NewLWWMap demo_hash 1 (Some StringCodec) [] = Ok r"
      and r': "NewLWWMap demo_hash 2 (Some StringCodec) [] = Ok r'"
    using NewLWWMap_Ok [of demo_hash "[]" _ StringCodec] by (metis maphash.select_convs(2) zero_neq_one)
  show ?thesis
    by (intro exI conjI, rule r, rule r', rule LWWMap_converges [OF _ _ _ _ r r'])
      (auto simp: applyOptions_def lm_fits_short same_write_def)
qed

text \<open>
  A successful put is read back, leaves every other key alone and keeps the replica
  invariant; a remove makes the key unreadable.
\<close>

theorem LWWMap_Put_Get:
  assumes "lwwr_inv mh r" "Encode (lmCodec (rData r)) v = Inr b" "Decode (lmCodec (rData r)) b = Inr v"
  shows "LWWMap_Get (fst (LWWMap_Put mh r k v)) k = Some v \<and>
    (\<forall>k'. k' \<noteq> k \<longrightarrow> LWWMap_Get (fst (LWWMap_Put mh r k v)) k' = LWWMap_Get r k') \<and>
    lwwr_inv mh (fst (LWWMap_Put mh r k v)) \<and>
    LWWMap_Get (fst (LWWMap_Remove mh r k)) k = None \<and>
    (\<forall>k'. k' \<noteq> k \<longrightarrow> LWWMap_Get (fst (LWWMap_Remove mh r k)) k' = LWWMap_Get r k')"
proof -
  have inv: "lm_inv (rData r)" using assms(1) by (simp add: lwwr_inv_def lwwmap.replica_inv_def)
  show ?thesis
    using assms LWWMap_Put_inv [OF assms(1,2)]
    by (simp add: LWWMap_Get_view LWWMap_Put_data LWWMap_Remove_data lm_view_write [OF inv]) (simp add: lm_read_def)
qed

theorem LWWMap_Put_Get_witness:
  "\<exists>r. NewLWWMap demo_hash 1 (Some StringCodec) [] = Ok r \<and> LWWMap_Get (fst (LWWMap_Put demo_hash r [7] [5])) [7] = Some [5]"
proof -
  obtain r :: "bytes LWWMap" where "NewLWWMap demo_hash 1 (Some StringCodec) [] = Ok r" "lwwr_inv demo_hash r"
      "lmCodec (rData r) = StringCodec"
    using NewLWWMap_Ok [of demo_hash "[]" 1 StringCodec] by (auto simp: applyOptions_def)
  then show ?thesis using LWWMap_Put_Get [of demo_hash r "[5]" "[5]" "[7]"] by (auto simp: StringCodec_def)
qed

text \<open>
  an anti-entropy answer loses nothing: if, for every dot that its clock \<open>hwm\<close> claims to have
  seen, the receiver already holds a write at least as new, then after applying the deltas
  that the sender selects for \<open>hwm\<close> it holds, for every key of the sender, a write at least as
  new, and every cell it now holds is its own or the sender's.
\<close>

theorem LWWMap_anti_entropy:
  assumes a: "lm_inv (rData a)" and b: "lwwr_inv mh b" and fits: "list_all lm_fits (lm_since (rData a) hwm)"
    and held: "\<forall>k d c. lm_view (rData a) k = Some (d, c) \<and> Counter d \<le> VClock_Get hwm (Replica d) \<longrightarrow>
      (\<exists>d' c'. lm_view (rData b) k = Some (d', c') \<and> d \<le> d')"
  shows "(\<forall>k d c. lm_view (rData a) k = Some (d, c) \<longrightarrow>
      (\<exists>d' c'. lm_view (rData (apply_all mh lwwMapM (lwwMapState_DeltasSince (rData a) hwm) b)) k = Some (d', c') \<and> d \<le> d')) \<and>
    (\<forall>k. lm_view (rData (apply_all mh lwwMapM (lwwMapState_DeltasSince (rData a) hwm) b)) k
      \<in> {lm_view (rData a) k, lm_view (rData b) k})"
  using lm_sync [OF assms] by blast

theorem LWWMap_anti_entropy_witness:
  "\<exists>a b. NewLWWMap demo_hash 1 (Some StringCodec) [] = Ok a \<and> NewLWWMap demo_hash 2 (Some StringCodec) [] = Ok b \<and>
     lm_view (rData (apply_all demo_hash lwwMapM
       (lwwMapState_DeltasSince (rData (fst (LWWMap_Put demo_hash a [7] [5]))) []) b)) [7] \<noteq> None"
proof -
  have seed: "MakeSeed demo_hash \<noteq> 0" and opts: "oBackend (applyOptions []) = None"
    by (simp_all add: applyOptions_def)
  obtain a :: "bytes LWWMap" where a: "NewLWWMap demo_hash 1 (Some StringCodec) [] = Ok a" "lwwr_inv demo_hash a"
        "lmCodec (rData a) = StringCodec" "lm_view (rData a) = (\<lambda>_. None)" "rLocal a = newLocalClock 1"
    by (rule NewLWWMap_Ok [OF seed opts])
  obtain b :: "bytes LWWMap" where b: "NewLWWMap demo_hash 2 (Some StringCodec) [] = Ok b" "lwwr_inv demo_hash b"
    using NewLWWMap_Ok [OF seed opts] by metis
  let ?a = "fst (LWWMap_Put demo_hash a [7] [5])"
  have enc: "Encode (lmCodec (rData a)) [5] = Inr [5]" by (simp add: a StringCodec_def)
  have inv0: "lm_inv (rData a)" using a(2) by (simp add: lwwr_inv_def lwwmap.replica_inv_def)
  have v: "lm_view (rData ?a) = [[7] \<mapsto> (mkDot 1 1, Some [5])]"
    using a(4,5) by (simp add: LWWMap_Put_data [OF enc] lm_view_write [OF inv0] newLocalClock_def)
  have inv: "lm_inv (rData ?a)"
    using LWWMap_Put_inv [OF a(2) enc] by (simp add: lwwr_inv_def lwwmap.replica_inv_def)
  have fits: "list_all lm_fits (lm_since (rData ?a) [])"
  proof -
    have "lm_fits (k, d, c)" if "(k, d, c) \<in> set (lm_since (rData ?a) [])" for k d c
      using that unfolding set_lm_since [OF inv] v by (intro lm_fits_short) (auto split: if_splits)
    then show ?thesis by (auto simp: list_all_iff)
  qed
  have "\<exists>d' c'. lm_view (rData (apply_all demo_hash lwwMapM (lwwMapState_DeltasSince (rData ?a) []) b)) [7] = Some (d', c')"
  proof -
    have "\<forall>k d c. lm_view (rData ?a) k = Some (d, c) \<and> Counter d \<le> VClock_Get [] (Replica d) \<longrightarrow>
        (\<exists>d' c'. lm_view (rData b) k = Some (d', c') \<and> d \<le> d')"
      by (auto simp: v VClock_Get_def split: if_splits)
    from LWWMap_anti_entropy [OF inv b(2) fits this] v show ?thesis by (metis fun_upd_same)
  qed
  with a(1) b(1) show ?thesis by blast
qed

text \<open>
  The local counter is not advanced by what a replica receives, so a put may be stamped
  below the write it replaces. The replica then shows the new value while every replica that
  holds the replaced write refuses the delta: the two disagree although both have seen
  both writes.
\<close>

theorem LWWMap_stale_stamp:
  assumes a: "lwwr_inv mh a" and b: "lwwr_inv mh' b"
    and held: "lm_view (rData a) k = Some (d, c)" "lm_view (rData b) k = Some (d, c)"
    and stamp: "mkDot (lcReplica (rLocal a)) (lcCounter (rLocal a) + 1) < d"
    and enc: "Encode (lmCodec (rData a)) v = Inr bs" "Decode (lmCodec (rData a)) bs = Inr v"
    and fits: "lm_fits (k, mkDot (lcReplica (rLocal a)) (lcCounter (rLocal a) + 1), Some bs)"
  shows "LWWMap_Get (fst (LWWMap_Put mh a k v)) k = Some v \<and>
    lm_view (rData (lm_deliver mh' (k, mkDot (lcReplica (rLocal a)) (lcCounter (rLocal a) + 1), Some bs) b)) k = Some (d, c)"
proof -
  have inv: "lm_inv (rData a)" using a by (simp add: lwwr_inv_def lwwmap.replica_inv_def)
  have "LWWMap_Get (fst (LWWMap_Put mh a k v)) k = Some v"
    using enc by (simp add: LWWMap_Get_view LWWMap_Put_data lm_view_write [OF inv]) (simp add: lm_read_def)
  moreover have "\<not> d < mkDot (lcReplica (rLocal a)) (lcCounter (rLocal a) + 1)" using stamp by simp
  ultimately show ?thesis
    using held(2) by (simp add: lm_deliver_view [OF b fits] lww_step_def)
qed

theorem LWWMap_stale_stamp_witness:
  "\<exists>a b. NewLWWMap demo_hash 1 (Some StringCodec) [] = Ok a \<and> NewLWWMap demo_hash 2 (Some StringCodec) [] = Ok b \<and>
     LWWMap_Get (fst (LWWMap_Put demo_hash (lm_deliver demo_hash ([7], mkDot 2 2, Some [6]) a) [7] [5])) [7] = Some [5] \<and>
     lm_view (rData (lm_deliver demo_hash ([7], mkDot 1 1, Some [5])
       (lm_deliver demo_hash ([7], mkDot 2 2, Some [6]) b))) [7] = Some (mkDot 2 2, Some [6])"
proof -
  have seed: "MakeSeed demo_hash \<noteq> 0" and opts: "oBackend (applyOptions []) = None"
    by (simp_all add: applyOptions_def)
  obtain a :: "bytes LWWMap" where a: "NewLWWMap demo_hash 1 (Some StringCodec) [] = Ok a" "lwwr_inv demo_hash a"
        "lm_view (rData a) = (\<lambda>_. None)" "lmCodec (rData a) = StringCodec" "rLocal a = newLocalClock 1"
    by (rule NewLWWMap_Ok [OF seed opts])
  obtain b :: "bytes LWWMap" where b: "NewLWWMap demo_hash 2 (Some StringCodec) [] = Ok b" "lwwr_inv demo_hash b"
        "lm_view (rData b) = (\<lambda>_. None)"
    by (rule NewLWWMap_Ok [OF seed opts])
  let ?x = "([7], mkDot 2 2, Some [6]) :: bytes \<times> Dot \<times> bytes option"
  have fit: "lm_fits ?x" "lm_fits ([7], mkDot 1 1, Some [5])" by (simp_all add: lm_fits_short)
  note inv = lwwmap_sec.inv_deliver [OF _ fit(1)]
  have va: "lm_view (rData (lm_deliver demo_hash ?x a)) [7] = Some (mkDot 2 2, Some [6])"
    and vb: "lm_view (rData (lm_deliver demo_hash ?x b)) [7] = Some (mkDot 2 2, Some [6])"
    using lm_deliver_view [OF a(2) fit(1)] lm_deliver_view [OF b(2) fit(1)] a(3) b(3) by (simp_all add: lww_step_def)
  have cd: "lmCodec (rData (lm_deliver demo_hash ?x a)) = StringCodec"
    using lm_deliver_codec [OF a(2), of "[?x]"] fit(1) a(4) by simp
  have lc: "rLocal (lm_deliver demo_hash ?x a) = newLocalClock 1" using a(5) by (simp add: lm_deliver_def)
  have "mkDot 1 1 < mkDot 2 2" by (simp add: DotGT_less [symmetric] DotGT_def)
  then show ?thesis
    using LWWMap_stale_stamp [OF inv [OF a(2)] inv [OF b(2)] va vb, of "[5]" "[5]"] a(1) b(1) fit(2)
    by (auto simp: lc newLocalClock_def cd StringCodec_def)
qed

end
