(* ===== verification/Network.thy ===== *)
theory Network
  imports Cluster GCounters PNCounters GLists LWWMaps
begin

text \<open>
  Clusters of counters, lists and maps: each type is an interpretation of \<open>cluster_protocol\<close>, with
  a ghost that records what its users have done. The counters' ghost sums up what each replica
  has added itself, the list's ghost is the item appended under each dot, and the map's ghost is
  the set of all writes.
\<close>

section \<open>Grow-only counters\<close>

definition gc_fresh :: "(ReplicaID \<Rightarrow> maphash) \<Rightarrow> ReplicaID \<Rightarrow> GCounter \<Rightarrow> bool" where
  "gc_fresh mh i r \<longleftrightarrow> MakeSeed (mh i) \<noteq> 0 \<and> (\<exists>opts. r = NewGCounter (mh i) i opts)"

text \<open>An increment that does not wrap the count of its replica around.\<close>

inductive gc_local ::
    "(ReplicaID \<Rightarrow> maphash) \<Rightarrow> ReplicaID \<Rightarrow> (ReplicaID \<Rightarrow> u64) \<Rightarrow> GCounter \<Rightarrow> (ReplicaID \<Rightarrow> u64) \<Rightarrow> GCounter \<Rightarrow> sends \<Rightarrow> bool"
  for mh where
  "\<lbrakk>GCounter_Increment (mh i) r a = (r', out, w); g i \<le> g i + a\<rbrakk> \<Longrightarrow> gc_local mh i g r (g(i := g i + a)) r' out"

inductive_cases gc_localE: "gc_local mh i g r g' r' out"

type_synonym gc_net = "(gCounterState, ReplicaID \<Rightarrow> u64) net"

definition gc_cluster :: "(ReplicaID \<Rightarrow> maphash) \<Rightarrow> gc_net \<Rightarrow> bool" where
  "gc_cluster mh = cluster mh gCounterM (gc_fresh mh) (\<lambda>_. 0) (gc_local mh)"

text \<open>No count exceeds what its replica has added, and every counter received is covered by a count.\<close>

definition gc_promise :: "(ReplicaID \<Rightarrow> u64) \<Rightarrow> ReplicaID \<Rightarrow> localClock \<Rightarrow> receivedClock \<Rightarrow> gCounterState \<Rightarrow> bool" where
  "gc_promise added i lc rc s \<longleftrightarrow> lcReplica lc = i \<and> gCounterState_Get s i = added i \<and>
     (\<forall>j. gCounterState_Get s j \<le> added j) \<and> (\<forall>j. \<forall>n \<in> seen rc j. n \<le> gCounterState_Get s j)"

lemma gc_promise_view: "gc_promise added i (rLocal r) (rReceived r) (rData r) \<longleftrightarrow>
  lcReplica (rLocal r) = i \<and> gc_view r i = added i \<and> (\<forall>j. gc_view r j \<le> added j) \<and> gc_covered r"
  by (simp add: gc_promise_def gc_view_def gc_covered_def)

interpretation gc_net: cluster_protocol gCounterM "\<lambda>c. wf_map (gcCounts c)" mh maxWinsClock "gc_fresh mh" "\<lambda>_. 0"
  "gc_local mh" gc_promise "\<lambda>added d. \<exists>j n. d = gc_delta (j, n) \<and> n \<le> added j" for mh
proof
  fix i and r :: GCounter and g g' :: "ReplicaID \<Rightarrow> u64" and r' out
  assume "gc_fresh mh i r"
  then show "gcounter.replica_inv (mh i) r \<and> rStrategy r = maxWinsClock \<and>
      gc_promise (\<lambda>_. 0) i (rLocal r) (rReceived r) (rData r)"
    using gc_inv_new received.arrived_empty
    by (auto simp: gc_fresh_def gc_inv_iff gc_promise_view gc_view_new gc_covered_def) (auto simp: NewGCounter_def)
next
  fix i and r :: GCounter and g g' :: "ReplicaID \<Rightarrow> u64" and r' out
  assume r: "gcounter.replica_inv (mh i) r" "rStrategy r = maxWinsClock" "gc_promise g i (rLocal r) (rReceived r) (rData r)"
    and l: "gc_local mh i g r g' r' out"
  from l obtain a w where a: "GCounter_Increment (mh i) r a = (r', out, w)" "g i \<le> g i + a" "g' = g(i := g i + a)"
    by (rule gc_localE)
  then have r': "r' = fst (GCounter_Increment (mh i) r a)" "out = fst (snd (GCounter_Increment (mh i) r a))" by simp_all
  have inv: "gc_inv (mh i) r" using r by (simp add: gc_inv_iff)
  have p: "lcReplica (rLocal r) = i" "gc_view r i = g i" "\<And>j. gc_view r j \<le> g j" "gc_covered r"
    using r(3) by (auto simp: gc_promise_view)
  have "gc_inv (mh i) r'" using inv by (simp add: r' Increment_inv)
  moreover have "gc_promise g' i (rLocal r') (rReceived r') (rData r')"
    using p a(2) gc_covered_Increment [OF inv p(4), of a]
    by (simp add: gc_promise_view r' Increment_id Increment_view a(3))
  moreover have "\<exists>d. tmDelta m = tagDelta d \<and> (\<exists>j n. d = gc_delta (j, n) \<and> n \<le> g' j)" if "(q, m) \<in> set out" for q m
    using Increment_sends [of q m "mh i" r a] that p by (intro exI [of _ "gc_delta (i, g' i)"]) (auto simp: r' a(3))
  ultimately show "gcounter.replica_inv (mh i) r' \<and> rStrategy r' = maxWinsClock \<and>
      gc_promise g' i (rLocal r') (rReceived r') (rData r') \<and>
      (\<forall>(p, m) \<in> set out. \<exists>d. tmDelta m = tagDelta d \<and> (\<exists>j n. d = gc_delta (j, n) \<and> n \<le> g' j))"
    by (auto simp: gc_inv_iff)
next
  fix g g' i r r' out j lc rc s
  assume "gc_local mh i g r g' r' out" "j \<noteq> i" "gc_promise g j lc rc s"
  then show "gc_promise g' j lc rc s"
    using order_trans [of "gCounterState_Get s i" "g i"] by (auto simp: gc_promise_def elim!: gc_localE)
next
  fix g g' i r r' out d
  assume l: "gc_local mh i g r g' r' out" and "\<exists>j n. d = gc_delta (j, n) \<and> n \<le> g j"
  then obtain j n where "d = gc_delta (j, n)" "n \<le> g j" by blast
  moreover have "g j \<le> g' j" using l by (auto elim!: gc_localE)
  ultimately show "\<exists>j n. d = gc_delta (j, n) \<and> n \<le> g' j"
    by (intro exI [of _ j] exI [of _ n]) (auto intro: order_trans)
next
  fix i and r :: GCounter and g d r'
  assume r: "gcounter.replica_inv (mh i) r" "rStrategy r = maxWinsClock" "gc_promise g i (rLocal r) (rReceived r) (rData r)"
    and d: "\<exists>j n. d = gc_delta (j, n) \<and> n \<le> g j" and r': "r' = fst (replica_applyDelta (mh i) gCounterM r 0 (mkDot 0 0) d)"
  from d obtain j n where jn: "d = gc_delta (j, n)" "n \<le> g j" by blast
  have r'_eq: "r' = gc_deliver (mh i) (j, n) r" by (simp add: r' jn gc_deliver_def)
  have inv: "gc_inv (mh i) r" using r by (simp add: gc_inv_iff)
  have "rLocal r' = rLocal r" by (simp add: r'_eq gc_deliver_def)
  then show "gc_promise g i (rLocal r) (rReceived r') (rData r')"
    using gc_promise_view [of g i r'] gc_covered_deliver [OF inv, of "(j, n)"] r(3) jn(2)
    by (auto simp: gc_promise_view gc_deliver_view [OF inv] max_def r'_eq)
next
  fix g i lc rc s d hwm
  assume "wf_map (gcCounts s)" "gc_promise g i lc rc s" "d \<in> set (mDeltasSince gCounterM s hwm)"
  moreover from this obtain j n where "d = gc_delta (j, n)" "(j, n) \<in> set (gcCounts s)" by (auto simp: DeltasSince_gc)
  ultimately show "\<exists>j n. d = gc_delta (j, n) \<and> n \<le> g j"
    by (intro exI [of _ j] exI [of _ n]) (auto simp: gc_promise_def gCounterState_Get_def dest: wf_map_mget0_mem)
qed simp


text \<open>
  C5: over a network that loses, repeats, delays and reorders messages, no replica ever counts
  more for another than that one has added; its own count is exact; a replica that has caught up with
  every other reports the sum of all that was added; and the deltas that any replica selects
  for another's high-water marks bring that one up to date with it.
\<close>

theorem GCounter_network:
  assumes "gc_cluster mh s"
  shows "gc_view (netNodes s i) j \<le> netGhost s j \<and> gc_view (netNodes s j) j = netGhost s j \<and>
    ((\<forall>j. gc_view (netNodes s i) j = gc_view (netNodes s j) j) \<longrightarrow>
       GCounter_Int64 (netNodes s i) = sint (\<Sum>j\<in>UNIV. netGhost s j)) \<and>
    gc_view (apply_all (mh i) gCounterM
      (gCounterState_DeltasSince (rData (netNodes s j)) (receivedClock_HWM (rReceived (netNodes s i)))) (netNodes s i)) k
    = max (gc_view (netNodes s j) k) (gc_view (netNodes s i) k)"
proof -
  note r = gc_net.reachable [OF assms [unfolded gc_cluster_def]]
  have inv: "gc_inv (mh i) (netNodes s i)" for i using r(1,2) by (simp add: gc_inv_iff)
  have p: "gc_view (netNodes s i) i = netGhost s i" "\<forall>j. gc_view (netNodes s i) j \<le> netGhost s j"
      "gc_covered (netNodes s i)" for i
    using r(3) [of i] by (auto simp: gc_promise_view)
  have wf: "wf_map (gcCounts (rData (netNodes s j)))" using inv [of j] by (simp add: gc_inv_def)
  have "apply_all (mh i) gCounterM (map gc_delta ds) c = fold (gc_deliver (mh i)) ds c" for ds c
    by (induction ds arbitrary: c) (simp_all add: gc_deliver_def)
  with gc_sync [OF wf inv gc_covered_HWM [OF inv p(3)]] have
    "gc_view (apply_all (mh i) gCounterM
      (gCounterState_DeltasSince (rData (netNodes s j)) (receivedClock_HWM (rReceived (netNodes s i)))) (netNodes s i)) k
    = max (gc_view (netNodes s j) k) (gc_view (netNodes s i) k)"
    by (simp add: DeltasSince_gc)
  with Int64_view [OF inv, of i] p show ?thesis by simp
qed

theorem GCounter_network_witness:
  "\<exists>s. gc_cluster (\<lambda>_. demo_hash) s \<and> netGhost s 1 = 5 \<and> gc_view (netNodes s 1) 1 = 5 \<and> gc_view (netNodes s 2) 1 \<le> 5"
proof -
  define s0 :: gc_net where "s0 = \<lparr>netNodes = (\<lambda>i. NewGCounter demo_hash i []), netSent = {}, netGhost = (\<lambda>_. 0)\<rparr>"
  have s0: "gc_cluster (\<lambda>_. demo_hash) s0"
    unfolding s0_def gc_cluster_def by (rule cluster_new) (auto simp: gc_fresh_def)
  obtain c out w where c: "GCounter_Increment demo_hash (netNodes s0 1) 5 = (c, out, w)" by (metis prod_cases3)
  have "gc_local (\<lambda>_. demo_hash) 1 (netGhost s0) (netNodes s0 1) ((netGhost s0)(1 := netGhost s0 1 + 5)) c out"
    by (rule gc_local.intros [where a = 5]) (use c in \<open>simp_all add: s0_def\<close>)
  then have s: "gc_cluster (\<lambda>_. demo_hash) (net_step 1 c out (s0\<lparr>netGhost := (netGhost s0)(1 := netGhost s0 1 + 5)\<rparr>))"
      (is "gc_cluster _ ?s")
    using s0 unfolding gc_cluster_def by (intro cluster_local)
  have "netGhost ?s 1 = 5" by (simp add: s0_def)
  with GCounter_network [OF s, of 1 1] GCounter_network [OF s, of 2 1] s show ?thesis
    by (intro exI [of _ ?s]) auto
qed


section \<open>Positive-negative counters\<close>

definition pn_fresh :: "(ReplicaID \<Rightarrow> maphash) \<Rightarrow> ReplicaID \<Rightarrow> PNCounter \<Rightarrow> bool" where
  "pn_fresh mh i r \<longleftrightarrow> MakeSeed (mh i) \<noteq> 0 \<and> (\<exists>opts. r = NewPNCounter (mh i) i opts)"

text \<open>The ghost sums up both sides; an operation does not wrap the count of its side around.\<close>

type_synonym pn_ghost = "bool \<times> ReplicaID \<Rightarrow> u64"

inductive pn_local :: "(ReplicaID \<Rightarrow> maphash) \<Rightarrow> ReplicaID \<Rightarrow> pn_ghost \<Rightarrow> PNCounter \<Rightarrow> pn_ghost \<Rightarrow> PNCounter \<Rightarrow> sends \<Rightarrow> bool"
  for mh where
  pn_inc: "\<lbrakk>PNCounter_Increment (mh i) r a = (r', out, w); g (True, i) \<le> g (True, i) + a\<rbrakk> \<Longrightarrow>
    pn_local mh i g r (g((True, i) := g (True, i) + a)) r' out"
| pn_dec: "\<lbrakk>PNCounter_Decrement (mh i) r a = (r', out, w); g (False, i) \<le> g (False, i) + a\<rbrakk> \<Longrightarrow>
    pn_local mh i g r (g((False, i) := g (False, i) + a)) r' out"

type_synonym pn_net = "(pnCounterState, pn_ghost) net"

definition pn_cluster :: "(ReplicaID \<Rightarrow> maphash) \<Rightarrow> pn_net \<Rightarrow> bool" where
  "pn_cluster mh = cluster mh pnCounterM (pn_fresh mh) (\<lambda>_. 0) (pn_local mh)"

definition pn_count :: "pnCounterState \<Rightarrow> bool \<times> ReplicaID \<Rightarrow> u64" where
  "pn_count s k = (if fst k then pnCounterState_GetPositive s (snd k) else pnCounterState_GetNegative s (snd k))"

lemma pn_count_view: "pn_count (rData c) = pn_view c"
  by (simp add: pn_count_def pn_view_def fun_eq_iff)

definition pn_promise :: "pn_ghost \<Rightarrow> ReplicaID \<Rightarrow> localClock \<Rightarrow> receivedClock \<Rightarrow> pnCounterState \<Rightarrow> bool" where
  "pn_promise added i lc rc s \<longleftrightarrow> lcReplica lc = i \<and> (\<forall>b. pn_count s (b, i) = added (b, i)) \<and> (\<forall>k. pn_count s k \<le> added k)"

definition pn_payload :: "pn_ghost \<Rightarrow> bytes \<Rightarrow> bool" where
  "pn_payload added d \<longleftrightarrow> (\<exists>k n dot. d = pn_encode (k, n, dot) \<and> n \<le> added k)"

text \<open>One operation, on either side.\<close>

lemma pn_local_step:
  assumes "pn_local mh i g r g' r' out" "lcReplica (rLocal r) = i"
  obtains b a dot where "g (b, i) \<le> g (b, i) + a" "g' = g((b, i) := g (b, i) + a)"
    "pn_view r' = (pn_view r)((b, i) := pn_view r (b, i) + a)"
    "lcReplica (rLocal r') = i" "pn_inv (mh i) r \<longrightarrow> pn_inv (mh i) r'"
    "\<forall>(p, m) \<in> set out. tmDelta m = tagDelta (pn_encode ((b, i), pn_view r (b, i) + a, dot))"
  using assms(1)
proof cases
  case (pn_inc a w)
  have r': "r' = fst (PNCounter_Increment (mh i) r a)" "out = fst (snd (PNCounter_Increment (mh i) r a))"
    using pn_inc by simp_all
  show ?thesis
    by (rule that [of True a, OF pn_inc(3,1)])
      (use assms(2) pn_ops_sends(1) in \<open>auto simp: r' PNCounter_Increment_view pn_ops_local pn_ops_inv\<close>)
next
  case (pn_dec a w)
  have r': "r' = fst (PNCounter_Decrement (mh i) r a)" "out = fst (snd (PNCounter_Decrement (mh i) r a))"
    using pn_dec by simp_all
  show ?thesis
    by (rule that [of False a, OF pn_dec(3,1)])
      (use assms(2) pn_ops_sends(2) in \<open>auto simp: r' PNCounter_Decrement_view pn_ops_local pn_ops_inv\<close>)
qed

lemma pn_DeltasSince:
  assumes "pn_wf s" "d \<in> set (pnCounterState_DeltasSince s hwm)"
  shows "\<exists>k dot. d = pn_encode (k, pn_count s k, dot)"
proof -
  have idx: "pnIndex m r = e" if "(r, e) \<in> set m" "wf_map m" for m r e using that by (auto simp: pnIndex_def wf_map_mem)
  from assms obtain r e where "(r, e) \<in> set (pnPositive s) \<and> d = pn_encode ((True, r), pnCount e, pnDot e) \<or>
      (r, e) \<in> set (pnNegative s) \<and> d = pn_encode ((False, r), pnCount e, pnDot e)"
    by (auto simp: pnCounterState_DeltasSince_def pn_encode_def split: if_splits)
  with assms(1) idx have "d = pn_encode ((True, r), pn_count s (True, r), pnDot e) \<or> d = pn_encode ((False, r), pn_count s (False, r), pnDot e)"
    by (auto simp: pn_wf_def pn_count_def pnCounterState_GetPositive_def pnCounterState_GetNegative_def)
  then show ?thesis by blast
qed

lemma pn_promise_view: "pn_promise added i (rLocal r) (rReceived r) (rData r) \<longleftrightarrow>
  lcReplica (rLocal r) = i \<and> (\<forall>b. pn_view r (b, i) = added (b, i)) \<and> (\<forall>k. pn_view r k \<le> added k)"
  by (simp add: pn_promise_def pn_count_view)

interpretation pn_net: cluster_protocol pnCounterM pn_wf mh alwaysMergeClock "pn_fresh mh" "\<lambda>_. 0"
  "pn_local mh" pn_promise pn_payload for mh
proof
  fix i and r :: PNCounter and g g' :: pn_ghost and r' out
  assume "pn_fresh mh i r"
  then show "pncounter.replica_inv (mh i) r \<and> rStrategy r = alwaysMergeClock \<and>
      pn_promise (\<lambda>_. 0) i (rLocal r) (rReceived r) (rData r)"
    using pn_inv_new by (auto simp: pn_fresh_def pn_inv_def pn_promise_view pn_view_new) (auto simp: NewPNCounter_def)
next
  fix i and r :: PNCounter and g g' :: pn_ghost and r' out
  assume r: "pncounter.replica_inv (mh i) r" "rStrategy r = alwaysMergeClock" "pn_promise g i (rLocal r) (rReceived r) (rData r)"
    and l: "pn_local mh i g r g' r' out"
  have p: "lcReplica (rLocal r) = i" "\<And>b. pn_view r (b, i) = g (b, i)" "\<And>k. pn_view r k \<le> g k"
    using r(3) by (auto simp: pn_promise_view)
  from l p(1) obtain b a dot where s: "g (b, i) \<le> g (b, i) + a" "g' = g((b, i) := g (b, i) + a)"
      "pn_view r' = (pn_view r)((b, i) := pn_view r (b, i) + a)" "lcReplica (rLocal r') = i"
      "pn_inv (mh i) r \<longrightarrow> pn_inv (mh i) r'"
      "\<forall>(p, m) \<in> set out. tmDelta m = tagDelta (pn_encode ((b, i), pn_view r (b, i) + a, dot))"
    by (rule pn_local_step)
  have "pn_payload g' (pn_encode ((b, i), pn_view r (b, i) + a, dot))"
    unfolding pn_payload_def by (intro exI [of _ "(b, i)"] exI conjI, rule refl) (simp add: s(2) p(2))
  moreover have "pn_inv (mh i) r'" using r s(5) by (simp add: pn_inv_def)
  moreover have "pn_promise g' i (rLocal r') (rReceived r') (rData r')"
    using p s(2,3,4) by (simp add: pn_promise_view)
  ultimately show "pncounter.replica_inv (mh i) r' \<and> rStrategy r' = alwaysMergeClock \<and>
      pn_promise g' i (rLocal r') (rReceived r') (rData r') \<and>
      (\<forall>(p, m) \<in> set out. \<exists>d. tmDelta m = tagDelta d \<and> pn_payload g' d)"
    using s(6) by (auto simp: pn_inv_def)
next
  fix g g' :: pn_ghost and i r r' out j lc rc s
  assume p: "pn_promise g i (rLocal r) (rReceived r) (rData r)" and l: "pn_local mh i g r g' r' out"
    and j: "j \<noteq> i" "pn_promise g j lc rc s"
  from p have "lcReplica (rLocal r) = i" by (simp add: pn_promise_def)
  with l obtain b a where "g (b, i) \<le> g (b, i) + a" "g' = g((b, i) := g (b, i) + a)" by (rule pn_local_step)
  with j show "pn_promise g' j lc rc s" using order_trans [of "pn_count s (b, i)" "g (b, i)"] by (auto simp: pn_promise_def)
next
  fix g g' :: pn_ghost and i r r' out d
  assume p: "pn_promise g i (rLocal r) (rReceived r) (rData r)" and l: "pn_local mh i g r g' r' out" and d: "pn_payload g d"
  from p have "lcReplica (rLocal r) = i" by (simp add: pn_promise_def)
  with l obtain b a where "g (b, i) \<le> g (b, i) + a" "g' = g((b, i) := g (b, i) + a)" by (rule pn_local_step)
  then have mono: "g k \<le> g' k" for k by simp
  from d obtain k n dot where "d = pn_encode (k, n, dot)" "n \<le> g k" unfolding pn_payload_def by blast
  with mono [of k] show "pn_payload g' d"
    unfolding pn_payload_def by (intro exI [of _ k] exI [of _ n] exI [of _ dot]) simp
next
  fix i and r :: PNCounter and g d r'
  assume r: "pncounter.replica_inv (mh i) r" "rStrategy r = alwaysMergeClock" "pn_promise g i (rLocal r) (rReceived r) (rData r)"
    and d: "pn_payload g d" and r': "r' = fst (replica_applyDelta (mh i) pnCounterM r 0 (mkDot 0 0) d)"
  from d obtain k n dot where k: "d = pn_encode (k, n, dot)" "n \<le> g k" by (auto simp: pn_payload_def)
  then have r'_eq: "r' = pn_deliver (mh i) (k, n, dot) r" by (simp add: r' pn_deliver_def)
  have "rLocal r' = rLocal r" by (simp add: r')
  then show "pn_promise g i (rLocal r) (rReceived r') (rData r')"
    using pn_promise_view [of g i r'] r(3) k(2)
    by (auto simp: pn_promise_view r'_eq pn_deliver_view [OF r(2)] max_def)
next
  fix g i lc rc s d hwm
  assume s: "pn_wf s" "pn_promise g i lc rc s" and d: "d \<in> set (mDeltasSince pnCounterM s hwm)"
  then obtain k dot where "d = pn_encode (k, pn_count s k, dot)" using pn_DeltasSince [OF s(1)] by fastforce
  with s(2) show "pn_payload g d" unfolding pn_payload_def pn_promise_def by blast
qed simp

text \<open>
  C16: over a network that loses, repeats, delays and reorders messages, no replica ever holds more
  for a side of another than that one has added to it; its own sides are exact; and a replica
  that has caught up with every other reports the sum of all increments minus the sum of all decrements.
\<close>

theorem PNCounter_network:
  assumes "pn_cluster mh s"
  shows "pn_view (netNodes s i) (b, j) \<le> netGhost s (b, j) \<and> pn_view (netNodes s j) (b, j) = netGhost s (b, j) \<and>
    ((\<forall>b j. pn_view (netNodes s i) (b, j) = pn_view (netNodes s j) (b, j)) \<longrightarrow>
       PNCounter_Int64 (netNodes s i) =
         goint (sint (\<Sum>j\<in>UNIV. netGhost s (True, j)) - sint (\<Sum>j\<in>UNIV. netGhost s (False, j))))"
proof -
  note r = pn_net.reachable [OF assms [unfolded pn_cluster_def]]
  have "pn_wf (rData (netNodes s i))" using r(1) [of i] by (simp add: pncounter.replica_inv_def)
  with PNCounter_Int64_view [OF this] r(3) show ?thesis by (simp add: pn_promise_view)
qed

theorem PNCounter_network_witness:
  "\<exists>s. pn_cluster (\<lambda>_. demo_hash) s \<and> netGhost s (False, 1) = 7 \<and> pn_view (netNodes s 1) (False, 1) = 7 \<and>
     pn_view (netNodes s 2) (False, 1) \<le> 7"
proof -
  define s0 :: pn_net where "s0 = \<lparr>netNodes = (\<lambda>i. NewPNCounter demo_hash i []), netSent = {}, netGhost = (\<lambda>_. 0)\<rparr>"
  have s0: "pn_cluster (\<lambda>_. demo_hash) s0"
    unfolding s0_def pn_cluster_def by (rule cluster_new) (auto simp: pn_fresh_def)
  obtain c out w where c: "PNCounter_Decrement demo_hash (netNodes s0 1) 7 = (c, out, w)" by (metis prod_cases3)
  have "pn_local (\<lambda>_. demo_hash) 1 (netGhost s0) (netNodes s0 1) ((netGhost s0)((False, 1) := netGhost s0 (False, 1) + 7)) c out"
    by (rule pn_dec [where a = 7]) (use c in \<open>simp_all add: s0_def\<close>)
  then have s: "pn_cluster (\<lambda>_. demo_hash) (net_step 1 c out (s0\<lparr>netGhost := (netGhost s0)((False, 1) := netGhost s0 (False, 1) + 7)\<rparr>))"
      (is "pn_cluster _ ?s")
    using s0 unfolding pn_cluster_def by (intro cluster_local)
  have "netGhost ?s (False, 1) = 7" by (simp add: s0_def)
  with PNCounter_network [OF s, of 1 False 1] PNCounter_network [OF s, of 2 False 1] s show ?thesis
    by (intro exI [of _ ?s]) auto
qed

end
