(* ===== verification/ListNetwork.thy ===== *)
theory ListNetwork
  imports Cluster GLists
begin

text \<open>
  Clusters of grow-only lists. The ghost maps every dot to the item its replica has appended under it.
  The replicas' received clocks are part of the promise: what a replica has received it holds,
  which is why the deltas selected for its high-water marks are all it lacks.
\<close>

section \<open>Definitions\<close>

type_synonym 'v gl_ghost = "Dot \<Rightarrow> 'v option"

text \<open>The bytes \<open>b\<close> under \<open>d\<close> are the encoding of the item appended there, and decode to it.\<close>

definition gl_item :: "'v Codec \<Rightarrow> 'v gl_ghost \<Rightarrow> Dot \<Rightarrow> bytes \<Rightarrow> bool" where
  "gl_item c g d b \<longleftrightarrow> gl_fits (d, b) \<and> (\<exists>v. g d = Some v \<and> Decode c b = Inr v)"

definition gl_fresh :: "(ReplicaID \<Rightarrow> maphash) \<Rightarrow> 'v Codec \<Rightarrow> ReplicaID \<Rightarrow> 'v GList \<Rightarrow> bool" where
  "gl_fresh mh c i r \<longleftrightarrow> MakeSeed (mh i) \<noteq> 0 \<and>
     (\<exists>opts. oBackend (applyOptions opts) = None \<and> NewGList (mh i) i (Some c) opts = Ok r)"

text \<open>
  An append of an item that its codec can read back, below \<open>2 ^ 63\<close> bytes, or one the codec
  refuses, which still draws a dot. The replica's clock does not wrap around.
\<close>

inductive gl_local :: "(ReplicaID \<Rightarrow> maphash) \<Rightarrow> 'v Codec \<Rightarrow> ReplicaID \<Rightarrow> 'v gl_ghost \<Rightarrow> 'v GList \<Rightarrow> 'v gl_ghost \<Rightarrow> 'v GList \<Rightarrow> sends \<Rightarrow> bool"
  for mh c where
  gl_append: "\<lbrakk>GList_Append (mh i) r v = (r', Ok (out, w)); lcCounter (rLocal r) + 1 \<noteq> 0;
    d = mkDot i (lcCounter (rLocal r) + 1); Encode c v = Inr b; Decode c b = Inr v; gl_fits (d, b)\<rbrakk> \<Longrightarrow>
    gl_local mh c i g r (g(d \<mapsto> v)) r' out"
| gl_refused: "\<lbrakk>GList_Append (mh i) r v = (r', Err e); Encode c v = Inl e; lcCounter (rLocal r) + 1 \<noteq> 0\<rbrakk> \<Longrightarrow>
    gl_local mh c i g r g r' []"

type_synonym 'v gl_net = "('v gListState, 'v gl_ghost) net"

definition gl_cluster :: "(ReplicaID \<Rightarrow> maphash) \<Rightarrow> 'v Codec \<Rightarrow> 'v gl_net \<Rightarrow> bool" where
  "gl_cluster mh c = cluster mh gListM (gl_fresh mh c) (\<lambda>_. None) (gl_local mh c)"

text \<open>The dots whose items a replica holds.\<close>

definition gl_dots :: "'v GList \<Rightarrow> Dot set" where
  "gl_dots r = dom (gl_view (rData r))"

definition gl_promise :: "'v Codec \<Rightarrow> 'v gl_ghost \<Rightarrow> ReplicaID \<Rightarrow> localClock \<Rightarrow> receivedClock \<Rightarrow> 'v gListState \<Rightarrow> bool" where
  "gl_promise c g i lc rc s \<longleftrightarrow> lcReplica lc = i \<and> glCodec s = c \<and>
     (\<forall>d b. gl_view s d = Some b \<longrightarrow> gl_item c g d b) \<and>
     (\<forall>n. g (mkDot i n) \<noteq> None \<longrightarrow> n \<noteq> 0 \<and> n \<le> lcCounter lc \<and> gl_view s (mkDot i n) \<noteq> None) \<and>
     (\<forall>j n. j \<noteq> i \<longrightarrow> n \<in> seen rc j \<longrightarrow> gl_view s (mkDot j n) \<noteq> None)"

definition gl_payload :: "'v Codec \<Rightarrow> 'v gl_ghost \<Rightarrow> bytes \<Rightarrow> bool" where
  "gl_payload c g p \<longleftrightarrow> (\<exists>d b. p = gl_delta (d, b) \<and> gl_item c g d b)"

section \<open>Appends and answers\<close>

lemma gl_Append_eq:
  assumes "Encode (glCodec (rData r)) v = Inr b" "gl_fits (d, b)"
    and "d = mkDot (lcReplica (rLocal r)) (lcCounter (rLocal r) + 1)"
  shows "GList_Append mh r v =
    (let r' = replica_trackKey mh gListM ((fst (replica_nextDot r))\<lparr>rData := gListState_AppendBytes (rData r) b d\<rparr>) (dotKey d)
     in (r', Ok (replica_propagate r' d (gl_delta (d, b)))))"
proof -
  obtain q where q: "replica_nextDot r = (q, d)" using assms(3) by (cases "replica_nextDot r") (auto dest: arg_cong [of _ _ snd])
  have data: "rData q = rData r" using q nextDot_simps(1) [of r] by simp
  have "gListState_Append (rData r) v d = (gListState_AppendBytes (rData r) b d, Ok (gl_delta (d, b)))"
    using assms(1) by (simp add: gListState_Append_def gListState_AppendBytes_def gl_delta_def)
  then show ?thesis by (simp add: GList_Append_def q data Let_def gl_delta_read(1) [OF assms(2)])
qed

lemma gl_Append_ok:
  assumes "glr_inv mh r" "Encode (glCodec (rData r)) v = Inr b" "gl_fits (d, b)"
    and "d = mkDot (lcReplica (rLocal r)) (lcCounter (rLocal r) + 1)"
    and "GList_Append mh r v = (r', Ok (out, w))"
  shows "glr_inv mh r'" "rData r' = gListState_AppendBytes (rData r) b d"
    "rReceived r' = receivedClock_Record (rReceived r) (Replica d) (Counter d)"
    "rLocal r' = (rLocal r)\<lparr>lcCounter := lcCounter (rLocal r) + 1\<rparr>"
    "(p, m) \<in> set out \<Longrightarrow> tmDelta m = tagDelta (gl_delta (d, b))"
proof -
  let ?s = "gListState_AppendBytes (rData r) b d"
  have eq: "r' = replica_trackKey mh gListM ((fst (replica_nextDot r))\<lparr>rData := ?s\<rparr>) (dotKey d)"
      "out = fst (replica_propagate r' d (gl_delta (d, b)))"
    using assms(5) gl_Append_eq [OF assms(2-4), of mh] by (auto simp: Let_def dest: arg_cong [of _ _ fst])
  have "gl_inv ?s" using assms(1) gl_AppendBytes(1) [of "rData r" b d] by (simp add: glr_inv_def glist.replica_inv_def)
  then show "glr_inv mh r'"
    using assms(1) glist.local_op_inv [of mh r] by (simp add: glr_inv_def eq(1))
  show "rData r' = ?s" "rReceived r' = receivedClock_Record (rReceived r) (Replica d) (Counter d)"
    "rLocal r' = (rLocal r)\<lparr>lcCounter := lcCounter (rLocal r) + 1\<rparr>"
    by (simp_all add: eq(1) assms(4)) (simp add: replica_nextDot_def localClock_Next_def Let_def)
  show "(p, m) \<in> set out \<Longrightarrow> tmDelta m = tagDelta (gl_delta (d, b))"
    unfolding eq(2) by (rule propagate_sends)
qed

lemma gl_Append_refused:
  assumes "glr_inv mh r" "Encode (glCodec (rData r)) v = Inl e" "GList_Append mh r v = (r', Err e)"
  shows "glr_inv mh r'" "rData r' = rData r"
    "rReceived r' = receivedClock_Record (rReceived r) (lcReplica (rLocal r)) (lcCounter (rLocal r) + 1)"
    "rLocal r' = (rLocal r)\<lparr>lcCounter := lcCounter (rLocal r) + 1\<rparr>"
proof -
  have "r' = fst (replica_nextDot r)"
    using assms(2,3) by (auto simp: GList_Append_def gListState_Append_def Let_def split_beta replica_nextDot_def)
  then show "glr_inv mh r'" "rData r' = rData r"
    "rReceived r' = receivedClock_Record (rReceived r) (lcReplica (rLocal r)) (lcCounter (rLocal r) + 1)"
    "rLocal r' = (rLocal r)\<lparr>lcCounter := lcCounter (rLocal r) + 1\<rparr>"
    using assms(1) glist.nextDot_inv [of mh r]
    by (simp_all add: glr_inv_def) (simp add: replica_nextDot_def localClock_Next_def Let_def)
qed

text \<open>The items selected for a peer are those its high-water marks do not cover.\<close>

lemma gl_DeltasSince:
  assumes "gl_inv s"
  shows "set (gListState_DeltasSince s hwm) =
    {gl_delta (d, b) | d b. gl_view s d = Some b \<and> VClock_Get hwm (Replica d) < Counter d}"
    (is "_ = ?R")
proof -
  have mb: "mb_inv (glBackend s)" using assms by (simp add: gl_inv_def)
  define f where "f = (\<lambda>(k :: bytes, e :: memEntry). case decodeDot (meMeta e) of
    Ok d \<Rightarrow> if Counter d > VClock_Get hwm (Replica d) then [gl_delta (d, meValue e)] else [] | _ \<Rightarrow> [])"
  have loop: "gListState_DeltasSince s hwm = [] @ concat (map f (mbEntries (glBackend s)))"
    unfolding gListState_DeltasSince_def gListState_Range_def memoryBackend_RangeEntries_def
    by (rule rangeLoop_collect) (auto simp: f_def gl_delta_def split: go.splits)
  have "(\<exists>x \<in> set (mbEntries (glBackend s)). p \<in> set (f x)) \<longleftrightarrow> p \<in> ?R" for p
  proof
    assume "\<exists>x \<in> set (mbEntries (glBackend s)). p \<in> set (f x)"
    then obtain k e where ke: "(k, e) \<in> set (mbEntries (glBackend s))" "p \<in> set (f (k, e))" by auto
    then obtain d where e: "(k, e) \<in> set (mbEntries (glBackend s))" "decodeDot (meMeta e) = Ok d"
        "VClock_Get hwm (Replica d) < Counter d" "p = gl_delta (d, meValue e)"
      by (cases "decodeDot (meMeta e)") (auto simp: f_def split: if_splits)
    then have "memoryBackend_GetEntry (glBackend s) k = Some (meValue e, meMeta e)" using mb_entry_mem [OF mb] by blast
    moreover from this assms e(2) have "k = dotKey d" unfolding gl_inv_def by fastforce
    ultimately show "p \<in> ?R" using e(3,4) by (auto simp: gl_view_def)
  next
    assume "p \<in> ?R"
    then obtain d b where d: "p = gl_delta (d, b)" "gl_view s d = Some b" "VClock_Get hwm (Replica d) < Counter d" by blast
    then obtain m where m: "memoryBackend_GetEntry (glBackend s) (dotKey d) = Some (b, m)" by (auto simp: gl_view_def)
    then have "m = encodeDot d" using assms unfolding gl_inv_def by (metis dotKey_inject)
    moreover have "(dotKey d, \<lparr>meValue = b, meMeta = m\<rparr>) \<in> set (mbEntries (glBackend s))"
      using m mb_entry_mem [OF mb] by simp
    ultimately show "\<exists>x \<in> set (mbEntries (glBackend s)). p \<in> set (f x)"
      using d by (intro bexI [of _ "(dotKey d, \<lparr>meValue = b, meMeta = m\<rparr>)"]) (simp_all add: f_def)
  qed
  then show ?thesis unfolding loop by (auto simp: set_eq_iff)
qed


section \<open>The protocol\<close>

lemma gl_item_upd: "gl_item c g d b \<Longrightarrow> g x = None \<Longrightarrow> gl_item c (g(x \<mapsto> v)) d b"
  by (auto simp: gl_item_def)

text \<open>The next dot of a replica is fresh.\<close>

lemma gl_next_fresh:
  assumes "gl_promise c g i lc rc s" "lcCounter lc + 1 \<noteq> 0"
  shows "g (mkDot i (lcCounter lc + 1)) = None"
proof (rule ccontr)
  assume "g (mkDot i (lcCounter lc + 1)) \<noteq> None"
  with assms(1) have "lcCounter lc + 1 \<le> lcCounter lc" by (simp add: gl_promise_def)
  with next_counter(1) [OF assms(2)] show False by (simp add: leD)
qed

interpretation gl_net: cluster_protocol gListM gl_inv mh alwaysMergeClock "gl_fresh mh c" "\<lambda>_. None"
  "gl_local mh c" "gl_promise c" "gl_payload c" for mh c
proof
  fix i and r :: "'a GList" and g g' :: "'a gl_ghost" and r' out
  assume "gl_fresh mh c i r"
  then obtain opts where f: "MakeSeed (mh i) \<noteq> 0" "oBackend (applyOptions opts) = None" "NewGList (mh i) i (Some c) opts = Ok r"
    by (auto simp: gl_fresh_def)
  obtain q where "NewGList (mh i) i (Some c) opts = Ok q" and q: "glr_inv (mh i) q" "gl_view (rData q) = (\<lambda>_. None)"
      "glCodec (rData q) = c" "rLocal q = newLocalClock i"
    by (rule NewGList_Ok [OF f(1,2), of i c])
  then have eq: "q = r" using f(3) by simp
  have "rReceived r = newReceivedClock"
    using f(3) by (auto simp: NewGList_def newGListState_def requireCodec_def Let_def)
  with q show "glist.replica_inv (mh i) r \<and> rStrategy r = alwaysMergeClock \<and>
      gl_promise c (\<lambda>_. None) i (rLocal r) (rReceived r) (rData r)"
    using received.arrived_empty by (simp add: eq glr_inv_def gl_promise_def newLocalClock_def)
next
  fix i and r :: "'a GList" and g g' :: "'a gl_ghost" and r' out
  assume r: "glist.replica_inv (mh i) r" "rStrategy r = alwaysMergeClock" "gl_promise c g i (rLocal r) (rReceived r) (rData r)"
    and l: "gl_local mh c i g r g' r' out"
  have inv: "glr_inv (mh i) r" "gl_inv (rData r)" "rc_inv (rReceived r)" using r by (auto simp: glr_inv_def glist.replica_inv_def)
  have p: "lcReplica (rLocal r) = i" "glCodec (rData r) = c" using r(3) by (auto simp: gl_promise_def)
  note own = next_counter(2) [where n = "lcCounter (rLocal r)"]
  from l show "glist.replica_inv (mh i) r' \<and> rStrategy r' = alwaysMergeClock \<and>
      gl_promise c g' i (rLocal r') (rReceived r') (rData r') \<and>
      (\<forall>(p, m) \<in> set out. \<exists>d. tmDelta m = tagDelta d \<and> gl_payload c g' d)"
  proof cases
    case (gl_append v w d b)
    have fresh: "g d = None" using gl_next_fresh [OF r(3) gl_append(3)] by (simp add: gl_append(4))
    have d: "d = mkDot (lcReplica (rLocal r)) (lcCounter (rLocal r) + 1)" "Replica d = i" "Counter d \<noteq> 0"
      using gl_append p by simp_all
    have enc: "Encode (glCodec (rData r)) v = Inr b" using gl_append p by simp
    note a = gl_Append_ok [OF inv(1) enc gl_append(7) d(1) gl_append(2)]
    have item: "gl_item c g' d b" using gl_append by (simp add: gl_item_def)
    have view: "gl_view (rData r') = (gl_view (rData r))(d \<mapsto> b)" "glCodec (rData r') = c"
      using gl_AppendBytes(2,3) [OF inv(2)] p by (simp_all add: a(2))
    have sn: "seen (rReceived r') = (seen (rReceived r))(i := insert (Counter d) (seen (rReceived r) i))"
      using received.arrived_record [OF inv(3), of "Replica d" "Counter d"] d by (simp add: a(3))
    have upd: "gl_item c g' e b'" if "gl_item c g e b'" for e b' using gl_item_upd [where x = d] that fresh gl_append(1) by simp
    have "gl_promise c g' i (rLocal r') (rReceived r') (rData r')"
      using r(3) item upd view sn own gl_append(1,3,4)
      by (auto simp: gl_promise_def a(4))
    moreover have "\<forall>(p, m) \<in> set out. \<exists>d. tmDelta m = tagDelta d \<and> gl_payload c g' d"
      using a(5) item unfolding gl_payload_def by blast
    ultimately show ?thesis using a(1) by (simp add: glr_inv_def)
  next
    case (gl_refused v e)
    have enc: "Encode (glCodec (rData r)) v = Inl e" using gl_refused p by simp
    note a = gl_Append_refused [OF inv(1) enc gl_refused(3)]
    have sn: "seen (rReceived r') = (seen (rReceived r))(i := insert (lcCounter (rLocal r) + 1) (seen (rReceived r) i))"
      using received.arrived_record [OF inv(3), of i "lcCounter (rLocal r) + 1"] gl_refused p by (simp add: a(3))
    have "gl_promise c g' i (rLocal r') (rReceived r') (rData r')"
      using r(3) sn own gl_refused by (auto simp: gl_promise_def a(2,4))
    then show ?thesis using a(1) gl_refused by (simp add: glr_inv_def)
  qed
next
  fix g g' :: "'a gl_ghost" and i r r' out j lc rc s
  assume p: "gl_promise c g i (rLocal r) (rReceived r) (rData r)" and l: "gl_local mh c i g r g' r' out"
    and j: "j \<noteq> i" "gl_promise c g j lc rc s"
  from l show "gl_promise c g' j lc rc s"
  proof cases
    case (gl_append v w d b)
    have "g d = None" using gl_next_fresh [OF p gl_append(3)] by (simp add: gl_append(4))
    then have "gl_item c g e x \<Longrightarrow> gl_item c g' e x" for e x using gl_item_upd [of c g e x d v] gl_append(1) by simp
    with j show ?thesis by (simp add: gl_promise_def gl_append(1,4))
  qed (use j in simp)
next
  fix g g' :: "'a gl_ghost" and i r r' out p
  assume pr: "gl_promise c g i (rLocal r) (rReceived r) (rData r)" and l: "gl_local mh c i g r g' r' out" and pl: "gl_payload c g p"
  from l show "gl_payload c g' p"
  proof cases
    case (gl_append v w d b)
    have "g d = None" using gl_next_fresh [OF pr gl_append(3)] by (simp add: gl_append(4))
    moreover from pl obtain x y where "p = gl_delta (x, y)" "gl_item c g x y" unfolding gl_payload_def by blast
    ultimately have "p = gl_delta (x, y) \<and> gl_item c g' x y" using gl_item_upd [of c g x y d v] gl_append(1) by simp
    then show ?thesis unfolding gl_payload_def by blast
  qed (use pl in simp)
next
  fix i and r :: "'a GList" and g p r'
  assume r: "glist.replica_inv (mh i) r" "rStrategy r = alwaysMergeClock" "gl_promise c g i (rLocal r) (rReceived r) (rData r)"
    and pl: "gl_payload c g p" and r': "r' = fst (replica_applyDelta (mh i) gListM r 0 (mkDot 0 0) p)"
  from pl obtain d b where d: "p = gl_delta (d, b)" "gl_item c g d b" by (auto simp: gl_payload_def)
  then have fits: "gl_fits (d, b)" by (simp add: gl_item_def)
  have inv: "gl_inv (rData r)" "rc_inv (rReceived r)" using r by (auto simp: glist.replica_inv_def)
  have data: "rData r' = (if gl_view (rData r) d = None then gListState_AppendBytes (rData r) b d else rData r)"
    using gl_deliver_data [OF r(2) fits, of "mh i"] by (simp add: r' d(1) gl_deliver_def)
  have "rReceived r' = receivedClock_Record (rReceived r) (Replica d) (Counter d)"
  proof -
    have "mParseDelta gListM (rData r) p =
        (rData r, Ok \<lparr>diOp = opPut, diKey = dotKey d, diMeta = encodeDot d, diContext = None, diDots = [d]\<rparr>)"
      by (simp add: d(1) gl_delta_read(1) [OF fits])
    moreover have "snd (mApply gListM (rData r) p) = Ok ()" by (simp add: d(1) gl_delta_read(2) [OF fits])
    ultimately show ?thesis by (simp add: r' applyDelta_received)
  qed
  then have sn: "n \<in> seen (rReceived r') j \<longleftrightarrow> n \<in> seen (rReceived r) j \<or> j = Replica d \<and> n = Counter d \<and> n \<noteq> 0" for j n
    using received.arrived_record [OF inv(2), of "Replica d" "Counter d"] by auto
  have view: "gl_view (rData r') = (if gl_view (rData r) d = None then (gl_view (rData r))(d \<mapsto> b) else gl_view (rData r))"
      "glCodec (rData r') = glCodec (rData r)"
    using gl_AppendBytes(2,3) [OF inv(1)] by (simp_all add: data)
  have held: "gl_view (rData r') d \<noteq> None" "gl_view (rData r) e \<noteq> None \<Longrightarrow> gl_view (rData r') e \<noteq> None" for e
    by (auto simp: view(1))
  have items: "gl_item c g e b'" if "gl_view (rData r') e = Some b'" for e b'
    using that r(3) d(2) by (auto simp: view(1) gl_promise_def split: if_splits)
  have received: "gl_view (rData r') (mkDot j n) \<noteq> None" if "j \<noteq> i" "n \<in> seen (rReceived r') j" for j n
  proof (cases "j = Replica d \<and> n = Counter d")
    case True
    with held(1) show ?thesis by simp
  next
    case False
    with that sn have "n \<in> seen (rReceived r) j" by blast
    with that(1) r(3) show ?thesis by (intro held(2)) (simp add: gl_promise_def)
  qed
  show "gl_promise c g i (rLocal r) (rReceived r') (rData r')"
    using r(3) items held(2) received by (simp add: gl_promise_def view(2))
next
  fix g i lc rc s p hwm
  assume s: "gl_inv s" "gl_promise c g i lc rc s" and "p \<in> set (mDeltasSince gListM s hwm)"
  then obtain d b where "p = gl_delta (d, b)" "gl_view s d = Some b" using gl_DeltasSince [OF s(1), of hwm] by auto
  with s(2) show "gl_payload c g p" unfolding gl_payload_def gl_promise_def by blast
qed simp


section \<open>What a replica of the cluster lists\<close>

text \<open>The dots in the order of the list: by counter, and by replica among equal counters.\<close>

definition gl_order :: "Dot set \<Rightarrow> Dot list" where
  "gl_order A = map (\<lambda>(n, r). mkDot r n) (sorted_list_of_set ((\<lambda>d. (Counter d, Replica d)) ` A))"

lemma gl_dots_finite: "gl_inv (rData r) \<Longrightarrow> finite (gl_dots r)"
proof -
  assume "gl_inv (rData r)"
  have "dotKey ` gl_dots r \<subseteq> fst ` set (mbEntries (glBackend (rData r)))"
    using dom_map_of_conv_image_fst [of "mbEntries (glBackend (rData r))"]
    by (auto simp: gl_dots_def gl_view_def memoryBackend_GetEntry_def split: option.splits)
  then have "finite (dotKey ` gl_dots r)" using finite_surj [of "set (mbEntries (glBackend (rData r)))"] by (meson finite_set finite_imageI finite_subset)
  then show ?thesis by (rule finite_imageD) (simp add: inj_on_def)
qed

lemma gl_promise_Items:
  assumes inv: "gl_inv (rData r)" and p: "gl_promise c g i lc rc (rData r)"
  shows "GList_Items r = Inr (map (\<lambda>d. the (g d)) (gl_order (gl_dots r)))"
proof -
  define key where "key = (\<lambda>it :: 'a \<times> Dot. (Counter (snd it), Replica (snd it)))"
  define h where "h = (\<lambda>(n, r). the (g (mkDot r n)))"
  have cd: "glCodec (rData r) = c" and item: "\<And>d b. gl_view (rData r) d = Some b \<Longrightarrow> gl_item c g d b"
    using p by (auto simp: gl_promise_def)
  then have "gl_decodes (rData r)" by (fastforce simp: gl_decodes_def gl_item_def)
  from gl_Items [OF inv this] obtain its where items: "gListState_Items (rData r) = Inr (map fst (sort_key key its))"
      and dist: "distinct (map snd its)"
      and its: "set its = {(v, d) | v d. \<exists>b. gl_view (rData r) d = Some b \<and> Decode (glCodec (rData r)) b = Inr v}"
    unfolding key_def by blast
  have dots: "snd ` set its = gl_dots r" using item cd by (fastforce simp: its gl_dots_def gl_item_def image_iff)
  have val: "fst it = h (key it)" if "it \<in> set its" for it
  proof -
    have "g (snd it) = Some (fst it)" using that item cd by (fastforce simp: its gl_item_def)
    then show ?thesis by (simp add: h_def key_def)
  qed
  have "inj_on (\<lambda>d :: Dot. (Counter d, Replica d)) (set (map snd its))" by (rule inj_onI) (auto intro: Dot.equality)
  then have "distinct (map (\<lambda>d. (Counter d, Replica d)) (map snd its))" using dist by (simp only: distinct_map)
  then have "distinct (map key (sort_key key its))" by (simp add: comp_def key_def distinct_map)
  moreover have "set (map key (sort_key key its)) = (\<lambda>d. (Counter d, Replica d)) ` gl_dots r"
    by (simp add: dots [symmetric] image_image key_def)
  ultimately have keys: "map key (sort_key key its) = sorted_list_of_set ((\<lambda>d. (Counter d, Replica d)) ` gl_dots r)"
    using sorted_list_of_set.idem_if_sorted_distinct [of "map key (sort_key key its)"] sorted_sort_key [of key its]
    by (simp only: mp)
  have "map fst (sort_key key its) = map h (map key (sort_key key its))" using val by simp
  also have "\<dots> = map (\<lambda>d. the (g d)) (gl_order (gl_dots r))"
    by (simp add: keys gl_order_def h_def split_beta comp_def)
  finally show ?thesis using items by (simp add: GList_Items_def)
qed

lemma gl_delta_dot:
  assumes "gl_delta (d, b) = gl_delta (d', b')" "gl_fits (d, b)" "gl_fits (d', b')"
  shows "d = d'"
proof -
  define l :: "bytes gListState" where "l = \<lparr>glCodec = StringCodec, glBackend = newMemoryBackend\<rparr>"
  from gl_delta_read(1) [OF assms(2), of l] gl_delta_read(1) [OF assms(3), of l] assms(1) show ?thesis by simp
qed

text \<open>Deltas in flight keep the promise, and add their items.\<close>

lemma gl_receive_all:
  assumes "gl_net.node_ok mh c g i r" "\<forall>p \<in> set ps. \<exists>d b. p = gl_delta (d, b) \<and> gl_item c g d b"
  shows "gl_net.node_ok mh c g i (apply_all (mh i) gListM ps r) \<and>
    gl_dots (apply_all (mh i) gListM ps r) = gl_dots r \<union> {d. \<exists>b. gl_delta (d, b) \<in> set ps \<and> gl_item c g d b}"
  using assms
proof (induction ps arbitrary: r)
  case (Cons p ps)
  let ?r = "fst (replica_applyDelta (mh i) gListM r 0 (mkDot 0 0) p)"
  from Cons.prems(2) obtain d b where d: "p = gl_delta (d, b)" "gl_item c g d b" by auto
  have st: "rStrategy r = alwaysMergeClock" and inv: "gl_inv (rData r)"
    using Cons.prems(1) by (auto simp: gl_net.node_ok_def glist.replica_inv_def)
  have ok: "gl_net.node_ok mh c g i ?r" using d by (intro gl_net.node_delta [OF Cons.prems(1)]) (auto simp: gl_payload_def)
  have "gl_dots ?r = insert d (gl_dots r)"
    using gl_deliver_data [OF st, of d b "mh i"] gl_AppendBytes(2) [OF inv, of b d] d
    by (auto simp: gl_dots_def gl_deliver_def gl_item_def dom_def)
  moreover have "{e. \<exists>x. gl_delta (e, x) \<in> set (p # ps) \<and> gl_item c g e x} =
      insert d {e. \<exists>x. gl_delta (e, x) \<in> set ps \<and> gl_item c g e x}"
    using d gl_delta_dot [of _ _ d b] by (auto simp: gl_item_def)
  ultimately show ?case using Cons.IH [OF ok] Cons.prems(2) by auto
qed simp


section \<open>Properties\<close>

lemma GList_network_own:
  assumes "gl_cluster mh c s" "netGhost s d \<noteq> None" "Replica d = i"
  shows "d \<in> gl_dots (netNodes s i)"
proof -
  have i: "i = Replica d" using assms(3) by simp
  from assms(2) gl_net.reachable(3) [OF assms(1) [unfolded gl_cluster_def], of i] show ?thesis
    by (auto simp: i gl_dots_def gl_promise_def dest: spec [of _ "Counter d"])
qed

text \<open>
  C6: in a cluster of lists, whatever the network does, every replica lists, in the order of
  their dots, items that were appended, each once and none altered, and among them all of its own.
  Replicas that hold the same dots therefore show the same list.
\<close>

theorem GList_network:
  assumes "gl_cluster mh c s"
  shows "GList_Items (netNodes s i) = Inr (map (\<lambda>d. the (netGhost s d)) (gl_order (gl_dots (netNodes s i)))) \<and>
    finite (gl_dots (netNodes s i)) \<and> gl_dots (netNodes s i) \<subseteq> dom (netGhost s) \<and>
    {d \<in> dom (netGhost s). Replica d = i} \<subseteq> gl_dots (netNodes s i)"
proof -
  note r = gl_net.reachable [OF assms [unfolded gl_cluster_def], of i]
  have inv: "gl_inv (rData (netNodes s i))" using r(1) by (simp add: glist.replica_inv_def)
  have "gl_dots (netNodes s i) \<subseteq> dom (netGhost s)" using r(3) by (fastforce simp: gl_dots_def gl_promise_def gl_item_def)
  moreover have "d \<in> gl_dots (netNodes s i)" if "d \<in> dom (netGhost s)" "Replica d = i" for d
    using GList_network_own [OF assms _ that(2)] that(1) by auto
  ultimately show ?thesis using gl_promise_Items [OF inv r(3)] gl_dots_finite [OF inv] by blast
qed

lemma gl_net_start:
  obtains nodes where "gl_cluster (\<lambda>_. demo_hash) StringCodec \<lparr>netNodes = nodes, netSent = {}, netGhost = \<lambda>_. None\<rparr>"
    "\<And>i. rLocal (nodes i) = newLocalClock i \<and> glCodec (rData (nodes i)) = StringCodec"
proof -
  have seed: "MakeSeed demo_hash \<noteq> 0" and opts: "oBackend (applyOptions []) = None" by (simp_all add: applyOptions_def)
  have "\<exists>r. NewGList demo_hash i (Some StringCodec) [] = Ok r \<and> rLocal r = newLocalClock i \<and> glCodec (rData r) = StringCodec" for i
    by (metis NewGList_Ok [OF seed opts])
  then obtain nodes where n: "\<forall>i. NewGList demo_hash i (Some StringCodec) [] = Ok (nodes i) \<and>
      rLocal (nodes i) = newLocalClock i \<and> glCodec (rData (nodes i)) = StringCodec" by metis
  then have "gl_cluster (\<lambda>_. demo_hash) StringCodec \<lparr>netNodes = nodes, netSent = {}, netGhost = \<lambda>_. None\<rparr>"
    unfolding gl_cluster_def using opts by (intro cluster_new) (auto simp: gl_fresh_def)
  with n that show ?thesis by blast
qed

text \<open>A fresh cluster in which replica 1 has appended the empty string.\<close>

lemma gl_net_one:
  obtains s where "gl_cluster (\<lambda>_. demo_hash) StringCodec s" "netGhost s = [mkDot 1 1 \<mapsto> []]"
proof -
  obtain nodes where s0: "gl_cluster (\<lambda>_. demo_hash) StringCodec \<lparr>netNodes = nodes, netSent = {}, netGhost = \<lambda>_. None\<rparr>"
      (is "gl_cluster _ _ ?s0") and n: "rLocal (nodes 1) = newLocalClock 1" "glCodec (rData (nodes 1)) = StringCodec"
    using gl_net_start by metis
  have fits: "gl_fits (mkDot 1 1, [])" by (simp add: gl_fits_def gl_delta_def PutUvarint.simps [of 0])
  obtain r' out w where a: "GList_Append demo_hash (nodes 1) [] = (r', Ok (out, w))"
    using gl_Append_eq [OF _ fits, of "nodes 1" "[]" demo_hash] n
    by (simp add: newLocalClock_def StringCodec_def Let_def) (metis surj_pair)
  have "gl_local (\<lambda>_. demo_hash) StringCodec 1 (\<lambda>_. None) (nodes 1) [mkDot 1 1 \<mapsto> []] r' out"
    by (rule gl_append [where v = "[]" and b = "[]" and w = w]) (use a n fits in \<open>simp_all add: newLocalClock_def StringCodec_def\<close>)
  with s0 have "gl_cluster (\<lambda>_. demo_hash) StringCodec (net_step 1 r' out (?s0\<lparr>netGhost := [mkDot 1 1 \<mapsto> []]\<rparr>))"
    unfolding gl_cluster_def by (intro cluster_local) simp_all
  then show ?thesis by (rule that) simp
qed

theorem GList_network_witness:
  "\<exists>s. gl_cluster (\<lambda>_. demo_hash) StringCodec s \<and> GList_Items (netNodes s 1) = Inr [[]]"
proof -
  obtain s where s: "gl_cluster (\<lambda>_. demo_hash) StringCodec s" "netGhost s = [mkDot 1 1 \<mapsto> []]" by (rule gl_net_one)
  from GList_network [OF s(1), of 1] s(2) have "gl_dots (netNodes s 1) = {mkDot 1 1}" by auto
  with GList_network [OF s(1), of 1] s show ?thesis by (auto simp: gl_order_def)
qed

text \<open>A replica holds every item of another that its high-water marks cover.\<close>

lemma gl_cluster_held:
  assumes "gl_cluster mh c s" "gl_view (rData (netNodes s j)) d \<noteq> None"
    and "Counter d \<le> VClock_Get (receivedClock_HWM (rReceived (netNodes s i))) (Replica d)"
  shows "d \<in> gl_dots (netNodes s i)"
proof -
  note r = gl_net.reachable [OF assms(1) [unfolded gl_cluster_def]]
  have inv: "rc_inv (rReceived (netNodes s i))" using r(1) [of i] by (simp add: glist.replica_inv_def)
  have g: "netGhost s d \<noteq> None" using assms(2) r(3) [of j] by (fastforce simp: gl_promise_def gl_item_def)
  show ?thesis
  proof (cases "Replica d = i")
    case True
    then show ?thesis using GList_network_own [OF assms(1) g] by simp
  next
    case False
    have "Counter d \<noteq> 0" using g r(3) [of "Replica d"] by (auto simp: gl_promise_def dest: spec [of _ "Counter d"])
    with assms(3) have "Counter d \<in> seen (rReceived (netNodes s i)) (Replica d)" by (simp add: HWM_Get [OF inv] seen_def word_gt_0)
    with False r(3) [of i] have "gl_view (rData (netNodes s i)) (mkDot (Replica d) (Counter d)) \<noteq> None" unfolding gl_promise_def by blast
    then show ?thesis by (simp add: gl_dots_def dom_def)
  qed
qed

lemma gl_cluster_sync:
  fixes i j :: ReplicaID
  assumes "gl_cluster mh c s"
  defines "ps \<equiv> gListState_DeltasSince (rData (netNodes s j)) (receivedClock_HWM (rReceived (netNodes s i)))"
  shows "gl_net.node_ok mh c (netGhost s) i (apply_all (mh i) gListM ps (netNodes s i))"
    and "gl_dots (apply_all (mh i) gListM ps (netNodes s i)) = gl_dots (netNodes s i) \<union> gl_dots (netNodes s j)"
proof -
  let ?hwm = "receivedClock_HWM (rReceived (netNodes s i))"
  note r = gl_net.reachable [OF assms(1) [unfolded gl_cluster_def]]
  have ok: "gl_net.node_ok mh c (netGhost s) i (netNodes s i)" using r [of i] by (simp add: gl_net.node_ok_def)
  have "gl_inv (rData (netNodes s j))" using r(1) [of j] by (simp add: glist.replica_inv_def)
  note sel = gl_DeltasSince [OF this, of ?hwm, folded ps_def]
  have item: "gl_item c (netGhost s) d b" if "gl_view (rData (netNodes s j)) d = Some b" for d b
    using r(3) [of j] that by (simp add: gl_promise_def)
  have "\<forall>q \<in> set ps. \<exists>d b. q = gl_delta (d, b) \<and> gl_item c (netGhost s) d b" unfolding sel using item by blast
  note all = gl_receive_all [OF ok this]
  then show "gl_net.node_ok mh c (netGhost s) i (apply_all (mh i) gListM ps (netNodes s i))" by blast
  have "d \<in> gl_dots (netNodes s i) \<or> (\<exists>b. gl_delta (d, b) \<in> set ps \<and> gl_item c (netGhost s) d b)" if "d \<in> gl_dots (netNodes s j)" for d
  proof (cases "Counter d \<le> VClock_Get ?hwm (Replica d)")
    case True
    with that gl_cluster_held [OF assms(1), of j d i] show ?thesis by (auto simp: gl_dots_def)
  next
    case False
    from that obtain b where b: "gl_view (rData (netNodes s j)) d = Some b" by (auto simp: gl_dots_def)
    with False have "gl_delta (d, b) \<in> set ps" unfolding sel not_le by blast
    with item [OF b] show ?thesis by blast
  qed
  moreover have "d \<in> gl_dots (netNodes s j)" if "gl_delta (d, b) \<in> set ps" "gl_item c (netGhost s) d b" for d b
  proof -
    from that(1) sel obtain d' b' where e: "gl_delta (d, b) = gl_delta (d', b')" "gl_view (rData (netNodes s j)) d' = Some b'" by auto
    with item [OF e(2)] that(2) gl_delta_dot [OF e(1)] have "d = d'" by (simp add: gl_item_def)
    with e(2) show ?thesis by (auto simp: gl_dots_def)
  qed
  ultimately show "gl_dots (apply_all (mh i) gListM ps (netNodes s i)) = gl_dots (netNodes s i) \<union> gl_dots (netNodes s j)"
    using all by blast
qed

text \<open>
  C7: anti-entropy is complete for lists: in every reachable state, the deltas that replica \<open>j\<close> selects for replica \<open>i\<close> are
  exactly those of its items whose dots lie above the contiguous high-water marks of \<open>i\<close>; every item of \<open>j\<close> that \<open>i\<close> lacks is
  among them, beside those it received over a gap. Applying them leaves \<open>i\<close> with its own items and those of \<open>j\<close> and no
  others, and after the exchange in both directions the two show the same list.
\<close>

theorem GList_network_sync:
  assumes "gl_cluster mh c s"
  defines "hwm \<equiv> \<lambda>i. receivedClock_HWM (rReceived (netNodes s i))"
  defines "sync \<equiv> \<lambda>i j. apply_all (mh i) gListM (gListState_DeltasSince (rData (netNodes s j)) (hwm i)) (netNodes s i)"
  shows "set (gListState_DeltasSince (rData (netNodes s j)) (hwm i)) =
      {gl_delta (d, b) | d b. gl_view (rData (netNodes s j)) d = Some b \<and> VClock_Get (hwm i) (Replica d) < Counter d} \<and>
    (\<forall>d \<in> gl_dots (netNodes s j) - gl_dots (netNodes s i). VClock_Get (hwm i) (Replica d) < Counter d) \<and>
    gl_dots (sync i j) = gl_dots (netNodes s i) \<union> gl_dots (netNodes s j) \<and> GList_Items (sync i j) = GList_Items (sync j i)"
proof -
  have "gl_inv (rData (netNodes s j))"
    using gl_net.reachable(1) [OF assms(1) [unfolded gl_cluster_def], of j] by (simp add: glist.replica_inv_def)
  note sel = gl_DeltasSince [OF this, of "hwm i"]
  have lacks: "VClock_Get (hwm i) (Replica d) < Counter d" if "d \<in> gl_dots (netNodes s j) - gl_dots (netNodes s i)" for d
    using gl_cluster_held [OF assms(1), of j d i] that by (auto simp: hwm_def gl_dots_def not_le [symmetric])
  have sync: "gl_net.node_ok mh c (netGhost s) i (sync i j)" "gl_dots (sync i j) = gl_dots (netNodes s i) \<union> gl_dots (netNodes s j)" for i j
    using gl_cluster_sync [OF assms(1)] by (simp_all add: sync_def hwm_def)
  have "GList_Items (sync i j) = Inr (map (\<lambda>d. the (netGhost s d)) (gl_order (gl_dots (netNodes s i) \<union> gl_dots (netNodes s j))))" for i j
    using sync [of i j] gl_promise_Items [of "sync i j" c "netGhost s" i "rLocal (sync i j)" "rReceived (sync i j)"]
    by (simp add: gl_net.node_ok_def glist.replica_inv_def)
  with sync(2) sel lacks show ?thesis by (simp add: Un_commute)
qed

theorem GList_network_sync_witness:
  "\<exists>s. gl_cluster (\<lambda>_. demo_hash) StringCodec s \<and> netGhost s = [mkDot 1 1 \<mapsto> []] \<and>
    mkDot 1 1 \<in> gl_dots (apply_all demo_hash gListM (gListState_DeltasSince (rData (netNodes s 1)) (receivedClock_HWM (rReceived (netNodes s 2)))) (netNodes s 2)) \<and>
    GList_Items (apply_all demo_hash gListM (gListState_DeltasSince (rData (netNodes s 1)) (receivedClock_HWM (rReceived (netNodes s 2)))) (netNodes s 2))
    = GList_Items (apply_all demo_hash gListM (gListState_DeltasSince (rData (netNodes s 2)) (receivedClock_HWM (rReceived (netNodes s 1)))) (netNodes s 1))"
proof -
  obtain s where s: "gl_cluster (\<lambda>_. demo_hash) StringCodec s" "netGhost s = [mkDot 1 1 \<mapsto> []]" by (rule gl_net_one)
  have "mkDot 1 1 \<in> gl_dots (netNodes s 1)" using GList_network_own [OF s(1), of "mkDot 1 1" 1] s(2) by simp
  with GList_network_sync [OF s(1), of 1 2] show ?thesis by (intro exI [of _ s] conjI s) simp_all
qed

end
