(* ===== verification/MapNetwork.thy ===== *)
theory MapNetwork
  imports Cluster LWWMaps
begin

text \<open>
  Clusters of last-writer-wins maps. The ghost is the set of all writes (key, dot and value, or
  no value for a remove). A local write must be stamped above the write it replaces: where it is not,
  the replicas may disagree for ever (\<open>LWWMap_stale_stamp\<close>).
\<close>

section \<open>Definitions\<close>

type_synonym lm_entry = "bytes \<times> Dot \<times> bytes option"

definition lm_fresh :: "(ReplicaID \<Rightarrow> maphash) \<Rightarrow> 'v Codec \<Rightarrow> ReplicaID \<Rightarrow> 'v LWWMap \<Rightarrow> bool" where
  "lm_fresh mh c i r \<longleftrightarrow> MakeSeed (mh i) \<noteq> 0 \<and>
     (\<exists>opts. oBackend (applyOptions opts) = None \<and> NewLWWMap (mh i) i (Some c) opts = Ok r)"

text \<open>The dot of the next local write, which does not wrap around and is above the write it replaces.\<close>

definition lm_stamp :: "'v LWWMap \<Rightarrow> bytes \<Rightarrow> Dot \<Rightarrow> bool" where
  "lm_stamp r k d \<longleftrightarrow> d = mkDot (lcReplica (rLocal r)) (lcCounter (rLocal r) + 1) \<and> lcCounter (rLocal r) + 1 \<noteq> 0 \<and>
     (\<forall>l x. lm_view (rData r) k = Some (l, x) \<longrightarrow> l < d)"

inductive lm_local :: "(ReplicaID \<Rightarrow> maphash) \<Rightarrow> 'v Codec \<Rightarrow> ReplicaID \<Rightarrow> lm_entry set \<Rightarrow> 'v LWWMap \<Rightarrow> lm_entry set \<Rightarrow> 'v LWWMap \<Rightarrow> sends \<Rightarrow> bool"
  for mh c where
  lm_put: "\<lbrakk>LWWMap_Put (mh i) r k v = (r', Ok (out, w)); lm_stamp r k d; Encode c v = Inr b; lm_fits (k, d, Some b)\<rbrakk> \<Longrightarrow>
    lm_local mh c i g r (insert (k, d, Some b) g) r' out"
| lm_remove: "\<lbrakk>LWWMap_Remove (mh i) r k = (r', out, w); lm_stamp r k d; lm_fits (k, d, None)\<rbrakk> \<Longrightarrow>
    lm_local mh c i g r (insert (k, d, None) g) r' out"
| lm_refused: "\<lbrakk>LWWMap_Put (mh i) r k v = (r', Err e); Encode c v = Inl e; lcCounter (rLocal r) + 1 \<noteq> 0\<rbrakk> \<Longrightarrow>
    lm_local mh c i g r g r' []"

type_synonym 'v lm_net = "('v lwwMapState, lm_entry set) net"

definition lm_cluster :: "(ReplicaID \<Rightarrow> maphash) \<Rightarrow> 'v Codec \<Rightarrow> 'v lm_net \<Rightarrow> bool" where
  "lm_cluster mh c = cluster mh lwwMapM (lm_fresh mh c) {} (lm_local mh c)"

text \<open>A write at least as new as \<open>d\<close> is held under the key.\<close>

definition lm_covers :: "'v lwwMapState \<Rightarrow> bytes \<Rightarrow> Dot \<Rightarrow> bool" where
  "lm_covers s k d \<longleftrightarrow> (\<exists>l x. lm_view s k = Some (l, x) \<and> d \<le> l)"

text \<open>A write of the replica itself, as it sees it.\<close>

definition lm_own :: "lm_entry set \<Rightarrow> localClock \<Rightarrow> 'v lwwMapState \<Rightarrow> bytes \<Rightarrow> Dot \<Rightarrow> bytes option \<Rightarrow> bool" where
  "lm_own g lc s k d x \<longleftrightarrow> Counter d \<noteq> 0 \<and> Counter d \<le> lcCounter lc \<and> lm_covers s k d \<and>
     (\<forall>y. y \<in> g \<and> fst (snd y) = d \<longrightarrow> y = (k, d, x))"

text \<open>
  What a replica holds was written; its own writes have distinct dots below its clock, and it holds them
  or newer ones, as it does every write it has received.
\<close>

definition lm_promise :: "'v Codec \<Rightarrow> lm_entry set \<Rightarrow> ReplicaID \<Rightarrow> localClock \<Rightarrow> receivedClock \<Rightarrow> 'v lwwMapState \<Rightarrow> bool" where
  "lm_promise c g i lc rc s \<longleftrightarrow> lcReplica lc = i \<and> lmCodec s = c \<and>
     (\<forall>y \<in> g. lm_fits y) \<and> (\<forall>k d x. lm_view s k = Some (d, x) \<longrightarrow> (k, d, x) \<in> g) \<and>
     (\<forall>k d x. (k, d, x) \<in> g \<longrightarrow> Replica d = i \<longrightarrow> lm_own g lc s k d x) \<and>
     (\<forall>j n. j \<noteq> i \<longrightarrow> n \<in> seen rc j \<longrightarrow> (\<exists>k x. (k, mkDot j n, x) \<in> g \<and> lm_covers s k (mkDot j n)))"

lemma lm_promiseI:
  assumes "lcReplica lc = i" "lmCodec s = c" "\<forall>y \<in> g. lm_fits y"
    "\<And>k d x. lm_view s k = Some (d, x) \<Longrightarrow> (k, d, x) \<in> g"
    "\<And>k d x. (k, d, x) \<in> g \<Longrightarrow> Replica d = i \<Longrightarrow> lm_own g lc s k d x"
    "\<And>j n. j \<noteq> i \<Longrightarrow> n \<in> seen rc j \<Longrightarrow> \<exists>k x. (k, mkDot j n, x) \<in> g \<and> lm_covers s k (mkDot j n)"
  shows "lm_promise c g i lc rc s"
  using assms by (simp add: lm_promise_def)

lemma lm_promiseD:
  assumes "lm_promise c g i lc rc s"
  shows "lcReplica lc = i" "lmCodec s = c" "\<forall>y \<in> g. lm_fits y"
    "lm_view s k = Some (d, x) \<Longrightarrow> (k, d, x) \<in> g"
    "(k, d, x) \<in> g \<Longrightarrow> Replica d = i \<Longrightarrow> lm_own g lc s k d x"
    "j \<noteq> i \<Longrightarrow> n \<in> seen rc j \<Longrightarrow> \<exists>k x. (k, mkDot j n, x) \<in> g \<and> lm_covers s k (mkDot j n)"
  using assms unfolding lm_promise_def by blast+

section \<open>Local writes\<close>

text \<open>The three operations as one: a write under the next dot, or none.\<close>

lemma lm_local_step:
  assumes "lm_local mh c i g r g' r' out" "lwwr_inv (mh i) r" "lmCodec (rData r) = c" "lcReplica (rLocal r) = i"
  obtains "g' = g" "out = []" "lwwr_inv (mh i) r'" "rData r' = rData r" "lcCounter (rLocal r) + 1 \<noteq> 0"
      "rReceived r' = receivedClock_Record (rReceived r) i (lcCounter (rLocal r) + 1)"
      "rLocal r' = (rLocal r)\<lparr>lcCounter := lcCounter (rLocal r) + 1\<rparr>"
  | k d x where "g' = insert (k, d, x) g" "lwwr_inv (mh i) r'" "rData r' = lm_write (rData r) k d x" "lm_stamp r k d" "lm_fits (k, d, x)"
      "rReceived r' = receivedClock_Record (rReceived r) i (lcCounter (rLocal r) + 1)"
      "rLocal r' = (rLocal r)\<lparr>lcCounter := lcCounter (rLocal r) + 1\<rparr>"
      "\<forall>(p, m) \<in> set out. tmDelta m = tagDelta (lm_delta (k, d, x))"
  using assms(1)
proof cases
  case (lm_put k v w d b)
  have enc: "Encode (lmCodec (rData r)) v = Inr b" using lm_put assms(3) by simp
  have d: "snd (replica_nextDot r) = d" using lm_put by (simp add: lm_stamp_def)
  have r': "r' = fst (LWWMap_Put (mh i) r k v)" using lm_put by simp
  have eq: "LWWMap_Put (mh i) r k v = (let r' = replica_trackKey (mh i) lwwMapM ((fst (replica_nextDot r))\<lparr>rData := lm_write (rData r) k d (Some b)\<rparr>) k
      in (r', Ok (replica_propagate r' d (lm_delta (k, d, Some b)))))"
    using lm_delta_Put [OF enc, of k d] d by (cases "replica_nextDot r") (use nextDot_simps(1) [of r] in \<open>simp add: LWWMap_Put_def Let_def\<close>)
  have "lwwr_inv (mh i) r'" using LWWMap_Put_inv [OF assms(2) enc] by (simp add: r')
  moreover have "rData r' = lm_write (rData r) k d (Some b)"
      "rReceived r' = receivedClock_Record (rReceived r) i (lcCounter (rLocal r) + 1)"
      "rLocal r' = (rLocal r)\<lparr>lcCounter := lcCounter (rLocal r) + 1\<rparr>"
    using assms(4) by (simp_all add: r' eq Let_def) (simp add: replica_nextDot_def localClock_Next_def Let_def)
  moreover have "\<forall>(p, m) \<in> set out. tmDelta m = tagDelta (lm_delta (k, d, Some b))"
  proof -
    have "out = fst (replica_propagate r' d (lm_delta (k, d, Some b)))"
      using lm_put(2) by (auto simp: eq Let_def dest: arg_cong [of _ _ fst])
    then show ?thesis using propagate_sends by blast
  qed
  ultimately show ?thesis using lm_put that(2) by blast
next
  case (lm_remove k w d)
  have d: "snd (replica_nextDot r) = d" using lm_remove by (simp add: lm_stamp_def)
  have r': "r' = fst (LWWMap_Remove (mh i) r k)" using lm_remove by simp
  have eq: "LWWMap_Remove (mh i) r k = (let r' = replica_trackKey (mh i) lwwMapM ((fst (replica_nextDot r))\<lparr>rData := lm_write (rData r) k d None\<rparr>) k
      in (r', replica_propagate r' d (lm_delta (k, d, None))))"
    using d by (cases "replica_nextDot r") (use nextDot_simps(1) [of r] in \<open>simp add: LWWMap_Remove_def Let_def lm_delta_Remove\<close>)
  have "lwwr_inv (mh i) r'" using LWWMap_Remove_inv [OF assms(2)] by (simp add: r')
  moreover have "rData r' = lm_write (rData r) k d None"
      "rReceived r' = receivedClock_Record (rReceived r) i (lcCounter (rLocal r) + 1)"
      "rLocal r' = (rLocal r)\<lparr>lcCounter := lcCounter (rLocal r) + 1\<rparr>"
    using assms(4) by (simp_all add: r' eq Let_def) (simp add: replica_nextDot_def localClock_Next_def Let_def)
  moreover have "\<forall>(p, m) \<in> set out. tmDelta m = tagDelta (lm_delta (k, d, None))"
  proof -
    have "out = fst (replica_propagate r' d (lm_delta (k, d, None)))"
      using lm_remove(2) by (auto simp: eq Let_def dest: arg_cong [of _ _ fst])
    then show ?thesis using propagate_sends by blast
  qed
  ultimately show ?thesis using lm_remove that(2) by blast
next
  case (lm_refused k v e)
  have "r' = fst (replica_nextDot r)"
    using lm_refused assms(3) by (auto simp: LWWMap_Put_def lwwMapState_Put_def Let_def split_beta replica_nextDot_def)
  then show ?thesis
    using lm_refused assms(2,4) lwwmap.nextDot_inv [of "mh i" r]
    by (intro that(1)) (simp_all add: lwwr_inv_def replica_nextDot_def localClock_Next_def Let_def)
qed


section \<open>The protocol\<close>

definition lm_payload :: "lm_entry set \<Rightarrow> bytes \<Rightarrow> bool" where
  "lm_payload g p \<longleftrightarrow> (\<exists>y \<in> g. p = lm_delta y \<and> lm_fits y)"

lemma lm_covers_write:
  assumes "lm_inv s" "\<And>l x. lm_view s k = Some (l, x) \<Longrightarrow> l < d" "lm_covers s k' d'"
  shows "lm_covers (lm_write s k d x) k' d'"
  using assms(2,3) by (auto simp: lm_covers_def lm_view_write [OF assms(1)] dest: order_trans [OF _ less_imp_le])

text \<open>The next dot of a replica is under no write.\<close>

lemma lm_next_fresh:
  assumes "lm_promise c g i (rLocal r) rc s" "lm_stamp r k d" "y \<in> g"
  shows "fst (snd y) \<noteq> d"
proof
  assume y: "fst (snd y) = d"
  obtain k' x' where "y = (k', d, x')" using y by (cases y) auto
  then have mem: "(k', d, x') \<in> g" using assms(3) by blast
  have st: "d = mkDot (lcReplica (rLocal r)) (lcCounter (rLocal r) + 1)" "lcCounter (rLocal r) + 1 \<noteq> 0"
    using assms(2) unfolding lm_stamp_def by blast+
  have d: "Replica d = i" "Counter d = lcCounter (rLocal r) + 1"
    unfolding st(1) by (simp_all add: lm_promiseD(1) [OF assms(1)])
  have "Counter d \<le> lcCounter (rLocal r)" using lm_promiseD(5) [OF assms(1) mem d(1)] unfolding lm_own_def by blast
  with next_counter(1) [OF st(2)] show False unfolding d(2) by (simp add: leD)
qed

lemma lm_promise_write:
  assumes p: "lm_promise c g i (rLocal r) (rReceived r) (rData r)" and inv: "lm_inv (rData r)" "rc_inv (rReceived r)"
    and st: "lm_stamp r k d" "lm_fits (k, d, x)" and rd: "rData r' = lm_write (rData r) k d x"
    and rc: "rReceived r' = receivedClock_Record (rReceived r) i (lcCounter (rLocal r) + 1)"
    and lc: "rLocal r' = (rLocal r)\<lparr>lcCounter := lcCounter (rLocal r) + 1\<rparr>"
  shows "lm_promise c (insert (k, d, x) g) i (rLocal r') (rReceived r') (rData r')"
proof -
  have d: "Replica d = i" "Counter d = lcCounter (rLocal r) + 1" "lcCounter (rLocal r) + 1 \<noteq> 0"
    and below: "\<And>l x. lm_view (rData r) k = Some (l, x) \<Longrightarrow> l < d"
    using p st(1) by (auto simp: lm_promise_def lm_stamp_def)
  note fresh = lm_next_fresh [OF p st(1)]
  have covers: "lm_covers (rData r') k' d'" if "lm_covers (rData r) k' d'" for k' d'
    using lm_covers_write [OF inv(1) below that] by (simp add: rd)
  have view: "lm_view (rData r') = (lm_view (rData r))(k \<mapsto> (d, x))" by (simp add: rd lm_view_write [OF inv(1)])
  then have new: "lm_covers (rData r') k d" by (simp add: lm_covers_def)
  have own: "lm_own (insert (k, d, x) g) (rLocal r') (rData r') k' d' x'"
    if y: "(k', d', x') \<in> insert (k, d, x) g" "Replica d' = i" for k' d' x'
  proof (cases "(k', d', x') \<in> g")
    case True
    have o: "Counter d' \<noteq> 0" "Counter d' \<le> lcCounter (rLocal r)" "lm_covers (rData r) k' d'"
        "\<forall>y. y \<in> g \<and> fst (snd y) = d' \<longrightarrow> y = (k', d', x')"
      using lm_promiseD(5) [OF p True y(2)] unfolding lm_own_def by blast+
    have "d' \<noteq> d" using fresh [OF True] by simp
    with o next_counter(2) [OF d(3) o(2)] covers [OF o(3)] show ?thesis by (auto simp: lm_own_def lc)
  next
    case False
    with y have "k' = k" "d' = d" "x' = x" by auto
    with new d show ?thesis by (auto simp: lm_own_def lc dest: fresh)
  qed
  have seen_other: "seen (rReceived r') j = seen (rReceived r) j" if "j \<noteq> i" for j
    using received.arrived_record [OF inv(2), of i "lcCounter (rLocal r) + 1"] that by (simp add: rc)
  have others: "\<exists>k' x'. (k', mkDot j n, x') \<in> insert (k, d, x) g \<and> lm_covers (rData r') k' (mkDot j n)"
    if "j \<noteq> i" "n \<in> seen (rReceived r') j" for j n
  proof -
    have "n \<in> seen (rReceived r) j" using that seen_other by blast
    with lm_promiseD(6) [OF p that(1)] covers show ?thesis by blast
  qed
  have cd: "lmCodec (rData r') = c" "lcReplica (rLocal r') = i" using p by (simp_all add: rd lc lm_promise_def)
  have fits: "\<forall>y \<in> insert (k, d, x) g. lm_fits y" using p st(2) by (simp add: lm_promise_def)
  have held: "(k', d', x') \<in> insert (k, d, x) g" if "lm_view (rData r') k' = Some (d', x')" for k' d' x'
    using that p by (auto simp: view lm_promise_def split: if_splits)
  show ?thesis
    by (rule lm_promiseI [OF cd(2) cd(1) fits held own others])
qed


lemma lm_promise_deliver:
  assumes p: "lm_promise c g i (rLocal r) (rReceived r) (rData r)" and inv: "lwwr_inv mh r"
    and y: "y \<in> g" "lm_fits y" and r': "r' = lm_deliver mh y r"
  shows "lm_promise c g i (rLocal r) (rReceived r') (rData r')"
proof -
  obtain k d x where kd: "y = (k, d, x)" by (cases y)
  have rc: "rc_inv (rReceived r)" using inv by (simp add: lwwr_inv_def lwwmap.replica_inv_def)
  have view: "lm_view (rData r') = lww_step y (lm_view (rData r))" using lm_deliver_view [OF inv y(2)] by (simp add: r')
  have "rReceived r' = receivedClock_Record (rReceived r) (Replica d) (Counter d)"
  proof -
    obtain info where "mParseDelta lwwMapM (rData r) (lm_delta y) = (rData r, Ok info)" "diDots info = [d]"
        "snd (mApply lwwMapM (rData r) (lm_delta y)) = Ok ()"
      using y(2) lm_delta_put [of k d _ "rData r"] lm_delta_remove [of k d "rData r"]
      unfolding lm_fits_def kd by (cases x) auto
    then show ?thesis by (simp add: r' lm_deliver_def applyDelta_received)
  qed
  then have sn: "n \<in> seen (rReceived r) j \<or> j = Replica d \<and> n = Counter d" if "n \<in> seen (rReceived r') j" for j n
    using received.arrived_record [OF rc, of "Replica d" "Counter d"] that by (auto split: if_splits)
  have covers: "lm_covers (rData r') k' d'" if "lm_covers (rData r) k' d'" for k' d'
    using that lww_fold_keeps [of "lm_view (rData r)" k' _ _ "[y]"] unfolding lm_covers_def view
    by (fastforce intro: order_trans)
  have new: "lm_covers (rData r') k d"
    using lww_fold_covers [of k d x "[y]" "lm_view (rData r)"] by (simp add: lm_covers_def view kd)
  have held: "(k', d', x') \<in> g" if "lm_view (rData r') k' = Some (d', x')" for k' d' x'
    using that p y(1) by (auto simp: view kd lww_step_def lm_promise_def split: if_splits option.splits)
  have others: "\<exists>k' x'. (k', mkDot j n, x') \<in> g \<and> lm_covers (rData r') k' (mkDot j n)"
    if n: "j \<noteq> i" "n \<in> seen (rReceived r') j" for j n
  proof (cases "n \<in> seen (rReceived r) j")
    case True
    from lm_promiseD(6) [OF p n(1) this] covers show ?thesis by blast
  next
    case False
    with sn [OF n(2)] have "mkDot j n = d" by simp
    with new y(1) kd show ?thesis by blast
  qed
  have cd: "lmCodec (rData r') = c" "lcReplica (rLocal r) = i"
    using p lm_deliver_codec [OF inv, of "[y]"] y(2) by (simp_all add: r' lm_promise_def)
  have own: "lm_own g (rLocal r) (rData r') k' d' x'" if "(k', d', x') \<in> g" "Replica d' = i" for k' d' x'
    using lm_promiseD(5) [OF p that] covers by (simp add: lm_own_def)
  have fits: "\<forall>y \<in> g. lm_fits y" using p by (simp add: lm_promise_def)
  show ?thesis
    by (rule lm_promiseI [OF cd(2) cd(1) fits held own others])
qed

interpretation lm_net: cluster_protocol lwwMapM lm_inv mh lwwClock "lm_fresh mh c" "{}" "lm_local mh c" "lm_promise c" lm_payload for mh c
proof
  fix i and r :: "'a LWWMap"
  assume "lm_fresh mh c i r"
  then obtain opts where f: "MakeSeed (mh i) \<noteq> 0" "oBackend (applyOptions opts) = None" "NewLWWMap (mh i) i (Some c) opts = Ok r"
    by (auto simp: lm_fresh_def)
  obtain q where "NewLWWMap (mh i) i (Some c) opts = Ok q" and q: "lwwr_inv (mh i) q" "lm_view (rData q) = (\<lambda>_. None)"
      "lmCodec (rData q) = c" "rLocal q = newLocalClock i"
    by (rule NewLWWMap_Ok [OF f(1,2), of i c])
  then have eq: "q = r" using f(3) by simp
  have "rReceived r = newReceivedClock"
    using f(3) by (auto simp: NewLWWMap_def newLWWMapState_def requireCodec_def Let_def)
  with q show "lwwmap.replica_inv (mh i) r \<and> rStrategy r = lwwClock \<and> lm_promise c {} i (rLocal r) (rReceived r) (rData r)"
    using received.arrived_empty by (simp add: eq lwwr_inv_def lm_promise_def newLocalClock_def)
next
  fix i and r :: "'a LWWMap" and g g' r' out
  assume r: "lwwmap.replica_inv (mh i) r" "rStrategy r = lwwClock" and p: "lm_promise c g i (rLocal r) (rReceived r) (rData r)"
    and l: "lm_local mh c i g r g' r' out"
  have inv: "lwwr_inv (mh i) r" "lm_inv (rData r)" "rc_inv (rReceived r)" using r by (auto simp: lwwr_inv_def lwwmap.replica_inv_def)
  have cd: "lmCodec (rData r) = c" "lcReplica (rLocal r) = i" using p by (auto simp: lm_promise_def)
  from l inv(1) cd show "lwwmap.replica_inv (mh i) r' \<and> rStrategy r' = lwwClock \<and>
      lm_promise c g' i (rLocal r') (rReceived r') (rData r') \<and>
      (\<forall>(p, m) \<in> set out. \<exists>d. tmDelta m = tagDelta d \<and> lm_payload g' d)"
  proof (cases rule: lm_local_step)
    case 1
    have "seen (rReceived r') j = seen (rReceived r) j" if "j \<noteq> i" for j
      using received.arrived_record [OF inv(3), of i "lcCounter (rLocal r) + 1"] that by (simp add: 1)
    moreover have "lm_own g (rLocal r') (rData r') k d x" if "(k, d, x) \<in> g" "Replica d = i" for k d x
      using lm_promiseD(5) [OF p that] next_counter(2) [OF 1(5)] by (simp add: lm_own_def 1)
    ultimately have "lm_promise c g' i (rLocal r') (rReceived r') (rData r')"
      using lm_promiseD [OF p] by (intro lm_promiseI) (simp_all add: 1)
    then show ?thesis using 1 by (simp add: lwwr_inv_def)
  next
    case (2 k d x)
    have "lm_promise c g' i (rLocal r') (rReceived r') (rData r')"
      unfolding 2(1) by (rule lm_promise_write [OF p inv(2,3) 2(4,5,3,6,7)])
    moreover have "lm_payload g' (lm_delta (k, d, x))" using 2(1,5) by (auto simp: lm_payload_def)
    ultimately show ?thesis using 2(2,8) by (auto simp: lwwr_inv_def)
  qed
next
  fix g g' i r r' out j lc rc s
  assume p: "lm_promise c g i (rLocal r) (rReceived r) (rData r)" and l: "lm_local mh c i g r g' r' out"
    and j: "j \<noteq> i" "lm_promise c g j lc rc s"
  have grow: "lm_promise c (insert (k, d, x) g) j lc rc s" if "lm_stamp r k d" "lm_fits (k, d, x)" for k d x
  proof -
    have "Replica d \<noteq> j" using that(1) p j(1) by (auto simp: lm_stamp_def lm_promise_def)
    then have own: "lm_own (insert (k, d, x) g) lc s k' d' x'" if "(k', d', x') \<in> insert (k, d, x) g" "Replica d' = j" for k' d' x'
      using lm_promiseD(5) [OF j(2), of k' d' x'] that by (auto simp: lm_own_def)
    have others: "\<exists>k' x'. (k', mkDot l n, x') \<in> insert (k, d, x) g \<and> lm_covers s k' (mkDot l n)" if "l \<noteq> j" "n \<in> seen rc l" for l n
      using lm_promiseD(6) [OF j(2) that] by blast
    show ?thesis by (rule lm_promiseI) (use lm_promiseD(1-4) [OF j(2)] \<open>lm_fits (k, d, x)\<close> own others in \<open>simp_all\<close>)
  qed
  from l show "lm_promise c g' j lc rc s" by cases (use j grow in auto)
next
  fix g g' i and r :: "'a LWWMap" and r' out d
  assume "lm_local mh c i g r g' r' out" "lm_payload g d"
  then show "lm_payload g' d" by cases (auto simp: lm_payload_def)
next
  fix i and r :: "'a LWWMap" and g p r'
  assume r: "lwwmap.replica_inv (mh i) r" "rStrategy r = lwwClock" "lm_promise c g i (rLocal r) (rReceived r) (rData r)"
    and pl: "lm_payload g p" and r': "r' = fst (replica_applyDelta (mh i) lwwMapM r 0 (mkDot 0 0) p)"
  from pl obtain y where y: "y \<in> g" "lm_fits y" "p = lm_delta y" by (auto simp: lm_payload_def)
  have "lwwr_inv (mh i) r" using r by (simp add: lwwr_inv_def)
  from lm_promise_deliver [OF r(3) this y(1,2)] show "lm_promise c g i (rLocal r) (rReceived r') (rData r')"
    by (simp add: r' y(3) lm_deliver_def)
next
  fix g i lc rc and s :: "'a lwwMapState" and p hwm
  assume s: "lm_inv s" "lm_promise c g i lc rc s" and "p \<in> set (mDeltasSince lwwMapM s hwm)"
  then obtain y where "p = lm_delta y" "y \<in> set (lm_since s hwm)" by (auto simp: DeltasSince_lm)
  moreover from this(2) have "y \<in> g"
  proof -
    obtain k d x where "y = (k, d, x)" by (cases y)
    with \<open>y \<in> set (lm_since s hwm)\<close> lm_promiseD(4) [OF s(2)] show ?thesis by (simp add: set_lm_since [OF s(1)])
  qed
  ultimately show "lm_payload g p" using s(2) by (auto simp: lm_payload_def lm_promise_def)
qed simp


section \<open>What the replicas of the cluster read\<close>

lemma lm_cluster_facts:
  assumes "lm_cluster mh c s"
  shows "lwwr_inv (mh i) (netNodes s i)" "lm_inv (rData (netNodes s i))" "rc_inv (rReceived (netNodes s i))"
    "lm_promise c (netGhost s) i (rLocal (netNodes s i)) (rReceived (netNodes s i)) (rData (netNodes s i))"
  using lm_net.reachable [OF assms [unfolded lm_cluster_def], of i]
  by (auto simp: lwwr_inv_def lwwmap.replica_inv_def)

text \<open>A dot identifies a write, across all keys and replicas.\<close>

lemma lm_cluster_unique:
  assumes "lm_cluster mh c s" "(k, d, x) \<in> netGhost s" "(k', d, x') \<in> netGhost s"
  shows "k = k' \<and> x = x'"
  using lm_promiseD(5) [OF lm_cluster_facts(4) [OF assms(1), of "Replica d"] assms(2) refl] assms(3)
  by (auto simp: lm_own_def)

lemma lm_cluster_written:
  assumes "lm_cluster mh c s" "lm_view (rData (netNodes s i)) k = Some (d, x)"
  shows "(k, d, x) \<in> netGhost s"
  using lm_promiseD(4) [OF lm_cluster_facts(4) [OF assms(1)] assms(2)] .

text \<open>The metadata of a key determine its cell.\<close>

lemma lm_meta_view:
  assumes "lm_inv s"
  shows "meta_of lwwMapM s k = map_option (encodeDot \<circ> fst) (lm_view s k)"
proof (cases "lm_view s k")
  case None
  then show ?thesis using lm_view_cases(3) [OF assms, of k]
    by (simp add: meta_of_def lwwMapState_EntryMeta_def lwwMapState_TombstoneMeta_def)
next
  case (Some dx)
  obtain d x where dx: "dx = (d, x)" by (cases dx)
  have "memoryBackend_GetEntry (lmBackend s) k = None \<or> memoryBackend_GetTombstone (lmBackend s) k = None"
    using assms by (simp add: lm_inv_def memory.exclusive_def)
  note ex = this
  show ?thesis
  proof (cases x)
    case None
    then have "memoryBackend_GetTombstone (lmBackend s) k = Some (encodeDot d)"
      using Some lm_view_cases(2) [OF assms, of k d] by (simp add: dx)
    with ex Some show ?thesis
      by (simp add: dx meta_of_def lwwMapState_EntryMeta_def lwwMapState_TombstoneMeta_def)
  next
    case (Some v)
    then have "memoryBackend_GetEntry (lmBackend s) k = Some (v, encodeDot d)"
      using \<open>lm_view s k = Some dx\<close> lm_view_cases(1) [OF assms, of k d v] by (simp add: dx)
    with \<open>lm_view s k = Some dx\<close> show ?thesis by (simp add: dx meta_of_def lwwMapState_EntryMeta_def)
  qed
qed

section \<open>Properties\<close>

text \<open>
  C15: in a cluster of last-writer-wins maps no value comes out of thin air: what a replica reads
  was put under that key by some replica. And the metadata that the hash maps compare are enough: two
  replicas with the same metadata for a key read the same there.
\<close>

theorem LWWMap_network:
  assumes "lm_cluster mh c s"
  shows "(\<forall>v. LWWMap_Get (netNodes s i) k = Some v \<longrightarrow> (\<exists>d b. (k, d, Some b) \<in> netGhost s \<and> Decode c b = Inr v)) \<and>
    (meta_of lwwMapM (rData (netNodes s i)) k = meta_of lwwMapM (rData (netNodes s j)) k \<longrightarrow>
       LWWMap_Get (netNodes s i) k = LWWMap_Get (netNodes s j) k)"
proof -
  note f = lm_cluster_facts [OF assms]
  have cd: "lmCodec (rData (netNodes s i)) = c" for i by (rule lm_promiseD(2) [OF f(4)])
  have "\<exists>d b. (k, d, Some b) \<in> netGhost s \<and> Decode c b = Inr v" if g: "LWWMap_Get (netNodes s i) k = Some v" for v
  proof -
    from g obtain d b where "lm_view (rData (netNodes s i)) k = Some (d, Some b)" "Decode c b = Inr v"
      by (auto simp: LWWMap_Get_view lm_read_def cd split: option.splits sum.splits)
    with lm_cluster_written [OF assms] show ?thesis by blast
  qed
  moreover have "lm_view (rData (netNodes s i)) k = lm_view (rData (netNodes s j)) k"
    if m: "meta_of lwwMapM (rData (netNodes s i)) k = meta_of lwwMapM (rData (netNodes s j)) k"
  proof (cases "lm_view (rData (netNodes s i)) k")
    case None
    with m show ?thesis by (simp add: lm_meta_view [OF f(2)])
  next
    case (Some dx)
    obtain d x where dx: "dx = (d, x)" by (cases dx)
    have "map_option (encodeDot \<circ> fst) (lm_view (rData (netNodes s j)) k) = Some (encodeDot d)"
      using m Some dx by (simp add: lm_meta_view [OF f(2)])
    then obtain y where y: "lm_view (rData (netNodes s j)) k = Some (d, y)" by auto
    have "x = y"
      using lm_cluster_unique [OF assms lm_cluster_written [OF assms] lm_cluster_written [OF assms y]] Some dx by blast
    with Some dx y show ?thesis by simp
  qed
  ultimately show ?thesis by (simp add: LWWMap_Get_view cd)
qed

lemma lm_net_start:
  obtains nodes where "lm_cluster (\<lambda>_. demo_hash) StringCodec \<lparr>netNodes = nodes, netSent = {}, netGhost = {}\<rparr>"
    "\<And>i. rLocal (nodes i) = newLocalClock i \<and> lmCodec (rData (nodes i)) = StringCodec \<and> lm_view (rData (nodes i)) = (\<lambda>_. None)"
proof -
  have seed: "MakeSeed demo_hash \<noteq> 0" and opts: "oBackend (applyOptions []) = None" by (simp_all add: applyOptions_def)
  have "\<exists>r. NewLWWMap demo_hash i (Some StringCodec) [] = Ok r \<and> rLocal r = newLocalClock i \<and>
      lmCodec (rData r) = StringCodec \<and> lm_view (rData r) = (\<lambda>_. None)" for i
    by (metis NewLWWMap_Ok [OF seed opts])
  then obtain nodes where n: "\<forall>i. NewLWWMap demo_hash i (Some StringCodec) [] = Ok (nodes i) \<and> rLocal (nodes i) = newLocalClock i \<and>
      lmCodec (rData (nodes i)) = StringCodec \<and> lm_view (rData (nodes i)) = (\<lambda>_. None)" by metis
  then have "lm_cluster (\<lambda>_. demo_hash) StringCodec \<lparr>netNodes = nodes, netSent = {}, netGhost = {}\<rparr>"
    unfolding lm_cluster_def using opts by (intro cluster_new) (auto simp: lm_fresh_def)
  with n that show ?thesis by blast
qed

text \<open>A cluster in which replica 1 has removed a key it never had.\<close>

lemma lm_net_one:
  obtains s where "lm_cluster (\<lambda>_. demo_hash) StringCodec s" "netGhost s = {([7], mkDot 1 1, None)}"
proof -
  obtain nodes where s0: "lm_cluster (\<lambda>_. demo_hash) StringCodec \<lparr>netNodes = nodes, netSent = {}, netGhost = {}\<rparr>"
      (is "lm_cluster _ _ ?s0") and n: "rLocal (nodes 1) = newLocalClock 1" "lm_view (rData (nodes 1)) = (\<lambda>_. None)"
    using lm_net_start by metis
  obtain r' out w where a: "LWWMap_Remove demo_hash (nodes 1) [7] = (r', out, w)" by (metis prod_cases3)
  have "lm_local (\<lambda>_. demo_hash) StringCodec 1 {} (nodes 1) (insert ([7], mkDot 1 1, None) {}) r' out"
    by (rule lm_remove [where w = w]) (use a n lm_fits_short [of "[7]" None] in \<open>simp_all add: lm_stamp_def newLocalClock_def\<close>)
  with s0 have "lm_cluster (\<lambda>_. demo_hash) StringCodec (net_step 1 r' out (?s0\<lparr>netGhost := {([7], mkDot 1 1, None)}\<rparr>))"
    unfolding lm_cluster_def by (intro cluster_local) simp_all
  then show ?thesis by (rule that) simp
qed

theorem LWWMap_network_witness:
  "\<exists>s. lm_cluster (\<lambda>_. demo_hash) StringCodec s \<and> netGhost s = {([7], mkDot 1 1, None)} \<and> LWWMap_Get (netNodes s 1) [7] = None"
proof -
  obtain s :: "bytes lm_net" where s: "lm_cluster (\<lambda>_. demo_hash) StringCodec s" "netGhost s = {([7], mkDot 1 1, None)}"
    by (rule lm_net_one)
  have "LWWMap_Get (netNodes s 1) [7] \<noteq> Some v" for v
    using LWWMap_network [OF s(1), of 1 "[7]"] s(2) by auto
  with s show ?thesis by auto
qed

text \<open>The newer of two cells.\<close>

definition newer :: "(Dot \<times> 'c) option \<Rightarrow> (Dot \<times> 'c) option \<Rightarrow> (Dot \<times> 'c) option" where
  "newer a b = (case (a, b) of (None, y) \<Rightarrow> y | (x, None) \<Rightarrow> x | (Some (d, x), Some (e, y)) \<Rightarrow> if d < e then b else a)"

lemma newer_sym: "(\<And>d x y. a = Some (d, x) \<Longrightarrow> b = Some (d, y) \<Longrightarrow> x = y) \<Longrightarrow> newer a b = newer b a"
  by (auto simp: newer_def not_less split: option.splits)

lemma newer_eqI:
  assumes "v \<in> {b, a}" and same: "\<And>d x y. a = Some (d, x) \<Longrightarrow> b = Some (d, y) \<Longrightarrow> x = y"
    and a: "\<And>d x. a = Some (d, x) \<Longrightarrow> \<exists>l y. v = Some (l, y) \<and> d \<le> l"
    and b: "\<And>d x. b = Some (d, x) \<Longrightarrow> \<exists>l y. v = Some (l, y) \<and> d \<le> l"
  shows "v = newer a b"
proof (cases "v = a")
  case True
  show ?thesis
  proof (cases b)
    case (Some ey)
    obtain e y where "ey = (e, y)" by (cases ey)
    with Some b [of e y] True show ?thesis by (auto simp: newer_def leD)
  qed (simp add: True newer_def split: option.splits)
next
  case False
  with assms(1) have v: "v = b" by simp
  show ?thesis
  proof (cases a)
    case (Some dx)
    obtain d x where dx: "a = Some (d, x)" using Some by (cases dx) simp
    with a [OF dx] v obtain e y where e: "b = Some (e, y)" "d \<le> e" by auto
    with same [OF dx, of y] False v dx show ?thesis by (cases "d = e") (auto simp: newer_def)
  qed (simp add: v newer_def)
qed

text \<open>A replica holds every write of another that its high-water marks cover, or a newer one.\<close>

lemma lm_cluster_held:
  assumes "lm_cluster mh c s" "lm_view (rData (netNodes s j)) k = Some (d, x)"
    and "Counter d \<le> VClock_Get (receivedClock_HWM (rReceived (netNodes s i))) (Replica d)"
  shows "lm_covers (rData (netNodes s i)) k d"
proof -
  note f = lm_cluster_facts [OF assms(1)] and w = lm_cluster_written [OF assms(1,2)]
  show ?thesis
  proof (cases "Replica d = i")
    case True
    then show ?thesis using lm_promiseD(5) [OF f(4) w] by (simp add: lm_own_def)
  next
    case False
    have "Counter d \<noteq> 0" using lm_promiseD(5) [OF f(4) w refl] by (simp add: lm_own_def)
    with assms(3) have "Counter d \<in> seen (rReceived (netNodes s i)) (Replica d)" by (simp add: HWM_Get [OF f(3)] seen_def word_gt_0)
    from lm_promiseD(6) [OF f(4) False this] obtain k' x' where
      k': "(k', d, x') \<in> netGhost s" "lm_covers (rData (netNodes s i)) k' d" by auto
    with lm_cluster_unique [OF assms(1) w k'(1)] show ?thesis by simp
  qed
qed

text \<open>
  C14: anti-entropy is complete for last-writer-wins maps whose writes are stamped above what they replace:
  in every reachable state the deltas that replica \<open>j\<close> selects for the high-water marks of \<open>i\<close>
  leave \<open>i\<close> with the newer of the two cells under every key, and after the exchange in both directions the two
  answer every read alike.
\<close>

theorem LWWMap_network_sync:
  assumes "lm_cluster mh c s"
  defines "sync \<equiv> \<lambda>i j. apply_all (mh i) lwwMapM
    (lwwMapState_DeltasSince (rData (netNodes s j)) (receivedClock_HWM (rReceived (netNodes s i)))) (netNodes s i)"
  shows "lm_view (rData (sync i j)) k = newer (lm_view (rData (netNodes s i)) k) (lm_view (rData (netNodes s j)) k) \<and>
    LWWMap_Get (sync i j) k = LWWMap_Get (sync j i) k"
proof -
  note f = lm_cluster_facts [OF assms(1)] and written = lm_cluster_written [OF assms(1)]
  have same: "x = y" if "lm_view (rData (netNodes s i)) k = Some (d, x)" "lm_view (rData (netNodes s j)) k = Some (d, y)" for i j d x y
    using lm_cluster_unique [OF assms(1) written [OF that(1)] written [OF that(2)]] by simp
  have sync: "lm_view (rData (sync i j)) k = newer (lm_view (rData (netNodes s i)) k) (lm_view (rData (netNodes s j)) k) \<and>
      lmCodec (rData (sync i j)) = c" for i j
  proof -
    let ?hwm = "receivedClock_HWM (rReceived (netNodes s i))"
    have sync_eq: "sync i j = apply_all (mh i) lwwMapM (lwwMapState_DeltasSince (rData (netNodes s j)) ?hwm) (netNodes s i)"
      by (simp add: sync_def)
    have "lm_fits (k, d, x)" if "(k, d, x) \<in> set (lm_since (rData (netNodes s j)) ?hwm)" for k d x
      using that written [of j k d x] lm_promiseD(3) [OF f(4)] unfolding set_lm_since [OF f(2)] by blast
    then have fits: "list_all lm_fits (lm_since (rData (netNodes s j)) ?hwm)" by (auto simp: list_all_iff)
    have "\<forall>k d x. lm_view (rData (netNodes s j)) k = Some (d, x) \<and> Counter d \<le> VClock_Get ?hwm (Replica d) \<longrightarrow>
        (\<exists>d' c'. lm_view (rData (netNodes s i)) k = Some (d', c') \<and> d \<le> d')"
      using lm_cluster_held [OF assms(1)] unfolding lm_covers_def by blast
    note l = lm_sync [OF f(2) f(1) fits this, folded sync_eq]
    have "lm_view (rData (sync i j)) k = newer (lm_view (rData (netNodes s i)) k) (lm_view (rData (netNodes s j)) k)"
      by (rule newer_eqI [OF l(3) same l(2) l(1)])
    moreover have "lmCodec (rData (sync i j)) = c" using l(4) lm_promiseD(2) [OF f(4)] by simp
    ultimately show ?thesis by blast
  qed
  have "newer (lm_view (rData (netNodes s i)) k) (lm_view (rData (netNodes s j)) k) =
      newer (lm_view (rData (netNodes s j)) k) (lm_view (rData (netNodes s i)) k)" by (rule newer_sym [OF same])
  with sync show ?thesis by (simp add: LWWMap_Get_view)
qed

theorem LWWMap_network_sync_witness:
  "\<exists>s. lm_cluster (\<lambda>_. demo_hash) StringCodec s \<and> netGhost s = {([7], mkDot 1 1, None)} \<and>
    LWWMap_Get (apply_all demo_hash lwwMapM (lwwMapState_DeltasSince (rData (netNodes s 1)) (receivedClock_HWM (rReceived (netNodes s 2)))) (netNodes s 2)) [7]
    = LWWMap_Get (apply_all demo_hash lwwMapM (lwwMapState_DeltasSince (rData (netNodes s 2)) (receivedClock_HWM (rReceived (netNodes s 1)))) (netNodes s 1)) [7]"
proof -
  obtain s :: "bytes lm_net" where s: "lm_cluster (\<lambda>_. demo_hash) StringCodec s" "netGhost s = {([7], mkDot 1 1, None)}"
    by (rule lm_net_one)
  show ?thesis
    using LWWMap_network_sync [OF s(1), of 2 1 "[7]"] by (intro exI [of _ s] conjI s) simp
qed

end
