(* ===== verification/Observed.thy ===== *)
theory Observed
  imports Replica
begin

text \<open>
  What the observed-remove types share: the tombstone of a remove, a dot followed by the causal
  context of the remover (\<^verbatim>\<open>awlwwmap.go\<close>), the pruning of a dot map against such a context, and the
  abstract specification, one cell per key and replica. A cell holds the newest added counter
  that no remove has observed (0 when there is none) and the greatest observed counter.
\<close>

section \<open>Definitions\<close>

definition encodeRemoveTombstone :: "Dot \<Rightarrow> VClock \<Rightarrow> bytes" where
  "encodeRemoveTombstone d ctx = encodeDot d @ encodeVClock ctx"

definition decodeRemoveTombstone :: "bytes \<Rightarrow> (Dot \<times> VClock) go" where
  "decodeRemoveTombstone b =
     go_bind (decodeDot b) (\<lambda>d. go_bind (go_bind (slice_from b 16) decodeVClock) (\<lambda>ctx. Ok (d, ctx)))"

text \<open>The loop that keeps the dots newer than a context.\<close>

definition surviving :: "DotMap \<Rightarrow> VClock \<Rightarrow> DotMap" where
  "surviving dots ctx =
     fold (\<lambda>(rep, counter) out. if counter > VClock_Get ctx rep then mput rep counter out else out) dots []"

section \<open>Tombstones\<close>

lemma decode_encodeRemoveTombstone [simp]:
  assumes "wf_map ctx" "length ctx < 2 ^ 32"
  shows "decodeRemoveTombstone (encodeRemoveTombstone d ctx) = Ok (d, sorted_map ctx)"
proof -
  have "slice_from (encodeDot d @ encodeVClock ctx) 16 = Ok (encodeVClock ctx)"
    by (subst slice_from_Ok) simp_all
  then show ?thesis
    using assms by (simp add: decodeRemoveTombstone_def encodeRemoveTombstone_def decodeVClock_encodeVClock')
qed

lemma decodeRemoveTombstone_no_panic [simp]: "decodeRemoveTombstone b \<noteq> Panic"
proof -
  have "slice_from b 16 \<noteq> Panic" if "decodeDot b = Ok d" for d
    using that by (auto simp: decodeDot_cases slice_from_def slice_def split: if_splits)
  then show ?thesis by (auto simp: decodeRemoveTombstone_def go_bind_Panic_iff)
qed

text \<open>The delta of a remove, the same in all three map types and in the set.\<close>

definition rm_delta :: "bytes \<Rightarrow> Dot \<Rightarrow> VClock \<Rightarrow> bytes" where
  "rm_delta k d ctx = appendVarintBytes [opRemove] k @ encodeDot d @ encodeVClock ctx"

lemma rm_delta_cons: "rm_delta k d ctx = opRemove # appendVarintBytes [] k @ encodeDot d @ encodeVClock ctx"
  by (simp add: rm_delta_def appendVarintBytes_def)

text \<open>The context a local remove carries: what the replica has received, its own new dot included.\<close>

definition remove_context :: "'s replica \<Rightarrow> VClock" where
  "remove_context r = receivedClock_HWM (rReceived (fst (replica_nextDot r)))"

lemma remove_context_wf: "rc_inv (rReceived r) \<Longrightarrow> wf_map (remove_context r)"
  using Record_spec [of "rReceived r" "lcReplica (rLocal r)" "lcCounter (rLocal r) + 1"] pos_map_wf
  by (auto simp: remove_context_def receivedClock_HWM_def rc_inv_def)

lemma remove_context_new: "rReceived r = newReceivedClock \<Longrightarrow> length (remove_context r) < 2 ^ 32"
  by (simp add: remove_context_def receivedClock_HWM_def receivedClock_Record_def newReceivedClock_def
      receivedClock_advanceHWM_def Let_def mclone_def)

section \<open>Surviving dots\<close>

lemma surviving_filter:
  assumes "wf_map dots"
  shows "surviving dots ctx = filter (\<lambda>(r, c). c > VClock_Get ctx r) dots"
proof -
  have "wf_map (out @ xs) \<Longrightarrow>
      fold (\<lambda>(rep, counter) out. if counter > VClock_Get ctx rep then mput rep counter out else out) xs out
      = out @ filter (\<lambda>(r, c). c > VClock_Get ctx r) xs" for xs out
  proof (induction xs arbitrary: out)
    case (Cons x xs)
    obtain r c where x: "x = (r, c)" by (cases x)
    from Cons.prems have "r \<notin> fst ` set out" by (auto simp: x wf_map_def)
    moreover have "wf_map (out @ xs)" "wf_map ((out @ [(r, c)]) @ xs)"
      using Cons.prems by (auto simp: x wf_map_def)
    ultimately show ?case using Cons.IH by (simp add: x mput_fresh)
  qed simp
  from this [of "[]" dots] assms show ?thesis by (simp add: surviving_def)
qed

definition keep :: "u64 \<Rightarrow> u64 \<Rightarrow> u64" where
  "keep c x = (if c < x then x else 0)"

lemma keep_zero [simp]: "keep c x = 0 \<longleftrightarrow> x \<le> c"
proof -
  have "x \<noteq> 0" if "c < x" using that by auto
  then show ?thesis by (auto simp: keep_def not_less)
qed

lemma mget0_surviving:
  assumes "wf_map dots"
  shows "mget0 (surviving dots ctx) r = keep (VClock_Get ctx r) (mget0 dots r)"
  using assms map_of_filter [OF assms, of "\<lambda>r c. c > VClock_Get ctx r"]
  by (auto simp: surviving_filter mget0_def keep_def split: option.splits)

lemma wf_surviving [simp]: "wf_map dots \<Longrightarrow> wf_map (surviving dots ctx)"
  by (simp add: surviving_filter)

lemma set_surviving:
  "wf_map dots \<Longrightarrow> (r, c) \<in> set (surviving dots ctx) \<longleftrightarrow> (r, c) \<in> set dots \<and> c > VClock_Get ctx r"
  by (simp add: surviving_filter)

section \<open>The specification\<close>

type_synonym cells = "bytes \<Rightarrow> ReplicaID \<Rightarrow> u64 \<times> u64"

definition cell_add :: "u64 \<Rightarrow> u64 \<times> u64 \<Rightarrow> u64 \<times> u64" where
  "cell_add a p = (keep (snd p) (max (fst p) a), snd p)"

definition cell_rem :: "u64 \<Rightarrow> u64 \<times> u64 \<Rightarrow> u64 \<times> u64" where
  "cell_rem e p = (keep (max (snd p) e) (fst p), max (snd p) e)"

datatype or_op = OrAdd bytes "ReplicaID \<Rightarrow> u64" | OrRem bytes "ReplicaID \<Rightarrow> u64"

fun or_step :: "or_op \<Rightarrow> cells \<Rightarrow> cells" where
  "or_step (OrAdd k f) v = v(k := (\<lambda>r. cell_add (f r) (v k r)))"
| "or_step (OrRem k f) v = v(k := (\<lambda>r. cell_rem (f r) (v k r)))"

lemma cell_add_add: "cell_add a (cell_add b p) = cell_add b (cell_add a p)"
  by (cases p) (auto simp: cell_add_def keep_def max_def)

lemma cell_rem_rem: "cell_rem a (cell_rem b p) = cell_rem b (cell_rem a p)"
  by (cases p) (auto simp: cell_rem_def keep_def max_def)

lemma cell_add_rem: "cell_add a (cell_rem b p) = cell_rem b (cell_add a p)"
  by (cases p) (auto simp: cell_rem_def cell_add_def keep_def max_def)

lemma cell_idem: "cell_add a (cell_add a p) = cell_add a p" "cell_rem a (cell_rem a p) = cell_rem a p"
  by (cases p, auto simp: cell_rem_def cell_add_def keep_def max_def)+

interpretation or_spec: delta_crdt or_step "\<lambda>v. v" or_step "\<lambda>_. True" "\<lambda>_ _. True" "\<lambda>_. True"
proof
  fix d e a
  show "or_step d (or_step e a) = or_step e (or_step d a)"
    by (cases d; cases e) (auto simp: fun_eq_iff cell_add_add cell_rem_rem cell_add_rem)
  show "or_step d (or_step d a) = or_step d a"
    by (cases d) (auto simp: fun_eq_iff cell_idem)
qed simp_all

text \<open>
  The step of the code: a remove replaces the context of the tombstone instead of joining it. It
  agrees with the specification as long as the contexts for a key arrive in increasing order.
\<close>

fun code_step :: "or_op \<Rightarrow> cells \<Rightarrow> cells" where
  "code_step (OrAdd k f) v = v(k := (\<lambda>r. cell_add (f r) (v k r)))"
| "code_step (OrRem k f) v = v(k := (\<lambda>r. (keep (f r) (fst (v k r)), f r)))"

fun removes_ordered :: "or_op \<Rightarrow> or_op \<Rightarrow> bool" where
  "removes_ordered (OrRem k f) (OrRem l g) \<longleftrightarrow> (k = l \<longrightarrow> (\<forall>r. f r \<le> g r))"
| "removes_ordered _ _ \<longleftrightarrow> True"

definition newer_than :: "cells \<Rightarrow> or_op \<Rightarrow> bool" where
  "newer_than v d \<longleftrightarrow> (\<forall>k f r. d = OrRem k f \<longrightarrow> snd (v k r) \<le> f r)"

lemma code_step_spec: "newer_than v d \<Longrightarrow> code_step d v = or_step d v"
  by (cases d) (auto simp: newer_than_def fun_eq_iff cell_rem_def max_def)

lemma code_fold_spec:
  "sorted_wrt removes_ordered ds \<Longrightarrow> list_all (newer_than v) ds \<Longrightarrow> fold code_step ds v = fold or_step ds v"
proof (induction ds arbitrary: v)
  case (Cons d ds)
  have "newer_than (code_step d v) e" if e: "e \<in> set ds" for e
  proof -
    have "newer_than v e" "removes_ordered d e" using Cons.prems e by (auto simp: list_all_iff)
    then show ?thesis by (cases d; cases e) (auto simp: newer_than_def cell_add_def)
  qed
  then have "list_all (newer_than (code_step d v)) ds" by (simp add: list_all_iff)
  with Cons show ?case by (simp add: code_step_spec)
qed simp

text \<open>Runs in which every key occurs once, as in an anti-entropy answer.\<close>

lemma fold_adds:
  "distinct (map fst xs) \<Longrightarrow> fold code_step (map (\<lambda>(k, f). OrAdd k f) xs) v k =
     (case map_of xs k of None \<Rightarrow> v k | Some f \<Rightarrow> (\<lambda>r. cell_add (f r) (v k r)))"
proof (induction xs arbitrary: v)
  case (Cons x xs)
  obtain l f where x: "x = (l, f)" by (cases x)
  have "map_of xs l = None" using Cons.prems by (simp add: x map_of_eq_None_iff)
  with Cons x show ?case by (auto split: option.splits)
qed simp

lemma fold_rems:
  "distinct (map fst xs) \<Longrightarrow> fold code_step (map (\<lambda>(k, f). OrRem k f) xs) v k =
     (case map_of xs k of None \<Rightarrow> v k | Some f \<Rightarrow> (\<lambda>r. (keep (f r) (fst (v k r)), f r)))"
proof (induction xs arbitrary: v)
  case (Cons x xs)
  obtain l f where x: "x = (l, f)" by (cases x)
  have "map_of xs l = None" using Cons.prems by (simp add: x map_of_eq_None_iff)
  with Cons x show ?case by (auto split: option.splits)
qed simp

lemma code_converges:
  assumes "set ds = set es" "sorted_wrt removes_ordered ds" "sorted_wrt removes_ordered es"
  shows "fold code_step ds (\<lambda>_ _. (0, 0)) = fold code_step es (\<lambda>_ _. (0, 0))"
proof -
  have "list_all (newer_than (\<lambda>_ _. (0, 0))) xs" for xs by (auto simp: list_all_iff newer_than_def)
  then show ?thesis
    using assms code_fold_spec or_spec.converge [where s = "\<lambda>_ _. (0, 0)" and ds = ds and es = es] by (simp add: list_all_iff)
qed

section \<open>The two maps of a backend as cells\<close>

definition or_entry :: "memoryBackend \<Rightarrow> bytes \<Rightarrow> DotMap option" where
  "or_entry b k =
     (case memoryBackend_GetEntry b k of None \<Rightarrow> None
      | Some (_, meta) \<Rightarrow> (case decodeDotMap meta of Ok dm \<Rightarrow> Some dm | _ \<Rightarrow> None))"

definition or_ctx :: "memoryBackend \<Rightarrow> bytes \<Rightarrow> VClock" where
  "or_ctx b k =
     (case memoryBackend_GetTombstone b k of None \<Rightarrow> []
      | Some meta \<Rightarrow> (case decodeRemoveTombstone meta of Ok (_, ctx) \<Rightarrow> ctx | _ \<Rightarrow> []))"

definition or_view :: "memoryBackend \<Rightarrow> cells" where
  "or_view b k r =
     (case or_entry b k of None \<Rightarrow> 0 | Some dm \<Rightarrow> mget0 dm r, VClock_Get (or_ctx b k) r)"

text \<open>
  The invariant, for a cluster \<open>R\<close> of fewer than \<open>2 ^ 32\<close> replicas: stored dot maps and contexts
  decode and mention only replicas of \<open>R\<close>, no entry is empty, and no stored dot is covered by
  the tombstone of its key.
\<close>

definition in_cluster :: "ReplicaID set \<Rightarrow> (ReplicaID, u64) gomap \<Rightarrow> bool" where
  "in_cluster R m \<longleftrightarrow> wf_map m \<and> fst ` set m \<subseteq> R"

definition or_inv :: "ReplicaID set \<Rightarrow> memoryBackend \<Rightarrow> bool" where
  "or_inv R b \<longleftrightarrow> mb_inv b \<and>
     (\<forall>k v meta. memoryBackend_GetEntry b k = Some (v, meta) \<longrightarrow>
        (\<exists>dm. decodeDotMap meta = Ok dm \<and> in_cluster R dm \<and> dm \<noteq> [] \<and>
           (\<forall>(r, c) \<in> set dm. VClock_Get (or_ctx b k) r < c))) \<and>
     (\<forall>k meta. memoryBackend_GetTombstone b k = Some meta \<longrightarrow>
        (\<exists>d ctx. decodeRemoveTombstone meta = Ok (d, ctx) \<and> in_cluster R ctx))"

lemma in_cluster_length:
  assumes "in_cluster R m" "card R < 2 ^ 32"
  shows "length m < 2 ^ 32"
proof -
  have "length m = card (fst ` set m)"
    using assms(1) distinct_card [of "map fst m"] by (simp add: in_cluster_def wf_map_def)
  also have "\<dots> \<le> card R" using assms(1) by (simp add: in_cluster_def card_mono)
  finally show ?thesis using assms(2) by simp
qed

lemma in_cluster_sorted [simp]: "in_cluster R m \<Longrightarrow> in_cluster R (sorted_map m)"
  by (simp add: in_cluster_def dom_map_of_conv_image_fst [symmetric])

lemma in_cluster_join: "in_cluster R a \<Longrightarrow> in_cluster R b \<Longrightarrow> in_cluster R (CombineDots a b)"
proof -
  have "fst ` set (join_loop b a) \<subseteq> fst ` set a \<union> fst ` set b" for a b
  proof (induction b arbitrary: a)
    case (Cons p b)
    obtain r c where p: "p = (r, c)" by (cases p)
    let ?a = "if c > mget0 a r then mput r c a else a"
    have "fst ` set ?a \<subseteq> insert r (fst ` set a)" by (auto simp: fst_set_mput)
    then have "fst ` set ?a \<union> fst ` set b \<subseteq> insert r (fst ` set a) \<union> fst ` set b" by blast
    with Cons.IH [of ?a] have "fst ` set (join_loop b ?a) \<subseteq> insert r (fst ` set a) \<union> fst ` set b"
      by (rule subset_trans)
    then show ?case by (simp add: p)
  qed simp
  then have sub: "fst ` set (join_loop b a) \<subseteq> fst ` set a \<union> fst ` set b" .
  assume "in_cluster R a" "in_cluster R b"
  then have "wf_map a" "wf_map b" "fst ` set a \<union> fst ` set b \<subseteq> R" by (auto simp: in_cluster_def)
  moreover from sub this(3) have "fst ` set (join_loop b a) \<subseteq> R" by (rule subset_trans)
  ultimately show ?thesis by (simp add: in_cluster_def CombineDots_def wf_map_join_loop)
qed

lemma in_cluster_surviving: "in_cluster R m \<Longrightarrow> in_cluster R (surviving m ctx)"
  by (auto simp: in_cluster_def surviving_filter)

lemma decode_cluster:
  assumes "in_cluster R m" "card R < 2 ^ 32"
  shows "decodeDotMap (encodeDotMap m) = Ok (sorted_map m)"
    and "decodeRemoveTombstone (encodeRemoveTombstone d m) = Ok (d, sorted_map m)"
  using assms in_cluster_length [OF assms] decodeDotMap_encodeDotMap [of m "[]"] by (auto simp: in_cluster_def)

text \<open>The writes of the storage types: an add or put, and a remove.\<close>

definition or_prune :: "memoryBackend \<Rightarrow> bytes \<Rightarrow> DotMap \<Rightarrow> DotMap" where
  "or_prune b k dots =
     (case memoryBackend_GetTombstone b k of
        Some meta \<Rightarrow> (case decodeRemoveTombstone meta of Ok (_, ctx) \<Rightarrow> surviving dots ctx | _ \<Rightarrow> dots)
      | None \<Rightarrow> dots)"

definition or_add :: "(bytes \<Rightarrow> DotMap \<Rightarrow> bytes) \<Rightarrow> memoryBackend \<Rightarrow> bytes \<Rightarrow> bytes \<Rightarrow> DotMap \<Rightarrow> memoryBackend" where
  "or_add win b k v rd =
     (let (v, dots) = (case memoryBackend_GetEntry b k of
            Some (lv, meta) \<Rightarrow> (case decodeDotMap meta of Ok ld \<Rightarrow> (win lv ld, CombineDots ld rd) | _ \<Rightarrow> (v, rd))
          | None \<Rightarrow> (v, rd));
          dots = or_prune b k dots
      in if length dots > 0 then memoryBackend_PutEntry b k v (encodeDotMap dots) else b)"

definition or_remove :: "(bytes \<Rightarrow> bytes) \<Rightarrow> memoryBackend \<Rightarrow> bytes \<Rightarrow> Dot \<Rightarrow> VClock \<Rightarrow> memoryBackend" where
  "or_remove val b k d ctx =
     (let b = memoryBackend_PutTombstone b k (encodeRemoveTombstone d ctx) in
      case memoryBackend_GetEntry b k of
        Some (v, meta) \<Rightarrow>
          (case decodeDotMap meta of
             Ok dm \<Rightarrow> (let s = surviving dm ctx in
               if length s > 0 then memoryBackend_PutEntry b k (val v) (encodeDotMap s) else memoryBackend_DeleteEntry b k)
           | _ \<Rightarrow> b)
      | None \<Rightarrow> b)"

lemma or_entry_inv:
  assumes "or_inv R b" "memoryBackend_GetEntry b k = Some (v, meta)"
  obtains dm where "decodeDotMap meta = Ok dm" "in_cluster R dm" "wf_map dm" "dm \<noteq> []" "or_entry b k = Some dm"
    "\<And>r c. (r, c) \<in> set dm \<Longrightarrow> VClock_Get (or_ctx b k) r < c"
proof -
  obtain dm where dm: "decodeDotMap meta = Ok dm" "in_cluster R dm" "dm \<noteq> []"
      "\<forall>(r, c) \<in> set dm. VClock_Get (or_ctx b k) r < c"
    using assms unfolding or_inv_def by blast
  with assms(2) show ?thesis by (intro that [of dm]) (auto simp: or_entry_def in_cluster_def)
qed

lemma or_tomb_inv:
  assumes "or_inv R b" "memoryBackend_GetTombstone b k = Some meta"
  obtains d ctx where "decodeRemoveTombstone meta = Ok (d, ctx)" "in_cluster R ctx" "or_ctx b k = ctx"
proof -
  obtain d ctx where "decodeRemoveTombstone meta = Ok (d, ctx)" "in_cluster R ctx"
    using assms unfolding or_inv_def by blast
  with assms(2) show ?thesis by (intro that [of d ctx]) (auto simp: or_ctx_def)
qed

text \<open>A write at one key: what has to hold of the new entry and tombstone.\<close>

definition or_ok_at :: "ReplicaID set \<Rightarrow> memoryBackend \<Rightarrow> bytes \<Rightarrow> bool" where
  "or_ok_at R b k \<longleftrightarrow>
     (\<forall>v meta. memoryBackend_GetEntry b k = Some (v, meta) \<longrightarrow>
        (\<exists>dm. decodeDotMap meta = Ok dm \<and> in_cluster R dm \<and> dm \<noteq> [] \<and>
           (\<forall>(r, c) \<in> set dm. VClock_Get (or_ctx b k) r < c))) \<and>
     (\<forall>meta. memoryBackend_GetTombstone b k = Some meta \<longrightarrow>
        (\<exists>d ctx. decodeRemoveTombstone meta = Ok (d, ctx) \<and> in_cluster R ctx))"

lemma or_inv_at: "or_inv R b \<longleftrightarrow> mb_inv b \<and> (\<forall>k. or_ok_at R b k)"
  by (auto simp: or_inv_def or_ok_at_def)

lemma or_change:
  assumes "or_inv R b" "mb_inv b'" "or_ok_at R b' k"
    and "\<And>k'. k' \<noteq> k \<Longrightarrow> memoryBackend_GetEntry b' k' = memoryBackend_GetEntry b k'"
    and "\<And>k'. k' \<noteq> k \<Longrightarrow> memoryBackend_GetTombstone b' k' = memoryBackend_GetTombstone b k'"
  shows "or_inv R b' \<and> or_view b' = (or_view b)(k := or_view b' k)"
proof -
  have ctx: "or_ctx b' k' = or_ctx b k'" if "k' \<noteq> k" for k' by (simp add: or_ctx_def assms(5) [OF that])
  have "or_ok_at R b' k'" for k'
    using assms ctx [of k'] by (cases "k' = k") (auto simp: or_inv_at or_ok_at_def)
  then have "or_inv R b'" using assms(2) by (simp add: or_inv_at)
  then show ?thesis by (auto simp: fun_eq_iff or_view_def or_entry_def assms(4) ctx)
qed

lemma encoded_dots:
  assumes "in_cluster R dm" "card R < 2 ^ 32" "dm \<noteq> []" "\<And>r c. (r, c) \<in> set dm \<Longrightarrow> VClock_Get ctx r < c"
  shows "decodeDotMap (encodeDotMap dm) = Ok (sorted_map dm) \<and> in_cluster R (sorted_map dm) \<and> sorted_map dm \<noteq> [] \<and>
    (\<forall>(r, c) \<in> set (sorted_map dm). VClock_Get ctx r < c)"
proof -
  have "wf_map dm" using assms(1) by (simp add: in_cluster_def)
  then have "(r, c) \<in> set (sorted_map dm) \<longleftrightarrow> (r, c) \<in> set dm" for r c by (simp add: wf_map_mem)
  moreover have "sorted_map dm \<noteq> []" using assms(3) by (metis length_0_conv length_sorted_map)
  ultimately show ?thesis using assms by (auto simp: decode_cluster)
qed

text \<open>A dot map that is newer than the tombstone may be stored.\<close>

lemma or_store:
  assumes "or_inv R b" "card R < 2 ^ 32" "in_cluster R dm" "dm \<noteq> []"
    and "\<And>r c. (r, c) \<in> set dm \<Longrightarrow> VClock_Get (or_ctx b k) r < c"
  shows "or_inv R (memoryBackend_PutEntry b k v (encodeDotMap dm)) \<and>
    or_view (memoryBackend_PutEntry b k v (encodeDotMap dm)) = (or_view b)(k := (\<lambda>r. (mget0 dm r, snd (or_view b k r))))"
proof -
  let ?b = "memoryBackend_PutEntry b k v (encodeDotMap dm)"
  have inv: "mb_inv b" "or_ok_at R b k" using assms(1) by (auto simp: or_inv_at)
  have ctx: "or_ctx ?b = or_ctx b" by (simp add: or_ctx_def memory.laws [OF inv(1)] fun_eq_iff)
  have "or_ok_at R ?b k"
    using inv(2) encoded_dots [OF assms(3,2,4,5)] by (auto simp: or_ok_at_def ctx memory.laws [OF inv(1)])
  then have a: "or_inv R ?b \<and> or_view ?b = (or_view b)(k := or_view ?b k)"
    by (intro or_change [OF assms(1)]) (auto simp: memory.laws [OF inv(1)])
  have v: "or_view ?b k = (\<lambda>r. (mget0 dm r, snd (or_view b k r)))"
    using encoded_dots [OF assms(3,2,4,5)]
    by (auto simp: or_view_def or_entry_def ctx memory.laws [OF inv(1)] fun_eq_iff)
  from a show ?thesis unfolding v .
qed

lemma or_joined:
  assumes "or_inv R b" "in_cluster R rd" "pos_map rd"
  obtains v' ld where "(case memoryBackend_GetEntry b k of
            Some (lv, meta) \<Rightarrow> (case decodeDotMap meta of Ok ld \<Rightarrow> (win lv ld, CombineDots ld rd) | _ \<Rightarrow> (v, rd))
          | None \<Rightarrow> (v, rd)) = (v', ld)"
    "in_cluster R ld" "pos_map ld" "\<And>r. mget0 ld r = max (fst (or_view b k r)) (mget0 rd r)"
    "\<And>dm. or_entry b k = Some dm \<Longrightarrow> \<exists>r. VClock_Get (or_ctx b k) r < mget0 ld r"
proof (cases "memoryBackend_GetEntry b k")
  case None
  with assms that [of v rd] show ?thesis by (simp add: or_view_def or_entry_def)
next
  case (Some e)
  obtain lv meta where e: "e = (lv, meta)" by (cases e)
  obtain dm where dm: "decodeDotMap meta = Ok dm" "in_cluster R dm" "wf_map dm" "dm \<noteq> []" "or_entry b k = Some dm"
      "\<And>r c. (r, c) \<in> set dm \<Longrightarrow> VClock_Get (or_ctx b k) r < c"
    using or_entry_inv [OF assms(1) Some [unfolded e]] by metis
  have pos: "pos_map dm" using dm(3,6) by (force simp: pos_map_def)
  have g: "mget0 (CombineDots dm rd) r = max (mget0 dm r) (mget0 rd r)" for r
    using dotmap.get_join [OF pos assms(3)] by simp
  obtain r c where rc: "(r, c) \<in> set dm" using dm(4) by (cases dm) auto
  then have "VClock_Get (or_ctx b k) r < mget0 (CombineDots dm rd) r"
    using dm(6) [OF rc] wf_map_mget0_mem [OF dm(3) rc] by (simp add: g less_max_iff_disj)
  then show ?thesis
    using Some e dm assms pos g
    by (intro that [of "win lv dm" "CombineDots dm rd"])
      (auto simp: in_cluster_join or_view_def intro: dotmap.inv_join)
qed

lemma or_pruned:
  assumes "or_inv R b" "in_cluster R ld" "pos_map ld"
  shows "in_cluster R (or_prune b k ld)"
    and "mget0 (or_prune b k ld) r = keep (VClock_Get (or_ctx b k) r) (mget0 ld r)"
    and "(r, c) \<in> set (or_prune b k ld) \<Longrightarrow> VClock_Get (or_ctx b k) r < c"
proof -
  have wf: "wf_map ld" using assms(3) by blast
  have "in_cluster R (or_prune b k ld) \<and> mget0 (or_prune b k ld) r = keep (VClock_Get (or_ctx b k) r) (mget0 ld r) \<and>
      ((r, c) \<in> set (or_prune b k ld) \<longrightarrow> VClock_Get (or_ctx b k) r < c)"
  proof (cases "memoryBackend_GetTombstone b k")
    case None
    have "keep 0 x = x" "(r, c) \<in> set ld \<Longrightarrow> 0 < c" for x
      using assms(3) by (auto simp: keep_def pos_map_def word_gt_0)
    with None assms(2) show ?thesis by (simp add: or_prune_def or_ctx_def VClock_Get_def)
  next
    case (Some meta)
    obtain d ctx where "decodeRemoveTombstone meta = Ok (d, ctx)" "or_ctx b k = ctx"
      using or_tomb_inv [OF assms(1) Some] by metis
    with Some wf assms(2) show ?thesis
      by (simp add: or_prune_def in_cluster_surviving mget0_surviving set_surviving)
  qed
  then show "in_cluster R (or_prune b k ld)"
    "mget0 (or_prune b k ld) r = keep (VClock_Get (or_ctx b k) r) (mget0 ld r)"
    "(r, c) \<in> set (or_prune b k ld) \<Longrightarrow> VClock_Get (or_ctx b k) r < c" by blast+
qed

lemma or_add_step:
  assumes "or_inv R b" "card R < 2 ^ 32" "in_cluster R rd" "pos_map rd"
  shows "or_inv R (or_add win b k v rd) \<and> or_view (or_add win b k v rd) = code_step (OrAdd k (mget0 rd)) (or_view b)"
proof -
  obtain v' ld where vl: "(case memoryBackend_GetEntry b k of
            Some (lv, meta) \<Rightarrow> (case decodeDotMap meta of Ok ld \<Rightarrow> (win lv ld, CombineDots ld rd) | _ \<Rightarrow> (v, rd))
          | None \<Rightarrow> (v, rd)) = (v', ld)"
      and ld: "in_cluster R ld" "pos_map ld" "\<And>r. mget0 ld r = max (fst (or_view b k r)) (mget0 rd r)"
        "\<And>dm. or_entry b k = Some dm \<Longrightarrow> \<exists>r. VClock_Get (or_ctx b k) r < mget0 ld r"
    by (rule or_joined [OF assms(1,3,4), where k = k and v = v and win = win]) blast
  let ?dots = "or_prune b k ld"
  note dots = or_pruned [OF assms(1) ld(1,2), where k = k]
  have eq: "or_add win b k v rd = (if length ?dots > 0 then memoryBackend_PutEntry b k v' (encodeDotMap ?dots) else b)"
    by (simp add: or_add_def vl Let_def)
  show ?thesis
  proof (cases "?dots = []")
    case True
    then have z: "mget0 ld r \<le> VClock_Get (or_ctx b k) r" for r using dots(2) [of r] by simp
    then have "or_entry b k = None" using ld(4) by (cases "or_entry b k") (auto simp: not_less [symmetric])
    then have "or_view b k r = (0, VClock_Get (or_ctx b k) r)" for r by (simp add: or_view_def)
    with z ld(3) assms(1) True show ?thesis
      by (auto simp: eq fun_eq_iff cell_add_def)
  next
    case False
    note st = or_store [OF assms(1,2) dots(1) False dots(3)]
    from False show ?thesis
      unfolding eq using st [of v'] dots(2) ld(3) by (auto simp: fun_eq_iff cell_add_def or_view_def)
  qed
qed

lemma or_remove_tombstone:
  assumes "mb_inv b"
  shows "memoryBackend_GetTombstone (or_remove val b k d ctx) = (memoryBackend_GetTombstone b)(k \<mapsto> encodeRemoveTombstone d ctx)"
  using assms by (auto simp: or_remove_def Let_def memory.laws split: option.splits go.splits prod.splits)

lemma or_remove_step:
  assumes "or_inv R b" "card R < 2 ^ 32" "in_cluster R ctx"
  shows "or_inv R (or_remove val b k d ctx) \<and>
    or_view (or_remove val b k d ctx) = code_step (OrRem k (VClock_Get ctx)) (or_view b)"
proof -
  let ?b = "or_remove val b k d ctx"
  have inv: "mb_inv b" "or_ok_at R b k" using assms(1) by (auto simp: or_inv_at)
  note laws = memory.laws memory.laws(4) [OF inv(1)] inv(1)
  note t = or_remove_tombstone [OF inv(1), of val k d ctx]
  have ctx: "or_ctx ?b k = sorted_map ctx" by (simp add: or_ctx_def t decode_cluster(2) [OF assms(3,2)])
  have mb: "mb_inv ?b" by (auto simp: or_remove_def Let_def laws split: option.splits go.splits prod.splits)
  have other: "memoryBackend_GetEntry ?b k' = memoryBackend_GetEntry b k'" if "k' \<noteq> k" for k'
    using that by (auto simp: or_remove_def Let_def laws split: option.splits go.splits prod.splits)
  have at: "or_ok_at R ?b k \<and> (\<forall>r. fst (or_view ?b k r) = keep (VClock_Get ctx r) (fst (or_view b k r)))"
  proof (cases "memoryBackend_GetEntry b k")
    case None
    then have "memoryBackend_GetEntry ?b k = None" by (simp add: or_remove_def Let_def laws)
    with None show ?thesis
      using decode_cluster(2) [OF assms(3,2)] assms(3)
      by (auto simp: or_ok_at_def or_view_def or_entry_def t)
  next
    case (Some e)
    obtain v meta where e: "e = (v, meta)" by (cases e)
    obtain dm where dm: "decodeDotMap meta = Ok dm" "in_cluster R dm" "wf_map dm" "or_entry b k = Some dm"
      using or_entry_inv [OF assms(1) Some [unfolded e]] by metis
    let ?s = "surviving dm ctx"
    have new: "memoryBackend_GetEntry ?b k = (if ?s = [] then None else Some (val v, encodeDotMap ?s))"
      using Some e dm by (auto simp: or_remove_def Let_def laws)
    have enc: "?s \<noteq> [] \<Longrightarrow> decodeDotMap (encodeDotMap ?s) = Ok (sorted_map ?s) \<and> in_cluster R (sorted_map ?s) \<and>
        sorted_map ?s \<noteq> [] \<and> (\<forall>(r, c) \<in> set (sorted_map ?s). VClock_Get ctx r < c)"
      using dm by (intro encoded_dots assms) (auto simp: in_cluster_surviving set_surviving)
    have g: "mget0 ?s r = keep (VClock_Get ctx r) (mget0 dm r)" for r using dm(3) by (rule mget0_surviving)
    show ?thesis
    proof (cases "?s = []")
      case True
      then have "keep (VClock_Get ctx r) (mget0 dm r) = 0" for r using g [of r] by simp
      with True new dm assms show ?thesis
        by (auto simp: or_ok_at_def or_view_def or_entry_def t decode_cluster)
    next
      case False
      with enc [OF False] new dm assms g show ?thesis
        by (auto simp: or_ok_at_def or_view_def or_entry_def [of ?b] t decode_cluster ctx)
    qed
  qed
  have a: "or_inv R ?b \<and> or_view ?b = (or_view b)(k := or_view ?b k)"
    using at by (intro or_change [OF assms(1) mb]) (auto simp: other t)
  have "snd (or_view ?b k r) = VClock_Get ctx r" for r by (simp add: or_view_def ctx)
  with at have v: "or_view ?b k = (\<lambda>r. (keep (VClock_Get ctx r) (fst (or_view b k r)), VClock_Get ctx r))"
    by (auto simp: prod_eq_iff)
  from a show ?thesis unfolding v by simp
qed

text \<open>Other keys, and the consistency of the two maps, do not depend on what is stored.\<close>

lemma or_add_frame:
  assumes "mb_inv b"
  shows "mb_inv (or_add win b k v rd) \<and> memoryBackend_GetTombstone (or_add win b k v rd) = memoryBackend_GetTombstone b \<and>
    (\<forall>k'. k' \<noteq> k \<longrightarrow> memoryBackend_GetEntry (or_add win b k v rd) k' = memoryBackend_GetEntry b k')"
  using assms by (auto simp: or_add_def memory.laws Let_def split: prod.splits)

lemma or_remove_frame:
  assumes "mb_inv b"
  shows "mb_inv (or_remove val b k d ctx) \<and>
    (\<forall>k'. k' \<noteq> k \<longrightarrow> memoryBackend_GetEntry (or_remove val b k d ctx) k' = memoryBackend_GetEntry b k' \<and>
       memoryBackend_GetTombstone (or_remove val b k d ctx) k' = memoryBackend_GetTombstone b k')"
  using assms by (auto simp: or_remove_def memory.laws Let_def split: option.splits go.splits prod.splits)

lemma or_view_keep:
  assumes "or_inv R b"
  shows "keep (snd (or_view b k r)) (fst (or_view b k r)) = fst (or_view b k r)"
proof (cases "memoryBackend_GetEntry b k")
  case None
  then show ?thesis by (simp add: or_view_def or_entry_def keep_def)
next
  case (Some e)
  obtain v meta where e: "e = (v, meta)" by (cases e)
  obtain dm where dm: "wf_map dm" "or_entry b k = Some dm" "\<And>r c. (r, c) \<in> set dm \<Longrightarrow> VClock_Get (or_ctx b k) r < c"
    using or_entry_inv [OF assms Some [unfolded e]] by metis
  show ?thesis
  proof (cases "mget dm r")
    case (Some c)
    then have "VClock_Get (or_ctx b k) r < c" using dm(1,3) by (simp add: wf_map_mem)
    with Some dm(2) show ?thesis by (simp add: or_view_def mget0_def keep_def)
  qed (use dm(2) in \<open>simp add: or_view_def mget0_def keep_def\<close>)
qed

section \<open>What an anti-entropy answer selects\<close>

definition pick :: "('v \<Rightarrow> 'w option) \<Rightarrow> ('k \<times> 'v) list \<Rightarrow> ('k \<times> 'w) list" where
  "pick f xs = concat (map (\<lambda>(k, v). case f v of Some w \<Rightarrow> [(k, w)] | None \<Rightarrow> []) xs)"

lemma fst_pick: "fst ` set (pick f xs) \<subseteq> fst ` set xs"
  by (auto simp: pick_def split: option.splits) (metis fst_conv image_eqI)

lemma distinct_pick: "distinct (map fst xs) \<Longrightarrow> distinct (map fst (pick f xs))"
proof (induction xs)
  case (Cons x xs)
  obtain k v where x: "x = (k, v)" by (cases x)
  have "pick f (x # xs) = (case f v of Some w \<Rightarrow> [(k, w)] | None \<Rightarrow> []) @ pick f xs" by (simp add: pick_def x)
  moreover have "k \<notin> fst ` set (pick f xs)" using Cons.prems fst_pick [of f xs] by (auto simp: x)
  ultimately show ?case using Cons by (auto split: option.splits)
qed (simp add: pick_def)

lemma map_of_pick: "distinct (map fst xs) \<Longrightarrow> map_of (pick f xs) k = Option.bind (map_of xs k) f"
proof (induction xs)
  case (Cons x xs)
  obtain l v where x: "x = (l, v)" by (cases x)
  have eq: "pick f ((l, v) # xs) = (case f v of Some w \<Rightarrow> [(l, w)] | None \<Rightarrow> []) @ pick f xs" by (simp add: pick_def)
  have "map_of xs l = None" using Cons.prems by (simp add: x map_of_eq_None_iff)
  with Cons show ?case by (auto simp: eq x split: option.splits)
qed (simp add: pick_def)

definition seen_dots :: "VClock \<Rightarrow> memEntry \<Rightarrow> DotMap option" where
  "seen_dots hwm e = (case decodeDotMap (meMeta e) of
     Ok dm \<Rightarrow> if \<exists>(r, c) \<in> set dm. c > VClock_Get hwm r then Some dm else None | _ \<Rightarrow> None)"

definition seen_tomb :: "VClock \<Rightarrow> bytes \<Rightarrow> (Dot \<times> VClock) option" where
  "seen_tomb hwm t = (case decodeRemoveTombstone t of
     Ok (d, c) \<Rightarrow> if Counter d > VClock_Get hwm (Replica d) then Some (d, c) else None | _ \<Rightarrow> None)"

lemma pick_dots:
  assumes "or_inv R b"
  shows "map_of (pick (seen_dots hwm) (mbEntries b)) k = (case or_entry b k of
      Some dm \<Rightarrow> if \<exists>(r, c) \<in> set dm. c > VClock_Get hwm r then Some dm else None | None \<Rightarrow> None)"
    and "distinct (map fst (pick (seen_dots hwm) (mbEntries b)))"
proof -
  have d: "distinct (map fst (mbEntries b))" using assms by (simp add: or_inv_def mb_inv_def wf_map_def)
  then show "distinct (map fst (pick (seen_dots hwm) (mbEntries b)))" by (rule distinct_pick)
  show "map_of (pick (seen_dots hwm) (mbEntries b)) k = (case or_entry b k of
      Some dm \<Rightarrow> if \<exists>(r, c) \<in> set dm. c > VClock_Get hwm r then Some dm else None | None \<Rightarrow> None)"
    by (auto simp: map_of_pick [OF d] or_entry_def memoryBackend_GetEntry_def seen_dots_def bind_eq_None_conv
        split: option.splits go.splits Option.bind_split)
qed

lemma pick_tombs:
  assumes "or_inv R b"
  shows "map_of (pick (seen_tomb hwm) (mbTombstones b)) k = Some (d, c) \<Longrightarrow> or_ctx b k = c \<and> in_cluster R c \<and>
      (\<exists>t. memoryBackend_GetTombstone b k = Some t \<and> decodeRemoveTombstone t = Ok (d, c))"
    and "distinct (map fst (pick (seen_tomb hwm) (mbTombstones b)))"
proof -
  have d: "distinct (map fst (mbTombstones b))" using assms by (simp add: or_inv_def mb_inv_def wf_map_def)
  then show "distinct (map fst (pick (seen_tomb hwm) (mbTombstones b)))" by (rule distinct_pick)
  assume "map_of (pick (seen_tomb hwm) (mbTombstones b)) k = Some (d, c)"
  then obtain t where "mget (mbTombstones b) k = Some t" "seen_tomb hwm t = Some (d, c)"
    unfolding map_of_pick [OF d] bind_eq_Some_conv by blast
  then have t: "memoryBackend_GetTombstone b k = Some t" "decodeRemoveTombstone t = Ok (d, c)"
    by (auto simp: memoryBackend_GetTombstone_def seen_tomb_def split: go.splits prod.splits if_splits)
  from or_tomb_inv [OF assms t(1)] t show "or_ctx b k = c \<and> in_cluster R c \<and>
      (\<exists>t. memoryBackend_GetTombstone b k = Some t \<and> decodeRemoveTombstone t = Ok (d, c))" by auto
qed

text \<open>
  An answer to the empty clock, applied to an empty state, restores every live cell: all entries
  are sent, and the contexts sent with them cover none of their dots.
\<close>

lemma answer_restores:
  assumes "or_inv R b"
  defines "adds \<equiv> pick (seen_dots []) (mbEntries b)" and "rems \<equiv> pick (seen_tomb []) (mbTombstones b)"
  shows "fst (fold code_step (map (\<lambda>(k, d, c). OrRem k (VClock_Get c)) rems)
      (fold code_step (map (\<lambda>(k, dm). OrAdd k (mget0 dm)) adds) (\<lambda>_ _. (0, 0))) k r) = fst (or_view b k r)"
proof -
  let ?as = "map (\<lambda>(k, dm). (k, mget0 dm)) adds" and ?rs = "map (\<lambda>(k, d, c). (k, VClock_Get c)) rems"
  have a: "map (\<lambda>(k, dm). OrAdd k (mget0 dm)) adds = map (\<lambda>(k, f). OrAdd k f) ?as"
    and r: "map (\<lambda>(k, d, c). OrRem k (VClock_Get c)) rems = map (\<lambda>(k, f). OrRem k f) ?rs"
    by (auto simp: comp_def case_prod_unfold)
  have da: "distinct (map fst ?as)" and dr: "distinct (map fst ?rs)"
    using pick_dots(2) [OF assms(1)] pick_tombs(2) [OF assms(1)] by (simp_all add: adds_def rems_def comp_def case_prod_unfold)
  have ma: "map_of ?as k = map_option mget0 (map_of adds k)" by (simp add: map_of_map)
  have mr: "map_of ?rs k = map_option (\<lambda>(d, c). VClock_Get c) (map_of rems k)"
    using map_of_map [of "\<lambda>(d, c). VClock_Get c" rems] by (simp add: case_prod_unfold)
  have k0: "keep 0 x = x" for x by (auto simp: keep_def word_gt_0)
  have adds: "fold code_step (map (\<lambda>(k, f). OrAdd k f) ?as) (\<lambda>_ _. (0, 0)) k r = (fst (or_view b k r), 0)" for r
  proof (cases "or_entry b k")
    case None
    then show ?thesis
      unfolding fold_adds [OF da] ma by (simp add: pick_dots(1) [OF assms(1)] adds_def or_view_def)
  next
    case (Some dm)
    then obtain v meta where g: "memoryBackend_GetEntry b k = Some (v, meta)"
      by (auto simp: or_entry_def split: option.splits)
    have "\<exists>(r, c) \<in> set dm. c > VClock_Get [] r"
    proof (rule or_entry_inv [OF assms(1) g])
      fix dm' assume "or_entry b k = Some dm'" "dm' \<noteq> []" "\<And>r c. (r, c) \<in> set dm' \<Longrightarrow> VClock_Get (or_ctx b k) r < c"
      with Some show ?thesis by (cases dm) (fastforce simp: VClock_Get_def word_gt_0)+
    qed
    with Some show ?thesis
      unfolding fold_adds [OF da] ma
      by (simp add: pick_dots(1) [OF assms(1)] adds_def or_view_def cell_add_def k0 max_def)
  qed
  then have adds': "fold code_step (map (\<lambda>(k, f). OrAdd k f) ?as) (\<lambda>_ _. (0, 0)) k = (\<lambda>r. (fst (or_view b k r), 0))"
    by (rule ext)
  show ?thesis
  proof (cases "map_of rems k")
    case None
    then show ?thesis unfolding a r fold_rems [OF dr] mr adds' by simp
  next
    case (Some dc)
    obtain d c where dc: "dc = (d, c)" by (cases dc)
    have "or_ctx b k = c" using pick_tombs(1) [OF assms(1)] Some unfolding rems_def dc by blast
    with or_view_keep [OF assms(1), of k r] Some show ?thesis
      unfolding a r fold_rems [OF dr] mr adds' by (simp add: dc) (simp add: or_view_def)
  qed
qed

text \<open>The dot of the tombstone is the greatest one received.\<close>

definition tomb_dot :: "memoryBackend \<Rightarrow> bytes \<Rightarrow> Dot \<Rightarrow> Dot" where
  "tomb_dot b k dot =
     (case memoryBackend_GetTombstone b k of
        Some meta \<Rightarrow> (case decodeRemoveTombstone meta of Ok (e, _) \<Rightarrow> if \<not> DotGT dot e then e else dot | _ \<Rightarrow> dot)
      | None \<Rightarrow> dot)"

text \<open>The dots a local add or put stores over existing ones.\<close>

lemma mget_overwrite:
  fixes existing :: DotMap
  assumes "wf_map existing"
  shows "mget (mput i c (fold (\<lambda>(rep, c) ds. mput rep c ds) existing [(i, c)])) = (mget existing)(i \<mapsto> c)"
    and "wf_map (mput i c (fold (\<lambda>(rep, c) ds. mput rep c ds) existing [(i, c)]))"
proof -
  have "wf_map xs \<Longrightarrow> mget (fold (\<lambda>(rep, c) ds. mput rep c ds) xs m) = mget m ++ mget xs" for xs m :: DotMap
  proof (induction xs arbitrary: m)
    case (Cons x xs)
    obtain r c where x: "x = (r, c)" by (cases x)
    then have "mget xs r = None" "wf_map xs" using Cons.prems by (auto simp: wf_map_Cons map_of_eq_None_iff)
    with Cons.IH [of "mput r c m"] x show ?case
      by (auto simp: fun_eq_iff map_add_def split: option.splits)
  qed simp
  from this [OF assms, of "[(i, c)]"]
  show "mget (mput i c (fold (\<lambda>(rep, c) ds. mput rep c ds) existing [(i, c)])) = (mget existing)(i \<mapsto> c)"
    by (auto simp: fun_eq_iff map_add_def split: option.splits)
  have "wf_map m \<Longrightarrow> wf_map (fold (\<lambda>(rep, c) ds. mput rep c ds) xs m)" for xs m :: DotMap
    by (induction xs arbitrary: m) auto
  then show "wf_map (mput i c (fold (\<lambda>(rep, c) ds. mput rep c ds) existing [(i, c)]))" by (simp add: wf_map_Cons)
qed

text \<open>
  A local add or put stores its new dot beside the dots that are there; a local remove drops the entry, whether
  its context covers them or not.
\<close>

definition or_overwrite :: "memoryBackend \<Rightarrow> bytes \<Rightarrow> Dot \<Rightarrow> DotMap" where
  "or_overwrite b k d = (case or_entry b k of
      Some existing \<Rightarrow> mput (Replica d) (Counter d) (fold (\<lambda>(rep, c) ds. mput rep c ds) existing [(Replica d, Counter d)])
    | None \<Rightarrow> [(Replica d, Counter d)])"

lemma or_overwrite_step:
  assumes "or_inv R b" "card R < 2 ^ 32" "Replica d \<in> R"
    and "snd (or_view b k (Replica d)) < Counter d" "fst (or_view b k (Replica d)) < Counter d"
  shows "or_inv R (memoryBackend_PutEntry b k v (encodeDotMap (or_overwrite b k d))) \<and>
    or_view (memoryBackend_PutEntry b k v (encodeDotMap (or_overwrite b k d))) =
      code_step (OrAdd k (mget0 [(Replica d, Counter d)])) (or_view b)"
proof -
  define dots where "dots = or_overwrite b k d"
  note dots_eq = dots_def or_overwrite_def
  have dots: "in_cluster R dots" "dots \<noteq> []" "\<And>r c. (r, c) \<in> set dots \<Longrightarrow> VClock_Get (or_ctx b k) r < c"
     "\<And>r. mget0 dots r = (if r = Replica d then Counter d else fst (or_view b k r))"
  proof -
    have ctx: "VClock_Get (or_ctx b k) (Replica d) < Counter d" using assms(4) by (simp add: or_view_def)
    have "in_cluster R dots \<and> dots \<noteq> [] \<and> (\<forall>(r, c) \<in> set dots. VClock_Get (or_ctx b k) r < c) \<and>
      (\<forall>r. mget0 dots r = (if r = Replica d then Counter d else fst (or_view b k r)))"
    proof (cases "or_entry b k")
      case None
      with ctx assms(3) show ?thesis
        by (simp add: dots_eq in_cluster_def wf_map_def mget0_def or_view_def)
    next
      case (Some ex)
      then obtain v meta where g: "memoryBackend_GetEntry b k = Some (v, meta)"
        by (auto simp: or_entry_def split: option.splits)
      have ex: "in_cluster R ex" "wf_map ex" "\<And>r c. (r, c) \<in> set ex \<Longrightarrow> VClock_Get (or_ctx b k) r < c"
        using or_entry_inv [OF assms(1) g] Some by (metis option.inject)+
      note ov = mget_overwrite [OF ex(2), of "Replica d" "Counter d"]
      have mem: "(r, c) \<in> set dots \<longleftrightarrow> ((mget ex)(Replica d \<mapsto> Counter d)) r = Some c" for r c
        using ov Some by (simp add: dots_eq wf_map_mem del: mget_mput)
      have wf: "wf_map dots" using ov(2) Some by (simp add: dots_eq)
      have "VClock_Get (or_ctx b k) r < c" if "(r, c) \<in> set dots" for r c
        using that ctx ex(3) [of r c] unfolding mem by (auto simp: wf_map_mem [OF ex(2)] split: if_splits)
      moreover have "fst ` set dots \<subseteq> R"
        using ex(1) assms(3) mem by (auto simp: in_cluster_def wf_map_mem [OF ex(2), symmetric] split: if_splits) force
      moreover have "mget dots = (mget ex)(Replica d \<mapsto> Counter d)" using ov(1) Some by (simp add: dots_eq)
      then have "mget0 dots r = (if r = Replica d then Counter d else fst (or_view b k r))" for r
        using Some by (simp add: mget0_def or_view_def)
      moreover have "dots \<noteq> []" using mem [of "Replica d" "Counter d"] by auto
      ultimately show ?thesis using wf by (auto simp: in_cluster_def)
    qed
    then show "in_cluster R dots" "dots \<noteq> []" "\<And>r c. (r, c) \<in> set dots \<Longrightarrow> VClock_Get (or_ctx b k) r < c"
     "\<And>r. mget0 dots r = (if r = Replica d then Counter d else fst (or_view b k r))" by auto
  qed
  note keep = or_view_keep [OF assms(1), of k]
  have cell: "cell_add (mget0 [(Replica d, Counter d)] r) (or_view b k r) = (mget0 dots r, snd (or_view b k r))" for r
    using assms(4,5) keep [of r] by (auto simp: cell_add_def dots(4) mget0_Cons keep_def)
  show ?thesis
    unfolding dots_def [symmetric] using or_store [OF assms(1,2) dots(1-3), of v] by (simp add: cell)
qed

definition or_drop :: "memoryBackend \<Rightarrow> bytes \<Rightarrow> Dot \<Rightarrow> VClock \<Rightarrow> memoryBackend" where
  "or_drop b k d ctx = memoryBackend_PutTombstone (memoryBackend_DeleteEntry b k) k (encodeRemoveTombstone d ctx)"

lemma or_drop_step:
  assumes "or_inv R b" "card R < 2 ^ 32" "in_cluster R ctx"
  shows "or_inv R (or_drop b k d ctx) \<and> or_view (or_drop b k d ctx) = (or_view b)(k := (\<lambda>r. (0, VClock_Get ctx r)))"
    and "memoryBackend_GetTombstone (or_drop b k d ctx) = (memoryBackend_GetTombstone b)(k \<mapsto> encodeRemoveTombstone d ctx)"
    and "memoryBackend_GetEntry (or_drop b k d ctx) = (memoryBackend_GetEntry b)(k := None)"
proof -
  have inv: "mb_inv b" using assms(1) by (simp add: or_inv_def)
  note w = memory.tombstone_write [OF inv, of k "encodeRemoveTombstone d ctx", folded or_drop_def]
  then show "memoryBackend_GetTombstone (or_drop b k d ctx) = (memoryBackend_GetTombstone b)(k \<mapsto> encodeRemoveTombstone d ctx)"
    "memoryBackend_GetEntry (or_drop b k d ctx) = (memoryBackend_GetEntry b)(k := None)" by blast+
  have c: "or_ctx (or_drop b k d ctx) k = sorted_map ctx" by (simp add: or_ctx_def w decode_cluster(2) [OF assms(3,2)])
  have "or_ok_at R (or_drop b k d ctx) k" using assms(3) by (auto simp: or_ok_at_def w decode_cluster(2) [OF assms(3,2)])
  then have a: "or_inv R (or_drop b k d ctx) \<and> or_view (or_drop b k d ctx) = (or_view b)(k := or_view (or_drop b k d ctx) k)"
    by (intro or_change [OF assms(1)]) (auto simp: w)
  have v: "or_view (or_drop b k d ctx) k = (\<lambda>r. (0, VClock_Get ctx r))"
    by (simp add: or_view_def [of "or_drop b k d ctx"] or_entry_def w c fun_eq_iff)
  from a show "or_inv R (or_drop b k d ctx) \<and> or_view (or_drop b k d ctx) = (or_view b)(k := (\<lambda>r. (0, VClock_Get ctx r)))"
    unfolding v .
qed

section \<open>Greatest dots\<close>

lemma MaxDot_le_iff:
  assumes "pos_map dm" "dm \<noteq> []"
  shows "MaxDot dm \<le> b \<longleftrightarrow> (\<forall>r. mget0 dm r \<noteq> 0 \<longrightarrow> mkDot r (mget0 dm r) \<le> b)"
proof -
  have wf: "wf_map dm" using assms(1) by blast
  have "dots_of dm \<noteq> {}" "finite (dots_of dm)" using assms(2) by (auto simp: dots_of_def)
  then have "MaxDot dm \<le> b \<longleftrightarrow> (\<forall>d \<in> dots_of dm. d \<le> b)" by (simp add: MaxDot_Max [OF assms])
  also have "\<dots> \<longleftrightarrow> (\<forall>r c. mget dm r = Some c \<longrightarrow> mkDot r c \<le> b)"
    by (force simp: dots_of_def wf_map_mem [OF wf, symmetric])
  also have "\<dots> \<longleftrightarrow> (\<forall>r. mget0 dm r \<noteq> 0 \<longrightarrow> mkDot r (mget0 dm r) \<le> b)"
    using pos_map_mget [OF assms(1)] by (auto split: if_splits)
  finally show ?thesis .
qed

lemma mkDot_max_le: "mkDot r (max x y) \<le> b \<longleftrightarrow> mkDot r x \<le> b \<and> mkDot r y \<le> b"
proof -
  have "x \<le> y \<Longrightarrow> mkDot r x \<le> mkDot r y" for x y by (auto simp: less_eq_Dot_ext_def)
  then show ?thesis by (auto simp: max_def intro: order_trans) (meson linear order_trans)+
qed

lemma MaxDot_Combine:
  assumes "pos_map a" "a \<noteq> []" "pos_map b" "b \<noteq> []"
  shows "MaxDot (CombineDots a b) = max (MaxDot a) (MaxDot b)"
proof (rule eq_by_bounds)
  fix u
  have g: "mget0 (CombineDots a b) r = max (mget0 a r) (mget0 b r)" for r
    using dotmap.get_join [OF assms(1,3)] by simp
  obtain r c where "(r, c) \<in> set a" using assms(2) by (cases a) auto
  then have "mget0 a r \<noteq> 0" using pos_map_dom [OF assms(1), of r] by force
  then have "mget0 (CombineDots a b) r \<noteq> 0" by (auto simp: g max_def)
  then have ne: "CombineDots a b \<noteq> []" by auto
  have z: "(max x y \<noteq> 0 \<longrightarrow> mkDot r (max x y) \<le> u) \<longleftrightarrow> (x \<noteq> 0 \<longrightarrow> mkDot r x \<le> u) \<and> (y \<noteq> 0 \<longrightarrow> mkDot r y \<le> u)" for r x y
  proof (cases "x = 0 \<or> y = 0")
    case True
    then show ?thesis by (auto simp: max_def)
  next
    case False
    then have "max x y \<noteq> 0" by (simp add: max_def)
    with False show ?thesis by (simp add: mkDot_max_le)
  qed
  show "MaxDot (CombineDots a b) \<le> u \<longleftrightarrow> max (MaxDot a) (MaxDot b) \<le> u"
    unfolding MaxDot_le_iff [OF dotmap.inv_join [OF assms(1,3)] ne] g z max.bounded_iff
      MaxDot_le_iff [OF assms(1,2)] MaxDot_le_iff [OF assms(3,4)] by blast
qed

lemma MaxDot_sorted:
  assumes "pos_map a" "a \<noteq> []"
  shows "MaxDot (sorted_map a) = MaxDot a"
proof (rule eq_by_bounds)
  have "sorted_map a \<noteq> []" using assms(2) by (metis length_0_conv length_sorted_map)
  then show "MaxDot (sorted_map a) \<le> u \<longleftrightarrow> MaxDot a \<le> u" for u
    using assms by (simp add: MaxDot_le_iff)
qed

lemma MaxDot_single: "c \<noteq> 0 \<Longrightarrow> MaxDot [(r, c)] = mkDot r c"
  by (simp add: MaxDot_def)

text \<open>A key has an entry exactly when one of its cells is live.\<close>

lemma or_live:
  assumes "or_inv R b"
  shows "memoryBackend_GetEntry b k \<noteq> None \<longleftrightarrow> (\<exists>i. fst (or_view b k i) \<noteq> 0)"
proof (cases "memoryBackend_GetEntry b k")
  case None
  then show ?thesis by (simp add: or_view_def or_entry_def)
next
  case (Some p)
  obtain v meta where p: "p = (v, meta)" by (cases p)
  obtain dm where dm: "wf_map dm" "dm \<noteq> []" "or_entry b k = Some dm"
      "\<And>i c. (i, c) \<in> set dm \<Longrightarrow> VClock_Get (or_ctx b k) i < c"
    using or_entry_inv [OF assms Some [unfolded p]] by metis
  obtain i c where ic: "(i, c) \<in> set dm" using dm(2) by (cases dm) auto
  have "mget0 dm i \<noteq> 0" using dm(4) [OF ic] wf_map_mget0_mem [OF dm(1) ic] by auto
  with Some dm(3) show ?thesis by (auto simp: or_view_def)
qed

section \<open>Garbage collection\<close>

text \<open>What the two \<open>GCTombstones\<close> methods do to the backend.\<close>

definition or_gc :: "memoryBackend \<Rightarrow> VClock \<Rightarrow> memoryBackend" where
  "or_gc b minHWM =
     (let toDelete = memoryBackend_RangeTombstones b (\<lambda>key meta toDelete.
            case decodeRemoveTombstone meta of
              Ok (dot, _) \<Rightarrow>
                if Counter dot \<le> VClock_Get minHWM (Replica dot) then (toDelete @ [key], True) else (toDelete, True)
            | _ \<Rightarrow> (toDelete, True)) []
      in fold (\<lambda>key b. memoryBackend_DeleteTombstone b key) toDelete b)"

definition gc_pick :: "VClock \<Rightarrow> bytes \<Rightarrow> unit option" where
  "gc_pick hwm t = (case decodeRemoveTombstone t of
     Ok (d, _) \<Rightarrow> if Counter d \<le> VClock_Get hwm (Replica d) then Some () else None | _ \<Rightarrow> None)"

lemma gc_mb:
  assumes "mb_inv b"
  shows "mb_inv (fold (\<lambda>key b. memoryBackend_DeleteTombstone b key) ks b) \<and>
    memoryBackend_GetTombstone (fold (\<lambda>key b. memoryBackend_DeleteTombstone b key) ks b) =
      (\<lambda>k. if k \<in> set ks then None else memoryBackend_GetTombstone b k)"
  using assms by (induction ks arbitrary: b) (auto simp: memory.laws fun_eq_iff)

lemma or_gc_pick:
  "or_gc b hwm = fold (\<lambda>key b. memoryBackend_DeleteTombstone b key) (map fst (pick (gc_pick hwm) (mbTombstones b))) b"
proof -
  have t: "rangeLoop (\<lambda>(k, m). (\<lambda>key meta x. case decodeRemoveTombstone meta of
        Ok (dot, _) \<Rightarrow> if Counter dot \<le> VClock_Get hwm (Replica dot) then (x @ [key], True) else (x, True)
      | _ \<Rightarrow> (x, True)) k m) xs ys
      = ys @ concat (map (\<lambda>(k, t). map fst (case gc_pick hwm t of Some u \<Rightarrow> [(k, u)] | None \<Rightarrow> [])) xs)" for xs ys
    by (rule rangeLoop_collect) (auto simp: gc_pick_def split: go.splits)
  show ?thesis
    unfolding or_gc_def memoryBackend_RangeTombstones_def Let_def t
    by (simp add: pick_def map_concat comp_def case_prod_unfold)
qed

lemma or_gc_entries: "mbEntries (or_gc b hwm) = mbEntries b"
proof -
  have "mbEntries (fold (\<lambda>key b. memoryBackend_DeleteTombstone b key) ks b) = mbEntries b" for ks b
    by (induction ks arbitrary: b) (simp_all add: memoryBackend_DeleteTombstone_def)
  then show ?thesis by (simp add: or_gc_def Let_def)
qed

lemma or_gc_mb: "mb_inv b \<Longrightarrow> mb_inv (or_gc b hwm)"
  using gc_mb [of b] by (simp add: or_gc_pick)

lemma or_gc_tombstone:
  assumes "mb_inv b"
  shows "memoryBackend_GetTombstone (or_gc b hwm) k =
    (case memoryBackend_GetTombstone b k of
       Some t \<Rightarrow> if gc_pick hwm t = None then Some t else None | None \<Rightarrow> None)"
proof -
  have d: "distinct (map fst (mbTombstones b))" using assms by (simp add: mb_inv_def wf_map_def)
  have "k \<in> set (map fst (pick (gc_pick hwm) (mbTombstones b))) \<longleftrightarrow> map_of (pick (gc_pick hwm) (mbTombstones b)) k \<noteq> None"
    by (simp add: map_of_eq_None_iff)
  also have "\<dots> \<longleftrightarrow> (\<exists>t. memoryBackend_GetTombstone b k = Some t \<and> gc_pick hwm t \<noteq> None)"
    unfolding map_of_pick [OF d] memoryBackend_GetTombstone_def by (auto simp: bind_eq_Some_conv)
  finally show ?thesis
    unfolding or_gc_pick using gc_mb [OF assms] by (auto simp del: set_map split: option.splits)
qed

lemma or_gc_inv:
  assumes inv: "or_inv R b"
  shows "or_inv R (or_gc b hwm)"
proof -
  let ?b = "or_gc b hwm"
  have mb: "mb_inv b" using assms by (simp add: or_inv_def)
  have g: "memoryBackend_GetEntry ?b = memoryBackend_GetEntry b"
    by (simp add: memoryBackend_GetEntry_def fun_eq_iff or_gc_entries)
  note t = or_gc_tombstone [OF mb, of hwm]
  have ctx: "VClock_Get (or_ctx ?b k) i \<le> VClock_Get (or_ctx b k) i" for k i
    by (auto simp: or_ctx_def t VClock_Get_def split: option.splits)
  show ?thesis
    unfolding or_inv_at
  proof (intro conjI allI)
    fix k
    have old: "memoryBackend_GetTombstone ?b k = Some u \<Longrightarrow> memoryBackend_GetTombstone b k = Some u" for u
      by (auto simp: t split: option.splits if_splits)
    have "\<exists>dm. decodeDotMap meta = Ok dm \<and> in_cluster R dm \<and> dm \<noteq> [] \<and>
        (\<forall>(i, c) \<in> set dm. VClock_Get (or_ctx ?b k) i < c)"
      if e: "memoryBackend_GetEntry b k = Some (v, meta)" for v meta
    proof (rule or_entry_inv [OF inv e])
      fix dm
      assume dm: "decodeDotMap meta = Ok dm" "in_cluster R dm" "dm \<noteq> []"
        "\<And>i c. (i, c) \<in> set dm \<Longrightarrow> VClock_Get (or_ctx b k) i < c"
      then have "\<forall>(i, c) \<in> set dm. VClock_Get (or_ctx ?b k) i < c"
        using ctx [of k] by (auto intro: le_less_trans)
      with dm show ?thesis by blast
    qed
    with or_tomb_inv [OF inv old] show "or_ok_at R ?b k"
      unfolding or_ok_at_def g by (metis (no_types, lifting))
  qed (rule or_gc_mb [OF mb])
qed

section \<open>A cluster for the examples\<close>

abbreviation demo_cluster :: "ReplicaID set" where "demo_cluster \<equiv> {1, 2, 3}"

lemma demo_cluster_card: "card demo_cluster < 2 ^ 32"
  by simp

lemma demo_clock: "i \<in> demo_cluster \<Longrightarrow> in_cluster demo_cluster [(i, c)]" "c \<noteq> 0 \<Longrightarrow> pos_map [(i, c)]"
  by (simp_all add: in_cluster_def wf_map_def pos_map_def)

end
