(* ===== verification/Histories.thy ===== *)
theory Histories
  imports Cluster Observed
begin

text \<open>
  Histories of clusters of observed-remove types, and what a replica holds against one. The history says how many
  dots each replica has issued, and what it did under each of them. A remove observes a dot when the dot is in the
  context that the remove carries, or in the entry that the remover drops. \<open>val\<close> is what a type stores of a
  value: the value itself for the map, nothing for the set.
\<close>

section \<open>Definitions\<close>

datatype or_event = EvAdd bytes bytes | EvRem bytes "ReplicaID \<Rightarrow> u64"

record or_hist =
  hsClock :: "ReplicaID \<Rightarrow> u64"
  hsEvent :: "Dot \<Rightarrow> or_event option"

definition hs_empty :: or_hist where
  "hs_empty = \<lparr>hsClock = \<lambda>_. 0, hsEvent = \<lambda>_. None\<rparr>"

text \<open>The next dot of a replica, with or without an event.\<close>

definition hs_next :: "or_hist \<Rightarrow> ReplicaID \<Rightarrow> Dot" where
  "hs_next h i = mkDot i (hsClock h i + 1)"

definition hs_log :: "or_hist \<Rightarrow> ReplicaID \<Rightarrow> or_event option \<Rightarrow> or_hist" where
  "hs_log h i ev = \<lparr>hsClock = (hsClock h)(i := hsClock h i + 1), hsEvent = (hsEvent h)(hs_next h i := ev)\<rparr>"

definition added :: "or_hist \<Rightarrow> bytes \<Rightarrow> Dot \<Rightarrow> bool" where
  "added h k d \<longleftrightarrow> (\<exists>v. hsEvent h d = Some (EvAdd k v))"

definition removed :: "or_hist \<Rightarrow> bytes \<Rightarrow> Dot \<Rightarrow> bool" where
  "removed h k d \<longleftrightarrow> (\<exists>f. hsEvent h d = Some (EvRem k f))"

definition observed :: "or_hist \<Rightarrow> bytes \<Rightarrow> ReplicaID \<Rightarrow> u64 \<Rightarrow> bool" where
  "observed h k j n \<longleftrightarrow> (\<exists>d f. hsEvent h d = Some (EvRem k f) \<and> n \<le> f j)"

lemma added_unique: "added h k d \<Longrightarrow> added h k' d \<Longrightarrow> k' = k" "added h k d \<Longrightarrow> \<not> removed h k' d"
  by (auto simp: added_def removed_def)

lemma observed_le: "observed h k j m \<Longrightarrow> n \<le> m \<Longrightarrow> observed h k j n"
  by (auto simp: observed_def intro: order_trans)

section \<open>Well-formed histories\<close>

definition hist_ok :: "ReplicaID set \<Rightarrow> or_hist \<Rightarrow> bool" where
  "hist_ok R h \<longleftrightarrow> card R < 2 ^ 32 \<and> (\<forall>j. hsClock h j \<noteq> 0 \<longrightarrow> j \<in> R) \<and>
     (\<forall>d ev. hsEvent h d = Some ev \<longrightarrow> Counter d \<noteq> 0 \<and> Counter d \<le> hsClock h (Replica d)) \<and>
     (\<forall>d k v. hsEvent h d = Some (EvAdd k v) \<longrightarrow> length k + length v < 2 ^ 62) \<and>
     (\<forall>d k f. hsEvent h d = Some (EvRem k f) \<longrightarrow> length k < 2 ^ 62 \<and> (\<forall>j. f j \<le> hsClock h j))"

lemma hist_okD:
  assumes "hist_ok R h"
  shows "card R < 2 ^ 32" "hsClock h j \<noteq> 0 \<Longrightarrow> j \<in> R"
    "hsEvent h d = Some ev \<Longrightarrow> Counter d \<noteq> 0 \<and> Counter d \<le> hsClock h (Replica d)"
    "hsEvent h d = Some (EvAdd k v) \<Longrightarrow> length k + length v < 2 ^ 62" "hsEvent h d = Some (EvRem k f) \<Longrightarrow> length k < 2 ^ 62"
    "observed h k j n \<Longrightarrow> n \<le> hsClock h j"
  using assms unfolding hist_ok_def observed_def by (blast intro: order_trans)+

lemma hist_ok_dot:
  assumes "hist_ok R h"
  shows "added h k d \<Longrightarrow> Counter d \<noteq> 0" "added h k d \<Longrightarrow> Counter d \<le> hsClock h (Replica d)"
    "removed h k d \<Longrightarrow> Counter d \<noteq> 0" "removed h k d \<Longrightarrow> Counter d \<le> hsClock h (Replica d)"
  using hist_okD(3) [OF assms] by (auto simp: added_def removed_def)

definition hs_grow :: "or_hist \<Rightarrow> or_hist \<Rightarrow> bool" where
  "hs_grow h h' \<longleftrightarrow> (\<forall>j. hsClock h j \<le> hsClock h' j) \<and> (\<forall>d ev. hsEvent h d = Some ev \<longrightarrow> hsEvent h' d = Some ev) \<and>
     (\<forall>d. Counter d \<le> hsClock h (Replica d) \<longrightarrow> hsEvent h' d = hsEvent h d)"

lemma grow_facts:
  assumes "hs_grow h h'"
  shows "observed h k j n \<Longrightarrow> observed h' k j n" "added h k d \<Longrightarrow> added h' k d" "removed h k d \<Longrightarrow> removed h' k d"
    "Counter d \<le> hsClock h (Replica d) \<Longrightarrow> added h' k d \<longleftrightarrow> added h k d" "hsClock h j \<le> hsClock h' j"
  using assms unfolding hs_grow_def observed_def added_def removed_def by (blast, blast, blast, simp, blast)

lemma hs_log_simps [simp]:
  "hsClock (hs_log h i ev) j = (if j = i then hsClock h i + 1 else hsClock h j)"
  "hsEvent (hs_log h i ev) (hs_next h i) = ev"
  by (simp_all add: hs_log_def)

lemma hs_log_grow:
  assumes "hist_ok R h" "hsClock h i + 1 \<noteq> 0"
  shows "hs_grow h (hs_log h i ev)"
proof -
  note n = next_counter [OF assms(2)]
  have "d \<noteq> hs_next h i" if "Counter d \<le> hsClock h (Replica d)" for d
    using that n(1) by (auto simp: hs_next_def)
  moreover have "Counter d \<le> hsClock h (Replica d)" if "hsEvent h d = Some e" for d e
    using hist_okD(3) [OF assms(1) that] by blast
  ultimately show ?thesis using n(1) by (auto simp: hs_grow_def hs_log_def)
qed

lemma hs_log_ok:
  assumes "hist_ok R h" "hsClock h i + 1 \<noteq> 0" "i \<in> R"
    and "\<And>k v. ev = Some (EvAdd k v) \<Longrightarrow> length k + length v < 2 ^ 62"
    and "\<And>k f. ev = Some (EvRem k f) \<Longrightarrow> length k < 2 ^ 62 \<and> (\<forall>j. f j \<le> hsClock (hs_log h i ev) j)"
  shows "hist_ok R (hs_log h i ev)"
proof -
  let ?h = "hs_log h i ev"
  note grow = grow_facts(5) [OF hs_log_grow [OF assms(1,2), of ev]] and old = assms(1) [unfolded hist_ok_def]
  have new: "hsEvent ?h d = (if d = hs_next h i then ev else hsEvent h d)" for d by (simp add: hs_log_def)
  have dot: "Counter d \<noteq> 0 \<and> Counter d \<le> hsClock ?h (Replica d)" if "hsEvent ?h d = Some ev'" for d ev'
  proof (cases "d = hs_next h i")
    case False
    with that old have "Counter d \<noteq> 0" "Counter d \<le> hsClock h (Replica d)" by (auto simp: new)
    with grow show ?thesis by (blast intro: order_trans)
  qed (use assms(2) in \<open>simp add: hs_next_def\<close>)
  have add: "length k + length v < 2 ^ 62" if "hsEvent ?h d = Some (EvAdd k v)" for d k v
    using that old assms(4) by (auto simp: new split: if_splits)
  have rem: "length k < 2 ^ 62 \<and> (\<forall>j. f j \<le> hsClock ?h j)" if "hsEvent ?h d = Some (EvRem k f)" for d k f
  proof (cases "d = hs_next h i")
    case False
    with that old have "length k < 2 ^ 62 \<and> (\<forall>j. f j \<le> hsClock h j)" by (simp add: new)
    with grow show ?thesis by (blast intro: order_trans)
  qed (use that assms(5) in simp)
  have "\<forall>j. hsClock ?h j \<noteq> 0 \<longrightarrow> j \<in> R" using old assms(3) by simp
  with old dot add rem show ?thesis unfolding hist_ok_def by blast
qed

text \<open>The clocks of a replica that has received only dots that were issued: its high-water marks, the context of a remove.\<close>

lemma HWM_in_cluster:
  assumes "hist_ok R h" "\<forall>j n. n \<in> seen rc j \<longrightarrow> n \<le> hsClock h j" "rc_inv rc"
  shows "in_cluster R (receivedClock_HWM rc)"
proof -
  have pos: "pos_map (receivedClock_HWM rc)" by (rule HWM_pos [OF assms(3)])
  have "j \<in> R" if j: "j \<in> fst ` set (receivedClock_HWM rc)" for j
  proof -
    have nz: "VClock_Get (receivedClock_HWM rc) j \<noteq> 0" using j pos_map_dom [OF pos] by (simp add: VClock_Get_def)
    then have "VClock_Get (receivedClock_HWM rc) j \<in> seen rc j" by (simp add: HWM_Get [OF assms(3)] seen_def word_gt_0)
    with assms(2) have "VClock_Get (receivedClock_HWM rc) j \<le> hsClock h j" by blast
    with nz have "hsClock h j \<noteq> 0" by auto
    with hist_okD(2) [OF assms(1)] show ?thesis by blast
  qed
  with pos show ?thesis by (auto simp: in_cluster_def)
qed

lemma remove_context_ok:
  assumes "hist_ok R h" "\<forall>j n. n \<in> seen (rReceived r) j \<longrightarrow> n \<le> hsClock h j" "rc_inv (rReceived r)"
    and "lcReplica (rLocal r) = i" "lcCounter (rLocal r) = hsClock h i" "i \<in> R" "hsClock h i + 1 \<noteq> 0"
  shows "in_cluster R (remove_context r)" "VClock_Get (remove_context r) j \<le> hsClock (hs_log h i ev) j"
proof -
  let ?h = "\<lambda>ev. hs_log h i ev"
  define rc where "rc = rReceived (fst (replica_nextDot r))"
  have eq: "rc = receivedClock_Record (rReceived r) i (hsClock h i + 1)" by (simp add: rc_def assms(4,5))
  have inv: "rc_inv rc" and sn: "seen rc = (seen (rReceived r))(i := insert (hsClock h i + 1) (seen (rReceived r) i))"
    unfolding eq using Record_spec [OF assms(3), of i "hsClock h i + 1"] assms(7) by simp_all
  have ctx: "remove_context r = receivedClock_HWM rc" by (simp add: remove_context_def rc_def)
  have le: "\<forall>j n. n \<in> seen rc j \<longrightarrow> n \<le> hsClock (?h ev) j" for ev
    using assms(2) next_counter(2) [OF assms(7)] by (auto simp: sn)
  have ok: "hist_ok R (?h None)" by (rule hs_log_ok [OF assms(1,7,6)]) simp_all
  show "in_cluster R (remove_context r)" unfolding ctx by (rule HWM_in_cluster [OF ok le inv])
  show "VClock_Get (remove_context r) j \<le> hsClock (?h ev) j"
  proof (cases "VClock_Get (remove_context r) j = 0")
    case False
    then have "VClock_Get (remove_context r) j \<in> seen rc j" by (simp add: ctx HWM_Get [OF inv] seen_def word_gt_0)
    with le show ?thesis by blast
  qed simp
qed

section \<open>What a replica holds\<close>

definition or_tomb :: "memoryBackend \<Rightarrow> bytes \<Rightarrow> Dot option" where
  "or_tomb b k = (case memoryBackend_GetTombstone b k of
     Some t \<Rightarrow> (case decodeRemoveTombstone t of Ok (d, _) \<Rightarrow> Some d | _ \<Rightarrow> None) | None \<Rightarrow> None)"

definition or_value :: "memoryBackend \<Rightarrow> bytes \<Rightarrow> bytes option" where
  "or_value b k = map_option fst (memoryBackend_GetEntry b k)"

definition hs_held :: "or_hist \<Rightarrow> cells \<Rightarrow> bytes \<Rightarrow> ReplicaID \<Rightarrow> u64 \<Rightarrow> bool" where
  "hs_held h v k j n \<longleftrightarrow> n \<le> fst (v k j) \<or> observed h k j n"

definition hs_wrote :: "or_hist \<Rightarrow> (bytes \<Rightarrow> bytes) \<Rightarrow> bytes \<Rightarrow> bytes \<Rightarrow> bool" where
  "hs_wrote h val k v \<longleftrightarrow> (\<exists>d w. hsEvent h d = Some (EvAdd k w) \<and> v = val w)"

text \<open>
  Against a history: live cells were added, observed counters were observed, the dots of tombstones are
  removes, values were written, and every add received is held, or a newer one of the same replica, unless it
  was observed.
\<close>

definition hs_holds :: "(bytes \<Rightarrow> bytes) \<Rightarrow> or_hist \<Rightarrow> receivedClock \<Rightarrow> memoryBackend \<Rightarrow> bool" where
  "hs_holds val h rc b \<longleftrightarrow>
     (\<forall>j n. n \<in> seen rc j \<longrightarrow> n \<le> hsClock h j) \<and>
     (\<forall>k j. fst (or_view b k j) \<noteq> 0 \<longrightarrow> added h k (mkDot j (fst (or_view b k j)))) \<and>
     (\<forall>k j. snd (or_view b k j) \<noteq> 0 \<longrightarrow> observed h k j (snd (or_view b k j))) \<and>
     (\<forall>k d. or_tomb b k = Some d \<longrightarrow> removed h k d) \<and>
     (\<forall>k v. or_value b k = Some v \<longrightarrow> hs_wrote h val k v) \<and>
     (\<forall>k j n. added h k (mkDot j n) \<longrightarrow> n \<in> seen rc j \<longrightarrow> hs_held h (or_view b) k j n)"

lemma hs_holdsI:
  assumes "\<And>j n. n \<in> seen rc j \<Longrightarrow> n \<le> hsClock h j"
    "\<And>k j. fst (or_view b k j) \<noteq> 0 \<Longrightarrow> added h k (mkDot j (fst (or_view b k j)))"
    "\<And>k j. snd (or_view b k j) \<noteq> 0 \<Longrightarrow> observed h k j (snd (or_view b k j))"
    "\<And>k d. or_tomb b k = Some d \<Longrightarrow> removed h k d"
    "\<And>k v. or_value b k = Some v \<Longrightarrow> hs_wrote h val k v"
    "\<And>k j n. added h k (mkDot j n) \<Longrightarrow> n \<in> seen rc j \<Longrightarrow> hs_held h (or_view b) k j n"
  shows "hs_holds val h rc b"
  using assms by (simp add: hs_holds_def)

lemma hs_holdsD:
  assumes "hs_holds val h rc b"
  shows "n \<in> seen rc j \<Longrightarrow> n \<le> hsClock h j"
    "fst (or_view b k j) \<noteq> 0 \<Longrightarrow> added h k (mkDot j (fst (or_view b k j)))"
    "snd (or_view b k j) \<noteq> 0 \<Longrightarrow> observed h k j (snd (or_view b k j))"
    "or_tomb b k = Some d \<Longrightarrow> removed h k d"
    "or_value b k = Some v \<Longrightarrow> hs_wrote h val k v"
    "added h k (mkDot j n) \<Longrightarrow> n \<in> seen rc j \<Longrightarrow> hs_held h (or_view b) k j n"
  using assms by (simp_all add: hs_holds_def)

lemma hs_holds_clock: "hs_holds val h rc b \<Longrightarrow> \<forall>j n. n \<in> seen rc j \<longrightarrow> n \<le> hsClock h j"
  using hs_holdsD(1) by blast

lemma hs_holds_grow:
  assumes "hs_holds val h rc b" "hs_grow h h'"
  shows "hs_holds val h' rc b"
proof (rule hs_holdsI)
  note old = hs_holdsD [OF assms(1)] and grow = grow_facts [OF assms(2)]
  show "n \<in> seen rc j \<Longrightarrow> n \<le> hsClock h' j" for j n using old(1) grow(5) by (blast intro: order_trans)
  show "fst (or_view b k j) \<noteq> 0 \<Longrightarrow> added h' k (mkDot j (fst (or_view b k j)))" for k j using old(2) grow(2) by blast
  show "snd (or_view b k j) \<noteq> 0 \<Longrightarrow> observed h' k j (snd (or_view b k j))" for k j using old(3) grow(1) by blast
  show "or_tomb b k = Some d \<Longrightarrow> removed h' k d" for k d using old(4) grow(3) by blast
  show "or_value b k = Some v \<Longrightarrow> hs_wrote h' val k v" for k v
    using old(5) assms(2) unfolding hs_wrote_def hs_grow_def by blast
  show "hs_held h' (or_view b) k j n" if "added h' k (mkDot j n)" "n \<in> seen rc j" for k j n
    using old(6) [OF _ that(2)] grow(1) grow(4) [of "mkDot j n"] old(1) [OF that(2)] that(1) by (auto simp: hs_held_def)
qed

text \<open>An add, local or delivered: the cells join dots that were issued for its key.\<close>

lemma hs_holds_add:
  assumes h: "hist_ok R h" "hs_holds val h rc b" and v: "or_view b' = code_step (OrAdd k f) (or_view b)"
    and t: "or_tomb b' = or_tomb b"
    and f: "\<And>j. f j \<noteq> 0 \<Longrightarrow> added h k (mkDot j (f j))"
    and w: "\<And>k' v. or_value b' k' = Some v \<Longrightarrow> or_value b k' = Some v \<or> hs_wrote h val k' v"
    and sn: "\<And>j n. n \<in> seen rc' j \<Longrightarrow> n \<in> seen rc j \<or> n = f j \<and> n \<noteq> 0"
  shows "hs_holds val h rc' b'"
proof (rule hs_holdsI)
  note old = hs_holdsD [OF h(2)]
  have fst: "fst (or_view b' k' j) = (if k' = k then keep (snd (or_view b k j)) (max (fst (or_view b k j)) (f j)) else fst (or_view b k' j))"
    and snd: "snd (or_view b' k' j) = snd (or_view b k' j)" for k' j
    by (simp_all add: v cell_add_def)
  show "or_tomb b' k' = Some d \<Longrightarrow> removed h k' d" for k' d using old(4) by (simp add: t)
  show "snd (or_view b' k' j) \<noteq> 0 \<Longrightarrow> observed h k' j (snd (or_view b' k' j))" for k' j using old(3) by (simp add: snd)
  show "or_value b' k' = Some v \<Longrightarrow> hs_wrote h val k' v" for k' v using w old(5) by blast
  show "n \<le> hsClock h j" if n: "n \<in> seen rc' j" for j n
    using sn [OF n] old(1) f [of j] hist_ok_dot(2) [OF h(1), of k "mkDot j (f j)"] by auto
  show "added h k' (mkDot j (fst (or_view b' k' j)))" if "fst (or_view b' k' j) \<noteq> 0" for k' j
    using that f [of j] old(2) [of k' j] by (auto simp: fst keep_def max_def split: if_splits)
  fix k' j n
  assume e: "added h k' (mkDot j n)" and n: "n \<in> seen rc' j"
  have n0: "n \<noteq> 0" using hist_ok_dot(1) [OF h(1) e] by simp
  have kept: "hs_held h (or_view b') k j n" if "n \<le> max (fst (or_view b k j)) (f j)"
  proof (cases "n \<le> fst (or_view b' k j)")
    case False
    then have lt: "n \<le> snd (or_view b k j)" using that by (auto simp: fst keep_def split: if_splits intro: order_trans)
    with n0 have "snd (or_view b k j) \<noteq> 0" by auto
    from observed_le [OF old(3) [OF this] lt] show ?thesis by (simp add: hs_held_def)
  qed (simp add: hs_held_def)
  from sn [OF n] show "hs_held h (or_view b') k' j n"
  proof
    assume "n \<in> seen rc j"
    note held = old(6) [OF e this]
    show ?thesis
    proof (cases "k' = k \<and> n \<le> fst (or_view b k j)")
      case True
      with kept show ?thesis by (simp add: le_max_iff_disj)
    qed (use held in \<open>auto simp: hs_held_def fst\<close>)
  next
    assume fj: "n = f j \<and> n \<noteq> 0"
    with added_unique(1) [OF _ e] f [of j] have "k' = k" by auto
    with fj kept show ?thesis by simp
  qed
qed

text \<open>A remove, local or delivered: every counter that the cells lose, and every one of the new context, is observed.\<close>

lemma hs_holds_rem:
  assumes h: "hist_ok R h" "hs_holds val h rc b"
    and other: "\<And>k'. k' \<noteq> k \<Longrightarrow> or_view b' k' = or_view b k'" "\<And>k'. k' \<noteq> k \<Longrightarrow> or_tomb b' k' = or_tomb b k'"
    and cell: "\<And>j. fst (or_view b' k j) = fst (or_view b k j) \<or> fst (or_view b' k j) = 0 \<and> (fst (or_view b k j) \<noteq> 0 \<longrightarrow> observed h k j (fst (or_view b k j)))"
    and ctx: "\<And>j. snd (or_view b' k j) \<noteq> 0 \<Longrightarrow> observed h k j (snd (or_view b' k j))"
    and tomb: "\<And>d. or_tomb b' k = Some d \<Longrightarrow> removed h k d"
    and w: "\<And>k' v. or_value b' k' = Some v \<Longrightarrow> \<exists>v'. or_value b k' = Some v' \<and> v \<in> {v', val v'}" and val: "\<And>v. val (val v) = val v"
    and sn: "\<And>j n. n \<in> seen rc' j \<Longrightarrow> n \<in> seen rc j \<or> removed h k (mkDot j n)"
  shows "hs_holds val h rc' b'"
proof (rule hs_holdsI)
  note old = hs_holdsD [OF h(2)]
  show "or_tomb b' k' = Some d \<Longrightarrow> removed h k' d" for k' d using old(4) other(2) tomb by (cases "k' = k") auto
  show "snd (or_view b' k' j) \<noteq> 0 \<Longrightarrow> observed h k' j (snd (or_view b' k' j))" for k' j
    using old(3) other(1) ctx by (cases "k' = k") auto
  show "hs_wrote h val k' v" if "or_value b' k' = Some v" for k' v
    using w [OF that] old(5) [of k'] unfolding hs_wrote_def by (metis insert_iff singletonD val)
  show "n \<le> hsClock h j" if n: "n \<in> seen rc' j" for j n
    using sn [OF n] old(1) hist_ok_dot(4) [OF h(1), of k "mkDot j n"] by auto
  show "added h k' (mkDot j (fst (or_view b' k' j)))" if "fst (or_view b' k' j) \<noteq> 0" for k' j
    using that cell [of j] other(1) old(2) [of k' j] by (cases "k' = k") auto
  fix k' j n
  assume e: "added h k' (mkDot j n)" and n: "n \<in> seen rc' j"
  then have "n \<in> seen rc j" using sn [OF n] added_unique(2) [OF e] by blast
  note held = old(6) [OF e this]
  show "hs_held h (or_view b') k' j n"
  proof (cases "k' = k")
    case True
    have "n \<noteq> 0" using hist_ok_dot(1) [OF h(1) e] by simp
    with held cell [of j] True show ?thesis by (auto simp: hs_held_def intro: observed_le)
  qed (use held other(1) in \<open>simp add: hs_held_def\<close>)
qed

text \<open>Garbage collection forgets contexts only.\<close>

lemma hs_holds_gc:
  assumes inv: "or_inv R b" and h: "hs_holds val h rc b"
  shows "hs_holds val h rc (or_gc b hwm)"
proof (rule hs_holdsI)
  note old = hs_holdsD [OF h]
  have mb: "mb_inv b" using inv by (simp add: or_inv_def)
  note t = or_gc_tombstone [OF mb, of hwm]
  have g: "memoryBackend_GetEntry (or_gc b hwm) k = memoryBackend_GetEntry b k" for k
    by (simp add: memoryBackend_GetEntry_def or_gc_entries)
  have ctx: "or_ctx (or_gc b hwm) k \<in> {or_ctx b k, []}" for k by (auto simp: or_ctx_def t split: option.splits)
  have fst: "fst (or_view (or_gc b hwm) k j) = fst (or_view b k j)" for k j by (simp add: or_view_def or_entry_def g)
  have snd: "snd (or_view (or_gc b hwm) k j) \<in> {snd (or_view b k j), 0}" for k j
    using ctx [of k] by (auto simp: or_view_def VClock_Get_def)
  show "n \<in> seen rc j \<Longrightarrow> n \<le> hsClock h j" for j n by (rule old(1))
  show "or_tomb (or_gc b hwm) k = Some d \<Longrightarrow> removed h k d" for k d
    using old(4) [of k d] by (auto simp: or_tomb_def t split: option.splits if_splits)
  show "snd (or_view (or_gc b hwm) k j) \<noteq> 0 \<Longrightarrow> observed h k j (snd (or_view (or_gc b hwm) k j))" for k j
    using snd [of k j] old(3) [of k j] by auto
  show "or_value (or_gc b hwm) k = Some v \<Longrightarrow> hs_wrote h val k v" for k v using old(5) by (simp add: or_value_def g)
  show "fst (or_view (or_gc b hwm) k j) \<noteq> 0 \<Longrightarrow> added h k (mkDot j (fst (or_view (or_gc b hwm) k j)))" for k j using old(2) by (simp add: fst)
  show "added h k (mkDot j n) \<Longrightarrow> n \<in> seen rc j \<Longrightarrow> hs_held h (or_view (or_gc b hwm)) k j n" for k j n
    using old(6) [of k j n] by (simp add: hs_held_def fst)
qed

end
