(* ===== verification/Exchange.thy ===== *)
theory Exchange
  imports Cluster
begin

text \<open>
  A round of anti-entropy (\<^verbatim>\<open>sendDigests\<close>, \<^verbatim>\<open>handleMessage\<close> and \<^verbatim>\<open>handleSyncDigest\<close> in \<^verbatim>\<open>replica.go\<close>) as steps of a cluster:
  one replica ticks, the other receives the digest and answers, and the answers are received in turn.
\<close>

section \<open>Runs without operations\<close>

inductive gossip :: "(ReplicaID \<Rightarrow> maphash) \<Rightarrow> 's mergeable \<Rightarrow> ('s, 'g) net \<Rightarrow> ('s, 'g) net \<Rightarrow> bool" for mh M s where
  gossip_none: "gossip mh M s s"
| gossip_tick: "\<lbrakk>gossip mh M s t; replica_sendDigests (mh i) M (netNodes t i) = Ok (r, out); ticking (netNodes t i)\<rbrakk> \<Longrightarrow>
    gossip mh M s (net_step i r out t)"
| gossip_receive: "\<lbrakk>gossip mh M s t; (i, p, m) \<in> netSent t;
    replica_handleMessage (mh p) M (netNodes t p) i (tmDot m) (tmDelta m) = Ok (r, out); rTransport (netNodes t p)\<rbrakk> \<Longrightarrow>
    gossip mh M s (net_step p r out t)"

lemma gossip_cluster: "gossip mh M s t \<Longrightarrow> cluster mh M fresh g0 local s \<Longrightarrow> cluster mh M fresh g0 local t"
  by (induction rule: gossip.induct) (auto intro: cluster_tick cluster_receive)

lemma gossip_ghost: "gossip mh M s t \<Longrightarrow> netGhost t = netGhost s"
  by (induction rule: gossip.induct) simp_all

lemma gossip_trans: "gossip mh M s t \<Longrightarrow> gossip mh M t u \<Longrightarrow> gossip mh M s u"
  by (rotate_tac, induction rule: gossip.induct) (auto intro: gossip_tick gossip_receive)

section \<open>The steps of an exchange\<close>

abbreviation plain_message :: "bytes \<Rightarrow> TransportMessage" where
  "plain_message b \<equiv> \<lparr>tmFrom = 0, tmDot = mkDot 0 0, tmDelta = b, tmAck = False\<rparr>"

text \<open>The hash that a replica reports.\<close>

definition replica_hash :: "maphash \<Rightarrow> 's replica \<Rightarrow> u64" where
  "replica_hash mh r = root_hash mh (mmSeed (rMerkle r)) (mm_entries (rMerkle r))"

lemma tick_digest:
  assumes "mm_inv mh (rMerkle r)" "rTopology r = Some ps" "j \<in> set ps" "rTransport r"
  obtains r' out where "replica_sendDigests mh M r = Ok (r', out)"
    "(j, plain_message (encodeAEDigest (replica_hash mh r) (receivedClock_HWM (rReceived r)))) \<in> set out" "rTransport r'"
proof -
  obtain mm where h: "merkleMap_Hash mh (rMerkle r) = Ok (mm, replica_hash mh r)"
    using Hash_spec [OF assms(1)] unfolding replica_hash_def by metis
  from assms(3) have "ps \<noteq> []" by auto
  with h assms that show ?thesis by (cases "mGCTombstones M"; cases "rPeerHWMs r = []") (auto simp: replica_sendDigests_def Let_def image_iff)
qed

text \<open>A replica keeps its transport.\<close>

lemma nextDot_transport [simp]: "rTransport (fst (replica_nextDot r)) = rTransport r"
  by (simp add: replica_nextDot_def localClock_Next_def Let_def)

lemma applyDelta_transport: "rTransport (fst (replica_applyDelta mh M r from dot d)) = rTransport r"
  by (auto simp: replica_applyDelta_def Let_def split_beta split: go.splits)

lemma apply_all_transport: "rTransport (apply_all mh M ds r) = rTransport r"
  by (induction ds arbitrary: r) (simp_all add: applyDelta_transport)

lemma digest_answer:
  assumes "mm_inv mh (rMerkle a)" "wf_map hwm" "length hwm < 2 ^ 32" "replica_hash mh a \<noteq> h"
  obtains a' where "replica_handleMessage mh M a i d (encodeAEDigest h hwm) =
      Ok (a', map (\<lambda>x. (i, plain_message (tagDelta x))) (mDeltasSince M (rData a) (sorted_map hwm)))"
proof -
  obtain mm where l: "merkleMap_Hash mh (rMerkle a) = Ok (mm, replica_hash mh a)"
    using Hash_spec [OF assms(1)] unfolding replica_hash_def by metis
  let ?d = "encodeAEDigest h hwm"
  have e: "?d = msgAEDigest # drop 1 ?d" by (simp add: encodeAEDigest_def)
  have "\<exists>a'. replica_handleMessage mh M a i d (msgAEDigest # drop 1 ?d) =
      Ok (a', map (\<lambda>x. (i, plain_message (tagDelta x))) (mDeltasSince M (rData a) (sorted_map hwm)))"
    using l assms(4) decodeAEDigest_encode [OF assms(2,3), of h]
    by (simp add: replica_handleMessage_def replica_handleSyncDigest_def Let_def msgAEDigest_def msgDelta_def)
  with that e show ?thesis by metis
qed

text \<open>Deltas in flight, received one after the other, by a replica that refuses none of them with a panic.\<close>

lemma answers_received:
  assumes "\<forall>d \<in> set ds. (j, i, plain_message (tagDelta d)) \<in> netSent s" "Q (netNodes s i)" "rTransport (netNodes s i)"
    and Q: "\<And>r d. d \<in> set ds \<Longrightarrow> Q r \<Longrightarrow> Q (fst (replica_applyDelta (mh i) M r 0 (mkDot 0 0) d)) \<and>
      snd (replica_applyDelta (mh i) M r 0 (mkDot 0 0) d) \<noteq> Panic"
  shows "\<exists>t. gossip mh M s t \<and> netNodes t = (netNodes s)(i := apply_all (mh i) M ds (netNodes s i)) \<and> netSent s \<subseteq> netSent t"
  using assms
proof (induction ds rule: rev_induct)
  case Nil
  then show ?case by (auto intro: gossip_none)
next
  case (snoc d ds)
  have "\<exists>t. gossip mh M s t \<and> netNodes t = (netNodes s)(i := apply_all (mh i) M ds (netNodes s i)) \<and> netSent s \<subseteq> netSent t"
    by (rule snoc.IH) (use snoc.prems in auto)
  then obtain t where t: "gossip mh M s t" "netNodes t = (netNodes s)(i := apply_all (mh i) M ds (netNodes s i))" "netSent s \<subseteq> netSent t"
    by blast
  let ?r = "apply_all (mh i) M ds (netNodes s i)"
  have "set xs \<subseteq> set ds \<Longrightarrow> Q r \<Longrightarrow> Q (apply_all (mh i) M xs r)" for xs r
    using snoc.prems(4) by (induction xs arbitrary: r) auto
  from this [of ds "netNodes s i"] snoc.prems(2) have "Q ?r" by simp
  then have np: "snd (replica_applyDelta (mh i) M ?r 0 (mkDot 0 0) d) \<noteq> Panic" using snoc.prems(4) by simp
  let ?m = "plain_message (tagDelta d)"
  have "(j, i, ?m) \<in> netSent t" using snoc.prems(1) t(3) by auto
  moreover have "replica_handleMessage (mh i) M (netNodes t i) j (tmDot ?m) (tmDelta ?m) =
      Ok (fst (replica_applyDelta (mh i) M ?r 0 (mkDot 0 0) d), [])"
    using np applyDelta_from [of "mh i" M ?r j "mkDot 0 0" d]
    by (auto simp: t(2) tagDelta_def replica_handleMessage_def split_beta split: go.splits)
  ultimately have "gossip mh M s (net_step i (fst (replica_applyDelta (mh i) M ?r 0 (mkDot 0 0) d)) [] t)"
    by (rule gossip_receive [OF t(1)]) (use snoc.prems(3) in \<open>simp add: t(2) apply_all_transport\<close>)
  with t(2,3) show ?case by (intro exI [of _ "net_step i (fst (replica_applyDelta (mh i) M ?r 0 (mkDot 0 0) d)) [] t"]) auto
qed

text \<open>
  The whole round, when the hashes differ: \<open>i\<close> ticks and becomes \<open>r\<close>, \<open>j\<close> answers its digest, and \<open>i\<close> has applied what
  \<open>j\<close> selects for its high-water marks.
\<close>

lemma exchange_run:
  assumes "i \<noteq> j" "mm_inv (mh i) (rMerkle (netNodes s i))" "mm_inv (mh j) (rMerkle (netNodes s j))"
    and "rTopology (netNodes s i) = Some ps" "j \<in> set ps" "ticking (netNodes s i)" "rTransport (netNodes s j)"
    and "replica_hash (mh j) (netNodes s j) \<noteq> replica_hash (mh i) (netNodes s i)"
    and "wf_map hwm" "length hwm < 2 ^ 32" "hwm = receivedClock_HWM (rReceived (netNodes s i))"
    and Q: "\<And>r out. replica_sendDigests (mh i) M (netNodes s i) = Ok (r, out) \<Longrightarrow> Q r"
    and step: "\<And>r d. d \<in> set (mDeltasSince M (rData (netNodes s j)) (sorted_map hwm)) \<Longrightarrow> Q r \<Longrightarrow>
      Q (fst (replica_applyDelta (mh i) M r 0 (mkDot 0 0) d)) \<and> snd (replica_applyDelta (mh i) M r 0 (mkDot 0 0) d) \<noteq> Panic"
  obtains s1 t where "gossip mh M s s1" "gossip mh M s t" "netNodes s1 j = netNodes s j" "rReceived (netNodes s1 i) = rReceived (netNodes s i)"
    "netNodes t i = apply_all (mh i) M (mDeltasSince M (rData (netNodes s1 j)) (sorted_map hwm)) (netNodes s1 i)"
proof -
  let ?h = "replica_hash (mh i) (netNodes s i)" and ?ds = "mDeltasSince M (rData (netNodes s j)) (sorted_map hwm)"
  obtain r out where r: "replica_sendDigests (mh i) M (netNodes s i) = Ok (r, out)" "(j, plain_message (encodeAEDigest ?h hwm)) \<in> set out" "rTransport r"
    using tick_digest [OF assms(2,4,5)] assms(6) unfolding assms(11) ticking_def by metis
  let ?s1 = "net_step i r out s"
  have s1: "gossip mh M s ?s1" using gossip_tick [of mh M s s i r out] gossip_none r(1) assms(6) by blast
  obtain a where a: "replica_handleMessage (mh j) M (netNodes s j) i (mkDot 0 0) (encodeAEDigest ?h hwm) =
      Ok (a, map (\<lambda>x. (i, plain_message (tagDelta x))) ?ds)"
    by (rule digest_answer [OF assms(3,9,10,8)])
  let ?s2 = "net_step j a (map (\<lambda>x. (i, plain_message (tagDelta x))) ?ds) ?s1"
  have s2: "gossip mh M s ?s2"
    by (rule gossip_receive [OF s1, of i j "plain_message (encodeAEDigest ?h hwm)"]) (use r(2) a assms(1,7) in simp_all)
  have "\<exists>t. gossip mh M ?s2 t \<and> netNodes t = (netNodes ?s2)(i := apply_all (mh i) M ?ds (netNodes ?s2 i)) \<and> netSent ?s2 \<subseteq> netSent t"
    by (rule answers_received [where Q = Q and j = j]) (use Q [OF r(1)] r(3) step assms(1) in auto)
  then obtain t where t: "gossip mh M ?s2 t" "netNodes t i = apply_all (mh i) M ?ds r" using assms(1) by auto
  show ?thesis
    by (rule that [of ?s1 t]) (use t(2) assms(1) sendDigests_sends(2) [OF r(1)] s1 gossip_trans [OF s2 t(1)] in simp_all)
qed

end
