(* ===== verification/ObservedCluster.thy ===== *)
theory ObservedCluster
  imports Histories Exchange
begin

text \<open>
  What the observed-remove set and the observed-remove map have in common in a cluster of fewer than \<open>2 ^ 32\<close> replicas,
  as the locale \<open>observed_cluster\<close>: their deltas are the two of \<open>or_delta\<close>, their operations write, drop or leave the entry
  of a key, and every storage is a backend of dot maps and contexts. In every reachable state an entry was added, and a
  replica that has received an add holds it as long as no remove has observed it.
\<close>

section \<open>Deltas and their effect\<close>

datatype or_delta = OrPut bytes bytes DotMap | OrDrop bytes Dot VClock

fun or_dots :: "or_delta \<Rightarrow> Dot set" where
  "or_dots (OrPut k v dm) = (\<lambda>(j, n). mkDot j n) ` set dm"
| "or_dots (OrDrop k d c) = {d}"

fun or_size :: "or_delta \<Rightarrow> nat" where
  "or_size (OrPut k v dm) = length k + length v"
| "or_size (OrDrop k d c) = length k"

fun or_fit :: "(bytes \<Rightarrow> bytes) \<Rightarrow> ReplicaID set \<Rightarrow> or_delta \<Rightarrow> bool" where
  "or_fit val R (OrPut k v dm) \<longleftrightarrow> in_cluster R dm \<and> pos_map dm \<and> val v = v"
| "or_fit val R (OrDrop k d c) \<longleftrightarrow> in_cluster R c"

fun or_write :: "(DotMap \<Rightarrow> bytes \<Rightarrow> bytes \<Rightarrow> DotMap \<Rightarrow> bytes) \<Rightarrow> (bytes \<Rightarrow> bytes) \<Rightarrow> or_delta \<Rightarrow> memoryBackend \<Rightarrow> memoryBackend" where
  "or_write win val (OrPut k v dm) b = or_add (win (sorted_map dm) v) b k v (sorted_map dm)"
| "or_write win val (OrDrop k d c) b = or_remove val b k (tomb_dot b k d) (sorted_map c)"

definition seen_entry :: "VClock \<Rightarrow> memEntry \<Rightarrow> (bytes \<times> DotMap) option" where
  "seen_entry hwm e = map_option (\<lambda>dm. (meValue e, dm)) (seen_dots hwm e)"

definition or_since :: "memoryBackend \<Rightarrow> VClock \<Rightarrow> or_delta list" where
  "or_since b hwm =
     map (\<lambda>(k, v, dm). OrPut k v dm) (pick (seen_entry hwm) (mbEntries b)) @
     map (\<lambda>(k, d, c). OrDrop k d c) (pick (seen_tomb hwm) (mbTombstones b))"

lemma pick_entries:
  assumes "or_inv R b"
  shows "map_of (pick (seen_entry hwm) (mbEntries b)) k = (case (or_value b k, or_entry b k) of
      (Some v, Some dm) \<Rightarrow> if \<exists>(r, c) \<in> set dm. c > VClock_Get hwm r then Some (v, dm) else None | _ \<Rightarrow> None)"
    and "distinct (map fst (pick (seen_entry hwm) (mbEntries b)))"
proof -
  have d: "distinct (map fst (mbEntries b))" using assms by (simp add: or_inv_def mb_inv_def wf_map_def)
  then show "distinct (map fst (pick (seen_entry hwm) (mbEntries b)))" by (rule distinct_pick)
  show "map_of (pick (seen_entry hwm) (mbEntries b)) k = (case (or_value b k, or_entry b k) of
      (Some v, Some dm) \<Rightarrow> if \<exists>(r, c) \<in> set dm. c > VClock_Get hwm r then Some (v, dm) else None | _ \<Rightarrow> None)"
    by (auto simp: map_of_pick [OF d] or_entry_def or_value_def memoryBackend_GetEntry_def seen_entry_def seen_dots_def
        bind_eq_None_conv split: option.splits go.splits Option.bind_split)
qed

text \<open>Where values come from.\<close>

lemma or_value_add:
  assumes "mb_inv b" "or_value (or_add w b k v rd) k' = Some u"
  shows "or_value b k' = Some u \<or> k' = k \<and> (u = v \<or> (\<exists>lv ld. or_value b k = Some lv \<and> u = w lv ld))"
  using assms by (auto simp: or_value_def or_add_def memory.laws Let_def split: prod.splits option.splits go.splits if_splits)

lemma or_value_remove:
  assumes "mb_inv b" "or_value (or_remove val b k d c) k' = Some u"
  shows "\<exists>v. or_value b k' = Some v \<and> u \<in> {v, val v}"
  using assms by (auto simp: or_value_def or_remove_def memory.laws Let_def split: option.splits go.splits prod.splits if_splits)

lemma or_since_sorted: "or_since b (sorted_map hwm) = or_since b hwm"
proof -
  have "seen_entry (sorted_map hwm) = seen_entry hwm" by (simp add: fun_eq_iff seen_entry_def seen_dots_def split: go.splits)
  moreover have "seen_tomb (sorted_map hwm) = seen_tomb hwm" by (auto simp: fun_eq_iff seen_tomb_def split: go.splits)
  ultimately show ?thesis by (simp add: or_since_def)
qed

section \<open>Deltas in flight\<close>

fun hist_sent :: "(bytes \<Rightarrow> bytes) \<Rightarrow> ReplicaID set \<Rightarrow> or_hist \<Rightarrow> or_delta \<Rightarrow> bool" where
  "hist_sent val R h (OrPut k v dm) \<longleftrightarrow> in_cluster R dm \<and> pos_map dm \<and> hs_wrote h val k v \<and>
     (\<forall>j. mget0 dm j \<noteq> 0 \<longrightarrow> added h k (mkDot j (mget0 dm j)))"
| "hist_sent val R h (OrDrop k d c) \<longleftrightarrow> in_cluster R c \<and> removed h k d \<and>
     (\<forall>j. VClock_Get c j \<noteq> 0 \<longrightarrow> observed h k j (VClock_Get c j))"

lemma hist_sent_grow:
  assumes "hist_sent val R h x" "hs_grow h h'"
  shows "hist_sent val R h' x"
proof (cases x)
  case (OrPut k v dm)
  have "hs_wrote h val k v" using assms(1) OrPut by simp
  then have "hs_wrote h' val k v" using assms(2) unfolding hs_wrote_def hs_grow_def by blast
  with assms(1) OrPut grow_facts(2) [OF assms(2)] show ?thesis by simp
qed (use assms grow_facts [OF assms(2)] in simp)

text \<open>What an answer selects is in order.\<close>

lemma or_since_sent:
  assumes inv: "or_inv R b" and h: "hs_holds val h rc b" and x: "x \<in> set (or_since b hwm)"
  shows "hist_sent val R h x"
proof -
  consider k v dm where "x = OrPut k v dm" "(k, v, dm) \<in> set (pick (seen_entry hwm) (mbEntries b))"
    | k d c where "x = OrDrop k d c" "(k, d, c) \<in> set (pick (seen_tomb hwm) (mbTombstones b))"
    using x by (auto simp: or_since_def)
  then show ?thesis
  proof cases
    case 1
    then have "map_of (pick (seen_entry hwm) (mbEntries b)) k = Some (v, dm)"
      using pick_entries(2) [OF inv] by (simp add: map_of_is_SomeI)
    then have e: "or_value b k = Some v" "or_entry b k = Some dm"
      using pick_entries(1) [OF inv, of hwm k] by (auto split: option.splits if_splits)
    then obtain meta where g: "memoryBackend_GetEntry b k = Some (v, meta)" by (auto simp: or_value_def)
    have dm: "in_cluster R dm" "pos_map dm"
    proof -
      obtain dm' where "or_entry b k = Some dm'" "in_cluster R dm'" "wf_map dm'"
          "\<And>r c. (r, c) \<in> set dm' \<Longrightarrow> VClock_Get (or_ctx b k) r < c"
        using or_entry_inv [OF inv g] by metis
      with e(2) show "in_cluster R dm" "pos_map dm" by (force simp: pos_map_def)+
    qed
    have "mget0 dm j = fst (or_view b k j)" for j by (simp add: or_view_def e)
    with dm 1 hs_holdsD(2) [OF h, of k] hs_holdsD(5) [OF h e(1)] show ?thesis by simp
  next
    case 2
    then have "map_of (pick (seen_tomb hwm) (mbTombstones b)) k = Some (d, c)"
      using pick_tombs(2) [OF inv] by (simp add: map_of_is_SomeI)
    from pick_tombs(1) [OF inv this] have c: "or_ctx b k = c" "in_cluster R c" "or_tomb b k = Some d"
      by (auto simp: or_tomb_def)
    then have "VClock_Get c j = snd (or_view b k j)" for j by (simp add: or_view_def)
    with c 2 hs_holdsD(3) [OF h, of k] hs_holdsD(4) [OF h c(3)] show ?thesis by simp
  qed
qed

text \<open>A live cell that the high-water marks do not cover is in the answer.\<close>

lemma or_since_live:
  assumes inv: "or_inv R b" and c: "fst (or_view b k j) = n" "n \<noteq> 0" and lt: "VClock_Get hwm j < n"
  shows "\<exists>x \<in> set (or_since b hwm). mkDot j n \<in> or_dots x"
proof -
  obtain dm where e: "or_entry b k = Some dm" "mget0 dm j = n"
    using c by (auto simp: or_view_def split: option.splits)
  then obtain v where v: "or_value b k = Some v" by (auto simp: or_entry_def or_value_def split: option.splits)
  have mem: "(j, n) \<in> set dm" using e(2) c(2) by (auto simp: mget0_def split: option.splits dest: map_of_SomeD)
  with lt e(1) v have "map_of (pick (seen_entry hwm) (mbEntries b)) k = Some (v, dm)"
    using pick_entries(1) [OF inv, of hwm k] by auto
  then have "(k, v, dm) \<in> set (pick (seen_entry hwm) (mbEntries b))" by (rule map_of_SomeD)
  then have "OrPut k v dm \<in> set (or_since b hwm)" by (force simp: or_since_def)
  with mem show ?thesis by force
qed

text \<open>A delivered delta.\<close>

lemma hs_holds_write:
  assumes h: "hist_ok R h" "hs_holds val h rc b" and inv: "or_inv R b" and x: "hist_sent val R h x"
    and val: "\<And>v. val (val v) = val v" and win: "\<And>rd v lv ld. val v = v \<Longrightarrow> win rd v lv ld \<in> {v, lv}"
    and sn: "\<And>j n. n \<in> seen rc' j \<Longrightarrow> n \<in> seen rc j \<or> n \<noteq> 0 \<and> mkDot j n \<in> or_dots x"
  shows "or_inv R (or_write win val x b) \<and> hs_holds val h rc' (or_write win val x b)"
proof -
  note card = hist_okD(1) [OF h(1)]
  have mb: "mb_inv b" using inv by (simp add: or_inv_def)
  show ?thesis
  proof (cases x)
    case (OrPut k v dm)
    have dm: "in_cluster R dm" "pos_map dm" "hs_wrote h val k v" "\<And>j. mget0 dm j \<noteq> 0 \<Longrightarrow> added h k (mkDot j (mget0 dm j))"
      using x OrPut by auto
    have mem: "(j, n) \<in> set dm \<Longrightarrow> n = mget0 dm j" for j n using dm(2) by (simp add: pos_map_wf wf_map_mget0_mem)
    let ?b = "or_add (win (sorted_map dm) v) b k v (sorted_map dm)"
    have "in_cluster R (sorted_map dm)" "pos_map (sorted_map dm)" using dm(1,2) by simp_all
    note st = or_add_step [OF inv card this, of "win (sorted_map dm) v" k v]
    have "hs_holds val h rc' ?b"
    proof (rule hs_holds_add [OF h _ _ dm(4)])
      show "or_view ?b = code_step (OrAdd k (mget0 dm)) (or_view b)" using st by simp
      show "or_tomb ?b = or_tomb b" using or_add_frame [OF mb] by (simp add: or_tomb_def fun_eq_iff)
      show "n \<in> seen rc' j \<Longrightarrow> n \<in> seen rc j \<or> n = mget0 dm j \<and> n \<noteq> 0" for j n
        using sn [of n j] mem [of j n] by (auto simp: OrPut)
      fix k' u
      assume "or_value ?b k' = Some u"
      then have "or_value b k' = Some u \<or> k' = k \<and> u = v"
        using or_value_add [OF mb] win [of v "sorted_map dm"] val dm(3) unfolding hs_wrote_def by (metis insert_iff singletonD)
      with dm(3) show "or_value b k' = Some u \<or> hs_wrote h val k' u" by auto
    qed
    with st show ?thesis by (simp add: OrPut)
  next
    case (OrDrop k d c)
    have c: "in_cluster R c" "removed h k d" "\<And>j. VClock_Get c j \<noteq> 0 \<Longrightarrow> observed h k j (VClock_Get c j)"
      using x OrDrop by auto
    let ?b = "or_remove val b k (tomb_dot b k d) (sorted_map c)"
    note st = or_remove_step [OF inv card in_cluster_sorted [OF c(1)], of val k "tomb_dot b k d"]
    note t = or_remove_tombstone [OF mb, of val k "tomb_dot b k d" "sorted_map c"]
    have td: "or_tomb ?b k = Some (tomb_dot b k d)"
      by (simp add: or_tomb_def t decode_cluster(2) [OF in_cluster_sorted [OF c(1)] card])
    have old: "tomb_dot b k d = d \<or> or_tomb b k = Some (tomb_dot b k d)"
      by (auto simp: tomb_dot_def or_tomb_def split: option.splits go.splits)
    have lost: "observed h k j n" if "n \<le> VClock_Get c j" "n \<noteq> 0" for j n
    proof (rule observed_le [OF c(3) that(1)])
      show "VClock_Get c j \<noteq> 0" using that by auto
    qed
    have "hs_holds val h rc' ?b"
    proof (rule hs_holds_rem [OF h _ _ _ _ _ or_value_remove [OF mb] val, of k])
      show "k' \<noteq> k \<Longrightarrow> or_view ?b k' = or_view b k'" "k' \<noteq> k \<Longrightarrow> or_tomb ?b k' = or_tomb b k'" for k'
        using st by (simp_all add: or_tomb_def t)
      show "fst (or_view ?b k j) = fst (or_view b k j) \<or>
          fst (or_view ?b k j) = 0 \<and> (fst (or_view b k j) \<noteq> 0 \<longrightarrow> observed h k j (fst (or_view b k j)))" for j
        using st lost by (auto simp: keep_def not_less)
      show "snd (or_view ?b k j) \<noteq> 0 \<Longrightarrow> observed h k j (snd (or_view ?b k j))" for j using st c(3) by simp
      show "or_tomb ?b k = Some d' \<Longrightarrow> removed h k d'" for d' using td old c(2) hs_holdsD(4) [OF h(2)] by auto
      show "n \<in> seen rc' j \<Longrightarrow> n \<in> seen rc j \<or> removed h k (mkDot j n)" for j n using sn [of n j] c(2) by (auto simp: OrDrop)
    qed
    with st show ?thesis by (simp add: OrDrop)
  qed
qed

section \<open>Operations of one replica\<close>

text \<open>What the remover of a key sees: its cells and the context of the remove.\<close>

definition or_sees :: "memoryBackend \<Rightarrow> VClock \<Rightarrow> bytes \<Rightarrow> ReplicaID \<Rightarrow> u64" where
  "or_sees b ctx k j = max (fst (or_view b k j)) (VClock_Get ctx j)"

text \<open>
  The three effects of an operation under the next dot: none, when the codec refuses; an entry with the new dot beside the
  old ones; or no entry and a tombstone with the context. \<open>q\<close> is the delta that is sent.
\<close>

inductive or_effect :: "(bytes \<Rightarrow> bytes) \<Rightarrow> ReplicaID \<Rightarrow> VClock \<Rightarrow> or_hist \<Rightarrow> memoryBackend \<Rightarrow> or_hist \<Rightarrow> memoryBackend \<Rightarrow> or_delta option \<Rightarrow> bool"
  for val i ctx h b where
  effect_none: "or_effect val i ctx h b (hs_log h i None) b None"
| effect_add: "length k + length v < 2 ^ 62 \<Longrightarrow>
    or_effect val i ctx h b (hs_log h i (Some (EvAdd k v)))
      (memoryBackend_PutEntry b k (val v) (encodeDotMap (or_overwrite b k (hs_next h i))))
      (Some (OrPut k (val v) [(i, hsClock h i + 1)]))"
| effect_remove: "length k < 2 ^ 62 \<Longrightarrow>
    or_effect val i ctx h b (hs_log h i (Some (EvRem k (or_sees b ctx k)))) (or_drop b k (hs_next h i) ctx)
      (Some (OrDrop k (hs_next h i) ctx))"

lemma or_effect_add:
  assumes h: "hist_ok R h" "hs_holds val h rc b" and inv: "or_inv R b" and st: "i \<in> R" "hsClock h i + 1 \<noteq> 0"
    and k: "length k + length v < 2 ^ 62"
    and sn: "\<And>j n. n \<in> seen rc' j \<Longrightarrow> n \<in> seen rc j \<or> j = i \<and> n = hsClock h i + 1"
  defines "h' \<equiv> hs_log h i (Some (EvAdd k v))"
    and "b' \<equiv> memoryBackend_PutEntry b k (val v) (encodeDotMap (or_overwrite b k (hs_next h i)))"
  shows "hist_ok R h'" "or_inv R b'" "hs_holds val h' rc' b'" "hist_sent val R h' (OrPut k (val v) [(i, hsClock h i + 1)])"
proof -
  let ?n = "hsClock h i + 1"
  note lt = next_counter(1) [OF st(2)] and old = hs_holdsD [OF h(2)]
  have mb: "mb_inv b" using inv by (simp add: or_inv_def)
  have f: "fst (or_view b k i) < ?n"
  proof (cases "fst (or_view b k i) = 0")
    case False
    from hist_ok_dot(2) [OF h(1) old(2) [OF False]] lt show ?thesis by auto
  qed (use st(2) in \<open>simp add: word_gt_0\<close>)
  have o: "snd (or_view b k i) < ?n"
  proof (cases "snd (or_view b k i) = 0")
    case False
    from hist_okD(6) [OF h(1) old(3) [OF False]] lt show ?thesis by auto
  qed (use st(2) in \<open>simp add: word_gt_0\<close>)
  have ad: "or_inv R b' \<and> or_view b' = code_step (OrAdd k (mget0 [(i, ?n)])) (or_view b)"
    using or_overwrite_step [OF inv hist_okD(1) [OF h(1)], of "hs_next h i" k "val v"] st(1) f o by (simp add: b'_def hs_next_def)
  then show "or_inv R b'" by blast
  show ok: "hist_ok R h'" unfolding h'_def by (rule hs_log_ok [OF h(1) st(2,1)]) (use k in simp_all)
  have g: "hs_grow h h'" unfolding h'_def by (rule hs_log_grow [OF h(1) st(2)])
  have ev: "hsEvent h' (hs_next h i) = Some (EvAdd k v)" by (simp add: h'_def)
  have dot: "added h' k (mkDot j (mget0 [(i, ?n)] j))" if "mget0 [(i, ?n)] j \<noteq> 0" for j
  proof -
    have "mkDot j (mget0 [(i, ?n)] j) = hs_next h i" using that by (auto simp: mget0_Cons hs_next_def split: if_splits)
    with ev show ?thesis by (simp add: added_def)
  qed
  have wrote: "hs_wrote h' val k (val v)" unfolding hs_wrote_def using ev by blast
  show "hs_holds val h' rc' b'"
  proof (rule hs_holds_add [OF ok hs_holds_grow [OF h(2) g] _ _ dot])
    show "or_view b' = code_step (OrAdd k (mget0 [(i, ?n)])) (or_view b)" using ad by blast
    show "or_tomb b' = or_tomb b" by (simp add: b'_def or_tomb_def memory.laws [OF mb] fun_eq_iff)
    show "n \<in> seen rc' j \<Longrightarrow> n \<in> seen rc j \<or> n = mget0 [(i, ?n)] j \<and> n \<noteq> 0" for j n
      using sn [of n j] st(2) by (auto simp: mget0_Cons)
    show "or_value b' k' = Some u \<Longrightarrow> or_value b k' = Some u \<or> hs_wrote h' val k' u" for k' u
      using wrote by (auto simp: b'_def or_value_def memory.laws [OF mb] split: if_splits)
  qed
  show "hist_sent val R h' (OrPut k (val v) [(i, ?n)])"
    using dot wrote st by (simp add: in_cluster_def wf_map_def pos_map_def)
qed

lemma or_effect_remove:
  assumes h: "hist_ok R h" "hs_holds val h rc b" and inv: "or_inv R b" and st: "i \<in> R" "hsClock h i + 1 \<noteq> 0"
    and k: "length k < 2 ^ 62" and c: "in_cluster R ctx" "\<And>j ev. VClock_Get ctx j \<le> hsClock (hs_log h i ev) j"
    and val: "\<And>v. val (val v) = val v"
    and sn: "\<And>j n. n \<in> seen rc' j \<Longrightarrow> n \<in> seen rc j \<or> j = i \<and> n = hsClock h i + 1"
  defines "h' \<equiv> hs_log h i (Some (EvRem k (or_sees b ctx k)))" and "b' \<equiv> or_drop b k (hs_next h i) ctx"
  shows "hist_ok R h'" "or_inv R b'" "hs_holds val h' rc' b'" "hist_sent val R h' (OrDrop k (hs_next h i) ctx)"
proof -
  let ?d = "hs_next h i"
  note old = hs_holdsD [OF h(2)]
  note rem = or_drop_step [OF inv hist_okD(1) [OF h(1)] c(1), of k ?d, folded b'_def]
  then show "or_inv R b'" by blast
  have g: "hs_grow h h'" unfolding h'_def by (rule hs_log_grow [OF h(1) st(2)])
  have c': "VClock_Get ctx j \<le> hsClock h' j" for j unfolding h'_def by (rule c(2))
  have sees: "or_sees b ctx k j \<le> hsClock h' j" for j
  proof (cases "fst (or_view b k j) = 0")
    case False
    from hist_ok_dot(2) [OF h(1) old(2) [OF False]] have "fst (or_view b k j) \<le> hsClock h j" by simp
    then have "fst (or_view b k j) \<le> hsClock h' j" using grow_facts(5) [OF g] by (rule order_trans)
    with c' show ?thesis by (simp add: or_sees_def)
  qed (use c' in \<open>simp add: or_sees_def max_def\<close>)
  show ok: "hist_ok R h'"
    unfolding h'_def by (rule hs_log_ok [OF h(1) st(2,1)]) (use k sees in \<open>auto simp: h'_def\<close>)
  have ev: "hsEvent h' ?d = Some (EvRem k (or_sees b ctx k))" by (simp add: h'_def)
  then have rd: "removed h' k ?d" by (simp add: removed_def)
  have obs: "observed h' k j n" if "n \<le> or_sees b ctx k j" for j n unfolding observed_def using ev that by blast
  have td: "or_tomb b' k' = (if k' = k then Some ?d else or_tomb b k')" for k'
    using rem(2) by (simp add: or_tomb_def decode_cluster(2) [OF c(1) hist_okD(1) [OF h(1)]])
  show "hs_holds val h' rc' b'"
  proof (rule hs_holds_rem [OF ok hs_holds_grow [OF h(2) g] _ _ _ _ _ _ val, of k])
    show "k' \<noteq> k \<Longrightarrow> or_view b' k' = or_view b k'" "k' \<noteq> k \<Longrightarrow> or_tomb b' k' = or_tomb b k'" for k'
      using rem by (simp_all add: td)
    show "fst (or_view b' k j) = fst (or_view b k j) \<or>
        fst (or_view b' k j) = 0 \<and> (fst (or_view b k j) \<noteq> 0 \<longrightarrow> observed h' k j (fst (or_view b k j)))" for j
      using rem obs by (simp add: or_sees_def)
    show "observed h' k j (snd (or_view b' k j))" for j using rem obs by (simp add: or_sees_def)
    show "or_tomb b' k = Some d \<Longrightarrow> removed h' k d" for d using rd by (simp add: td)
    show "or_value b' k' = Some v \<Longrightarrow> \<exists>v'. or_value b k' = Some v' \<and> v \<in> {v', val v'}" for k' v
      using rem(3) by (auto simp: or_value_def split: if_splits)
    show "n \<in> seen rc' j \<Longrightarrow> n \<in> seen rc j \<or> removed h' k (mkDot j n)" for j n
      using sn [of n j] rd by (auto simp: hs_next_def)
  qed
  show "hist_sent val R h' (OrDrop k ?d ctx)" using c(1) rd obs by (simp add: or_sees_def)
qed

section \<open>The contract\<close>

text \<open>
  \<open>bk\<close> is the backend of a storage and \<open>cod\<close> its codec; \<open>enc\<close> encodes a delta, \<open>win\<close> chooses the value of two entries that
  meet. The cluster is one of \<open>R\<close>, with the codec \<open>c\<close>; \<open>fresh\<close> are the new replicas and \<open>local\<close> their operations.
\<close>

locale observed_cluster = storage M "\<lambda>s. mb_inv (bk s)" for M :: "'s mergeable" and bk :: "'s \<Rightarrow> memoryBackend" +
  fixes enc :: "or_delta \<Rightarrow> bytes" and win :: "DotMap \<Rightarrow> bytes \<Rightarrow> bytes \<Rightarrow> DotMap \<Rightarrow> bytes" and val :: "bytes \<Rightarrow> bytes"
    and cod :: "'s \<Rightarrow> 'c" and R :: "ReplicaID set" and mh :: "ReplicaID \<Rightarrow> maphash" and c :: 'c
    and fresh :: "ReplicaID \<Rightarrow> 's replica \<Rightarrow> bool"
    and local :: "ReplicaID \<Rightarrow> or_hist \<Rightarrow> 's replica \<Rightarrow> or_hist \<Rightarrow> 's replica \<Rightarrow> sends \<Rightarrow> bool"
  assumes val_idem: "val (val v) = val v" and val_length: "length (val v) \<le> length v" and win_one: "val v = v \<Longrightarrow> win rd v lv ld \<in> {v, lv}"
    and delta_ok: "card R < 2 ^ 32 \<Longrightarrow> or_fit val R x \<Longrightarrow> or_size x < 2 ^ 62 \<Longrightarrow>
      \<exists>info. mParseDelta M s (enc x) = (s, Ok info) \<and> set (diDots info) = or_dots x \<and> snd (mApply M s (enc x)) = Ok () \<and>
        bk (fst (mApply M s (enc x))) = or_write win val x (bk s) \<and> cod (fst (mApply M s (enc x))) = cod s"
    and gc_law: "mGCTombstones M = Some gc \<Longrightarrow> bk (gc s hwm) = or_gc (bk s) hwm \<and> cod (gc s hwm) = cod s"
    and since_law: "mDeltasSince M s hwm = map enc (or_since (bk s) hwm)"
    and fresh_law: "fresh i r \<Longrightarrow> card R < 2 ^ 32 \<and> replica_inv (mh i) r \<and> rStrategy r = alwaysMergeClock \<and>
      rLocal r = newLocalClock i \<and> rReceived r = newReceivedClock \<and> cod (rData r) = c \<and> bk (rData r) = newMemoryBackend"
    and local_stamp: "local i h r h' r' out \<Longrightarrow> cod (rData r) = c \<Longrightarrow> i \<in> R \<and> hsClock h i + 1 \<noteq> 0 \<and> cod (rData r') = c \<and>
      rReceived r' = rReceived (fst (replica_nextDot r)) \<and> rLocal r' = rLocal (fst (replica_nextDot r)) \<and> rStrategy r' = rStrategy r"
    and local_inv: "local i h r h' r' out \<Longrightarrow> replica_inv (mh i) r \<Longrightarrow> mb_inv (bk (rData r')) \<Longrightarrow> replica_inv (mh i) r'"
    and local_effect: "local i h r h' r' out \<Longrightarrow> cod (rData r) = c \<Longrightarrow> lcReplica (rLocal r) = i \<Longrightarrow> lcCounter (rLocal r) = hsClock h i \<Longrightarrow>
      \<exists>q. or_effect val i (remove_context r) h (bk (rData r)) h' (bk (rData r')) q \<and>
        (\<forall>(p, m) \<in> set out. \<exists>x. q = Some x \<and> tmDelta m = tagDelta (enc x))"
begin

lemma sent_fit:
  assumes "hist_ok R h" "hist_sent val R h x"
  shows "or_fit val R x" "or_size x < 2 ^ 62"
proof -
  have "or_fit val R x \<and> or_size x < 2 ^ 62"
  proof (cases x)
    case (OrPut k v dm)
    then obtain d w where w: "hsEvent h d = Some (EvAdd k w)" "v = val w" using assms(2) by (auto simp: hs_wrote_def)
    from hist_okD(4) [OF assms(1) w(1)] val_length [of w] assms(2) OrPut w(2) show ?thesis by (simp add: val_idem)
  next
    case (OrDrop k d ctx)
    then obtain f where "hsEvent h d = Some (EvRem k f)" using assms(2) by (auto simp: removed_def)
    from hist_okD(5) [OF assms(1) this] assms(2) OrDrop show ?thesis by simp
  qed
  then show "or_fit val R x" "or_size x < 2 ^ 62" by blast+
qed

text \<open>The promise of a replica and of a payload.\<close>

definition promise :: "or_hist \<Rightarrow> ReplicaID \<Rightarrow> localClock \<Rightarrow> receivedClock \<Rightarrow> 's \<Rightarrow> bool" where
  "promise h i lc rc s \<longleftrightarrow> lcReplica lc = i \<and> lcCounter lc = hsClock h i \<and> cod s = c \<and> rc_inv rc \<and>
     (\<forall>n. n \<noteq> 0 \<and> n \<le> hsClock h i \<longrightarrow> n \<in> seen rc i) \<and> hist_ok R h \<and> or_inv R (bk s) \<and> hs_holds val h rc (bk s)"

definition payload :: "or_hist \<Rightarrow> bytes \<Rightarrow> bool" where
  "payload h p \<longleftrightarrow> (\<exists>x. p = enc x \<and> hist_sent val R h x)"

definition deliver :: "maphash \<Rightarrow> or_delta \<Rightarrow> 's replica \<Rightarrow> 's replica" where
  "deliver m x r = fst (replica_applyDelta m M r 0 (mkDot 0 0) (enc x))"

lemma promiseD:
  assumes "promise h i lc rc s"
  shows "lcReplica lc = i" "lcCounter lc = hsClock h i" "cod s = c" "rc_inv rc" "n \<noteq> 0 \<Longrightarrow> n \<le> hsClock h i \<Longrightarrow> n \<in> seen rc i"
    "hist_ok R h" "or_inv R (bk s)" "hs_holds val h rc (bk s)"
  using assms by (simp_all add: promise_def)

lemma promise_grow:
  assumes "promise h j lc rc s" "hist_ok R h'" "hs_grow h h'" "hsClock h' j = hsClock h j"
  shows "promise h' j lc rc s"
  using assms hs_holds_grow [OF _ assms(3)] by (simp add: promise_def)

lemma deliver_promise:
  assumes p: "promise h i (rLocal r) (rReceived r) (rData r)" and r: "replica_inv m r" "rStrategy r = alwaysMergeClock"
    and x: "hist_sent val R h x"
  shows "promise h i (rLocal r) (rReceived (deliver m x r)) (rData (deliver m x r))"
    and "seen (rReceived (deliver m x r)) j = seen (rReceived r) j \<union> {n. n \<noteq> 0 \<and> mkDot j n \<in> or_dots x}"
    and "replica_inv m (deliver m x r)" "rStrategy (deliver m x r) = alwaysMergeClock" "rLocal (deliver m x r) = rLocal r"
proof -
  note p' = promiseD [OF p]
  obtain info where i: "mParseDelta M (rData r) (enc x) = (rData r, Ok info)" "set (diDots info) = or_dots x"
      "snd (mApply M (rData r) (enc x)) = Ok ()" "bk (fst (mApply M (rData r) (enc x))) = or_write win val x (bk (rData r))"
      "cod (fst (mApply M (rData r) (enc x))) = cod (rData r)"
    using delta_ok [OF hist_okD(1) [OF p'(6)] sent_fit [OF p'(6) x], of "rData r"] by blast
  have data: "rData (deliver m x r) = fst (mApply M (rData r) (enc x))"
    unfolding deliver_def applyDelta_data [OF i(1)] r(2) by (simp add: alwaysMergeClock_def)
  have rec: "rReceived (deliver m x r) = record_loop (diDots info) (rReceived r)"
    by (simp add: deliver_def applyDelta_received [OF i(1,3)])
  show sn: "seen (rReceived (deliver m x r)) j = seen (rReceived r) j \<union> {n. n \<noteq> 0 \<and> mkDot j n \<in> or_dots x}" for j
    using received.record_all [OF p'(4), of "diDots info" j] i(2) by (simp add: rec)
  show inv: "replica_inv m (deliver m x r)" using r(1) by (simp add: deliver_def applyDelta_inv)
  show "rStrategy (deliver m x r) = alwaysMergeClock" "rLocal (deliver m x r) = rLocal r" using r(2) by (simp_all add: deliver_def)
  have "or_inv R (bk (rData (deliver m x r))) \<and> hs_holds val h (rReceived (deliver m x r)) (bk (rData (deliver m x r)))"
    unfolding data i(4) by (rule hs_holds_write [OF p'(6,8,7) x val_idem win_one]) (assumption, use sn in blast)
  moreover have "rc_inv (rReceived (deliver m x r))" using inv by (simp add: replica_inv_def)
  ultimately show "promise h i (rLocal r) (rReceived (deliver m x r)) (rData (deliver m x r))"
    using p' i(5) by (simp add: promise_def data sn)
qed

lemma deliver_all:
  assumes "promise h i (rLocal r) (rReceived r) (rData r)" "replica_inv m r" "rStrategy r = alwaysMergeClock"
    and "\<forall>x \<in> set xs. hist_sent val R h x"
  shows "promise h i (rLocal (fold (deliver m) xs r)) (rReceived (fold (deliver m) xs r)) (rData (fold (deliver m) xs r)) \<and>
    seen (rReceived (fold (deliver m) xs r)) j = seen (rReceived r) j \<union> {n. n \<noteq> 0 \<and> (\<exists>x \<in> set xs. mkDot j n \<in> or_dots x)}"
  using assms
proof (induction xs arbitrary: r)
  case (Cons x xs)
  have x: "hist_sent val R h x" using Cons.prems by simp
  note d = deliver_promise [OF Cons.prems(1-3) x]
  have "promise h i (rLocal (deliver m x r)) (rReceived (deliver m x r)) (rData (deliver m x r))" using d(1,5) by simp
  from Cons.IH [OF this d(3,4)] Cons.prems d(2) show ?case by auto
qed simp

text \<open>An operation of one replica.\<close>

lemma local_promise:
  assumes l: "local i h r h' r' out" and p: "promise h i (rLocal r) (rReceived r) (rData r)"
  shows "hist_ok R h'" "hs_grow h h'" "j \<noteq> i \<Longrightarrow> hsClock h' j = hsClock h j"
    "promise h' i (rLocal r') (rReceived r') (rData r')" "\<forall>(p, m) \<in> set out. \<exists>d. tmDelta m = tagDelta d \<and> payload h' d"
proof -
  note p' = promiseD [OF p]
  obtain q where e: "or_effect val i (remove_context r) h (bk (rData r)) h' (bk (rData r')) q"
      and q: "\<forall>(p, m) \<in> set out. \<exists>x. q = Some x \<and> tmDelta m = tagDelta (enc x)"
    using local_effect [OF l p'(3,1,2)] by (elim exE conjE) (rule that)
  have st: "i \<in> R" "hsClock h i + 1 \<noteq> 0" and cd: "cod (rData r') = c" and lc: "rLocal r' = rLocal (fst (replica_nextDot r))"
      and rc: "rReceived r' = receivedClock_Record (rReceived r) i (hsClock h i + 1)"
    using local_stamp [OF l p'(3)] p'(1,2) by simp_all
  have sn: "seen (rReceived r') j = (if j = i then insert (hsClock h i + 1) (seen (rReceived r) i) else seen (rReceived r) j)" for j
    using Record_spec [OF p'(4), of i "hsClock h i + 1"] st(2) by (simp add: rc)
  then have sn': "n \<in> seen (rReceived r') j \<Longrightarrow> n \<in> seen (rReceived r) j \<or> j = i \<and> n = hsClock h i + 1" for j n
    by (auto split: if_splits)
  note ctx = remove_context_ok [OF p'(6) hs_holds_clock [OF p'(8)] p'(4,1,2) st]
  have core: "hist_ok R h' \<and> hs_grow h h' \<and> hsClock h' = (hsClock h)(i := hsClock h i + 1) \<and> or_inv R (bk (rData r')) \<and>
      hs_holds val h' (rReceived r') (bk (rData r')) \<and> (\<forall>x. q = Some x \<longrightarrow> hist_sent val R h' x)"
    using e
  proof cases
    case effect_none
    note grow = hs_log_grow [OF p'(6) st(2), of None]
    have ok: "hist_ok R h'" unfolding effect_none(1) by (rule hs_log_ok [OF p'(6) st(2,1)]) simp_all
    note old = hs_holdsD [OF hs_holds_grow [OF p'(8) grow], folded effect_none(1)]
    have "hs_holds val h' (rReceived r') (bk (rData r))"
    proof (rule hs_holdsI)
      show "n \<le> hsClock h' j" if "n \<in> seen (rReceived r') j" for j n
        using sn' [OF that] old(1) [of n j] effect_none(1) by auto
      show "hs_held h' (or_view (bk (rData r))) k j n" if a: "added h' k (mkDot j n)" and n: "n \<in> seen (rReceived r') j" for k j n
      proof -
        have "mkDot j n \<noteq> hs_next h i" using a effect_none(1) by (auto simp: added_def)
        with sn' [OF n] have "n \<in> seen (rReceived r) j" by (auto simp: hs_next_def)
        then show ?thesis by (rule old(6) [OF a])
      qed
    qed (rule old; assumption)+
    with ok grow p'(7) effect_none show ?thesis by (simp add: hs_log_def)
  next
    case (effect_add k v)
    note a = or_effect_add [OF p'(6,8,7) st effect_add(4) sn']
    show ?thesis unfolding effect_add(1-3)
      using a hs_log_grow [OF p'(6) st(2), of "Some (EvAdd k v)"] by (simp add: hs_log_def)
  next
    case (effect_remove k)
    note a = or_effect_remove [OF p'(6,8,7) st effect_remove(4) ctx val_idem sn']
    show ?thesis unfolding effect_remove(1-3)
      using a hs_log_grow [OF p'(6) st(2), of "Some (EvRem k (or_sees (bk (rData r)) (remove_context r) k))"] by (simp add: hs_log_def)
  qed
  then show "hist_ok R h'" "hs_grow h h'" "j \<noteq> i \<Longrightarrow> hsClock h' j = hsClock h j" by auto
  have clock: "hsClock h' i = hsClock h i + 1" using core by simp
  have own: "n \<in> seen (rReceived r') i" if "n \<noteq> 0" "n \<le> hsClock h' i" for n
    using p'(5) [OF that(1)] next_counter(3) [OF st(2), of n] that(2) clock by (auto simp: sn)
  have "rc_inv (rReceived r')" using Record_spec [OF p'(4)] by (simp add: rc)
  moreover have "lcReplica (rLocal r') = i" "lcCounter (rLocal r') = hsClock h' i"
    using p'(1,2) clock by (simp_all add: lc replica_nextDot_def localClock_Next_def Let_def)
  ultimately show "promise h' i (rLocal r') (rReceived r') (rData r')" using core own cd by (simp add: promise_def)
  show "\<forall>(p, m) \<in> set out. \<exists>d. tmDelta m = tagDelta d \<and> payload h' d" using q core unfolding payload_def by fast
qed

end

sublocale observed_cluster \<subseteq> cluster_protocol M "\<lambda>s. mb_inv (bk s)" mh alwaysMergeClock fresh hs_empty local promise payload
proof
  fix i r
  assume "fresh i r"
  note f = fresh_law [OF this]
  have v: "or_view newMemoryBackend = (\<lambda>_ _. (0, 0))" "or_tomb newMemoryBackend = (\<lambda>_. None)" "or_value newMemoryBackend = (\<lambda>_. None)"
    by (simp_all add: or_view_def or_entry_def or_ctx_def or_tomb_def or_value_def memory.get_empty memory.tget_empty VClock_Get_def fun_eq_iff)
  have "hs_holds val hs_empty newReceivedClock newMemoryBackend"
    by (rule hs_holdsI) (simp_all add: v received.arrived_empty)
  moreover have "or_inv R newMemoryBackend" by (simp add: or_inv_def memory.inv_empty memory.get_empty memory.tget_empty)
  moreover have "hist_ok R hs_empty" using f by (simp add: hist_ok_def hs_empty_def)
  ultimately show "replica_inv (mh i) r \<and> rStrategy r = alwaysMergeClock \<and> promise hs_empty i (rLocal r) (rReceived r) (rData r)"
    using f received.inv_empty by (simp add: promise_def newLocalClock_def hs_empty_def)
next
  fix i r h h' r' out
  assume a: "replica_inv (mh i) r" "rStrategy r = alwaysMergeClock" "promise h i (rLocal r) (rReceived r) (rData r)" "local i h r h' r' out"
  note l = local_promise [OF a(4,3)]
  have "mb_inv (bk (rData r'))" using promiseD(7) [OF l(4)] by (simp add: or_inv_def)
  with local_inv [OF a(4,1)] local_stamp [OF a(4) promiseD(3) [OF a(3)]] a(2) l
  show "replica_inv (mh i) r' \<and> rStrategy r' = alwaysMergeClock \<and> promise h' i (rLocal r') (rReceived r') (rData r') \<and>
      (\<forall>(p, m) \<in> set out. \<exists>d. tmDelta m = tagDelta d \<and> payload h' d)" by simp
next
  fix i r h h' r' out
  assume a: "promise h i (rLocal r) (rReceived r) (rData r)" "local i h r h' r' out"
  note l = local_promise [OF a(2,1)]
  show "j \<noteq> i \<Longrightarrow> promise h j lc rc s \<Longrightarrow> promise h' j lc rc s" for j lc rc s using promise_grow [OF _ l(1,2,3)] by blast
  show "payload h d \<Longrightarrow> payload h' d" for d using hist_sent_grow [OF _ l(2)] by (auto simp: payload_def)
next
  fix i r h d r'
  assume r: "replica_inv (mh i) r" "rStrategy r = alwaysMergeClock" and p: "promise h i (rLocal r) (rReceived r) (rData r)"
    and "payload h d" and r': "r' = fst (replica_applyDelta (mh i) M r 0 (mkDot 0 0) d)"
  then obtain x where x: "d = enc x" "hist_sent val R h x" by (auto simp: payload_def)
  from deliver_promise(1) [OF p r x(2)] show "promise h i (rLocal r) (rReceived r') (rData r')" by (simp add: r' x(1) deliver_def)
next
  fix gc i h lc rc s hwm
  assume "mGCTombstones M = Some gc" "mb_inv (bk s)" and p: "promise h i lc rc s"
  with gc_law [of gc s hwm] or_gc_inv [OF promiseD(7) [OF p], of hwm] hs_holds_gc [OF promiseD(7,8) [OF p], of hwm]
  show "promise h i lc rc (gc s hwm)" by (simp add: promise_def)
next
  fix i h lc rc s d hwm
  assume p: "promise h i lc rc s" and "d \<in> set (mDeltasSince M s hwm)"
  then obtain x where "d = enc x" "x \<in> set (or_since (bk s) hwm)" by (auto simp: since_law)
  with or_since_sent [OF promiseD(7,8) [OF p]] show "payload h d" by (auto simp: payload_def)
qed

context observed_cluster
begin

text \<open>In every reachable state: entries were added, values were written, and received adds are held.\<close>

abbreviation reach :: "('s, or_hist) net \<Rightarrow> bool" where
  "reach \<equiv> cluster mh M fresh hs_empty local"

lemma reach_promise:
  assumes "reach s"
  shows "promise (netGhost s) i (rLocal (netNodes s i)) (rReceived (netNodes s i)) (rData (netNodes s i))"
    "replica_inv (mh i) (netNodes s i)" "rStrategy (netNodes s i) = alwaysMergeClock"
  using reachable [OF assms, of i] by simp_all

lemma promise_live:
  assumes p: "promise h i (rLocal r) (rReceived r) (rData r)" and a: "added h k (mkDot j n)"
    and n: "j = i \<or> receivedClock_Covers (rReceived r) j n" and o: "\<not> observed h k j n"
  shows "\<exists>m. n \<le> m \<and> m \<noteq> 0 \<and> fst (or_view (bk (rData r)) k j) = m"
proof -
  note p' = promiseD [OF p]
  have nz: "n \<noteq> 0" "n \<le> hsClock h j" using hist_ok_dot(1,2) [OF p'(6) a] by simp_all
  with n p'(5) have "n \<in> seen (rReceived r) j" by (auto simp: Covers_seen)
  from hs_holdsD(6) [OF p'(8) a this] o have le: "n \<le> fst (or_view (bk (rData r)) k j)" by (simp add: hs_held_def)
  with nz(1) show ?thesis by auto
qed

lemma live_added: "promise h i lc rc s \<Longrightarrow> fst (or_view (bk s) k j) \<noteq> 0 \<Longrightarrow> added h k (mkDot j (fst (or_view (bk s) k j)))"
  by (rule hs_holdsD(2) [OF promiseD(8)])

text \<open>Anti-entropy: what \<open>j\<close> selects for \<open>i\<close> brings every unobserved add that either of the two knows.\<close>

lemma sync_live:
  fixes i j x :: ReplicaID
  assumes s: "reach s" and a: "added (netGhost s) k (mkDot l n)" "\<not> observed (netGhost s) k l n"
    and x: "l = x \<or> receivedClock_Covers (rReceived (netNodes s x)) l n" "x \<in> {i, j}"
  defines "r \<equiv> apply_all (mh i) M (mDeltasSince M (rData (netNodes s j)) (receivedClock_HWM (rReceived (netNodes s i)))) (netNodes s i)"
  shows "fst (or_view (bk (rData r)) k l) \<noteq> 0" "promise (netGhost s) i (rLocal r) (rReceived r) (rData r)"
proof -
  let ?hwm = "receivedClock_HWM (rReceived (netNodes s i))" and ?h = "netGhost s"
  let ?xs = "or_since (bk (rData (netNodes s j))) ?hwm"
  note p = reach_promise(1) [OF s] and rc = promiseD(4) [OF reach_promise(1) [OF s]]
  have eq: "r = fold (deliver (mh i)) ?xs (netNodes s i)"
    by (simp add: r_def since_law fold_map comp_def deliver_def [abs_def])
  have "\<forall>x \<in> set ?xs. hist_sent val R ?h x" using or_since_sent [OF promiseD(7,8) [OF p]] by blast
  note all = deliver_all [OF p [of i] reach_promise(2,3) [OF s, of i] this, folded eq]
  then show q: "promise ?h i (rLocal r) (rReceived r) (rData r)" by blast
  obtain m where m: "n \<le> m" "m \<noteq> 0" "fst (or_view (bk (rData (netNodes s x))) k l) = m"
    using promise_live [OF p a(1) x(1) a(2)] by blast
  have am: "added ?h k (mkDot l m)" using live_added [OF p, of x k l] m by simp
  have om: "\<not> observed ?h k l m" using a(2) m(1) observed_le by blast
  have "receivedClock_Covers (rReceived r) l m \<or> l = x \<and> x = i \<or> receivedClock_Covers (rReceived r) l n"
  proof (cases "m \<le> VClock_Get ?hwm l")
    case True
    with m(2) have "m \<in> seen (rReceived (netNodes s i)) l" by (simp add: HWM_Get [OF rc] seen_def word_gt_0)
    with all show ?thesis by (simp add: Covers_seen)
  next
    case False
    show ?thesis
    proof (cases "x = i")
      case True
      with x(1) all show ?thesis by (auto simp: Covers_seen)
    next
      case False
      with x(2) have "x = j" by simp
      with or_since_live [OF promiseD(7) [OF p] m(3,2)] \<open>\<not> m \<le> VClock_Get ?hwm l\<close> m(2) all show ?thesis
        by (simp add: Covers_seen not_le)
    qed
  qed
  then show "fst (or_view (bk (rData r)) k l) \<noteq> 0"
    using promise_live [OF q am _ om] promise_live [OF q a(1) _ a(2)] by blast
qed

text \<open>An exchange at the level of messages.\<close>

lemma promise_HWM:
  assumes "promise h i lc rc s"
  shows "wf_map (receivedClock_HWM rc)" "length (receivedClock_HWM rc) < 2 ^ 32"
proof -
  note p = promiseD [OF assms]
  have "in_cluster R (receivedClock_HWM rc)" by (rule HWM_in_cluster [OF p(6) hs_holds_clock [OF p(8)] p(4)])
  then show "wf_map (receivedClock_HWM rc)" by (simp add: in_cluster_def)
  from in_cluster_length [OF \<open>in_cluster R _\<close> hist_okD(1) [OF p(6)]] show "length (receivedClock_HWM rc) < 2 ^ 32" .
qed

lemma deliver_no_panic:
  assumes "hist_ok R h" "hist_sent val R h x"
  shows "snd (replica_applyDelta m M r 0 (mkDot 0 0) (enc x)) \<noteq> Panic"
proof -
  obtain info where "mParseDelta M (rData r) (enc x) = (rData r, Ok info)" "snd (mApply M (rData r) (enc x)) = Ok ()"
    using delta_ok [OF hist_okD(1) [OF assms(1)] sent_fit [OF assms], of "rData r"] by blast
  then show ?thesis by (auto simp: replica_applyDelta_def Let_def split_beta split: go.splits)
qed

lemma exchange_live:
  fixes i j :: ReplicaID
  assumes s: "reach s" and ij: "i \<noteq> j" "rTopology (netNodes s i) = Some ps" "j \<in> set ps"
      "ticking (netNodes s i)" "rTransport (netNodes s j)"
    and hash: "replica_hash (mh j) (netNodes s j) \<noteq> replica_hash (mh i) (netNodes s i)"
  shows "\<exists>t. gossip mh M s t \<and> promise (netGhost s) i (rLocal (netNodes t i)) (rReceived (netNodes t i)) (rData (netNodes t i)) \<and>
    (\<forall>k l n x. added (netGhost s) k (mkDot l n) \<and> \<not> observed (netGhost s) k l n \<and>
      (l = x \<or> receivedClock_Covers (rReceived (netNodes s x)) l n) \<and> x \<in> {i, j} \<longrightarrow> fst (or_view (bk (rData (netNodes t i))) k l) \<noteq> 0)"
proof -
  let ?hwm = "receivedClock_HWM (rReceived (netNodes s i))" and ?h = "netGhost s"
  let ?Q = "\<lambda>r. promise ?h i (rLocal r) (rReceived r) (rData r) \<and> replica_inv (mh i) r \<and> rStrategy r = alwaysMergeClock"
  note p = reach_promise [OF s]
  have since: "mDeltasSince M a (sorted_map ?hwm) = map enc (or_since (bk a) ?hwm)" for a
    by (simp add: since_law or_since_sorted)
  have ok: "mm_inv (mh l) (rMerkle (netNodes s l))" for l using p(2) [of l] by (simp add: replica_inv_def)
  have tick: "?Q r" if "replica_sendDigests (mh i) M (netNodes s i) = Ok (r, out)" for r out
    using reach_promise [OF cluster_tick [OF s that ij(4)], of i] by simp
  have step: "?Q (fst (replica_applyDelta (mh i) M r 0 (mkDot 0 0) d)) \<and> snd (replica_applyDelta (mh i) M r 0 (mkDot 0 0) d) \<noteq> Panic"
    if d: "d \<in> set (mDeltasSince M (rData (netNodes s j)) (sorted_map ?hwm))" and r: "?Q r" for r d
  proof -
    obtain x where x: "d = enc x" "x \<in> set (or_since (bk (rData (netNodes s j))) ?hwm)" using d unfolding since by auto
    have sent: "hist_sent val R ?h x" by (rule or_since_sent [OF promiseD(7,8) [OF p(1)] x(2)])
    have "promise ?h i (rLocal r) (rReceived r) (rData r)" "replica_inv (mh i) r" "rStrategy r = alwaysMergeClock" using r by blast+
    note d = deliver_promise [OF this sent]
    show ?thesis
      using d(1,3,4,5) deliver_no_panic [OF promiseD(6) [OF p(1) [of i]] sent, of "mh i" r] by (simp add: deliver_def x(1))
  qed
  obtain s1 t where t: "gossip mh M s s1" "gossip mh M s t" "netNodes s1 j = netNodes s j" "rReceived (netNodes s1 i) = rReceived (netNodes s i)"
      "netNodes t i = apply_all (mh i) M (mDeltasSince M (rData (netNodes s1 j)) (sorted_map ?hwm)) (netNodes s1 i)"
    by (rule exchange_run [where Q = ?Q and M = M, OF ij(1) ok ok ij(2-5) hash promise_HWM [OF p(1)] refl tick step])
  have s1: "reach s1" by (rule gossip_cluster [OF t(1) s])
  have sync: "netNodes t i = apply_all (mh i) M (mDeltasSince M (rData (netNodes s1 j)) (receivedClock_HWM (rReceived (netNodes s1 i)))) (netNodes s1 i)"
    using t(4,5) since by (simp add: since_law)
  have g: "netGhost s1 = ?h" by (rule gossip_ghost [OF t(1)])
  have "promise ?h i (rLocal (netNodes t i)) (rReceived (netNodes t i)) (rData (netNodes t i))"
    using reach_promise(1) [OF gossip_cluster [OF t(2) s], of i] gossip_ghost [OF t(2)] by simp
  moreover have "fst (or_view (bk (rData (netNodes t i))) k l) \<noteq> 0"
    if "added ?h k (mkDot l n)" "\<not> observed ?h k l n" "l = x \<or> receivedClock_Covers (rReceived (netNodes s x)) l n" "x \<in> {i, j}" for k l n x
    using sync_live(1) [OF s1, of k l n x i j] that t(3,4) unfolding g sync by auto
  ultimately show ?thesis using t(2) by blast
qed

end

end
