(* ===== verification/ORSets.thy ===== *)
theory ORSets
  imports Observed
begin

text \<open>
  The observed-remove set: the storage type (\<^verbatim>\<open>orset.go\<close>) and the public type over a replica with
  the always-merge clock (\<^verbatim>\<open>node.go\<close>). Its two backend maps, seen as cells, move by \<open>code_step\<close>; where
  the removes of an element arrive in the order of their contexts, that is the specification
  \<open>or_step\<close>, whose result depends only on the set of delivered deltas.
\<close>

section \<open>Definitions\<close>

record 'e orSetState =
  osCodec :: "'e Codec"
  osBackend :: memoryBackend

definition newORSetState :: "'e Codec option \<Rightarrow> Option list \<Rightarrow> 'e orSetState go" where
  "newORSetState codec opts =
     go_bind (requireCodec codec) (\<lambda>_.
       let os = applyOptions opts;
           b = (case oBackend os of None \<Rightarrow> newMemoryBackend | Some b \<Rightarrow> b)
       in Ok \<lparr>osCodec = the codec, osBackend = b\<rparr>)"

definition orSetState_PutEncoded :: "'e orSetState \<Rightarrow> bytes \<Rightarrow> DotMap \<Rightarrow> 'e orSetState" where
  "orSetState_PutEncoded s elemKey dots =
     s\<lparr>osBackend := memoryBackend_PutEntry (osBackend s) elemKey [] (encodeDotMap dots)\<rparr>"

definition orSetState_RemoveEncoded :: "'e orSetState \<Rightarrow> bytes \<Rightarrow> 'e orSetState" where
  "orSetState_RemoveEncoded s elemKey = s\<lparr>osBackend := memoryBackend_DeleteEntry (osBackend s) elemKey\<rparr>"

definition orSetState_Put :: "'e orSetState \<Rightarrow> 'e \<Rightarrow> DotMap \<Rightarrow> 'e orSetState \<times> unit go" where
  "orSetState_Put s elem dots =
     (case Encode (osCodec s) elem of
        Inl e \<Rightarrow> (s, Err e)
      | Inr elemBytes \<Rightarrow>
          (s\<lparr>osBackend := memoryBackend_PutEntry (osBackend s) elemBytes [] (encodeDotMap dots)\<rparr>, Ok ()))"

definition orSetState_GetEncoded :: "'e orSetState \<Rightarrow> bytes \<Rightarrow> DotMap option" where
  "orSetState_GetEncoded s elemKey =
     (case memoryBackend_GetEntry (osBackend s) elemKey of
        None \<Rightarrow> None
      | Some (_, metaBytes) \<Rightarrow> (case decodeDotMap metaBytes of Ok dm \<Rightarrow> Some dm | _ \<Rightarrow> None))"

definition orSetState_Get :: "'e orSetState \<Rightarrow> 'e \<Rightarrow> DotMap option" where
  "orSetState_Get s elem =
     (case Encode (osCodec s) elem of
        Inl _ \<Rightarrow> None
      | Inr elemBytes \<Rightarrow>
          (case memoryBackend_GetEntry (osBackend s) elemBytes of
             None \<Rightarrow> None
           | Some (_, metaBytes) \<Rightarrow> (case decodeDotMap metaBytes of Ok dm \<Rightarrow> Some dm | _ \<Rightarrow> None)))"

definition orSetState_Add :: "'e orSetState \<Rightarrow> 'e \<Rightarrow> Dot \<Rightarrow> 'e orSetState \<times> bytes go" where
  "orSetState_Add s elem dot =
     (case Encode (osCodec s) elem of
        Inl e \<Rightarrow> (s, Err e)
      | Inr elemBytes \<Rightarrow>
          (let dots = mput (Replica dot) (Counter dot) [];
               dots = (case orSetState_GetEncoded s elemBytes of
                         Some existing \<Rightarrow>
                           mput (Replica dot) (Counter dot) (fold (\<lambda>(rep, c) ds. mput rep c ds) existing dots)
                       | None \<Rightarrow> dots);
               s = orSetState_PutEncoded s elemBytes dots;
               deltaDots = mput (Replica dot) (Counter dot) []
           in (s, Ok (appendVarintBytes [opPut] elemBytes @ encodeDotMap deltaDots))))"

definition orSetState_Remove :: "'e orSetState \<Rightarrow> 'e \<Rightarrow> Dot \<Rightarrow> VClock \<Rightarrow> 'e orSetState \<times> bytes go" where
  "orSetState_Remove s elem dot context =
     (case Encode (osCodec s) elem of
        Inl e \<Rightarrow> (s, Err e)
      | Inr elemBytes \<Rightarrow>
          (let s = orSetState_RemoveEncoded s elemBytes;
               s = s\<lparr>osBackend := memoryBackend_PutTombstone (osBackend s) elemBytes (encodeRemoveTombstone dot context)\<rparr>
           in (s, Ok (appendVarintBytes [opRemove] elemBytes @ encodeDot dot @ encodeVClock context))))"

definition orSetState_Contains :: "'e orSetState \<Rightarrow> 'e \<Rightarrow> bool" where
  "orSetState_Contains s elem =
     (case Encode (osCodec s) elem of
        Inl _ \<Rightarrow> False
      | Inr elemBytes \<Rightarrow> memoryBackend_GetEntry (osBackend s) elemBytes \<noteq> None)"

text \<open>The elements decoded so far and, when a key does not decode, the error that stopped the loop.\<close>

definition orSetState_Elements :: "'e orSetState \<Rightarrow> 'e list \<times> goerror option" where
  "orSetState_Elements s =
     memoryBackend_RangeEntries (osBackend s) (\<lambda>key _ _ (out, decErr).
       case Decode (osCodec s) key of
         Inl err \<Rightarrow> ((out, Some err), False)
       | Inr v \<Rightarrow> ((out @ [v], decErr), True)) ([], None)"

definition orSetState_Range :: "'e orSetState \<Rightarrow> (bytes \<Rightarrow> DotMap \<Rightarrow> 'x \<Rightarrow> 'x \<times> bool) \<Rightarrow> 'x \<Rightarrow> 'x" where
  "orSetState_Range s fn x =
     memoryBackend_RangeEntries (osBackend s) (\<lambda>key _ metaBytes x.
       case decodeDotMap metaBytes of Ok dm \<Rightarrow> fn key dm x | _ \<Rightarrow> (x, True)) x"

definition orSetState_Len :: "'e orSetState \<Rightarrow> nat" where
  "orSetState_Len s = memoryBackend_EntryLen (osBackend s)"

definition orSetState_EntryMeta :: "'e orSetState \<Rightarrow> bytes \<Rightarrow> bytes option" where
  "orSetState_EntryMeta s key = map_option snd (memoryBackend_GetEntry (osBackend s) key)"

definition orSetState_TombstoneMeta :: "'e orSetState \<Rightarrow> bytes \<Rightarrow> bytes option" where
  "orSetState_TombstoneMeta s key = memoryBackend_GetTombstone (osBackend s) key"

definition orSetState_parseAddDelta :: "bytes \<Rightarrow> deltaInfo go" where
  "orSetState_parseAddDelta data =
     go_bind (readVarintBytes data 0) (\<lambda>(elemBytes, off).
       go_bind (slice_from data off) (\<lambda>meta. go_bind (decodeDotMap meta) (\<lambda>remoteDots.
         Ok \<lparr>diOp = opPut, diKey = elemBytes, diMeta = meta, diContext = None,
             diDots = map (\<lambda>(rep, counter). mkDot rep counter) remoteDots\<rparr>)))"

definition orSetState_parseRemoveDelta :: "bytes \<Rightarrow> deltaInfo go" where
  "orSetState_parseRemoveDelta data =
     go_bind (readVarintBytes data 0) (\<lambda>(elemBytes, off).
       if off + 16 > int (length data) then Err ErrShortBuffer
       else go_bind (go_bind (slice_from data off) decodeDot) (\<lambda>dot. go_bind (slice data off (off + 16)) (\<lambda>meta.
         Ok \<lparr>diOp = opRemove, diKey = elemBytes, diMeta = meta, diContext = None, diDots = [dot]\<rparr>)))"

definition orSetState_ParseDelta :: "'e orSetState \<Rightarrow> bytes \<Rightarrow> deltaInfo go" where
  "orSetState_ParseDelta s delta =
     (case delta of
        [] \<Rightarrow> Err ErrShortBuffer
      | b # data \<Rightarrow>
          if b = opPut then orSetState_parseAddDelta data
          else if b = opRemove then orSetState_parseRemoveDelta data
          else Err ErrUnknownOp)"

definition orSetState_applyAdd :: "'e orSetState \<Rightarrow> bytes \<Rightarrow> 'e orSetState \<times> unit go" where
  "orSetState_applyAdd s data =
     (case go_bind (readVarintBytes data 0) (\<lambda>(elemBytes, off).
         go_bind (go_bind (slice_from data off) decodeDotMap) (\<lambda>remoteDots. Ok (elemBytes, remoteDots))) of
        Err e \<Rightarrow> (s, Err e)
      | Panic \<Rightarrow> (s, Panic)
      | Ok (elemKey, remoteDots) \<Rightarrow>
          (let remoteDots = (case orSetState_GetEncoded s elemKey of
                 Some localDots \<Rightarrow> CombineDots localDots remoteDots | None \<Rightarrow> remoteDots);
               remoteDots = (case memoryBackend_GetTombstone (osBackend s) elemKey of
                 Some tombMeta \<Rightarrow>
                   (case decodeRemoveTombstone tombMeta of Ok (_, tombCtx) \<Rightarrow> surviving remoteDots tombCtx | _ \<Rightarrow> remoteDots)
               | None \<Rightarrow> remoteDots)
           in (if length remoteDots > 0 then orSetState_PutEncoded s elemKey remoteDots else s, Ok ())))"

text \<open>
  The merged context that \<^verbatim>\<open>removeVC.Merge(existingCtx)\<close> returns is not assigned, so \<open>removeVC\<close> stays
  the context of the delta.
\<close>

definition orSetState_applyRemove :: "'e orSetState \<Rightarrow> bytes \<Rightarrow> 'e orSetState \<times> unit go" where
  "orSetState_applyRemove s data =
     (case go_bind (readVarintBytes data 0) (\<lambda>(elemBytes, off).
         if off + 16 > int (length data) then Err ErrShortBuffer
         else go_bind (go_bind (slice_from data off) decodeDot) (\<lambda>dot.
           go_bind (go_bind (slice_from data (off + 16)) decodeVClock) (\<lambda>removeVC. Ok (elemBytes, dot, removeVC)))) of
        Err e \<Rightarrow> (s, Err e)
      | Panic \<Rightarrow> (s, Panic)
      | Ok (elemKey, dot, removeVC) \<Rightarrow>
          (let dot = (case memoryBackend_GetTombstone (osBackend s) elemKey of
                 Some existingMeta \<Rightarrow>
                   (case decodeRemoveTombstone existingMeta of
                      Ok (existingDot, _) \<Rightarrow> if \<not> DotGT dot existingDot then existingDot else dot
                    | _ \<Rightarrow> dot)
               | None \<Rightarrow> dot);
               s = s\<lparr>osBackend := memoryBackend_PutTombstone (osBackend s) elemKey (encodeRemoveTombstone dot removeVC)\<rparr>
           in case orSetState_GetEncoded s elemKey of
                None \<Rightarrow> (s, Ok ())
              | Some localDots \<Rightarrow>
                  (let surv = surviving localDots removeVC in
                   (if length surv > 0 then orSetState_PutEncoded s elemKey surv
                    else orSetState_RemoveEncoded s elemKey, Ok ()))))"

definition orSetState_Apply :: "'e orSetState \<Rightarrow> bytes \<Rightarrow> 'e orSetState \<times> unit go" where
  "orSetState_Apply s delta =
     (case delta of
        [] \<Rightarrow> (s, Err ErrShortBuffer)
      | b # data \<Rightarrow>
          if b = opPut then orSetState_applyAdd s data
          else if b = opRemove then orSetState_applyRemove s data
          else (s, Err ErrUnknownOp))"

text \<open>The inner loop stops at the first dot the peer has not seen.\<close>

definition orSetState_DeltasSince :: "'e orSetState \<Rightarrow> VClock \<Rightarrow> bytes list" where
  "orSetState_DeltasSince s peerHWM =
     (let deltas = orSetState_Range s (\<lambda>elemKey dots deltas.
            if list_ex (\<lambda>(rep, counter). counter > VClock_Get peerHWM rep) dots
            then (deltas @ [appendVarintBytes [opPut] elemKey @ encodeDotMap dots], True)
            else (deltas, True)) []
      in memoryBackend_RangeTombstones (osBackend s) (\<lambda>key meta deltas.
            case decodeRemoveTombstone meta of
              Ok (dot, ctx) \<Rightarrow>
                if Counter dot > VClock_Get peerHWM (Replica dot)
                then (deltas @ [appendVarintBytes [opRemove] key @ encodeDot dot @ encodeVClock ctx], True)
                else (deltas, True)
            | _ \<Rightarrow> (deltas, True)) deltas)"

definition orSetState_GCTombstones :: "'e orSetState \<Rightarrow> VClock \<Rightarrow> 'e orSetState" where
  "orSetState_GCTombstones s minHWM =
     (let toDelete = memoryBackend_RangeTombstones (osBackend s) (\<lambda>key meta toDelete.
            case decodeRemoveTombstone meta of
              Ok (dot, _) \<Rightarrow>
                if Counter dot \<le> VClock_Get minHWM (Replica dot) then (toDelete @ [key], True) else (toDelete, True)
            | _ \<Rightarrow> (toDelete, True)) []
      in s\<lparr>osBackend := fold (\<lambda>key b. memoryBackend_DeleteTombstone b key) toDelete (osBackend s)\<rparr>)"

definition orSetM :: "'e orSetState mergeable" where
  "orSetM = \<lparr>mEntryMeta = orSetState_EntryMeta, mTombstoneMeta = orSetState_TombstoneMeta,
     mParseDelta = (\<lambda>s d. (s, orSetState_ParseDelta s d)), mApply = orSetState_Apply,
     mDeltasSince = orSetState_DeltasSince, mGCTombstones = Some orSetState_GCTombstones\<rparr>"

subsection \<open>The public type (node.go)\<close>

type_synonym 'e ORSet = "'e orSetState replica"

definition NewORSet :: "maphash \<Rightarrow> ReplicaID \<Rightarrow> 'e Codec option \<Rightarrow> Option list \<Rightarrow> 'e ORSet go" where
  "NewORSet mh rid codec opts =
     (let os = applyOptions opts;
          stateOpts = (if oBackend os \<noteq> None then [WithBackend (oBackend os)] else [])
      in go_map (\<lambda>state. newReplica mh rid state alwaysMergeClock opts) (newORSetState codec stateOpts))"

definition ORSet_Add :: "maphash \<Rightarrow> 'e ORSet \<Rightarrow> 'e \<Rightarrow> 'e ORSet \<times> (sends \<times> WriteResult) go" where
  "ORSet_Add mh s elem =
     (let (r, dot) = replica_nextDot s; (st, d) = orSetState_Add (rData r) elem dot; r = r\<lparr>rData := st\<rparr> in
      case d of
        Err e \<Rightarrow> (r, Err e)
      | Panic \<Rightarrow> (r, Panic)
      | Ok delta \<Rightarrow>
          (case orSetState_ParseDelta (rData r) delta of
             Panic \<Rightarrow> (r, Panic)
           | Err _ \<Rightarrow> (r, Ok (replica_propagate r dot delta))
           | Ok info \<Rightarrow> (let r = replica_trackKey mh orSetM r (diKey info) in (r, Ok (replica_propagate r dot delta)))))"

definition ORSet_Remove :: "maphash \<Rightarrow> 'e ORSet \<Rightarrow> 'e \<Rightarrow> 'e ORSet \<times> (sends \<times> WriteResult) go" where
  "ORSet_Remove mh s elem =
     (let (r, dot) = replica_nextDot s;
          (st, d) = orSetState_Remove (rData r) elem dot (receivedClock_HWM (rReceived r)); r = r\<lparr>rData := st\<rparr> in
      case d of
        Err e \<Rightarrow> (r, Err e)
      | Panic \<Rightarrow> (r, Panic)
      | Ok delta \<Rightarrow>
          (case orSetState_ParseDelta (rData r) delta of
             Panic \<Rightarrow> (r, Panic)
           | Err _ \<Rightarrow> (r, Ok (replica_propagate r dot delta))
           | Ok info \<Rightarrow> (let r = replica_trackKey mh orSetM r (diKey info) in (r, Ok (replica_propagate r dot delta)))))"

definition ORSet_Contains :: "'e ORSet \<Rightarrow> 'e \<Rightarrow> bool" where
  "ORSet_Contains s elem = orSetState_Contains (rData s) elem"

definition ORSet_Elements :: "'e ORSet \<Rightarrow> 'e list \<times> goerror option" where
  "ORSet_Elements s = orSetState_Elements (rData s)"

definition ORSet_Len :: "'e ORSet \<Rightarrow> nat" where
  "ORSet_Len s = orSetState_Len (rData s)"

definition ORSet_Close :: "'e ORSet \<Rightarrow> 'e ORSet" where
  "ORSet_Close s = replica_Close s"

section \<open>Deltas\<close>

datatype os_op = OsAdd bytes DotMap | OsRem bytes Dot VClock

fun os_delta :: "os_op \<Rightarrow> bytes" where
  "os_delta (OsAdd k dm) = appendVarintBytes [opPut] k @ encodeDotMap dm"
| "os_delta (OsRem k d c) = rm_delta k d c"

fun os_abs :: "os_op \<Rightarrow> or_op" where
  "os_abs (OsAdd k dm) = OrAdd k (mget0 dm)"
| "os_abs (OsRem k d c) = OrRem k (VClock_Get c)"

fun os_ok :: "ReplicaID set \<Rightarrow> os_op \<Rightarrow> bool" where
  "os_ok R (OsAdd k dm) \<longleftrightarrow> in_cluster R dm \<and> pos_map dm"
| "os_ok R (OsRem k d c) \<longleftrightarrow> in_cluster R c"

definition os_fits :: "ReplicaID set \<Rightarrow> os_op \<Rightarrow> bool" where
  "os_fits R x \<longleftrightarrow> length (os_delta x) < 2 ^ 63 \<and> os_ok R x"

fun os_write :: "os_op \<Rightarrow> 'e orSetState \<Rightarrow> 'e orSetState" where
  "os_write (OsAdd k dm) s = s\<lparr>osBackend := or_add (\<lambda>_ _. []) (osBackend s) k [] dm\<rparr>"
| "os_write (OsRem k d c) s = s\<lparr>osBackend := or_remove (\<lambda>_. []) (osBackend s) k (tomb_dot (osBackend s) k d) c\<rparr>"

lemma applyAdd_write:
  assumes "readVarintBytes data 0 = Ok (k, off)" "go_bind (slice_from data off) decodeDotMap = Ok dm"
  shows "orSetState_applyAdd s data = (os_write (OsAdd k dm) s, Ok ())"
  using assms
  by (auto simp: orSetState_applyAdd_def orSetState_GetEncoded_def orSetState_PutEncoded_def or_add_def or_prune_def
      Let_def split: option.splits go.splits)

lemma applyRemove_write:
  assumes "readVarintBytes data 0 = Ok (k, off)" "\<not> off + 16 > int (length data)"
    and "go_bind (slice_from data off) decodeDot = Ok d" "go_bind (slice_from data (off + 16)) decodeVClock = Ok c"
  shows "orSetState_applyRemove s data = (os_write (OsRem k d c) s, Ok ())"
proof -
  have dot: "(case memoryBackend_GetTombstone (osBackend s) k of
                 Some existingMeta \<Rightarrow>
                   (case decodeRemoveTombstone existingMeta of
                      Ok (existingDot, _) \<Rightarrow> if \<not> DotGT d existingDot then existingDot else d
                    | _ \<Rightarrow> d)
               | None \<Rightarrow> d) = tomb_dot (osBackend s) k d" by (simp add: tomb_dot_def)
  show ?thesis
    using assms unfolding orSetState_applyRemove_def
    by (simp add: dot Let_def orSetState_GetEncoded_def orSetState_PutEncoded_def orSetState_RemoveEncoded_def or_remove_def
        split: option.splits go.splits)
qed

lemma os_add_cons: "os_delta (OsAdd k dm) = opPut # appendVarintBytes [] k @ encodeDotMap dm"
  by (simp add: appendVarintBytes_def)

fun os_info :: "os_op \<Rightarrow> deltaInfo" where
  "os_info (OsAdd k dm) = \<lparr>diOp = opPut, diKey = k, diMeta = encodeDotMap dm, diContext = None,
     diDots = map (\<lambda>(rep, counter). mkDot rep counter) (sorted_map dm)\<rparr>"
| "os_info (OsRem k d c) = \<lparr>diOp = opRemove, diKey = k, diMeta = encodeDot d, diContext = None, diDots = [d]\<rparr>"

fun os_stored :: "os_op \<Rightarrow> os_op" where
  "os_stored (OsAdd k dm) = OsAdd k (sorted_map dm)"
| "os_stored (OsRem k d c) = OsRem k d (sorted_map c)"

lemma os_stored_simps [simp]: "os_abs (os_stored x) = os_abs x" "os_ok R x \<Longrightarrow> os_ok R (os_stored x)"
  by (cases x; simp add: fun_eq_iff)+

lemma os_delta_ok:
  assumes "card R < 2 ^ 32" "os_fits R x"
  shows "orSetState_ParseDelta s (os_delta x) = Ok (os_info x)"
    and "orSetState_Apply s (os_delta x) = (os_write (os_stored x) s, Ok ())"
proof -
  have "orSetState_ParseDelta s (os_delta x) = Ok (os_info x) \<and>
    orSetState_Apply s (os_delta x) = (os_write (os_stored x) s, Ok ())"
  proof (cases x)
    case (OsAdd k dm)
    have len: "length (appendVarintBytes [] k @ encodeDotMap dm) < 2 ^ 63"
      using assms(2) by (simp add: OsAdd os_fits_def os_add_cons del: os_delta.simps)
    have d: "decodeDotMap (encodeDotMap dm) = Ok (sorted_map dm)"
      using assms by (intro decode_cluster) (auto simp: OsAdd os_fits_def)
    show ?thesis
      by (rule read_field [OF len])
        (simp add: OsAdd os_add_cons orSetState_ParseDelta_def orSetState_parseAddDelta_def orSetState_Apply_def
          applyAdd_write d del: os_delta.simps os_write.simps length_append)
  next
    case (OsRem k d c)
    have len: "length (appendVarintBytes [] k @ encodeDot d @ encodeVClock c) < 2 ^ 63"
      using assms(2) by (simp add: OsRem os_fits_def rm_delta_cons)
    have dc: "decodeVClock (encodeVClock c) = Ok (sorted_map c)"
      using assms in_cluster_length [of R c] by (simp add: OsRem os_fits_def in_cluster_def decodeVClock_encodeVClock')
    show ?thesis
      by (rule read_field_dot [OF len])
        (simp add: OsRem rm_delta_cons orSetState_ParseDelta_def orSetState_parseRemoveDelta_def orSetState_Apply_def
          applyRemove_write dc del: os_write.simps length_append)
  qed
  then show "orSetState_ParseDelta s (os_delta x) = Ok (os_info x)"
    "orSetState_Apply s (os_delta x) = (os_write (os_stored x) s, Ok ())" by blast+
qed

lemma os_write_step:
  assumes "or_inv R (osBackend s)" "card R < 2 ^ 32" "os_ok R x"
  shows "or_inv R (osBackend (os_write x s)) \<and> or_view (osBackend (os_write x s)) = code_step (os_abs x) (or_view (osBackend s))"
proof (cases x)
  case (OsAdd k dm)
  with or_add_step [OF assms(1,2)] assms(3) show ?thesis by simp
next
  case (OsRem k d c)
  with or_remove_step [OF assms(1,2)] assms(3) show ?thesis by simp
qed

lemma os_write_codec [simp]: "osCodec (os_write x s) = osCodec s"
  by (cases x) simp_all

section \<open>Delivery\<close>

lemma orSetM_simps [simp]:
  "mEntryMeta orSetM = orSetState_EntryMeta" "mTombstoneMeta orSetM = orSetState_TombstoneMeta"
  "mParseDelta orSetM = (\<lambda>s d. (s, orSetState_ParseDelta s d))" "mApply orSetM = orSetState_Apply"
  "mDeltasSince orSetM = orSetState_DeltasSince" "mGCTombstones orSetM = Some orSetState_GCTombstones"
  by (simp_all add: orSetM_def)

fun os_key :: "os_op \<Rightarrow> bytes" where
  "os_key (OsAdd k dm) = k"
| "os_key (OsRem k d c) = k"

text \<open>Whatever the bytes, an accepted delta is one write, and a refused one changes nothing.\<close>

lemma os_Apply_cases:
  "(\<exists>x. orSetState_Apply s delta = (os_write x s, Ok ()) \<and>
      (\<forall>info. orSetState_ParseDelta s delta = Ok info \<longrightarrow> diKey info = os_key x)) \<or>
   fst (orSetState_Apply s delta) = s \<and> snd (orSetState_Apply s delta) \<noteq> Ok ()"
proof (cases delta)
  case (Cons b data)
  consider (add) "b = opPut" | (rem) "b = opRemove" | (other) "b \<noteq> opPut" "b \<noteq> opRemove" by blast
  then show ?thesis
  proof cases
    case add
    show ?thesis
    proof (cases "snd (orSetState_applyAdd s data) = Ok ()")
      case True
      then obtain k off dm where k: "readVarintBytes data 0 = Ok (k, off)" "go_bind (slice_from data off) decodeDotMap = Ok dm"
        by (auto simp: orSetState_applyAdd_def go_simps split: go.splits)
      moreover have "diKey info = k" if "orSetState_parseAddDelta data = Ok info" for info
        using k that by (auto simp: orSetState_parseAddDelta_def go_simps)
      ultimately show ?thesis
        using Cons add applyAdd_write [OF k, of s]
        by (intro disjI1 exI [of _ "OsAdd k dm"])
          (simp add: orSetState_Apply_def orSetState_ParseDelta_def del: os_write.simps)
    next
      case False
      with Cons add show ?thesis
        by (auto simp: orSetState_Apply_def orSetState_applyAdd_def Let_def split: go.splits)
    qed
  next
    case rem
    show ?thesis
    proof (cases "snd (orSetState_applyRemove s data) = Ok ()")
      case True
      then obtain k off d c where k: "readVarintBytes data 0 = Ok (k, off)" "\<not> off + 16 > int (length data)"
          "go_bind (slice_from data off) decodeDot = Ok d" "go_bind (slice_from data (off + 16)) decodeVClock = Ok c"
        by (auto simp: orSetState_applyRemove_def go_simps split: go.splits if_splits)
      moreover have "diKey info = k" if "orSetState_parseRemoveDelta data = Ok info" for info
        using k that by (auto simp: orSetState_parseRemoveDelta_def go_simps)
      ultimately show ?thesis
        using Cons rem applyRemove_write [OF k, of s]
        by (intro disjI1 exI [of _ "OsRem k d c"])
          (simp add: orSetState_Apply_def orSetState_ParseDelta_def del: os_write.simps)
    next
      case False
      with Cons rem show ?thesis
        by (auto simp: orSetState_Apply_def orSetState_applyRemove_def Let_def split: go.splits option.splits)
    qed
  qed (use Cons in \<open>auto simp: orSetState_Apply_def\<close>)
qed (simp add: orSetState_Apply_def)

lemma os_write_mb:
  assumes "mb_inv (osBackend s)"
  shows "mb_inv (osBackend (os_write x s)) \<and>
    (\<forall>k. k \<noteq> os_key x \<longrightarrow> memoryBackend_GetEntry (osBackend (os_write x s)) k = memoryBackend_GetEntry (osBackend s) k \<and>
       memoryBackend_GetTombstone (osBackend (os_write x s)) k = memoryBackend_GetTombstone (osBackend s) k)"
  using assms or_add_frame [OF assms] or_remove_frame [OF assms] by (cases x) auto

lemma GC_backend: "orSetState_GCTombstones s hwm = s\<lparr>osBackend := or_gc (osBackend s) hwm\<rparr>"
  by (simp add: orSetState_GCTombstones_def or_gc_def Let_def)

interpretation orset: tracked_storage orSetM "\<lambda>s. mb_inv (osBackend s)"
proof
  fix s :: "'a orSetState" and delta
  assume inv: "mb_inv (osBackend s)"
  then show "mb_inv (osBackend (fst (mApply orSetM s delta)))"
    using os_Apply_cases [of s delta] os_write_mb [OF inv] by (auto simp del: os_write.simps)
  fix info k
  assume "snd (mParseDelta orSetM s delta) = Ok info" "k \<noteq> diKey info"
  with inv show "meta_of orSetM (fst (mApply orSetM s delta)) k = meta_of orSetM s k"
    using os_Apply_cases [of s delta] os_write_mb [OF inv]
    by (auto simp: meta_of_def orSetState_EntryMeta_def orSetState_TombstoneMeta_def simp del: os_write.simps
        split: option.splits)
next
  fix s :: "'a orSetState" and gc :: "'a orSetState \<Rightarrow> VClock \<Rightarrow> 'a orSetState" and hwm
  assume "mGCTombstones orSetM = Some gc" "mb_inv (osBackend s)"
  then show "mb_inv (osBackend (gc s hwm))" by (auto simp: GC_backend or_gc_mb)
next
  fix s :: "'a orSetState" and delta
  assume "snd (mApply orSetM s delta) \<noteq> Ok ()"
  then show "fst (mApply orSetM s delta) = s"
    using os_Apply_cases [of s delta] by auto
qed simp_all

definition osr_inv :: "ReplicaID set \<Rightarrow> maphash \<Rightarrow> 'e ORSet \<Rightarrow> bool" where
  "osr_inv R mh r \<longleftrightarrow> orset.replica_inv mh r \<and> rStrategy r = alwaysMergeClock \<and> or_inv R (osBackend (rData r))"

abbreviation os_view :: "'e ORSet \<Rightarrow> cells" where
  "os_view r \<equiv> or_view (osBackend (rData r))"

definition os_deliver :: "maphash \<Rightarrow> os_op \<Rightarrow> 'e ORSet \<Rightarrow> 'e ORSet" where
  "os_deliver mh x r = fst (replica_applyDelta mh orSetM r 0 (mkDot 0 0) (os_delta x))"

lemma os_deliver_data:
  assumes "rStrategy r = alwaysMergeClock" "card R < 2 ^ 32" "os_fits R x"
  shows "rData (os_deliver mh x r) = os_write (os_stored x) (rData r)"
proof -
  have p: "mParseDelta orSetM (rData r) (os_delta x) = (rData r, Ok (os_info x))"
    using os_delta_ok(1) [OF assms(2,3), of "rData r"] by simp
  show ?thesis
    unfolding os_deliver_def applyDelta_data [OF p] assms(1)
    using os_delta_ok(2) [OF assms(2,3), of "rData r"] by (simp add: alwaysMergeClock_def)
qed

lemma os_deliver_step:
  assumes "osr_inv R mh r" "card R < 2 ^ 32" "os_fits R x"
  shows "osr_inv R mh (os_deliver mh x r) \<and> os_view (os_deliver mh x r) = code_step (os_abs x) (os_view r) \<and>
    osCodec (rData (os_deliver mh x r)) = osCodec (rData r)"
proof -
  have st: "rStrategy r = alwaysMergeClock" and inv: "or_inv R (osBackend (rData r))" and ok: "os_ok R (os_stored x)"
    using assms by (auto simp: osr_inv_def os_fits_def)
  note data = os_deliver_data [OF st assms(2,3)]
  have "orset.replica_inv mh (os_deliver mh x r)" "rStrategy (os_deliver mh x r) = alwaysMergeClock"
    using assms(1) by (simp_all add: osr_inv_def os_deliver_def orset.applyDelta_inv)
  with os_write_step [OF inv assms(2) ok] show ?thesis by (simp add: osr_inv_def data)
qed

lemma os_deliver_all:
  assumes "card R < 2 ^ 32"
  shows "osr_inv R mh r \<Longrightarrow> list_all (os_fits R) xs \<Longrightarrow>
    osr_inv R mh (fold (os_deliver mh) xs r) \<and>
    os_view (fold (os_deliver mh) xs r) = fold code_step (map os_abs xs) (os_view r) \<and>
    osCodec (rData (fold (os_deliver mh) xs r)) = osCodec (rData r)"
proof (induction xs arbitrary: r)
  case (Cons x xs)
  have "os_fits R x" using Cons.prems by simp
  from os_deliver_step [OF Cons.prems(1) assms this] Cons show ?case by simp
qed simp

section \<open>Reads and local operations\<close>

text \<open>An element is in the set when some replica's cell is live.\<close>

lemma Contains_view:
  assumes "or_inv R (osBackend (rData r))" "Encode (osCodec (rData r)) e = Inr k"
  shows "ORSet_Contains r e \<longleftrightarrow> (\<exists>i. fst (os_view r k i) \<noteq> 0)"
  using assms(2) or_live [OF assms(1), of k] by (simp add: ORSet_Contains_def orSetState_Contains_def)

lemma NewORSet_Ok:
  assumes "MakeSeed mh \<noteq> 0" "oBackend (applyOptions opts) = None"
  obtains r where "NewORSet mh i (Some c) opts = Ok r" "\<And>R. osr_inv R mh r" "os_view r = (\<lambda>_ _. (0, 0))"
    "osCodec (rData r) = c" "rLocal r = newLocalClock i" "rReceived r = newReceivedClock"
proof -
  let ?m = "\<lparr>osCodec = c, osBackend = newMemoryBackend\<rparr>"
  let ?r = "newReplica mh i ?m alwaysMergeClock opts"
  have "or_inv R newMemoryBackend" for R
    by (simp add: or_inv_def memory.inv_empty memory.get_empty memory.tget_empty)
  moreover have "or_view newMemoryBackend = (\<lambda>_ _. (0, 0))"
    by (simp add: or_view_def or_entry_def or_ctx_def memory.get_empty memory.tget_empty VClock_Get_def fun_eq_iff)
  moreover have "rLocal ?r = newLocalClock i" by (simp add: newReplica_def Let_def)
  ultimately show ?thesis
    using assms received.inv_empty memory.inv_empty
    by (intro that [of ?r]) (simp_all add: NewORSet_def newORSetState_def requireCodec_def applyOptions_def
        osr_inv_def orset.replica_inv_def mm_inv_new Let_def)
qed

lemma Add_overwrite:
  "Encode (osCodec s) e = Inr k \<Longrightarrow>
   orSetState_Add s e d = (s\<lparr>osBackend := memoryBackend_PutEntry (osBackend s) k [] (encodeDotMap (or_overwrite (osBackend s) k d))\<rparr>,
     Ok (os_delta (OsAdd k [(Replica d, Counter d)])))"
  by (simp add: orSetState_Add_def Let_def orSetState_PutEncoded_def orSetState_GetEncoded_def or_overwrite_def or_entry_def)

lemma add_step:
  assumes "or_inv R (osBackend s)" "card R < 2 ^ 32" "Replica d \<in> R" "Encode (osCodec s) e = Inr k"
    and "snd (or_view (osBackend s) k (Replica d)) < Counter d" "fst (or_view (osBackend s) k (Replica d)) < Counter d"
  shows "or_inv R (osBackend (fst (orSetState_Add s e d))) \<and>
    or_view (osBackend (fst (orSetState_Add s e d))) = code_step (OrAdd k (mget0 [(Replica d, Counter d)])) (or_view (osBackend s)) \<and>
    snd (orSetState_Add s e d) = Ok (os_delta (OsAdd k [(Replica d, Counter d)])) \<and>
    osCodec (fst (orSetState_Add s e d)) = osCodec s"
  unfolding Add_overwrite [OF assms(4)] using or_overwrite_step [OF assms(1-3,5,6), of "[]"] by simp

text \<open>A local remove drops the entry, whether its context covers the entry's dots or not.\<close>

lemma Remove_drop:
  "Encode (osCodec s) e = Inr k \<Longrightarrow>
   orSetState_Remove s e d ctx = (s\<lparr>osBackend := or_drop (osBackend s) k d ctx\<rparr>, Ok (os_delta (OsRem k d ctx)))"
  by (simp add: orSetState_Remove_def Let_def orSetState_RemoveEncoded_def rm_delta_def or_drop_def)

lemma remove_state:
  assumes "or_inv R (osBackend s)" "card R < 2 ^ 32" "in_cluster R ctx" "Encode (osCodec s) e = Inr k"
  shows "or_inv R (osBackend (fst (orSetState_Remove s e d ctx))) \<and>
    or_view (osBackend (fst (orSetState_Remove s e d ctx))) = (or_view (osBackend s))(k := (\<lambda>r. (0, VClock_Get ctx r))) \<and>
    osCodec (fst (orSetState_Remove s e d ctx)) = osCodec s"
  unfolding Remove_drop [OF assms(4)] using or_drop_step [OF assms(1-3)] by simp

lemma Contains_run:
  assumes "osr_inv R mh r" "card R < 2 ^ 32" "list_all (os_fits R) xs" "Encode (osCodec (rData r)) e = Inr k"
  shows "ORSet_Contains (fold (os_deliver mh) xs r) e \<longleftrightarrow> (\<exists>i. fst (fold code_step (map os_abs xs) (os_view r) k i) \<noteq> 0)"
proof -
  note a = os_deliver_all [OF assms(2,1,3)]
  then show ?thesis using Contains_view [of R "fold (os_deliver mh) xs r" e k] assms(4) by (simp add: osr_inv_def)
qed

lemma ORSet_Add_data:
  "rData (fst (ORSet_Add mh r e)) = fst (orSetState_Add (rData r) e (snd (replica_nextDot r)))"
  by (auto simp: ORSet_Add_def Let_def split_beta split: go.splits)

lemma ORSet_Remove_data:
  "rData (fst (ORSet_Remove mh r e)) = fst (orSetState_Remove (rData r) e (snd (replica_nextDot r)) (remove_context r))"
  by (auto simp: ORSet_Remove_def Let_def split_beta remove_context_def split: go.splits)

lemma remove_not_contained:
  assumes "mb_inv (osBackend s)" "Encode (osCodec s) e = Inr k"
  shows "memoryBackend_GetEntry (osBackend (fst (orSetState_Remove s e d ctx))) = (memoryBackend_GetEntry (osBackend s))(k := None)"
    and "osCodec (fst (orSetState_Remove s e d ctx)) = osCodec s"
  using assms by (simp_all add: orSetState_Remove_def Let_def orSetState_RemoveEncoded_def memory.laws)

section \<open>Anti-entropy\<close>

definition os_since :: "'e orSetState \<Rightarrow> VClock \<Rightarrow> os_op list" where
  "os_since s hwm =
     map (\<lambda>(k, dm). OsAdd k dm) (pick (seen_dots hwm) (mbEntries (osBackend s))) @
     map (\<lambda>(k, d, c). OsRem k d c) (pick (seen_tomb hwm) (mbTombstones (osBackend s)))"

lemma DeltasSince_os: "orSetState_DeltasSince s hwm = map os_delta (os_since s hwm)"
proof -
  let ?e = "\<lambda>(k, e). map (\<lambda>(k, dm). os_delta (OsAdd k dm)) (case seen_dots hwm e of Some dm \<Rightarrow> [(k, dm)] | None \<Rightarrow> [])"
  let ?t = "\<lambda>(k, t). map (\<lambda>(k, d, c). os_delta (OsRem k d c)) (case seen_tomb hwm t of Some dc \<Rightarrow> [(k, dc)] | None \<Rightarrow> [])"
  have e: "rangeLoop (\<lambda>(k, e). (\<lambda>key _ metaBytes x. case decodeDotMap metaBytes of
        Ok dm \<Rightarrow> (if list_ex (\<lambda>(rep, counter). counter > VClock_Get hwm rep) dm
          then (x @ [appendVarintBytes [opPut] key @ encodeDotMap dm], True) else (x, True))
      | _ \<Rightarrow> (x, True)) k (meValue e) (meMeta e)) xs ys = ys @ concat (map ?e xs)" for xs ys
    by (rule rangeLoop_collect) (auto simp: list_ex_iff seen_dots_def split: go.splits)
  have t: "rangeLoop (\<lambda>(k, m). (\<lambda>key meta x. case decodeRemoveTombstone meta of
        Ok (dot, ctx) \<Rightarrow> (if Counter dot > VClock_Get hwm (Replica dot)
          then (x @ [appendVarintBytes [opRemove] key @ encodeDot dot @ encodeVClock ctx], True) else (x, True))
      | _ \<Rightarrow> (x, True)) k m) xs ys = ys @ concat (map ?t xs)" for xs ys
    by (rule rangeLoop_collect) (auto simp: rm_delta_def seen_tomb_def split: go.splits)
  show ?thesis
    unfolding orSetState_DeltasSince_def orSetState_Range_def memoryBackend_RangeEntries_def
      memoryBackend_RangeTombstones_def Let_def e t
    by (simp add: os_since_def pick_def map_concat comp_def case_prod_unfold)
qed

lemma os_since_ok:
  assumes "or_inv R (osBackend s)" "x \<in> set (os_since s hwm)"
  shows "os_ok R x"
proof -
  let ?b = "osBackend s"
  consider k dm where "x = OsAdd k dm" "(k, dm) \<in> set (pick (seen_dots hwm) (mbEntries ?b))"
    | k d c where "x = OsRem k d c" "(k, d, c) \<in> set (pick (seen_tomb hwm) (mbTombstones ?b))"
    using assms(2) by (auto simp: os_since_def)
  then show ?thesis
  proof cases
    case 1
    then have "map_of (pick (seen_dots hwm) (mbEntries ?b)) k = Some dm"
      using pick_dots(2) [OF assms(1)] by (simp add: map_of_is_SomeI)
    then have e: "or_entry ?b k = Some dm"
      using pick_dots(1) [OF assms(1), of hwm k] by (auto split: option.splits if_splits)
    then obtain v meta where g: "memoryBackend_GetEntry ?b k = Some (v, meta)"
      by (auto simp: or_entry_def split: option.splits)
    obtain dm' where "or_entry ?b k = Some dm'" "in_cluster R dm'" "wf_map dm'"
        "\<And>r c. (r, c) \<in> set dm' \<Longrightarrow> VClock_Get (or_ctx ?b k) r < c"
      using or_entry_inv [OF assms(1) g] by metis
    with e 1 show ?thesis by (force simp: pos_map_def)
  next
    case 2
    then have "map_of (pick (seen_tomb hwm) (mbTombstones ?b)) k = Some (d, c)"
      using pick_tombs(2) [OF assms(1)] by (simp add: map_of_is_SomeI)
    with pick_tombs(1) [OF assms(1)] 2 show ?thesis by simp
  qed
qed

section \<open>Properties\<close>

text \<open>
  C3: strong eventual consistency of the observed-remove set, for removes that arrive in the
  order of their contexts: two replicas that received the same deltas, adds in any order and any
  number of times, agree on every element. The cluster has fewer than \<open>2 ^ 32\<close> replicas.
\<close>

theorem ORSet_converges:
  assumes "MakeSeed mh \<noteq> 0" "MakeSeed mh' \<noteq> 0"
    and "oBackend (applyOptions opts) = None" "oBackend (applyOptions opts') = None"
    and "NewORSet mh i (Some c) opts = Ok r" "NewORSet mh' j (Some c) opts' = Ok r'"
    and "card R < 2 ^ 32" "list_all (os_fits R) ds" "set ds = set es"
    and "sorted_wrt removes_ordered (map os_abs ds)" "sorted_wrt removes_ordered (map os_abs es)"
  shows "ORSet_Contains (fold (os_deliver mh) ds r) e = ORSet_Contains (fold (os_deliver mh') es r') e"
proof -
  have r: "osr_inv R mh r" "os_view r = (\<lambda>_ _. (0, 0))" "osCodec (rData r) = c"
    using NewORSet_Ok [OF assms(1,3), of i c] assms(5) by auto
  have r': "osr_inv R mh' r'" "os_view r' = (\<lambda>_ _. (0, 0))" "osCodec (rData r') = c"
    using NewORSet_Ok [OF assms(2,4), of j c] assms(6) by auto
  have es: "list_all (os_fits R) es" using assms(8,9) by (simp add: list_all_iff)
  note a = os_deliver_all [OF assms(7) r(1) assms(8)] and a' = os_deliver_all [OF assms(7) r'(1) es]
  have "set (map os_abs ds) = set (map os_abs es)" using assms(9) by simp
  then have v: "os_view (fold (os_deliver mh) ds r) = os_view (fold (os_deliver mh') es r')"
    using code_converges [OF _ assms(10,11)] a a' r(2) r'(2) by simp
  have inv: "or_inv R (osBackend (rData (fold (os_deliver mh) ds r)))" "or_inv R (osBackend (rData (fold (os_deliver mh') es r')))"
    using a a' by (simp_all add: osr_inv_def)
  show ?thesis
  proof (cases "Encode c e")
    case (Inl err)
    then show ?thesis using a a' r(3) r'(3) by (simp add: ORSet_Contains_def orSetState_Contains_def)
  next
    case (Inr k)
    then show ?thesis using Contains_view [OF inv(1)] Contains_view [OF inv(2)] a a' r(3) r'(3) v by simp
  qed
qed

lemma os_fits_short:
  "length k < 128 \<Longrightarrow> in_cluster R dm \<Longrightarrow> pos_map dm \<Longrightarrow> card R < 2 ^ 32 \<Longrightarrow> os_fits R (OsAdd k dm)"
  "length k < 128 \<Longrightarrow> in_cluster R c \<Longrightarrow> card R < 2 ^ 32 \<Longrightarrow> os_fits R (OsRem k d c)"
  using in_cluster_length [of R dm] in_cluster_length [of R c]
  by (simp_all add: os_fits_def rm_delta_def length_PutUvarint_short encodeVClock_def length_encodeDotMap)

lemma demo_ORSet:
  obtains r :: "bytes ORSet" where "NewORSet demo_hash i (Some StringCodec) [] = Ok r" "\<And>R. osr_inv R demo_hash r"
    "os_view r = (\<lambda>_ _. (0, 0))" "osCodec (rData r) = StringCodec" "rLocal r = newLocalClock i"
    "rReceived r = newReceivedClock"
  by (rule NewORSet_Ok [of demo_hash "[]" i StringCodec]) (auto simp: applyOptions_def)

theorem ORSet_converges_witness:
  "\<exists>r r'. NewORSet demo_hash 1 (Some StringCodec) [] = Ok r \<and> NewORSet demo_hash 2 (Some StringCodec) [] = Ok r' \<and>
     ORSet_Contains (fold (os_deliver demo_hash) [OsAdd [7] [(3, 1)], OsRem [7] (mkDot 2 1) [(3, 1)], OsAdd [7] [(3, 2)]] r) [7]
     = ORSet_Contains (fold (os_deliver demo_hash) [OsAdd [7] [(3, 2)], OsRem [7] (mkDot 2 1) [(3, 1)], OsAdd [7] [(3, 1)]] r') [7]"
proof -
  have seed: "MakeSeed demo_hash \<noteq> 0" and opts: "oBackend (applyOptions []) = None" by (simp_all add: applyOptions_def)
  obtain r :: "bytes ORSet" where r: "NewORSet demo_hash 1 (Some StringCodec) [] = Ok r"
    by (rule NewORSet_Ok [OF seed opts])
  obtain r' :: "bytes ORSet" where r': "NewORSet demo_hash 2 (Some StringCodec) [] = Ok r'"
    by (rule NewORSet_Ok [OF seed opts])
  show ?thesis
    by (intro exI conjI, rule r, rule r', rule ORSet_converges [OF seed seed opts opts r r' demo_cluster_card])
      (auto simp: os_fits_short demo_clock demo_cluster_card)
qed

text \<open>
  Add wins: for an element not seen before, an add and a remove give the same result in
  either order: the element is in the set exactly when the remover had not observed the add.
\<close>

theorem ORSet_add_wins:
  assumes "osr_inv R mh r" "card R < 2 ^ 32" "os_fits R (OsAdd k [(i, n)])" "os_fits R (OsRem k t c)"
    and "\<And>j. os_view r k j = (0, 0)" "Encode (osCodec (rData r)) e = Inr k"
  shows "(ORSet_Contains (fold (os_deliver mh) [OsAdd k [(i, n)], OsRem k t c] r) e \<longleftrightarrow> VClock_Get c i < n) \<and>
    (ORSet_Contains (fold (os_deliver mh) [OsRem k t c, OsAdd k [(i, n)]] r) e \<longleftrightarrow> VClock_Get c i < n)"
proof -
  have "list_all (os_fits R) [OsAdd k [(i, n)], OsRem k t c]" "list_all (os_fits R) [OsRem k t c, OsAdd k [(i, n)]]"
    using assms(3,4) by simp_all
  note run = Contains_run [OF assms(1,2) this(1) assms(6)] Contains_run [OF assms(1,2) this(2) assms(6)]
  have n: "mget0 [(i, n)] j = (if j = i then n else 0)" for j by (simp add: mget0_Cons)
  have m: "max 0 (x :: u64) = x" for x by (simp add: max_def)
  have k0: "keep 0 x = x" "keep x 0 = 0" for x by (auto simp: keep_def word_gt_0)
  show ?thesis
    unfolding run using assms(5) by (auto simp: cell_add_def n m k0 not_le)
qed

theorem ORSet_add_wins_witness:
  "\<exists>r. NewORSet demo_hash 1 (Some StringCodec) [] = Ok r \<and>
     ORSet_Contains (fold (os_deliver demo_hash) [OsRem [7] (mkDot 2 1) [(3, 1)], OsAdd [7] [(3, 2)]] r) [7]"
proof -
  obtain r :: "bytes ORSet" where r: "NewORSet demo_hash 1 (Some StringCodec) [] = Ok r" "\<And>R. osr_inv R demo_hash r"
      "os_view r = (\<lambda>_ _. (0, 0))" "osCodec (rData r) = StringCodec"
    using demo_ORSet [of 1] by blast
  have f: "os_fits demo_cluster (OsAdd [7] [(3, 2)])" "os_fits demo_cluster (OsRem [7] (mkDot 2 1) [(3, 1)])"
    by (auto simp: os_fits_short demo_clock demo_cluster_card)
  have "(1::u64) < 2" by (simp add: word_less_nat_alt)
  with ORSet_add_wins [OF r(2) demo_cluster_card f, of "[7]"] r(1,3,4) show ?thesis
    by (auto simp: StringCodec_def VClock_Get_def mget0_def)
qed

text \<open>
  C37: the context of an earlier remove is replaced, not joined: after a second remove whose
  context does not cover an add that the first one had observed, the late add brings the
  element back, while a replica that received the add first has removed it.
\<close>

theorem ORSet_removes_diverge:
  assumes "osr_inv R mh r" "osr_inv R mh' r'" "card R < 2 ^ 32"
    and "os_fits R (OsAdd k [(i, n)])" "os_fits R (OsRem k t c)" "os_fits R (OsRem k t' c')"
    and "\<And>j. os_view r k j = (0, 0)" "\<And>j. os_view r' k j = (0, 0)"
    and "Encode (osCodec (rData r)) e = Inr k" "Encode (osCodec (rData r')) e = Inr k"
    and "n \<le> VClock_Get c i" "VClock_Get c' i < n"
  shows "\<not> ORSet_Contains (fold (os_deliver mh) [OsAdd k [(i, n)], OsRem k t c, OsRem k t' c'] r) e \<and>
    ORSet_Contains (fold (os_deliver mh') [OsRem k t c, OsRem k t' c', OsAdd k [(i, n)]] r') e"
proof -
  have "list_all (os_fits R) [OsAdd k [(i, n)], OsRem k t c, OsRem k t' c']"
    "list_all (os_fits R) [OsRem k t c, OsRem k t' c', OsAdd k [(i, n)]]"
    using assms(4-6) by simp_all
  note run = Contains_run [OF assms(1,3) this(1) assms(9)] Contains_run [OF assms(2,3) this(2) assms(10)]
  have n: "mget0 [(i, n)] j = (if j = i then n else 0)" for j by (simp add: mget0_Cons)
  have m: "max 0 (x :: u64) = x" for x by (simp add: max_def)
  have k0: "keep 0 x = x" "keep x 0 = 0" for x by (auto simp: keep_def word_gt_0)
  have z: "keep (VClock_Get c i) n = 0" using assms(11) by simp
  show ?thesis
    unfolding run using assms(7,8,12) by (auto simp: cell_add_def n m k0 not_le z)
qed

theorem ORSet_removes_diverge_witness:
  "\<exists>r r'. NewORSet demo_hash 1 (Some StringCodec) [] = Ok r \<and> NewORSet demo_hash 2 (Some StringCodec) [] = Ok r' \<and>
     \<not> ORSet_Contains (fold (os_deliver demo_hash) [OsAdd [7] [(3, 1)], OsRem [7] (mkDot 2 1) [(3, 1)], OsRem [7] (mkDot 1 1) []] r) [7] \<and>
     ORSet_Contains (fold (os_deliver demo_hash) [OsRem [7] (mkDot 2 1) [(3, 1)], OsRem [7] (mkDot 1 1) [], OsAdd [7] [(3, 1)]] r') [7]"
proof -
  obtain r :: "bytes ORSet" where r: "NewORSet demo_hash 1 (Some StringCodec) [] = Ok r" "\<And>R. osr_inv R demo_hash r"
      "os_view r = (\<lambda>_ _. (0, 0))" "osCodec (rData r) = StringCodec"
    using demo_ORSet [of 1] by blast
  obtain r' :: "bytes ORSet" where r': "NewORSet demo_hash 2 (Some StringCodec) [] = Ok r'" "\<And>R. osr_inv R demo_hash r'"
      "os_view r' = (\<lambda>_ _. (0, 0))" "osCodec (rData r') = StringCodec"
    using demo_ORSet [of 2] by blast
  have f: "os_fits demo_cluster (OsAdd [7] [(3, 1)])" "os_fits demo_cluster (OsRem [7] (mkDot 2 1) [(3, 1)])"
      "os_fits demo_cluster (OsRem [7] (mkDot 1 1) [])"
    by (auto simp: os_fits_short demo_clock demo_cluster_card) (auto simp: os_fits_short in_cluster_def)
  show ?thesis
    by (intro exI conjI, rule r, rule r', (rule ORSet_removes_diverge [OF r(2) r'(2) demo_cluster_card f, THEN conjunct1]
        ORSet_removes_diverge [OF r(2) r'(2) demo_cluster_card f, THEN conjunct2]; simp add: r r' StringCodec_def VClock_Get_def mget0_def)+)
qed

text \<open>
  C22: a replica that starts empty and receives the answer to an empty clock holds exactly the
  elements of the replica that answered.
\<close>

theorem ORSet_bootstrap:
  assumes "MakeSeed mh' \<noteq> 0" "oBackend (applyOptions opts) = None" "NewORSet mh' j (Some (osCodec (rData r))) opts = Ok r'"
    and "osr_inv R mh r" "card R < 2 ^ 32" "\<forall>d \<in> set (orSetState_DeltasSince (rData r) []). length d < 2 ^ 63"
  shows "ORSet_Contains (apply_all mh' orSetM (orSetState_DeltasSince (rData r) []) r') e = ORSet_Contains r e"
proof -
  have r': "osr_inv R mh' r'" "os_view r' = (\<lambda>_ _. (0, 0))" "osCodec (rData r') = osCodec (rData r)"
    using NewORSet_Ok [OF assms(1,2), of j "osCodec (rData r)"] assms(3) by auto
  have inv: "or_inv R (osBackend (rData r))" using assms(4) by (simp add: osr_inv_def)
  let ?xs = "os_since (rData r) []"
  have fits: "list_all (os_fits R) ?xs"
    using os_since_ok [OF inv] assms(6) by (auto simp: list_all_iff os_fits_def DeltasSince_os)
  have run: "apply_all mh' orSetM (orSetState_DeltasSince (rData r) []) r' = fold (os_deliver mh') ?xs r'"
    by (simp add: DeltasSince_os fold_map comp_def os_deliver_def [abs_def])
  have abs: "map os_abs ?xs = map (\<lambda>(k, dm). OrAdd k (mget0 dm)) (pick (seen_dots []) (mbEntries (osBackend (rData r)))) @
      map (\<lambda>(k, d, c). OrRem k (VClock_Get c)) (pick (seen_tomb []) (mbTombstones (osBackend (rData r))))"
    by (simp add: os_since_def comp_def case_prod_unfold)
  show ?thesis
  proof (cases "Encode (osCodec (rData r)) e")
    case (Inl err)
    then show ?thesis
      using os_deliver_all [OF assms(5) r'(1) fits] r'(3) by (simp add: run ORSet_Contains_def orSetState_Contains_def)
  next
    case (Inr k)
    then show ?thesis
      using Contains_run [OF r'(1) assms(5) fits, of e k] Contains_view [OF inv Inr] r'(2,3) answer_restores [OF inv]
      by (simp add: run abs)
  qed
qed

theorem ORSet_bootstrap_witness:
  "\<exists>r r'. NewORSet demo_hash 1 (Some StringCodec) [] = Ok r \<and> NewORSet demo_hash 2 (Some StringCodec) [] = Ok r' \<and>
     ORSet_Contains (apply_all demo_hash orSetM (orSetState_DeltasSince (rData (os_deliver demo_hash (OsAdd [7] [(3, 1)]) r)) []) r') [7]"
proof -
  obtain r :: "bytes ORSet" where r: "NewORSet demo_hash 1 (Some StringCodec) [] = Ok r" "\<And>R. osr_inv R demo_hash r"
      "os_view r = (\<lambda>_ _. (0, 0))" "osCodec (rData r) = StringCodec"
    using demo_ORSet [of 1] by blast
  obtain r' :: "bytes ORSet" where r': "NewORSet demo_hash 2 (Some StringCodec) [] = Ok r'"
    using demo_ORSet [of 2] by blast
  let ?x = "OsAdd [7] [(3, 1)]"
  have f: "os_fits demo_cluster ?x" by (auto simp: os_fits_short demo_clock demo_cluster_card)
  note st = os_deliver_step [OF r(2) demo_cluster_card f]
  have c: "osCodec (rData (os_deliver demo_hash ?x r)) = StringCodec" using st r(4) by simp
  have "ORSet_Contains (fold (os_deliver demo_hash) [?x] r) [7] \<longleftrightarrow>
      (\<exists>i. fst (fold code_step (map os_abs [?x]) (os_view r) [7] i) \<noteq> 0)"
    using f r by (intro Contains_run [OF r(2) demo_cluster_card]) (auto simp: StringCodec_def)
  moreover have "fst (fold code_step (map os_abs [?x]) (os_view r) [7] 3) \<noteq> 0"
    by (simp add: r(3) cell_add_def mget0_def max_def word_gt_0)
  ultimately have "ORSet_Contains (os_deliver demo_hash ?x r) [7]" by auto
  moreover have "\<forall>d \<in> set (orSetState_DeltasSince (rData (os_deliver demo_hash ?x r)) []). length d < 2 ^ 63"
  proof -
    have rd: "rData r = \<lparr>osCodec = StringCodec, osBackend = newMemoryBackend\<rparr>" "rStrategy r = alwaysMergeClock"
      using r(1) by (auto simp: NewORSet_def newORSetState_def requireCodec_def applyOptions_def Let_def)
    have sm: "sorted_map [(3, 1)] = [(3 :: ReplicaID, 1 :: u64)]"
      by (simp add: sorted_map_def sortedReplicaIDs_sort mget0_def)
    have b: "osBackend (rData (os_deliver demo_hash ?x r)) = \<lparr>mbEntries = [([7], \<lparr>meValue = [], meMeta = encodeDotMap [(3, 1)]\<rparr>)], mbTombstones = []\<rparr>"
      unfolding os_deliver_data [OF rd(2) demo_cluster_card f]
      by (simp add: rd(1) sm or_add_def or_prune_def newMemoryBackend_def memoryBackend_GetEntry_def
          memoryBackend_GetTombstone_def memoryBackend_PutEntry_def)
    have "decodeDotMap (encodeDotMap [(3, 1)]) = Ok [(3, 1)]"
      using decodeDotMap_encodeDotMap [of "[(3, 1)]" "[]"] by (simp add: wf_map_def sm)
    then have "orSetState_DeltasSince (rData (os_deliver demo_hash ?x r)) [] = [os_delta ?x]"
      by (simp add: DeltasSince_os os_since_def b pick_def seen_dots_def VClock_Get_def word_gt_0)
    with f show ?thesis by (simp add: os_fits_def)
  qed
  ultimately show ?thesis
    using ORSet_bootstrap [of demo_hash "[]" 2 "os_deliver demo_hash ?x r" r' demo_cluster demo_hash "[7]"] r(1) r' st c
    by (auto simp: applyOptions_def)
qed

text \<open>
  Garbage collection forgets exactly the tombstones whose dot the given clock covers and
  leaves the elements alone.
\<close>

theorem ORSet_GC:
  assumes "osr_inv R mh r"
  shows "orSetState_Elements (orSetState_GCTombstones (rData r) hwm) = orSetState_Elements (rData r) \<and>
    (\<forall>k. orSetState_TombstoneMeta (orSetState_GCTombstones (rData r) hwm) k =
      (case orSetState_TombstoneMeta (rData r) k of
         Some t \<Rightarrow> (case decodeRemoveTombstone t of
            Ok (d, _) \<Rightarrow> if Counter d \<le> VClock_Get hwm (Replica d) then None else Some t | _ \<Rightarrow> Some t)
       | None \<Rightarrow> None)) \<and>
    or_inv R (osBackend (orSetState_GCTombstones (rData r) hwm))"
proof -
  have inv: "or_inv R (osBackend (rData r))" and mb: "mb_inv (osBackend (rData r))"
    using assms by (auto simp: osr_inv_def or_inv_def)
  show ?thesis
    by (auto simp: orSetState_Elements_def memoryBackend_RangeEntries_def GC_backend or_gc_entries or_gc_inv [OF inv]
        orSetState_TombstoneMeta_def or_gc_tombstone [OF mb] gc_pick_def split: option.splits go.splits)
qed

theorem ORSet_GC_witness:
  "\<exists>r. NewORSet demo_hash 1 (Some StringCodec) [] = Ok r \<and>
     orSetState_Elements (orSetState_GCTombstones (rData (os_deliver demo_hash (OsAdd [7] [(3, 1)]) r)) [(2, 1)]) =
     orSetState_Elements (rData (os_deliver demo_hash (OsAdd [7] [(3, 1)]) r))"
proof -
  obtain r :: "bytes ORSet" where r: "NewORSet demo_hash 1 (Some StringCodec) [] = Ok r" "\<And>R. osr_inv R demo_hash r"
    using demo_ORSet [of 1] by blast
  have f: "os_fits demo_cluster (OsAdd [7] [(3, 1)])" by (auto simp: os_fits_short demo_clock demo_cluster_card)
  have "osr_inv demo_cluster demo_hash (os_deliver demo_hash (OsAdd [7] [(3, 1)]) r)"
    using os_deliver_step [OF r(2) demo_cluster_card f] by blast
  from ORSet_GC [OF this, of "[(2, 1)]"] r(1) show ?thesis by blast
qed

text \<open>
  C31: a local add puts the element in the set, has the effect of delivering its own delta and
  leaves the other elements alone, as long as the new dot is newer than what the cell holds; a
  local remove takes the element out, whatever the state.
\<close>

theorem ORSet_Add_Remove:
  fixes r :: "'e ORSet"
  assumes "osr_inv R mh r" "card R < 2 ^ 32" "lcReplica (rLocal r) \<in> R" "Encode (osCodec (rData r)) e = Inr k"
    and "fst (os_view r k (lcReplica (rLocal r))) < lcCounter (rLocal r) + 1"
    and "snd (os_view r k (lcReplica (rLocal r))) < lcCounter (rLocal r) + 1"
    and "os_fits R (OsAdd k [(lcReplica (rLocal r), lcCounter (rLocal r) + 1)])"
  shows "ORSet_Contains (fst (ORSet_Add mh r e)) e \<and>
    os_view (fst (ORSet_Add mh r e)) = os_view (os_deliver mh (OsAdd k [(lcReplica (rLocal r), lcCounter (rLocal r) + 1)]) r) \<and>
    (\<forall>e' k'. Encode (osCodec (rData r)) e' = Inr k' \<and> k' \<noteq> k \<longrightarrow>
       ORSet_Contains (fst (ORSet_Add mh r e)) e' = ORSet_Contains r e' \<and>
       ORSet_Contains (fst (ORSet_Remove mh r e)) e' = ORSet_Contains r e') \<and>
    \<not> ORSet_Contains (fst (ORSet_Remove mh r e)) e"
proof -
  let ?i = "lcReplica (rLocal r)" and ?n = "lcCounter (rLocal r) + 1"
  have inv: "or_inv R (osBackend (rData r))" and mb: "mb_inv (osBackend (rData r))"
    using assms(1) by (auto simp: osr_inv_def or_inv_def)
  have ad: "or_inv R (osBackend (rData (fst (ORSet_Add mh r e))))"
    "os_view (fst (ORSet_Add mh r e)) = code_step (OrAdd k (mget0 [(?i, ?n)])) (os_view r)"
    "osCodec (rData (fst (ORSet_Add mh r e))) = osCodec (rData r)"
    using add_step [OF inv assms(2), of "mkDot ?i ?n" e k] assms(3-6) by (simp_all add: ORSet_Add_data)
  have dl: "os_view (os_deliver mh (OsAdd k [(?i, ?n)]) r) = code_step (OrAdd k (mget0 [(?i, ?n)])) (os_view r)"
    using os_deliver_step [OF assms(1,2,7)] by simp
  have c: "fst (os_view (fst (ORSet_Add mh r e)) k ?i) = ?n"
    using assms(5,6) by (auto simp: ad(2) cell_add_def mget0_Cons keep_def max_def)
  have "?n \<noteq> 0" using assms(5) by auto
  with c have "ORSet_Contains (fst (ORSet_Add mh r e)) e" using Contains_view [OF ad(1)] ad(3) assms(4) by metis
  moreover have "ORSet_Contains (fst (ORSet_Add mh r e)) e' = ORSet_Contains r e'"
    if "Encode (osCodec (rData r)) e' = Inr k'" "k' \<noteq> k" for e' k'
    using Contains_view [OF ad(1), of e' k'] Contains_view [OF inv that(1)] that ad(2,3) by simp
  moreover have "ORSet_Contains (fst (ORSet_Remove mh r e)) e' = ORSet_Contains r e'"
    if "Encode (osCodec (rData r)) e' = Inr k'" "k' \<noteq> k" for e' k'
    using that remove_not_contained [OF mb assms(4)]
    by (simp add: ORSet_Contains_def orSetState_Contains_def ORSet_Remove_data)
  moreover have "\<not> ORSet_Contains (fst (ORSet_Remove mh r e)) e"
    using assms(4) remove_not_contained [OF mb assms(4)]
    by (simp add: ORSet_Contains_def orSetState_Contains_def ORSet_Remove_data)
  ultimately show ?thesis by (auto simp: ad(2) dl)
qed

theorem ORSet_Add_Remove_witness:
  "\<exists>r. NewORSet demo_hash 1 (Some StringCodec) [] = Ok r \<and> ORSet_Contains (fst (ORSet_Add demo_hash r [7])) [7] \<and>
     \<not> ORSet_Contains (fst (ORSet_Remove demo_hash r [7])) [7]"
proof -
  obtain r :: "bytes ORSet" where r: "NewORSet demo_hash 1 (Some StringCodec) [] = Ok r" "\<And>R. osr_inv R demo_hash r"
      "os_view r = (\<lambda>_ _. (0, 0))" "osCodec (rData r) = StringCodec" "rLocal r = newLocalClock 1"
    using demo_ORSet [of 1] by blast
  have f: "os_fits demo_cluster (OsAdd [7] [(1, 1)])" by (auto simp: os_fits_short demo_clock demo_cluster_card)
  show ?thesis
    using ORSet_Add_Remove [OF r(2) demo_cluster_card, of "[7]" "[7]"] r f by (auto simp: newLocalClock_def StringCodec_def)
qed

end
