(* ===== verification/SetNetwork.thy ===== *)
theory SetNetwork
  imports ObservedCluster ORSets
begin

text \<open>
  Clusters of observed-remove sets: the contract of \<^verbatim>\<open>ObservedCluster\<close> for \<^verbatim>\<open>orset.go\<close> and the public set of \<^verbatim>\<open>node.go\<close>. An
  entry of the set stores no value.
\<close>

section \<open>Definitions\<close>

definition os_fresh :: "ReplicaID set \<Rightarrow> (ReplicaID \<Rightarrow> maphash) \<Rightarrow> 'e Codec \<Rightarrow> ReplicaID \<Rightarrow> 'e ORSet \<Rightarrow> bool" where
  "os_fresh R mh c i r \<longleftrightarrow> card R < 2 ^ 32 \<and> MakeSeed (mh i) \<noteq> 0 \<and>
     (\<exists>opts. oBackend (applyOptions opts) = None \<and> NewORSet (mh i) i (Some c) opts = Ok r)"

inductive os_local ::
    "ReplicaID set \<Rightarrow> (ReplicaID \<Rightarrow> maphash) \<Rightarrow> 'e Codec \<Rightarrow> ReplicaID \<Rightarrow> or_hist \<Rightarrow> 'e ORSet \<Rightarrow> or_hist \<Rightarrow> 'e ORSet \<Rightarrow> sends \<Rightarrow> bool"
  for R mh c where
  os_add: "\<lbrakk>ORSet_Add (mh i) r e = (r', Ok (out, w)); i \<in> R; hsClock h i + 1 \<noteq> 0; Encode c e = Inr k; length k < 2 ^ 62\<rbrakk> \<Longrightarrow>
    os_local R mh c i h r (hs_log h i (Some (EvAdd k []))) r' out"
| os_remove: "\<lbrakk>ORSet_Remove (mh i) r e = (r', Ok (out, w)); i \<in> R; hsClock h i + 1 \<noteq> 0; Encode c e = Inr k; length k < 2 ^ 62\<rbrakk> \<Longrightarrow>
    os_local R mh c i h r (hs_log h i (Some (EvRem k (or_sees (osBackend (rData r)) (remove_context r) k)))) r' out"
| os_refused: "\<lbrakk>ORSet_Add (mh i) r e = (r', Err x) \<or> ORSet_Remove (mh i) r e = (r', Err x); i \<in> R; hsClock h i + 1 \<noteq> 0;
    Encode c e = Inl x\<rbrakk> \<Longrightarrow> os_local R mh c i h r (hs_log h i None) r' []"

type_synonym 'e os_net = "('e orSetState, or_hist) net"

definition os_cluster :: "ReplicaID set \<Rightarrow> (ReplicaID \<Rightarrow> maphash) \<Rightarrow> 'e Codec \<Rightarrow> 'e os_net \<Rightarrow> bool" where
  "os_cluster R mh c = cluster mh orSetM (os_fresh R mh c) hs_empty (os_local R mh c)"

section \<open>The set meets the contract\<close>

fun os_of :: "or_delta \<Rightarrow> os_op" where
  "os_of (OrPut k v dm) = OsAdd k dm"
| "os_of (OrDrop k d c) = OsRem k d c"

lemma os_fits_long:
  assumes "card R < 2 ^ 32" "or_fit val R x" "or_size x < 2 ^ 62"
  shows "os_fits R (os_of x)"
proof (cases x)
  case (OrPut k v dm)
  then show ?thesis
    using assms in_cluster_length [of R dm] length_PutUvarint [of "of_nat (length k)"]
    by (simp add: os_fits_def length_encodeDotMap)
next
  case (OrDrop k d c)
  then show ?thesis
    using assms in_cluster_length [of R c] length_PutUvarint [of "of_nat (length k)"]
    by (simp add: os_fits_def rm_delta_def encodeVClock_def length_encodeDotMap)
qed

lemma os_of_facts:
  assumes "or_fit (\<lambda>_. []) R x"
  shows "set (diDots (os_info (os_of x))) = or_dots x"
    "osBackend (os_write (os_stored (os_of x)) s) = or_write (\<lambda>_ _ _ _. []) (\<lambda>_. []) x (osBackend s)"
  using assms by (cases x; auto simp: image_iff pos_map_wf wf_map_mem)+

lemma os_since_or: "map os_delta (os_since s hwm) = map (os_delta \<circ> os_of) (or_since (osBackend s) hwm)"
proof -
  have "map (\<lambda>(k, dm). OsAdd k dm) (pick (seen_dots hwm) xs) = map (os_of \<circ> (\<lambda>(k, v, dm). OrPut k v dm)) (pick (seen_entry hwm) xs)" for xs
    by (induction xs) (auto simp: pick_def seen_entry_def split: option.splits)
  then show ?thesis by (simp add: os_since_def or_since_def comp_def case_prod_unfold)
qed

text \<open>What every outcome of an operation does around the storage.\<close>

definition os_stamped :: "maphash \<Rightarrow> 'e ORSet \<Rightarrow> 'e ORSet \<Rightarrow> bool" where
  "os_stamped mh r r' \<longleftrightarrow> rReceived r' = rReceived (fst (replica_nextDot r)) \<and> rLocal r' = rLocal (fst (replica_nextDot r)) \<and>
     rStrategy r' = rStrategy r \<and> (orset.replica_inv mh r \<and> mb_inv (osBackend (rData r')) \<longrightarrow> orset.replica_inv mh r')"

lemma os_stampedI:
  "os_stamped mh r (replica_trackKey mh orSetM ((fst (replica_nextDot r))\<lparr>rData := s\<rparr>) k)"
  "os_stamped mh r ((fst (replica_nextDot r))\<lparr>rData := s\<rparr>)"
  using orset.local_op_inv [of mh r s k] orset.data_inv [OF orset.nextDot_inv, of mh r s]
  by (simp_all add: os_stamped_def)

lemma os_operation_stamped:
  "os_stamped mh r (fst (ORSet_Add mh r e))" "os_stamped mh r (fst (ORSet_Remove mh r e))"
  by (auto simp: ORSet_Add_def ORSet_Remove_def Let_def split_beta intro: os_stampedI split: go.splits)

lemma os_operation_refused:
  assumes "Encode (osCodec (rData r)) e = Inl x"
  shows "rData (fst (ORSet_Add mh r e)) = rData r" "rData (fst (ORSet_Remove mh r e)) = rData r"
  using assms by (simp_all add: ORSet_Add_data ORSet_Remove_data orSetState_Add_def orSetState_Remove_def)

lemma os_operation_sends:
  assumes "(p, m) \<in> set out"
  shows "snd (orSetState_Add (rData r) e (snd (replica_nextDot r))) = Ok q \<Longrightarrow>
      snd (ORSet_Add mh r e) = Ok (out, w) \<Longrightarrow> tmDelta m = tagDelta q"
    and "snd (orSetState_Remove (rData r) e (snd (replica_nextDot r)) (remove_context r)) = Ok q \<Longrightarrow>
      snd (ORSet_Remove mh r e) = Ok (out, w) \<Longrightarrow> tmDelta m = tagDelta q"
proof -
  have sends: "tmDelta m = tagDelta q" if "replica_propagate u d q = (out, w)" for u :: "'a ORSet" and d
    using propagate_sends [of p m u d q] assms that by simp
  show "snd (orSetState_Add (rData r) e (snd (replica_nextDot r))) = Ok q \<Longrightarrow>
      snd (ORSet_Add mh r e) = Ok (out, w) \<Longrightarrow> tmDelta m = tagDelta q"
    by (auto simp: ORSet_Add_def Let_def split_beta intro: sends split: go.splits)
  show "snd (orSetState_Remove (rData r) e (snd (replica_nextDot r)) (remove_context r)) = Ok q \<Longrightarrow>
      snd (ORSet_Remove mh r e) = Ok (out, w) \<Longrightarrow> tmDelta m = tagDelta q"
    by (auto simp: ORSet_Remove_def Let_def split_beta remove_context_def intro: sends split: go.splits)
qed

lemma os_local_result:
  assumes "os_local R mh c i h r h' r' out" "osCodec (rData r) = c"
  shows "i \<in> R" "hsClock h i + 1 \<noteq> 0" "os_stamped (mh i) r r'" "osCodec (rData r') = c"
proof -
  have "i \<in> R \<and> hsClock h i + 1 \<noteq> 0 \<and> os_stamped (mh i) r r' \<and> osCodec (rData r') = c"
    using assms(1)
  proof cases
    case (os_add e w k)
    then have "r' = fst (ORSet_Add (mh i) r e)" by simp
    with os_add assms(2) os_operation_stamped(1) [of "mh i" r e] show ?thesis by (simp add: ORSet_Add_data Add_overwrite)
  next
    case (os_remove e w k)
    then have "r' = fst (ORSet_Remove (mh i) r e)" by simp
    with os_remove assms(2) os_operation_stamped(2) [of "mh i" r e] show ?thesis by (simp add: ORSet_Remove_data Remove_drop)
  next
    case (os_refused e x)
    then have "r' = fst (ORSet_Add (mh i) r e) \<or> r' = fst (ORSet_Remove (mh i) r e)" by auto
    with os_refused assms(2) os_operation_stamped [of "mh i" r e] os_operation_refused [of r e x "mh i"] show ?thesis by auto
  qed
  then show "i \<in> R" "hsClock h i + 1 \<noteq> 0" "os_stamped (mh i) r r'" "osCodec (rData r') = c" by blast+
qed

lemma os_local_effect:
  assumes "os_local R mh c i h r h' r' out" "osCodec (rData r) = c" "lcReplica (rLocal r) = i" "lcCounter (rLocal r) = hsClock h i"
  shows "\<exists>q. or_effect (\<lambda>_. []) i (remove_context r) h (osBackend (rData r)) h' (osBackend (rData r')) q \<and>
    (\<forall>(p, m) \<in> set out. \<exists>x. q = Some x \<and> tmDelta m = tagDelta ((os_delta \<circ> os_of) x))"
proof -
  have d: "snd (replica_nextDot r) = hs_next h i" by (simp add: hs_next_def assms(3,4))
  from assms(1) show ?thesis
  proof cases
    case (os_add e w k)
    have r': "r' = fst (ORSet_Add (mh i) r e)" using os_add by simp
    have ad: "orSetState_Add (rData r) e (hs_next h i) = ((rData r)\<lparr>osBackend := memoryBackend_PutEntry (osBackend (rData r)) k []
        (encodeDotMap (or_overwrite (osBackend (rData r)) k (hs_next h i)))\<rparr>, Ok (os_delta (OsAdd k [(i, hsClock h i + 1)])))"
      using Add_overwrite [of "rData r" e k "hs_next h i"] os_add(5) assms(2) by (simp add: hs_next_def del: os_delta.simps)
    have "tmDelta m = tagDelta (os_delta (OsAdd k [(i, hsClock h i + 1)]))" if "(q, m) \<in> set out" for q m
      using os_operation_sends(1) [OF that, of r e _ "mh i" w] os_add(2) ad d by (simp del: os_delta.simps nextDot_simps)
    then show ?thesis
      using effect_add [of k "[]" "\<lambda>_. []" i "remove_context r" h "osBackend (rData r)"] os_add(1,6) ad d
      by (intro exI [of _ "Some (OrPut k [] [(i, hsClock h i + 1)])"]) (auto simp: r' ORSet_Add_data simp del: os_delta.simps nextDot_simps)
  next
    case (os_remove e w k)
    have r': "r' = fst (ORSet_Remove (mh i) r e)" using os_remove by simp
    have rm: "orSetState_Remove (rData r) e (hs_next h i) (remove_context r) =
        ((rData r)\<lparr>osBackend := or_drop (osBackend (rData r)) k (hs_next h i) (remove_context r)\<rparr>, Ok (os_delta (OsRem k (hs_next h i) (remove_context r))))"
      using Remove_drop [of "rData r" e k] os_remove(5) assms(2) by simp
    have "tmDelta m = tagDelta (os_delta (OsRem k (hs_next h i) (remove_context r)))" if "(q, m) \<in> set out" for q m
      using os_operation_sends(2) [OF that, of r e _ "mh i" w] os_remove(2) rm d by (simp del: os_delta.simps nextDot_simps)
    then show ?thesis
      using effect_remove [of k "\<lambda>_. []" i "remove_context r" h "osBackend (rData r)"] os_remove(1,6) rm d
      by (intro exI [of _ "Some (OrDrop k (hs_next h i) (remove_context r))"])
        (auto simp: r' ORSet_Remove_data simp del: os_delta.simps nextDot_simps)
  next
    case (os_refused e x)
    then have "r' = fst (ORSet_Add (mh i) r e) \<or> r' = fst (ORSet_Remove (mh i) r e)" by auto
    then have "rData r' = rData r" using os_operation_refused [of r e x "mh i"] os_refused assms(2) by auto
    with os_refused show ?thesis by (intro exI [of _ None]) (auto intro: effect_none)
  qed
qed

interpretation os_net: observed_cluster orSetM osBackend "os_delta \<circ> os_of" "\<lambda>_ _ _ _. []" "\<lambda>_. []" osCodec R mh c
  "os_fresh R mh c" "os_local R mh c" for R mh c
proof
  fix x and s :: "'a orSetState"
  assume a: "card R < 2 ^ 32" "or_fit (\<lambda>_. []) R x" "or_size x < 2 ^ 62"
  note ok = os_delta_ok [OF a(1) os_fits_long [OF a], of s]
  show "\<exists>info. mParseDelta orSetM s ((os_delta \<circ> os_of) x) = (s, Ok info) \<and> set (diDots info) = or_dots x \<and>
      snd (mApply orSetM s ((os_delta \<circ> os_of) x)) = Ok () \<and>
      osBackend (fst (mApply orSetM s ((os_delta \<circ> os_of) x))) = or_write (\<lambda>_ _ _ _. []) (\<lambda>_. []) x (osBackend s) \<and>
      osCodec (fst (mApply orSetM s ((os_delta \<circ> os_of) x))) = osCodec s"
    using os_of_facts [OF a(2)] ok by simp
next
  fix gc and s :: "'a orSetState" and hwm
  show "mGCTombstones orSetM = Some gc \<Longrightarrow> osBackend (gc s hwm) = or_gc (osBackend s) hwm \<and> osCodec (gc s hwm) = osCodec s"
    by (auto simp: GC_backend)
  show "mDeltasSince orSetM s hwm = map (os_delta \<circ> os_of) (or_since (osBackend s) hwm)"
    by (simp add: DeltasSince_os os_since_or)
next
  fix i and r :: "'a ORSet"
  assume "os_fresh R mh c i r"
  then obtain opts where f: "card R < 2 ^ 32" "MakeSeed (mh i) \<noteq> 0" "oBackend (applyOptions opts) = None" "NewORSet (mh i) i (Some c) opts = Ok r"
    by (auto simp: os_fresh_def)
  have "osBackend (rData r) = newMemoryBackend"
    using f(3,4) by (auto simp: NewORSet_def newORSetState_def requireCodec_def applyOptions_def Let_def)
  with NewORSet_Ok [OF f(2,3), of i c] f(1,4)
  show "card R < 2 ^ 32 \<and> orset.replica_inv (mh i) r \<and> rStrategy r = alwaysMergeClock \<and> rLocal r = newLocalClock i \<and>
      rReceived r = newReceivedClock \<and> osCodec (rData r) = c \<and> osBackend (rData r) = newMemoryBackend"
    by (auto simp: osr_inv_def)
next
  fix i h r h' r' out
  assume "os_local R mh c i h r h' r' out" "osCodec (rData r) = c"
  note l = os_local_result [OF this]
  then show "i \<in> R \<and> hsClock h i + 1 \<noteq> 0 \<and> osCodec (rData r') = c \<and> rReceived r' = rReceived (fst (replica_nextDot r)) \<and>
      rLocal r' = rLocal (fst (replica_nextDot r)) \<and> rStrategy r' = rStrategy r" by (simp add: os_stamped_def)
next
  fix i h r h' r' out
  assume l: "os_local R mh c i h r h' r' out" and r: "orset.replica_inv (mh i) r" "mb_inv (osBackend (rData r'))"
  from l have "\<exists>e. r' = fst (ORSet_Add (mh i) r e) \<or> r' = fst (ORSet_Remove (mh i) r e)" by cases (metis fst_conv)+
  with os_operation_stamped [of "mh i" r] r show "orset.replica_inv (mh i) r'" by (auto simp: os_stamped_def)
next
  fix i h r h' r' out
  assume "os_local R mh c i h r h' r' out" "osCodec (rData r) = c" "lcReplica (rLocal r) = i" "lcCounter (rLocal r) = hsClock h i"
  then show "\<exists>q. or_effect (\<lambda>_. []) i (remove_context r) h (osBackend (rData r)) h' (osBackend (rData r')) q \<and>
      (\<forall>(p, m) \<in> set out. \<exists>x. q = Some x \<and> tmDelta m = tagDelta ((os_delta \<circ> os_of) x))" by (rule os_local_effect)
qed simp_all

section \<open>Properties\<close>

lemma os_cluster_facts:
  assumes "os_cluster R mh c s"
  shows "osr_inv R (mh i) (netNodes s i)" "osCodec (rData (netNodes s i)) = c"
    "os_net.promise R c (netGhost s) i (rLocal (netNodes s i)) (rReceived (netNodes s i)) (rData (netNodes s i))"
  using os_net.reach_promise [OF assms [unfolded os_cluster_def], of i] os_net.promiseD(3,7)
  by (auto simp: osr_inv_def)

text \<open>A cluster of three in which replica 1 has added an element; every replica sends its digests to replica 1.\<close>

lemma os_net_demo:
  obtains s where "os_cluster demo_cluster (\<lambda>_. demo_hash) StringCodec s" "netGhost s = hs_log hs_empty 1 (Some (EvAdd [7] []))"
    "rTopology (netNodes s 2) = Some [1]" "ticking (netNodes s 2)" "rTransport (netNodes s 1)" "replica_hash demo_hash (netNodes s 1) = 1" "replica_hash demo_hash (netNodes s 2) = 0"
proof -
  let ?os = "[WithTransport True, WithTopology (Some [1])]"
  have seed: "MakeSeed demo_hash \<noteq> 0" and opts: "oBackend (applyOptions ?os) = None"
    by (simp_all add: applyOptions_def WithTransport_def WithTopology_def)
  have "\<exists>r. NewORSet demo_hash i (Some StringCodec) ?os = Ok r \<and> osCodec (rData r) = StringCodec" for i
    using NewORSet_Ok [OF seed opts, of i StringCodec] by metis
  then obtain nodes where n: "\<And>i. NewORSet demo_hash i (Some StringCodec) ?os = Ok (nodes i)"
      "\<And>i. osCodec (rData (nodes i)) = StringCodec" by metis
  have "rTopology r = Some [1] \<and> rMerkle r = newMerkleMap demo_hash \<and> ticking r" if "NewORSet demo_hash i (Some StringCodec) ?os = Ok r" for i r
    using that by (auto simp: ticking_def defaultAEInterval_def NewORSet_def newORSetState_def requireCodec_def newReplica_def applyOptions_def
        WithTransport_def WithTopology_def Let_def)
  with n(1) have new: "rTopology (nodes i) = Some [1]" "rMerkle (nodes i) = newMerkleMap demo_hash" "ticking (nodes i)" for i by metis+
  have s0: "os_cluster demo_cluster (\<lambda>_. demo_hash) StringCodec \<lparr>netNodes = nodes, netSent = {}, netGhost = hs_empty\<rparr>"
      (is "os_cluster _ _ _ ?s0")
    unfolding os_cluster_def
  proof (rule cluster_new)
    show "os_fresh demo_cluster (\<lambda>_. demo_hash) StringCodec i (nodes i)" for i
      unfolding os_fresh_def using n(1) opts seed demo_cluster_card by blast
  qed
  have f: "os_fits demo_cluster (OsAdd [7] [(Replica (snd (replica_nextDot (nodes 1))), Counter (snd (replica_nextDot (nodes 1))))])"
  proof -
    have "lcReplica (rLocal (nodes 1)) = 1" "lcCounter (rLocal (nodes 1)) = 0"
      using os_net.promiseD(1,2) [OF os_cluster_facts(3) [OF s0, of 1]] by (simp_all add: hs_empty_def)
    then show ?thesis by (auto simp: os_fits_short demo_clock demo_cluster_card)
  qed
  have "Encode (osCodec (rData (nodes 1))) [7] = Inr [7]" using n(2) by (simp add: StringCodec_def)
  note ad = Add_overwrite [OF this, of "snd (replica_nextDot (nodes 1))"]
  note parse = os_delta_ok(1) [OF demo_cluster_card f]
  have "\<exists>out w. snd (ORSet_Add demo_hash (nodes 1) [7]) = Ok (out, w)"
    by (simp add: ORSet_Add_def Let_def split_beta ad parse del: os_delta.simps nextDot_simps(3))
  then obtain r' out w where a: "ORSet_Add demo_hash (nodes 1) [7] = (r', Ok (out, w))" by (metis prod.collapse)
  have tr: "rTransport r'"
    using arg_cong [OF a, of "\<lambda>x. rTransport (fst x)"] new(3)
    by (simp add: ticking_def ORSet_Add_def Let_def split_beta ad parse del: os_delta.simps nextDot_simps(3))
  have mb: "mb_inv (osBackend (rData (nodes 1)))" using os_cluster_facts(1) [OF s0, of 1] by (simp add: osr_inv_def or_inv_def)
  have "rMerkle (fst (replica_nextDot (nodes 1))) = newMerkleMap demo_hash"
    by (simp add: replica_nextDot_def localClock_Next_def Let_def new)
  then have "\<exists>m. rMerkle (fst (ORSet_Add demo_hash (nodes 1) [7])) = merkleMap_Put demo_hash (newMerkleMap demo_hash) [7] m"
    by (simp add: ORSet_Add_def Let_def split_beta ad parse replica_trackKey_def orSetState_EntryMeta_def memory.laws [OF mb]
        del: os_delta.simps nextDot_simps(3)) (rule exI, rule refl)
  then have h: "replica_hash demo_hash r' = 1" using a by (auto simp: replica_hash_def root_hash_def newMerkleMap_def merkleMap_Put_def)
  have "os_local demo_cluster (\<lambda>_. demo_hash) StringCodec 1 hs_empty (nodes 1) (hs_log hs_empty 1 (Some (EvAdd [7] []))) r' out"
    by (rule os_add [where e = "[7]" and w = w]) (use a in \<open>simp_all add: StringCodec_def hs_empty_def\<close>)
  with s0 have "os_cluster demo_cluster (\<lambda>_. demo_hash) StringCodec (net_step 1 r' out (?s0\<lparr>netGhost := hs_log hs_empty 1 (Some (EvAdd [7] []))\<rparr>))"
    unfolding os_cluster_def by (intro cluster_local) simp_all
  then show ?thesis by (rule that) (use h new tr in \<open>simp_all add: replica_hash_def root_hash_def newMerkleMap_def\<close>)
qed

lemma os_net_one:
  obtains s where "os_cluster demo_cluster (\<lambda>_. demo_hash) StringCodec s" "netGhost s = hs_log hs_empty 1 (Some (EvAdd [7] []))"
  using os_net_demo by metis

lemma os_one_add:
  "added (hs_log hs_empty 1 (Some (EvAdd [7] []))) [7] (mkDot 1 1)" "\<not> observed (hs_log hs_empty 1 (Some (EvAdd [7] []))) [7] 1 1"
  "Encode StringCodec [7] = Inr [7]"
  by (auto simp: hs_log_def hs_next_def hs_empty_def added_def observed_def StringCodec_def split: if_splits)

text \<open>
  C8: a cluster of observed-remove sets, in every reachable state: an element is in a set only if some
  replica added it, and an add wins: a replica that issued an add, or has received it, holds the element as
  long as no remove has observed that add (had it in its context or in the entry it dropped), whatever removes were
  made concurrently.
\<close>

theorem ORSet_network:
  assumes "os_cluster R mh c s" "Encode c e = Inr k"
  shows "(ORSet_Contains (netNodes s i) e \<longrightarrow> (\<exists>d. added (netGhost s) k d)) \<and>
    (\<forall>j n. added (netGhost s) k (mkDot j n) \<and> (j = i \<or> receivedClock_Covers (rReceived (netNodes s i)) j n) \<and>
       \<not> observed (netGhost s) k j n \<longrightarrow> ORSet_Contains (netNodes s i) e)"
proof -
  note f = os_cluster_facts [OF assms(1), of i]
  have live: "ORSet_Contains (netNodes s i) e \<longleftrightarrow> (\<exists>j. fst (os_view (netNodes s i) k j) \<noteq> 0)"
    using Contains_view [of R "netNodes s i" e k] f(1,2) assms(2) by (simp add: osr_inv_def)
  show ?thesis
    unfolding live using os_net.live_added [OF f(3), of k] os_net.promise_live [OF f(3), of k] by metis
qed

theorem ORSet_network_witness:
  "\<exists>s. os_cluster demo_cluster (\<lambda>_. demo_hash) StringCodec s \<and> ORSet_Contains (netNodes s 1) [7]"
proof -
  obtain s where s: "os_cluster demo_cluster (\<lambda>_. demo_hash) StringCodec s" "netGhost s = hs_log hs_empty 1 (Some (EvAdd [7] []))"
    by (rule os_net_one)
  with ORSet_network [OF s(1), of "[7]" "[7]" 1] os_one_add show ?thesis by auto
qed

text \<open>
  Anti-entropy loses no add: after replica \<open>i\<close> has applied the deltas that \<open>j\<close> selects for its high-water
  marks, it holds every element with an add that either of the two had issued or received and no remove has observed.
\<close>

theorem ORSet_network_sync:
  assumes "os_cluster R mh c s" "Encode c e = Inr k"
    and "added (netGhost s) k (mkDot l n)" "\<not> observed (netGhost s) k l n"
    and "l = x \<or> receivedClock_Covers (rReceived (netNodes s x)) l n" "x \<in> {i, j}"
  shows "ORSet_Contains (apply_all (mh i) orSetM
    (orSetState_DeltasSince (rData (netNodes s j)) (receivedClock_HWM (rReceived (netNodes s i)))) (netNodes s i)) e"
proof -
  note l = os_net.sync_live [OF assms(1) [unfolded os_cluster_def] assms(3-6)]
  from Contains_view [OF os_net.promiseD(7) [OF l(2)], of e k] os_net.promiseD(3) [OF l(2)] assms(2) l(1) show ?thesis by auto
qed

theorem ORSet_network_sync_witness:
  "\<exists>s. os_cluster demo_cluster (\<lambda>_. demo_hash) StringCodec s \<and>
     ORSet_Contains (apply_all demo_hash orSetM
       (orSetState_DeltasSince (rData (netNodes s 1)) (receivedClock_HWM (rReceived (netNodes s 2)))) (netNodes s 2)) [7]"
proof -
  obtain s where s: "os_cluster demo_cluster (\<lambda>_. demo_hash) StringCodec s" "netGhost s = hs_log hs_empty 1 (Some (EvAdd [7] []))"
    by (rule os_net_one)
  with ORSet_network_sync [OF s(1), of "[7]" "[7]" 1 1 1 2 1] os_one_add show ?thesis by auto
qed

text \<open>
  C9: a round of anti-entropy, message by message: in every reachable state, when the anti-entropy loop of
  replica \<open>i\<close> runs, its topology has \<open>j\<close>, \<open>j\<close> has a transport and the two report different hashes, ticks and deliveries alone lead to a reachable state in which \<open>i\<close> holds every element
  with an add that either of the two had issued or received and no remove has observed.
\<close>

theorem ORSet_network_exchange:
  assumes "os_cluster R mh c s" "i \<noteq> j" "rTopology (netNodes s i) = Some ps" "j \<in> set ps"
    and "ticking (netNodes s i)" "rTransport (netNodes s j)"
    and "replica_hash (mh j) (netNodes s j) \<noteq> replica_hash (mh i) (netNodes s i)"
  shows "\<exists>t. gossip mh orSetM s t \<and> os_cluster R mh c t \<and> (\<forall>e k l n x. Encode c e = Inr k \<and> added (netGhost s) k (mkDot l n) \<and>
    \<not> observed (netGhost s) k l n \<and> (l = x \<or> receivedClock_Covers (rReceived (netNodes s x)) l n) \<and> x \<in> {i, j} \<longrightarrow>
      ORSet_Contains (netNodes t i) e)"
proof -
  from os_net.exchange_live [OF assms(1) [unfolded os_cluster_def] assms(2-7)]
  obtain t where t: "gossip mh orSetM s t"
    "os_net.promise R c (netGhost s) i (rLocal (netNodes t i)) (rReceived (netNodes t i)) (rData (netNodes t i))"
    "\<forall>k l n x. added (netGhost s) k (mkDot l n) \<and> \<not> observed (netGhost s) k l n \<and>
      (l = x \<or> receivedClock_Covers (rReceived (netNodes s x)) l n) \<and> x \<in> {i, j} \<longrightarrow> fst (os_view (netNodes t i) k l) \<noteq> 0"
    by (elim exE conjE) (rule that)
  note p = os_net.promiseD(3,7) [OF t(2)]
  have "ORSet_Contains (netNodes t i) e" if "Encode c e = Inr k" "fst (os_view (netNodes t i) k l) \<noteq> 0" for e k l
    using Contains_view [OF p(2), of e k] p(1) that by auto
  with t(3) have "\<forall>e k l n x. Encode c e = Inr k \<and> added (netGhost s) k (mkDot l n) \<and>
    \<not> observed (netGhost s) k l n \<and> (l = x \<or> receivedClock_Covers (rReceived (netNodes s x)) l n) \<and> x \<in> {i, j} \<longrightarrow>
      ORSet_Contains (netNodes t i) e" by blast
  with t(1) gossip_cluster [OF t(1) assms(1) [unfolded os_cluster_def]] show ?thesis unfolding os_cluster_def by blast
qed

theorem ORSet_network_exchange_witness:
  "\<exists>s t. os_cluster demo_cluster (\<lambda>_. demo_hash) StringCodec s \<and> gossip (\<lambda>_. demo_hash) orSetM s t \<and> ORSet_Contains (netNodes t 2) [7]"
proof -
  obtain s where s: "os_cluster demo_cluster (\<lambda>_. demo_hash) StringCodec s" "netGhost s = hs_log hs_empty 1 (Some (EvAdd [7] []))"
      "rTopology (netNodes s 2) = Some [1]" "ticking (netNodes s 2)" "rTransport (netNodes s 1)" "replica_hash demo_hash (netNodes s 1) = 1" "replica_hash demo_hash (netNodes s 2) = 0"
    by (rule os_net_demo)
  with ORSet_network_exchange [OF s(1), of 2 1 "[1]"] os_one_add show ?thesis by (metis insertI1 insertI2 zero_neq_one list.set_intros(1))
qed

text \<open>
  C38: a remove is undone when the replica holds the element under a dot that arrived out of order: the entry is
  dropped, but the context of the remove, the high-water marks, does not reach the dot, so that the same delta, received
  again, brings the element back.
\<close>

theorem ORSet_early_remove:
  assumes "osr_inv R mh r" "card R < 2 ^ 32" "Encode (osCodec (rData r)) e = Inr k"
    and "in_cluster R (remove_context r)" "VClock_Get (remove_context r) j < n" "os_fits R (OsAdd k [(j, n)])"
  shows "\<not> ORSet_Contains (fst (ORSet_Remove mh r e)) e \<and>
    ORSet_Contains (os_deliver mh (OsAdd k [(j, n)]) (fst (ORSet_Remove mh r e))) e"
proof -
  let ?r = "fst (ORSet_Remove mh r e)" and ?x = "OsAdd k [(j, n)]"
  have inv: "or_inv R (osBackend (rData r))" using assms(1) by (simp add: osr_inv_def)
  note rem = remove_state [OF inv assms(2,4,3), of "snd (replica_nextDot r)", folded ORSet_Remove_data [of mh]]
  have r: "osr_inv R mh ?r" "osCodec (rData ?r) = osCodec (rData r)"
    using os_operation_stamped(2) [of mh r e] rem assms(1) by (auto simp: os_stamped_def osr_inv_def or_inv_def)
  note st = os_deliver_step [OF r(1) assms(2,6)]
  have "\<not> ORSet_Contains ?r e" using Contains_view [of R ?r e k] rem assms(3) by simp
  moreover have "fst (os_view (os_deliver mh ?x ?r) k j) \<noteq> 0"
    using st rem assms(5) by (auto simp: cell_add_def mget0_Cons max_def)
  then have "ORSet_Contains (os_deliver mh ?x ?r) e"
    using Contains_view [of R "os_deliver mh ?x ?r" e k] st r(2) assms(3) by (auto simp: osr_inv_def)
  ultimately show ?thesis by blast
qed

theorem ORSet_early_remove_witness:
  "\<exists>r. NewORSet demo_hash 1 (Some StringCodec) [] = Ok r \<and>
     (let r = os_deliver demo_hash (OsAdd [7] [(3, 2)]) r in
      \<not> ORSet_Contains (fst (ORSet_Remove demo_hash r [7])) [7] \<and>
      ORSet_Contains (os_deliver demo_hash (OsAdd [7] [(3, 2)]) (fst (ORSet_Remove demo_hash r [7]))) [7])"
proof -
  obtain q :: "bytes ORSet" where q: "NewORSet demo_hash 1 (Some StringCodec) [] = Ok q" "\<And>R. osr_inv R demo_hash q"
      "osCodec (rData q) = StringCodec" "rLocal q = newLocalClock 1" "rReceived q = newReceivedClock"
    using demo_ORSet [of 1] by blast
  let ?x = "OsAdd [7] [(3, 2)]"
  let ?r = "os_deliver demo_hash ?x q"
  have f: "os_fits demo_cluster ?x" by (auto simp: os_fits_short demo_clock demo_cluster_card)
  note st = os_deliver_step [OF q(2) demo_cluster_card f]
  have "rReceived ?r = record_loop (diDots (os_info ?x)) newReceivedClock"
    using os_delta_ok [OF demo_cluster_card f, of "rData q"] q(5)
    by (simp add: os_deliver_def applyDelta_received del: os_delta.simps os_info.simps)
  moreover have "sorted_map [(3, 2)] = [(3 :: ReplicaID, 2 :: u64)]" by (simp add: sorted_map_def sortedReplicaIDs_sort mget0_def)
  ultimately have "rReceived ?r = receivedClock_Record newReceivedClock 3 2" by simp
  moreover have "rLocal ?r = newLocalClock 1" using q(4) by (simp add: os_deliver_def)
  ultimately have ctx: "remove_context ?r = [(1, 1)]"
    by (simp add: remove_context_def replica_nextDot_def localClock_Next_def newLocalClock_def Let_def receivedClock_HWM_def
        receivedClock_Record_def newReceivedClock_def receivedClock_advanceHWM_def mget0_def mclone_def)
  have "ORSet_Contains (fst (ORSet_Remove demo_hash ?r [7])) [7] = False \<and>
      ORSet_Contains (os_deliver demo_hash ?x (fst (ORSet_Remove demo_hash ?r [7]))) [7]"
    using ORSet_early_remove [OF _ demo_cluster_card _ _ _ f, of demo_hash ?r "[7]"] st q(3) ctx
    by (simp add: StringCodec_def VClock_Get_def mget0_def demo_clock word_gt_0)
  with q(1) show ?thesis by (auto simp: Let_def)
qed

end
