(* ===== verification/ORMaps.thy ===== *)
theory ORMaps
  imports Observed
begin

text \<open>
  The observed-remove map: the storage type (\<^verbatim>\<open>ormap.go\<close>) and the public type over a replica with
  the always-merge clock (\<^verbatim>\<open>node.go\<close>). Its keys behave like the elements of the observed-remove set;
  the value of a key is the one whose put had the greatest dot when the entries met.
\<close>

section \<open>Definitions\<close>

record 'v orMapState =
  omCodec :: "'v Codec"
  omBackend :: memoryBackend

definition newORMapState :: "'v Codec option \<Rightarrow> Option list \<Rightarrow> 'v orMapState go" where
  "newORMapState codec opts =
     go_bind (requireCodec codec) (\<lambda>_.
       let os = applyOptions opts;
           b = (case oBackend os of None \<Rightarrow> newMemoryBackend | Some b \<Rightarrow> b)
       in Ok \<lparr>omCodec = the codec, omBackend = b\<rparr>)"

definition orMapState_PutBytes :: "'v orMapState \<Rightarrow> bytes \<Rightarrow> bytes \<Rightarrow> DotMap \<Rightarrow> 'v orMapState" where
  "orMapState_PutBytes m key valBytes dots =
     m\<lparr>omBackend := memoryBackend_PutEntry (omBackend m) key valBytes (encodeDotMap dots)\<rparr>"

definition orMapState_GetBytes :: "'v orMapState \<Rightarrow> bytes \<Rightarrow> (bytes \<times> DotMap) option" where
  "orMapState_GetBytes m key =
     (case memoryBackend_GetEntry (omBackend m) key of
        None \<Rightarrow> None
      | Some (valBytes, metaBytes) \<Rightarrow> (case decodeDotMap metaBytes of Ok dm \<Rightarrow> Some (valBytes, dm) | _ \<Rightarrow> None))"

definition orMapState_Put :: "'v orMapState \<Rightarrow> bytes \<Rightarrow> 'v \<Rightarrow> Dot \<Rightarrow> 'v orMapState \<times> bytes go" where
  "orMapState_Put m key v dot =
     (case Encode (omCodec m) v of
        Inl e \<Rightarrow> (m, Err e)
      | Inr valBytes \<Rightarrow>
          (let dots = mput (Replica dot) (Counter dot) [];
               dots = (case orMapState_GetBytes m key of
                         Some (_, existing) \<Rightarrow>
                           mput (Replica dot) (Counter dot) (fold (\<lambda>(rep, c) ds. mput rep c ds) existing dots)
                       | None \<Rightarrow> dots);
               m = m\<lparr>omBackend := memoryBackend_PutEntry (omBackend m) key valBytes (encodeDotMap dots)\<rparr>;
               deltaDots = mput (Replica dot) (Counter dot) []
           in (m, Ok (appendVarintBytes (appendVarintBytes [opPut] key) valBytes @ encodeDotMap deltaDots))))"

definition orMapState_Remove :: "'v orMapState \<Rightarrow> bytes \<Rightarrow> Dot \<Rightarrow> VClock \<Rightarrow> 'v orMapState \<times> bytes" where
  "orMapState_Remove m key dot ctx =
     (m\<lparr>omBackend := memoryBackend_PutTombstone (memoryBackend_DeleteEntry (omBackend m) key) key
         (encodeRemoveTombstone dot ctx)\<rparr>,
      appendVarintBytes [opRemove] key @ encodeDot dot @ encodeVClock ctx)"

definition orMapState_Get :: "'v orMapState \<Rightarrow> bytes \<Rightarrow> ('v \<times> DotMap) option" where
  "orMapState_Get m key =
     (case memoryBackend_GetEntry (omBackend m) key of
        None \<Rightarrow> None
      | Some (valBytes, metaBytes) \<Rightarrow>
          (case Decode (omCodec m) valBytes of
             Inr v \<Rightarrow> (case decodeDotMap metaBytes of Ok dm \<Rightarrow> Some (v, dm) | _ \<Rightarrow> None)
           | Inl _ \<Rightarrow> None))"

definition orMapState_Range ::
    "'v orMapState \<Rightarrow> (bytes \<Rightarrow> 'v \<Rightarrow> DotMap \<Rightarrow> 'x \<Rightarrow> 'x \<times> bool) \<Rightarrow> 'x \<Rightarrow> 'x" where
  "orMapState_Range m fn x =
     memoryBackend_RangeEntries (omBackend m) (\<lambda>key valBytes metaBytes x.
       case Decode (omCodec m) valBytes of
         Inr v \<Rightarrow> (case decodeDotMap metaBytes of Ok dm \<Rightarrow> fn key v dm x | _ \<Rightarrow> (x, True))
       | Inl _ \<Rightarrow> (x, True)) x"

definition orMapState_RangeBytes ::
    "'v orMapState \<Rightarrow> (bytes \<Rightarrow> bytes \<Rightarrow> DotMap \<Rightarrow> 'x \<Rightarrow> 'x \<times> bool) \<Rightarrow> 'x \<Rightarrow> 'x" where
  "orMapState_RangeBytes m fn x =
     memoryBackend_RangeEntries (omBackend m) (\<lambda>key valBytes metaBytes x.
       case decodeDotMap metaBytes of Ok dm \<Rightarrow> fn key valBytes dm x | _ \<Rightarrow> (x, True)) x"

definition orMapState_Len :: "'v orMapState \<Rightarrow> nat" where
  "orMapState_Len m = memoryBackend_EntryLen (omBackend m)"

definition orMapState_EntryMeta :: "'v orMapState \<Rightarrow> bytes \<Rightarrow> bytes option" where
  "orMapState_EntryMeta m key = map_option snd (memoryBackend_GetEntry (omBackend m) key)"

definition orMapState_TombstoneMeta :: "'v orMapState \<Rightarrow> bytes \<Rightarrow> bytes option" where
  "orMapState_TombstoneMeta m key = memoryBackend_GetTombstone (omBackend m) key"

definition orMapState_parsePutDelta :: "bytes \<Rightarrow> deltaInfo go" where
  "orMapState_parsePutDelta data =
     go_bind (readVarintBytes data 0) (\<lambda>(keyBytes, off). go_bind (readVarintBytes data off) (\<lambda>(_, off).
       go_bind (slice_from data off) (\<lambda>meta. go_bind (decodeDotMap meta) (\<lambda>remoteDots.
         Ok \<lparr>diOp = opPut, diKey = keyBytes, diMeta = meta, diContext = None,
             diDots = map (\<lambda>(rep, counter). mkDot rep counter) remoteDots\<rparr>))))"

text \<open>The remove delta has no \<open>Meta\<close>.\<close>

definition orMapState_parseRemoveDelta :: "bytes \<Rightarrow> deltaInfo go" where
  "orMapState_parseRemoveDelta data =
     go_bind (readVarintBytes data 0) (\<lambda>(keyBytes, off).
       if off + 16 > int (length data) then Err ErrShortBuffer
       else go_bind (go_bind (slice_from data off) decodeDot) (\<lambda>dot. go_bind (slice_from data (off + 16)) (\<lambda>context.
         Ok \<lparr>diOp = opRemove, diKey = keyBytes, diMeta = [], diContext = Some context, diDots = [dot]\<rparr>)))"

definition orMapState_ParseDelta :: "'v orMapState \<Rightarrow> bytes \<Rightarrow> deltaInfo go" where
  "orMapState_ParseDelta m delta =
     (case delta of
        [] \<Rightarrow> Err ErrShortBuffer
      | b # data \<Rightarrow>
          if b = opPut then orMapState_parsePutDelta data
          else if b = opRemove then orMapState_parseRemoveDelta data
          else Err ErrUnknownOp)"

definition orMapState_applyPut :: "'v orMapState \<Rightarrow> bytes \<Rightarrow> 'v orMapState \<times> unit go" where
  "orMapState_applyPut m data =
     (case go_bind (readVarintBytes data 0) (\<lambda>(keyBytes, off). go_bind (readVarintBytes data off) (\<lambda>(valBytes, off).
         go_bind (go_bind (slice_from data off) decodeDotMap) (\<lambda>remoteDots. Ok (keyBytes, valBytes, remoteDots)))) of
        Err e \<Rightarrow> (m, Err e)
      | Panic \<Rightarrow> (m, Panic)
      | Ok (key, valBytes, remoteDots) \<Rightarrow>
          (let (valBytes, remoteDots) = (case orMapState_GetBytes m key of
                 Some (localVal, localDots) \<Rightarrow>
                   (let combined = CombineDots localDots remoteDots;
                        winner = (if DotGT (MaxDot remoteDots) (MaxDot localDots) then valBytes else localVal)
                    in (winner, combined))
               | None \<Rightarrow> (valBytes, remoteDots));
               remoteDots = (case memoryBackend_GetTombstone (omBackend m) key of
                 Some tombMeta \<Rightarrow>
                   (case decodeRemoveTombstone tombMeta of Ok (_, tombCtx) \<Rightarrow> surviving remoteDots tombCtx | _ \<Rightarrow> remoteDots)
               | None \<Rightarrow> remoteDots)
           in (if length remoteDots > 0 then orMapState_PutBytes m key valBytes remoteDots else m, Ok ())))"

text \<open>As in the set, the merged context is discarded and the context of the delta is stored.\<close>

definition orMapState_applyRemove :: "'v orMapState \<Rightarrow> bytes \<Rightarrow> 'v orMapState \<times> unit go" where
  "orMapState_applyRemove m data =
     (case go_bind (readVarintBytes data 0) (\<lambda>(keyBytes, off).
         if off + 16 > int (length data) then Err ErrShortBuffer
         else go_bind (go_bind (slice_from data off) decodeDot) (\<lambda>dot.
           go_bind (go_bind (slice_from data (off + 16)) decodeVClock) (\<lambda>removeVC. Ok (keyBytes, dot, removeVC)))) of
        Err e \<Rightarrow> (m, Err e)
      | Panic \<Rightarrow> (m, Panic)
      | Ok (key, dot, removeVC) \<Rightarrow>
          (let dot = (case memoryBackend_GetTombstone (omBackend m) key of
                 Some existingMeta \<Rightarrow>
                   (case decodeRemoveTombstone existingMeta of
                      Ok (existingDot, _) \<Rightarrow> if \<not> DotGT dot existingDot then existingDot else dot
                    | _ \<Rightarrow> dot)
               | None \<Rightarrow> dot);
               m = m\<lparr>omBackend := memoryBackend_PutTombstone (omBackend m) key (encodeRemoveTombstone dot removeVC)\<rparr>
           in case orMapState_GetBytes m key of
                None \<Rightarrow> (m, Ok ())
              | Some (val, localDots) \<Rightarrow>
                  (let surv = surviving localDots removeVC in
                   (if length surv > 0 then orMapState_PutBytes m key val surv
                    else m\<lparr>omBackend := memoryBackend_DeleteEntry (omBackend m) key\<rparr>, Ok ()))))"

definition orMapState_Apply :: "'v orMapState \<Rightarrow> bytes \<Rightarrow> 'v orMapState \<times> unit go" where
  "orMapState_Apply m delta =
     (case delta of
        [] \<Rightarrow> (m, Err ErrShortBuffer)
      | b # data \<Rightarrow>
          if b = opPut then orMapState_applyPut m data
          else if b = opRemove then orMapState_applyRemove m data
          else (m, Err ErrUnknownOp))"

definition orMapState_DeltasSince :: "'v orMapState \<Rightarrow> VClock \<Rightarrow> bytes list" where
  "orMapState_DeltasSince m peerHWM =
     (let deltas = orMapState_RangeBytes m (\<lambda>key valBytes dots deltas.
            if list_ex (\<lambda>(rep, counter). counter > VClock_Get peerHWM rep) dots
            then (deltas @ [appendVarintBytes (appendVarintBytes [opPut] key) valBytes @ encodeDotMap dots], True)
            else (deltas, True)) []
      in memoryBackend_RangeTombstones (omBackend m) (\<lambda>key meta deltas.
            case decodeRemoveTombstone meta of
              Ok (dot, ctx) \<Rightarrow>
                if Counter dot > VClock_Get peerHWM (Replica dot)
                then (deltas @ [appendVarintBytes [opRemove] key @ encodeDot dot @ encodeVClock ctx], True)
                else (deltas, True)
            | _ \<Rightarrow> (deltas, True)) deltas)"

definition orMapState_GCTombstones :: "'v orMapState \<Rightarrow> VClock \<Rightarrow> 'v orMapState" where
  "orMapState_GCTombstones m minHWM =
     (let toDelete = memoryBackend_RangeTombstones (omBackend m) (\<lambda>key meta toDelete.
            case decodeRemoveTombstone meta of
              Ok (dot, _) \<Rightarrow>
                if Counter dot \<le> VClock_Get minHWM (Replica dot) then (toDelete @ [key], True) else (toDelete, True)
            | _ \<Rightarrow> (toDelete, True)) []
      in m\<lparr>omBackend := fold (\<lambda>key b. memoryBackend_DeleteTombstone b key) toDelete (omBackend m)\<rparr>)"

definition orMapM :: "'v orMapState mergeable" where
  "orMapM = \<lparr>mEntryMeta = orMapState_EntryMeta, mTombstoneMeta = orMapState_TombstoneMeta,
     mParseDelta = (\<lambda>m d. (m, orMapState_ParseDelta m d)), mApply = orMapState_Apply,
     mDeltasSince = orMapState_DeltasSince, mGCTombstones = Some orMapState_GCTombstones\<rparr>"

subsection \<open>The public type (node.go)\<close>

type_synonym 'v ORMap = "'v orMapState replica"

definition NewORMap :: "maphash \<Rightarrow> ReplicaID \<Rightarrow> 'v Codec option \<Rightarrow> Option list \<Rightarrow> 'v ORMap go" where
  "NewORMap mh rid codec opts =
     (let os = applyOptions opts;
          stateOpts = (if oBackend os \<noteq> None then [WithBackend (oBackend os)] else [])
      in go_map (\<lambda>state. newReplica mh rid state alwaysMergeClock opts) (newORMapState codec stateOpts))"

definition ORMap_Put :: "maphash \<Rightarrow> 'v ORMap \<Rightarrow> bytes \<Rightarrow> 'v \<Rightarrow> 'v ORMap \<times> (sends \<times> WriteResult) go" where
  "ORMap_Put mh m key v =
     (let (r, dot) = replica_nextDot m; (s, d) = orMapState_Put (rData r) key v dot; r = r\<lparr>rData := s\<rparr> in
      case d of
        Err e \<Rightarrow> (r, Err e)
      | Panic \<Rightarrow> (r, Panic)
      | Ok delta \<Rightarrow> (let r = replica_trackKey mh orMapM r key in (r, Ok (replica_propagate r dot delta))))"

definition ORMap_Remove :: "maphash \<Rightarrow> 'v ORMap \<Rightarrow> bytes \<Rightarrow> 'v ORMap \<times> sends \<times> WriteResult" where
  "ORMap_Remove mh m key =
     (let (r, dot) = replica_nextDot m;
          (s, delta) = orMapState_Remove (rData r) key dot (receivedClock_HWM (rReceived r));
          r = replica_trackKey mh orMapM (r\<lparr>rData := s\<rparr>) key
      in (r, replica_propagate r dot delta))"

definition ORMap_Get :: "'v ORMap \<Rightarrow> bytes \<Rightarrow> 'v option" where
  "ORMap_Get m key = map_option fst (orMapState_Get (rData m) key)"

definition ORMap_Len :: "'v ORMap \<Rightarrow> nat" where
  "ORMap_Len m = orMapState_Len (rData m)"

definition ORMap_Range :: "'v ORMap \<Rightarrow> (bytes \<Rightarrow> 'v \<Rightarrow> 'x \<Rightarrow> 'x \<times> bool) \<Rightarrow> 'x \<Rightarrow> 'x" where
  "ORMap_Range m fn x = orMapState_Range (rData m) (\<lambda>key v _. fn key v) x"

definition ORMap_Close :: "'v ORMap \<Rightarrow> 'v ORMap" where
  "ORMap_Close m = replica_Close m"

section \<open>Deltas\<close>

datatype om_op = OmPut bytes bytes DotMap | OmRem bytes Dot VClock

fun om_delta :: "om_op \<Rightarrow> bytes" where
  "om_delta (OmPut k v dm) = appendVarintBytes (appendVarintBytes [opPut] k) v @ encodeDotMap dm"
| "om_delta (OmRem k d c) = rm_delta k d c"

fun om_key :: "om_op \<Rightarrow> bytes" where
  "om_key (OmPut k v dm) = k"
| "om_key (OmRem k d c) = k"

fun om_abs :: "om_op \<Rightarrow> or_op" where
  "om_abs (OmPut k v dm) = OrAdd k (mget0 dm)"
| "om_abs (OmRem k d c) = OrRem k (VClock_Get c)"

fun om_ok :: "ReplicaID set \<Rightarrow> om_op \<Rightarrow> bool" where
  "om_ok R (OmPut k v dm) \<longleftrightarrow> in_cluster R dm \<and> pos_map dm"
| "om_ok R (OmRem k d c) \<longleftrightarrow> in_cluster R c"

definition om_fits :: "ReplicaID set \<Rightarrow> om_op \<Rightarrow> bool" where
  "om_fits R x \<longleftrightarrow> length (om_delta x) < 2 ^ 63 \<and> om_ok R x"

text \<open>The value of two entries that meet: the remote one only if its greatest dot is greater.\<close>

definition om_win :: "DotMap \<Rightarrow> bytes \<Rightarrow> bytes \<Rightarrow> DotMap \<Rightarrow> bytes" where
  "om_win rd v lv ld = (if DotGT (MaxDot rd) (MaxDot ld) then v else lv)"

fun om_write :: "om_op \<Rightarrow> 'v orMapState \<Rightarrow> 'v orMapState" where
  "om_write (OmPut k v dm) s = s\<lparr>omBackend := or_add (om_win dm v) (omBackend s) k v dm\<rparr>"
| "om_write (OmRem k d c) s = s\<lparr>omBackend := or_remove (\<lambda>v. v) (omBackend s) k (tomb_dot (omBackend s) k d) c\<rparr>"

lemma applyPut_write:
  assumes "readVarintBytes data 0 = Ok (k, o1)" "readVarintBytes data o1 = Ok (v, off)"
    and "go_bind (slice_from data off) decodeDotMap = Ok dm"
  shows "orMapState_applyPut s data = (om_write (OmPut k v dm) s, Ok ())"
proof -
  let ?e = "case memoryBackend_GetEntry (omBackend s) k of
      Some (lv, meta) \<Rightarrow> (case decodeDotMap meta of Ok ld \<Rightarrow> (om_win dm v lv ld, CombineDots ld dm) | _ \<Rightarrow> (v, dm))
    | None \<Rightarrow> (v, dm)"
  have e: "(case orMapState_GetBytes s k of
      Some (localVal, localDots) \<Rightarrow>
        (if DotGT (MaxDot dm) (MaxDot localDots) then v else localVal, CombineDots localDots dm)
    | None \<Rightarrow> (v, dm)) = ?e"
    by (auto simp: orMapState_GetBytes_def om_win_def Let_def split: option.splits go.splits)
  obtain v' ld where vl: "?e = (v', ld)" by fastforce
  have p: "(case memoryBackend_GetTombstone (omBackend s) k of
      Some tombMeta \<Rightarrow> (case decodeRemoveTombstone tombMeta of Ok (_, tombCtx) \<Rightarrow> surviving ld tombCtx | _ \<Rightarrow> ld)
    | None \<Rightarrow> ld) = or_prune (omBackend s) k ld" by (simp add: or_prune_def)
  have "go_bind (readVarintBytes data 0) (\<lambda>(keyBytes, off). go_bind (readVarintBytes data off) (\<lambda>(valBytes, off).
      go_bind (go_bind (slice_from data off) decodeDotMap) (\<lambda>remoteDots. Ok (keyBytes, valBytes, remoteDots)))) = Ok (k, v, dm)"
    using assms by simp
  then show ?thesis
    unfolding orMapState_applyPut_def om_write.simps or_add_def
    by (simp only: go.case prod.case e vl p Let_def orMapState_PutBytes_def) simp
qed

lemma applyRemove_om:
  assumes "readVarintBytes data 0 = Ok (k, off)" "\<not> off + 16 > int (length data)"
    and "go_bind (slice_from data off) decodeDot = Ok d" "go_bind (slice_from data (off + 16)) decodeVClock = Ok c"
  shows "orMapState_applyRemove s data = (om_write (OmRem k d c) s, Ok ())"
proof -
  have dot: "(case memoryBackend_GetTombstone (omBackend s) k of
                 Some existingMeta \<Rightarrow>
                   (case decodeRemoveTombstone existingMeta of
                      Ok (existingDot, _) \<Rightarrow> if \<not> DotGT d existingDot then existingDot else d
                    | _ \<Rightarrow> d)
               | None \<Rightarrow> d) = tomb_dot (omBackend s) k d" by (simp add: tomb_dot_def)
  show ?thesis
    using assms unfolding orMapState_applyRemove_def
    by (simp add: dot Let_def orMapState_GetBytes_def orMapState_PutBytes_def or_remove_def
        split: option.splits go.splits)
qed

lemma om_put_cons: "om_delta (OmPut k v dm) = opPut # appendVarintBytes [] k @ appendVarintBytes [] v @ encodeDotMap dm"
  by (simp add: appendVarintBytes_def)

fun om_info :: "om_op \<Rightarrow> deltaInfo" where
  "om_info (OmPut k v dm) = \<lparr>diOp = opPut, diKey = k, diMeta = encodeDotMap dm, diContext = None,
     diDots = map (\<lambda>(rep, counter). mkDot rep counter) (sorted_map dm)\<rparr>"
| "om_info (OmRem k d c) =
     \<lparr>diOp = opRemove, diKey = k, diMeta = [], diContext = Some (encodeVClock c), diDots = [d]\<rparr>"

fun om_stored :: "om_op \<Rightarrow> om_op" where
  "om_stored (OmPut k v dm) = OmPut k v (sorted_map dm)"
| "om_stored (OmRem k d c) = OmRem k d (sorted_map c)"

lemma om_stored_simps [simp]: "om_abs (om_stored x) = om_abs x" "om_ok R x \<Longrightarrow> om_ok R (om_stored x)"
  by (cases x; simp add: fun_eq_iff)+

lemma om_delta_ok:
  assumes "card R < 2 ^ 32" "om_fits R x"
  shows "orMapState_ParseDelta s (om_delta x) = Ok (om_info x)"
    and "orMapState_Apply s (om_delta x) = (om_write (om_stored x) s, Ok ())"
proof -
  have "orMapState_ParseDelta s (om_delta x) = Ok (om_info x) \<and>
    orMapState_Apply s (om_delta x) = (om_write (om_stored x) s, Ok ())"
  proof (cases x)
    case (OmPut k v dm)
    have len: "length (appendVarintBytes [] k @ appendVarintBytes [] v @ encodeDotMap dm) < 2 ^ 63"
      using assms(2) by (simp add: OmPut om_fits_def om_put_cons del: om_delta.simps)
    have d: "decodeDotMap (encodeDotMap dm) = Ok (sorted_map dm)"
      using assms by (intro decode_cluster) (auto simp: OmPut om_fits_def)
    show ?thesis
      by (rule read_two_fields [OF len])
        (simp add: OmPut om_put_cons orMapState_ParseDelta_def orMapState_parsePutDelta_def orMapState_Apply_def
          applyPut_write d del: om_delta.simps om_write.simps length_append)
  next
    case (OmRem k d c)
    have len: "length (appendVarintBytes [] k @ encodeDot d @ encodeVClock c) < 2 ^ 63"
      using assms(2) by (simp add: OmRem om_fits_def rm_delta_cons)
    have dc: "decodeVClock (encodeVClock c) = Ok (sorted_map c)"
      using assms in_cluster_length [of R c] by (simp add: OmRem om_fits_def in_cluster_def decodeVClock_encodeVClock')
    show ?thesis
      by (rule read_field_dot [OF len])
        (simp add: OmRem rm_delta_cons orMapState_ParseDelta_def orMapState_parseRemoveDelta_def orMapState_Apply_def
          applyRemove_om dc del: om_write.simps length_append)
  qed
  then show "orMapState_ParseDelta s (om_delta x) = Ok (om_info x)"
    "orMapState_Apply s (om_delta x) = (om_write (om_stored x) s, Ok ())" by blast+
qed

lemma om_write_step:
  assumes "or_inv R (omBackend s)" "card R < 2 ^ 32" "om_ok R x"
  shows "or_inv R (omBackend (om_write x s)) \<and> or_view (omBackend (om_write x s)) = code_step (om_abs x) (or_view (omBackend s))"
proof (cases x)
  case (OmPut k v dm)
  with or_add_step [OF assms(1,2)] assms(3) show ?thesis by simp
next
  case (OmRem k d c)
  with or_remove_step [OF assms(1,2)] assms(3) show ?thesis by simp
qed

lemma om_write_codec [simp]: "omCodec (om_write x s) = omCodec s"
  by (cases x) simp_all

section \<open>Delivery\<close>

lemma orMapM_simps [simp]:
  "mEntryMeta orMapM = orMapState_EntryMeta" "mTombstoneMeta orMapM = orMapState_TombstoneMeta"
  "mParseDelta orMapM = (\<lambda>s d. (s, orMapState_ParseDelta s d))" "mApply orMapM = orMapState_Apply"
  "mDeltasSince orMapM = orMapState_DeltasSince" "mGCTombstones orMapM = Some orMapState_GCTombstones"
  by (simp_all add: orMapM_def)

lemma om_Apply_cases:
  "(\<exists>x. orMapState_Apply s delta = (om_write x s, Ok ()) \<and>
      (\<forall>info. orMapState_ParseDelta s delta = Ok info \<longrightarrow> diKey info = om_key x)) \<or>
   fst (orMapState_Apply s delta) = s \<and> snd (orMapState_Apply s delta) \<noteq> Ok ()"
proof (cases delta)
  case (Cons b data)
  consider (put) "b = opPut" | (rem) "b = opRemove" | (other) "b \<noteq> opPut" "b \<noteq> opRemove" by blast
  then show ?thesis
  proof cases
    case put
    show ?thesis
    proof (cases "snd (orMapState_applyPut s data) = Ok ()")
      case True
      then obtain k o1 v off dm where k: "readVarintBytes data 0 = Ok (k, o1)" "readVarintBytes data o1 = Ok (v, off)"
          "go_bind (slice_from data off) decodeDotMap = Ok dm"
        by (auto simp: orMapState_applyPut_def go_simps split: go.splits)
      moreover have "diKey info = k" if "orMapState_parsePutDelta data = Ok info" for info
        using k that by (auto simp: orMapState_parsePutDelta_def go_simps)
      ultimately show ?thesis
        using Cons put applyPut_write [OF k, of s]
        by (intro disjI1 exI [of _ "OmPut k v dm"])
          (simp add: orMapState_Apply_def orMapState_ParseDelta_def del: om_write.simps)
    next
      case False
      with Cons put show ?thesis
        by (auto simp: orMapState_Apply_def orMapState_applyPut_def Let_def split_beta split: go.splits)
    qed
  next
    case rem
    show ?thesis
    proof (cases "snd (orMapState_applyRemove s data) = Ok ()")
      case True
      then obtain k off d c where k: "readVarintBytes data 0 = Ok (k, off)" "\<not> off + 16 > int (length data)"
          "go_bind (slice_from data off) decodeDot = Ok d" "go_bind (slice_from data (off + 16)) decodeVClock = Ok c"
        by (auto simp: orMapState_applyRemove_def go_simps split: go.splits if_splits)
      moreover have "diKey info = k" if "orMapState_parseRemoveDelta data = Ok info" for info
        using k that by (auto simp: orMapState_parseRemoveDelta_def go_simps)
      ultimately show ?thesis
        using Cons rem applyRemove_om [OF k, of s]
        by (intro disjI1 exI [of _ "OmRem k d c"])
          (simp add: orMapState_Apply_def orMapState_ParseDelta_def del: om_write.simps)
    next
      case False
      with Cons rem show ?thesis
        by (auto simp: orMapState_Apply_def orMapState_applyRemove_def Let_def split: go.splits option.splits)
    qed
  qed (use Cons in \<open>auto simp: orMapState_Apply_def\<close>)
qed (simp add: orMapState_Apply_def)

lemma om_write_mb:
  assumes "mb_inv (omBackend s)"
  shows "mb_inv (omBackend (om_write x s)) \<and>
    (\<forall>k. k \<noteq> om_key x \<longrightarrow> memoryBackend_GetEntry (omBackend (om_write x s)) k = memoryBackend_GetEntry (omBackend s) k \<and>
       memoryBackend_GetTombstone (omBackend (om_write x s)) k = memoryBackend_GetTombstone (omBackend s) k)"
  using assms or_add_frame [OF assms] or_remove_frame [OF assms] by (cases x) auto

lemma GC_om: "orMapState_GCTombstones s hwm = s\<lparr>omBackend := or_gc (omBackend s) hwm\<rparr>"
  by (simp add: orMapState_GCTombstones_def or_gc_def Let_def)

interpretation ormap: tracked_storage orMapM "\<lambda>s. mb_inv (omBackend s)"
proof
  fix s :: "'a orMapState" and delta
  assume inv: "mb_inv (omBackend s)"
  then show "mb_inv (omBackend (fst (mApply orMapM s delta)))"
    using om_Apply_cases [of s delta] om_write_mb [OF inv] by (auto simp del: om_write.simps)
  fix info k
  assume "snd (mParseDelta orMapM s delta) = Ok info" "k \<noteq> diKey info"
  with inv show "meta_of orMapM (fst (mApply orMapM s delta)) k = meta_of orMapM s k"
    using om_Apply_cases [of s delta] om_write_mb [OF inv]
    by (auto simp: meta_of_def orMapState_EntryMeta_def orMapState_TombstoneMeta_def simp del: om_write.simps
        split: option.splits)
next
  fix s :: "'a orMapState" and gc :: "'a orMapState \<Rightarrow> VClock \<Rightarrow> 'a orMapState" and hwm
  assume "mGCTombstones orMapM = Some gc" "mb_inv (omBackend s)"
  then show "mb_inv (omBackend (gc s hwm))" by (auto simp: GC_om or_gc_mb)
next
  fix s :: "'a orMapState" and delta
  assume "snd (mApply orMapM s delta) \<noteq> Ok ()"
  then show "fst (mApply orMapM s delta) = s"
    using om_Apply_cases [of s delta] by auto
qed simp_all

definition omr_inv :: "ReplicaID set \<Rightarrow> maphash \<Rightarrow> 'v ORMap \<Rightarrow> bool" where
  "omr_inv R mh r \<longleftrightarrow> ormap.replica_inv mh r \<and> rStrategy r = alwaysMergeClock \<and> or_inv R (omBackend (rData r))"

abbreviation om_view :: "'v ORMap \<Rightarrow> cells" where
  "om_view r \<equiv> or_view (omBackend (rData r))"

definition om_deliver :: "maphash \<Rightarrow> om_op \<Rightarrow> 'v ORMap \<Rightarrow> 'v ORMap" where
  "om_deliver mh x r = fst (replica_applyDelta mh orMapM r 0 (mkDot 0 0) (om_delta x))"

lemma om_deliver_data:
  assumes "rStrategy r = alwaysMergeClock" "card R < 2 ^ 32" "om_fits R x"
  shows "rData (om_deliver mh x r) = om_write (om_stored x) (rData r)"
proof -
  have p: "mParseDelta orMapM (rData r) (om_delta x) = (rData r, Ok (om_info x))"
    using om_delta_ok(1) [OF assms(2,3), of "rData r"] by simp
  show ?thesis
    unfolding om_deliver_def applyDelta_data [OF p] assms(1)
    using om_delta_ok(2) [OF assms(2,3), of "rData r"] by (simp add: alwaysMergeClock_def)
qed

lemma om_deliver_step:
  assumes "omr_inv R mh r" "card R < 2 ^ 32" "om_fits R x"
  shows "omr_inv R mh (om_deliver mh x r) \<and> om_view (om_deliver mh x r) = code_step (om_abs x) (om_view r) \<and>
    omCodec (rData (om_deliver mh x r)) = omCodec (rData r)"
proof -
  have st: "rStrategy r = alwaysMergeClock" and inv: "or_inv R (omBackend (rData r))" and ok: "om_ok R (om_stored x)"
    using assms by (auto simp: omr_inv_def om_fits_def)
  note data = om_deliver_data [OF st assms(2,3)]
  have "ormap.replica_inv mh (om_deliver mh x r)" "rStrategy (om_deliver mh x r) = alwaysMergeClock"
    using assms(1) by (simp_all add: omr_inv_def om_deliver_def ormap.applyDelta_inv)
  with om_write_step [OF inv assms(2) ok] show ?thesis by (simp add: omr_inv_def data)
qed

lemma om_deliver_all:
  assumes "card R < 2 ^ 32"
  shows "omr_inv R mh r \<Longrightarrow> list_all (om_fits R) xs \<Longrightarrow>
    omr_inv R mh (fold (om_deliver mh) xs r) \<and>
    om_view (fold (om_deliver mh) xs r) = fold code_step (map om_abs xs) (om_view r) \<and>
    omCodec (rData (fold (om_deliver mh) xs r)) = omCodec (rData r)"
proof (induction xs arbitrary: r)
  case (Cons x xs)
  have "om_fits R x" using Cons.prems by simp
  from om_deliver_step [OF Cons.prems(1) assms this] Cons show ?case by simp
qed simp

section \<open>Reads and values\<close>

lemma ORMap_Get_bytes:
  "ORMap_Get r k = (case orMapState_GetBytes (rData r) k of
     Some (v, _) \<Rightarrow> (case Decode (omCodec (rData r)) v of Inr x \<Rightarrow> Some x | Inl _ \<Rightarrow> None) | None \<Rightarrow> None)"
  by (auto simp: ORMap_Get_def orMapState_Get_def orMapState_GetBytes_def split: option.splits go.splits sum.splits)

lemma GetBytes_inv:
  assumes "or_inv R (omBackend m)"
  shows "orMapState_GetBytes m k = None \<longleftrightarrow> memoryBackend_GetEntry (omBackend m) k = None"
proof (cases "memoryBackend_GetEntry (omBackend m) k")
  case (Some e)
  obtain v meta where e: "e = (v, meta)" by (cases e)
  obtain dm where "decodeDotMap meta = Ok dm" using or_entry_inv [OF assms Some [unfolded e]] by metis
  with Some e show ?thesis by (simp add: orMapState_GetBytes_def)
qed (simp add: orMapState_GetBytes_def)

lemma Get_live:
  assumes "or_inv R (omBackend (rData r))" "\<And>b. \<exists>x. Decode (omCodec (rData r)) b = Inr x"
  shows "ORMap_Get r k \<noteq> None \<longleftrightarrow> (\<exists>i. fst (om_view r k i) \<noteq> 0)"
proof -
  have d: "(case Decode (omCodec (rData r)) b of Inr x \<Rightarrow> Some x | Inl _ \<Rightarrow> None) \<noteq> None" for b
    using assms(2) [of b] by auto
  then have "ORMap_Get r k \<noteq> None \<longleftrightarrow> orMapState_GetBytes (rData r) k \<noteq> None"
    by (auto simp: ORMap_Get_bytes split: option.splits)
  then show ?thesis using GetBytes_inv [OF assms(1)] or_live [OF assms(1)] by simp
qed

lemma NewORMap_Ok:
  assumes "MakeSeed mh \<noteq> 0" "oBackend (applyOptions opts) = None"
  obtains r where "NewORMap mh i (Some c) opts = Ok r" "\<And>R. omr_inv R mh r" "om_view r = (\<lambda>_ _. (0, 0))"
    "rData r = \<lparr>omCodec = c, omBackend = newMemoryBackend\<rparr>" "rLocal r = newLocalClock i"
proof -
  let ?m = "\<lparr>omCodec = c, omBackend = newMemoryBackend\<rparr>"
  let ?r = "newReplica mh i ?m alwaysMergeClock opts"
  have "or_inv R newMemoryBackend" for R
    by (simp add: or_inv_def memory.inv_empty memory.get_empty memory.tget_empty)
  moreover have "or_view newMemoryBackend = (\<lambda>_ _. (0, 0))"
    by (simp add: or_view_def or_entry_def or_ctx_def memory.get_empty memory.tget_empty VClock_Get_def fun_eq_iff)
  moreover have "rLocal ?r = newLocalClock i" by (simp add: newReplica_def Let_def)
  ultimately show ?thesis
    using assms received.inv_empty memory.inv_empty
    by (intro that [of ?r]) (simp_all add: NewORMap_def newORMapState_def requireCodec_def applyOptions_def
        omr_inv_def ormap.replica_inv_def mm_inv_new Let_def)
qed

section \<open>Puts as last-writer-wins cells\<close>

definition om_lww :: "'v orMapState \<Rightarrow> bytes \<Rightarrow> (Dot \<times> bytes) option" where
  "om_lww m k = (case orMapState_GetBytes m k of Some (v, dm) \<Rightarrow> Some (MaxDot dm, v) | None \<Rightarrow> None)"

definition om_put :: "bytes \<times> Dot \<times> bytes \<Rightarrow> om_op" where
  "om_put x = (case x of (k, d, v) \<Rightarrow> OmPut k v [(Replica d, Counter d)])"

definition om_puts_inv :: "ReplicaID set \<Rightarrow> maphash \<Rightarrow> 'v ORMap \<Rightarrow> bool" where
  "om_puts_inv R mh r \<longleftrightarrow> omr_inv R mh r \<and> card R < 2 ^ 32 \<and> memoryBackend_GetTombstone (omBackend (rData r)) = (\<lambda>_. None)"

lemma sorted_map_single [simp]: "sorted_map [(i, n)] = [(i, n)]"
  by (simp add: sorted_map_def sortedReplicaIDs_sort mget0_def)

text \<open>The entry and the tombstones after a put of one dot where the key has no tombstone.\<close>

lemma put_entry:
  assumes "or_inv R (omBackend m)" "card R < 2 ^ 32" "om_ok R (OmPut k v [(i, n)])"
    and "memoryBackend_GetTombstone (omBackend m) k = None"
  shows "orMapState_GetBytes (om_write (OmPut k v [(i, n)]) m) = (orMapState_GetBytes m)(k \<mapsto>
      (case orMapState_GetBytes m k of None \<Rightarrow> (v, [(i, n)])
       | Some (lv, ld) \<Rightarrow> (om_win [(i, n)] v lv ld, sorted_map (CombineDots ld [(i, n)]))))"
    and "memoryBackend_GetTombstone (omBackend (om_write (OmPut k v [(i, n)]) m)) = memoryBackend_GetTombstone (omBackend m)"
proof -
  let ?b = "omBackend m"
  have mb: "mb_inv ?b" using assms(1) by (simp add: or_inv_def)
  have dn: "in_cluster R [(i, n)]" "pos_map [(i, n)]" using assms(3) by auto
  show "memoryBackend_GetTombstone (omBackend (om_write (OmPut k v [(i, n)]) m)) = memoryBackend_GetTombstone ?b"
    using or_add_frame [OF mb] by simp
  show "orMapState_GetBytes (om_write (OmPut k v [(i, n)]) m) = (orMapState_GetBytes m)(k \<mapsto>
      (case orMapState_GetBytes m k of None \<Rightarrow> (v, [(i, n)])
       | Some (lv, ld) \<Rightarrow> (om_win [(i, n)] v lv ld, sorted_map (CombineDots ld [(i, n)]))))"
  proof (cases "memoryBackend_GetEntry ?b k")
    case None
    have "or_add (om_win [(i, n)] v) ?b k v [(i, n)] = memoryBackend_PutEntry ?b k v (encodeDotMap [(i, n)])"
      using None assms(4) by (simp add: or_add_def or_prune_def)
    with None show ?thesis
      by (auto simp: orMapState_GetBytes_def memory.laws [OF mb] decode_cluster(1) [OF dn(1) assms(2)] fun_eq_iff)
  next
    case (Some e)
    obtain lv meta where e: "e = (lv, meta)" by (cases e)
    obtain ld where ld: "decodeDotMap meta = Ok ld" "in_cluster R ld" "ld \<noteq> []"
      using or_entry_inv [OF assms(1) Some [unfolded e]] by metis
    let ?c = "CombineDots ld [(i, n)]"
    have c: "in_cluster R ?c" by (rule in_cluster_join [OF ld(2) dn(1)])
    have "mget0 ?c i = max (mget0 ld i) n"
      using mget0_join_loop [of "[(i, n)]" ld i] dn(1) ld(2)
      by (simp add: CombineDots_def in_cluster_def mget0_Cons)
    moreover have "n \<noteq> 0" using dn(2) by (simp add: pos_map_def)
    ultimately have "?c \<noteq> []" by (auto simp: max_def split: if_splits)
    then have "or_add (om_win [(i, n)] v) ?b k v [(i, n)] = memoryBackend_PutEntry ?b k (om_win [(i, n)] v lv ld) (encodeDotMap ?c)"
      using Some e ld(1) assms(4) by (simp add: or_add_def or_prune_def)
    with Some e ld(1) show ?thesis
      by (auto simp: orMapState_GetBytes_def memory.laws [OF mb] decode_cluster(1) [OF c assms(2)] fun_eq_iff)
  qed
qed

lemma om_put_step:
  assumes "om_puts_inv R mh r" "om_fits R (om_put x)"
  shows "om_puts_inv R mh (om_deliver mh (om_put x) r) \<and>
    om_lww (rData (om_deliver mh (om_put x) r)) = lww_step x (om_lww (rData r))"
proof -
  obtain k d v where x: "x = (k, d, v)" by (cases x)
  have r: "omr_inv R mh r" "card R < 2 ^ 32" "memoryBackend_GetTombstone (omBackend (rData r)) = (\<lambda>_. None)"
    using assms(1) by (auto simp: om_puts_inv_def)
  have st: "rStrategy r = alwaysMergeClock" and inv: "or_inv R (omBackend (rData r))" using r(1) by (auto simp: omr_inv_def)
  have ok: "om_ok R (OmPut k v [(Replica d, Counter d)])" using assms(2) by (simp add: x om_put_def om_fits_def)
  then have nz: "Counter d \<noteq> 0" and pos: "pos_map [(Replica d, Counter d)]" by (simp_all add: pos_map_def)
  note data = om_deliver_data [OF st r(2) assms(2), of mh]
  have w: "om_write (om_stored (om_put x)) (rData r) = om_write (OmPut k v [(Replica d, Counter d)]) (rData r)"
    by (simp add: x om_put_def)
  note pe = put_entry [OF inv r(2) ok, OF fun_cong [OF r(3)]]
  have md: "MaxDot [(Replica d, Counter d)] = d" using nz by (simp add: MaxDot_single)
  have "om_lww (om_write (OmPut k v [(Replica d, Counter d)]) (rData r)) = lww_step x (om_lww (rData r))"
  proof (cases "orMapState_GetBytes (rData r) k")
    case None
    then show ?thesis by (auto simp: om_lww_def pe x lww_step_def md fun_eq_iff simp del: om_write.simps)
  next
    case (Some e)
    obtain lv ld where e: "e = (lv, ld)" by (cases e)
    from Some e obtain meta where g: "memoryBackend_GetEntry (omBackend (rData r)) k = Some (lv, meta)" "decodeDotMap meta = Ok ld"
      by (auto simp: orMapState_GetBytes_def split: option.splits go.splits)
    obtain dm where dm: "decodeDotMap meta = Ok dm" "wf_map dm" "dm \<noteq> []"
        "\<And>i c. (i, c) \<in> set dm \<Longrightarrow> VClock_Get (or_ctx (omBackend (rData r)) k) i < c"
      using or_entry_inv [OF inv g(1)] by metis
    then have ld: "pos_map ld" "ld \<noteq> []" using g(2) by (force simp: pos_map_def)+
    have "CombineDots ld [(Replica d, Counter d)] \<noteq> []"
      using dotmap.get_join [OF ld(1) pos, of "Replica d"] nz by (auto simp: mget0_Cons max_def split: if_splits)
    then have mx: "MaxDot (sorted_map (CombineDots ld [(Replica d, Counter d)])) = max (MaxDot ld) d"
      using MaxDot_Combine [OF ld pos] md by (simp add: MaxDot_sorted dotmap.inv_join [OF ld(1) pos])
    show ?thesis
      using Some by (auto simp: om_lww_def pe x e lww_step_def md mx om_win_def DotGT_less fun_eq_iff max_def simp del: om_write.simps)
  qed
  with om_deliver_step [OF r(1,2) assms(2)] pe(2) r show ?thesis
    by (simp add: om_puts_inv_def data w del: om_write.simps)
qed

interpretation ormap_puts: delta_crdt "\<lambda>x. om_deliver mh (om_put x)" "\<lambda>r. om_lww (rData r)" lww_step
    "\<lambda>x. om_fits R (om_put x)" same_write "om_puts_inv R mh" for mh R
  by unfold_locales (simp_all add: om_put_step lww_step_idem, rule lww_step_commute)

lemma NewORMap_fresh:
  assumes "MakeSeed mh \<noteq> 0" "oBackend (applyOptions opts) = None" "NewORMap mh i (Some c) opts = Ok r"
  shows "omr_inv R mh r" "om_view r = (\<lambda>_ _. (0, 0))" "rData r = \<lparr>omCodec = c, omBackend = newMemoryBackend\<rparr>"
proof -
  obtain r0 where r0: "NewORMap mh i (Some c) opts = Ok r0" "\<And>R. omr_inv R mh r0" "om_view r0 = (\<lambda>_ _. (0, 0))"
    "rData r0 = \<lparr>omCodec = c, omBackend = newMemoryBackend\<rparr>" using NewORMap_Ok [OF assms(1,2)] by blast
  moreover have "r0 = r" using r0(1) assms(3) by simp
  ultimately show "omr_inv R mh r" "om_view r = (\<lambda>_ _. (0, 0))" "rData r = \<lparr>omCodec = c, omBackend = newMemoryBackend\<rparr>"
    by blast+
qed

lemma fresh_puts:
  assumes "omr_inv R mh r" "card R < 2 ^ 32" "rData r = \<lparr>omCodec = c, omBackend = newMemoryBackend\<rparr>"
  shows "om_puts_inv R mh r" and "om_lww (rData r) = (\<lambda>_. None)"
proof -
  show "om_puts_inv R mh r" using assms by (simp add: om_puts_inv_def memory.tget_empty fun_eq_iff)
  show "om_lww (rData r) = (\<lambda>_. None)"
    by (simp add: assms(3) om_lww_def orMapState_GetBytes_def memory.get_empty fun_eq_iff)
qed

text \<open>Where a value comes from: a remove keeps the one that was there, a put of an absent key writes its own.\<close>

lemma rem_value:
  assumes "or_inv R (omBackend m)" "orMapState_GetBytes (om_write (OmRem k d c) m) k = Some (w, dm')"
  shows "\<exists>dm. orMapState_GetBytes m k = Some (w, dm)"
proof (cases "memoryBackend_GetEntry (omBackend m) k")
  case None
  have "mb_inv (omBackend m)" using assms(1) by (simp add: or_inv_def)
  with None assms(2) show ?thesis
    by (simp add: orMapState_GetBytes_def or_remove_def memory.laws Let_def)
next
  case (Some e)
  obtain v meta where e: "e = (v, meta)" by (cases e)
  have mb: "mb_inv (omBackend m)" using assms(1) by (simp add: or_inv_def)
  obtain dm where dm: "decodeDotMap meta = Ok dm" using or_entry_inv [OF assms(1) Some [unfolded e]] by metis
  with Some e assms(2) mb have "w = v"
    by (auto simp: orMapState_GetBytes_def or_remove_def memory.laws Let_def split: if_splits go.splits)
  with Some e dm show ?thesis by (simp add: orMapState_GetBytes_def)
qed

lemma put_absent_value:
  assumes "mb_inv (omBackend m)" "memoryBackend_GetEntry (omBackend m) k = None"
    and "orMapState_GetBytes (om_write (OmPut k v rd) m) k = Some (w, dm)"
  shows "w = v"
  using assms
  by (auto simp: orMapState_GetBytes_def or_add_def memory.laws Let_def split: if_splits go.splits)

lemma live_bytes:
  assumes "or_inv R (omBackend m)" "fst (or_view (omBackend m) k i) \<noteq> 0"
  obtains v dm where "orMapState_GetBytes m k = Some (v, dm)"
proof -
  have "orMapState_GetBytes m k \<noteq> None"
    using GetBytes_inv [OF assms(1), of k] or_live [OF assms(1), of k] assms(2) by blast
  then show ?thesis using that by (cases "orMapState_GetBytes m k") auto
qed

section \<open>Properties\<close>

text \<open>
  Strong eventual consistency of the keys of the observed-remove map: with a codec that
  decodes everything, two replicas that received the same deltas agree on which keys are
  present, as long as the removes of a key arrive in the order of their contexts.
\<close>

theorem ORMap_keys_converge:
  assumes "MakeSeed mh \<noteq> 0" "MakeSeed mh' \<noteq> 0"
    and "oBackend (applyOptions opts) = None" "oBackend (applyOptions opts') = None"
    and "NewORMap mh i (Some c) opts = Ok r" "NewORMap mh' j (Some c) opts' = Ok r'"
    and "card R < 2 ^ 32" "list_all (om_fits R) ds" "set ds = set es"
    and "sorted_wrt removes_ordered (map om_abs ds)" "sorted_wrt removes_ordered (map om_abs es)"
    and "\<And>b. \<exists>x. Decode c b = Inr x"
  shows "ORMap_Get (fold (om_deliver mh) ds r) k = None \<longleftrightarrow> ORMap_Get (fold (om_deliver mh') es r') k = None"
proof -
  note r = NewORMap_fresh [OF assms(1,3,5)] NewORMap_fresh [OF assms(2,4,6)]
  have es: "list_all (om_fits R) es" using assms(8,9) by (simp add: list_all_iff)
  note a = om_deliver_all [OF assms(7) r(1) assms(8)] and a' = om_deliver_all [OF assms(7) r(4) es]
  have "set (map om_abs ds) = set (map om_abs es)" using assms(9) by simp
  then have v: "om_view (fold (om_deliver mh) ds r) = om_view (fold (om_deliver mh') es r')"
    using code_converges [OF _ assms(10,11)] a a' r(2) r(5) by simp
  have "ORMap_Get (fold (om_deliver mh) ds r) k \<noteq> None \<longleftrightarrow> (\<exists>i. fst (om_view (fold (om_deliver mh) ds r) k i) \<noteq> 0)"
    using a r(3) assms(12) by (intro Get_live [of R]) (auto simp: omr_inv_def)
  moreover have "ORMap_Get (fold (om_deliver mh') es r') k \<noteq> None \<longleftrightarrow> (\<exists>i. fst (om_view (fold (om_deliver mh') es r') k i) \<noteq> 0)"
    using a' r(6) assms(12) by (intro Get_live [of R]) (auto simp: omr_inv_def)
  ultimately show ?thesis unfolding v by blast
qed

lemma om_fits_short:
  "length k < 128 \<Longrightarrow> length v < 128 \<Longrightarrow> in_cluster R dm \<Longrightarrow> pos_map dm \<Longrightarrow> card R < 2 ^ 32 \<Longrightarrow> om_fits R (OmPut k v dm)"
  "length k < 128 \<Longrightarrow> in_cluster R c \<Longrightarrow> card R < 2 ^ 32 \<Longrightarrow> om_fits R (OmRem k d c)"
  using in_cluster_length [of R dm] in_cluster_length [of R c]
  by (simp_all add: om_fits_def rm_delta_def length_PutUvarint_short encodeVClock_def length_encodeDotMap)

lemma demo_ORMap:
  obtains r :: "bytes ORMap" where "NewORMap demo_hash i (Some StringCodec) [] = Ok r" "\<And>R. omr_inv R demo_hash r"
    "om_view r = (\<lambda>_ _. (0, 0))" "rData r = \<lparr>omCodec = StringCodec, omBackend = newMemoryBackend\<rparr>" "rLocal r = newLocalClock i"
  by (rule NewORMap_Ok [of demo_hash "[]" i StringCodec]) (auto simp: applyOptions_def)

theorem ORMap_keys_converge_witness:
  "\<exists>r r'. NewORMap demo_hash 1 (Some StringCodec) [] = Ok r \<and> NewORMap demo_hash 2 (Some StringCodec) [] = Ok r' \<and>
     (ORMap_Get (fold (om_deliver demo_hash) [OmPut [7] [5] [(3, 1)], OmRem [7] (mkDot 2 1) [(3, 1)]] r) [7] = None
     \<longleftrightarrow> ORMap_Get (fold (om_deliver demo_hash) [OmRem [7] (mkDot 2 1) [(3, 1)], OmPut [7] [5] [(3, 1)]] r') [7] = None)"
proof -
  have seed: "MakeSeed demo_hash \<noteq> 0" and opts: "oBackend (applyOptions []) = None" by (simp_all add: applyOptions_def)
  obtain r :: "bytes ORMap" where r: "NewORMap demo_hash 1 (Some StringCodec) [] = Ok r"
    using demo_ORMap [of 1] by blast
  obtain r' :: "bytes ORMap" where r': "NewORMap demo_hash 2 (Some StringCodec) [] = Ok r'"
    using demo_ORMap [of 2] by blast
  show ?thesis
    by (intro exI conjI, rule r, rule r', rule ORMap_keys_converge [OF seed seed opts opts r r' demo_cluster_card])
      (auto simp: om_fits_short demo_clock demo_cluster_card StringCodec_def)
qed

text \<open>
  Without removes the values converge too: replicas that received the same puts, in any
  order and any number of times, read the same value under every key, the one with the
  greatest dot, as long as no two different puts of a key carry the same dot.
\<close>

theorem ORMap_puts_converge:
  assumes "MakeSeed mh \<noteq> 0" "MakeSeed mh' \<noteq> 0"
    and "oBackend (applyOptions opts) = None" "oBackend (applyOptions opts') = None"
    and "NewORMap mh i (Some c) opts = Ok r" "NewORMap mh' j (Some c) opts' = Ok r'"
    and "card R < 2 ^ 32" "list_all (\<lambda>x. om_fits R (om_put x)) ds"
    and "\<forall>d \<in> set ds. \<forall>e \<in> set ds. same_write d e" "set ds = set es"
  shows "ORMap_Get (fold (\<lambda>x. om_deliver mh (om_put x)) ds r) k = ORMap_Get (fold (\<lambda>x. om_deliver mh' (om_put x)) es r') k"
proof -
  note rd = NewORMap_fresh(1,3) [OF assms(1,3,5)] NewORMap_fresh(1,3) [OF assms(2,4,6)]
  note r = fresh_puts [OF rd(1) assms(7) rd(2)] and r' = fresh_puts [OF rd(3) assms(7) rd(4)]
  have es: "list_all (\<lambda>x. om_fits R (om_put x)) es" "\<forall>d \<in> set es. \<forall>e \<in> set es. same_write d e"
    using assms(8-10) by (auto simp: list_all_iff)
  have v: "om_lww (rData (fold (\<lambda>x. om_deliver mh (om_put x)) ds r)) = om_lww (rData (fold (\<lambda>x. om_deliver mh' (om_put x)) es r'))"
    using ormap_puts.view_of_set [OF r(1) assms(8,9)] ormap_puts.view_of_set [OF r'(1) es] r(2) r'(2) assms(10) by simp
  have c: "om_puts_inv R h p \<Longrightarrow> list_all (\<lambda>x. om_fits R (om_put x)) xs \<Longrightarrow>
      omCodec (rData (fold (\<lambda>x. om_deliver h (om_put x)) xs p)) = omCodec (rData p)" for h xs and p :: "'a ORMap"
  proof (induction xs arbitrary: p)
    case (Cons x xs)
    then show ?case using om_put_step [of R h p x] om_deliver_step [of R h p "om_put x"] by (simp add: om_puts_inv_def)
  qed simp
  have g: "ORMap_Get p k = (case om_lww (rData p) k of
      Some (_, v) \<Rightarrow> (case Decode (omCodec (rData p)) v of Inr x \<Rightarrow> Some x | Inl _ \<Rightarrow> None) | None \<Rightarrow> None)" for p :: "'a ORMap"
    by (auto simp: ORMap_Get_bytes om_lww_def split: option.splits)
  have e: "omCodec (rData (fold (\<lambda>x. om_deliver mh (om_put x)) ds r)) = c" "omCodec (rData (fold (\<lambda>x. om_deliver mh' (om_put x)) es r')) = c"
    using c [OF r(1) assms(8)] c [OF r'(1) es(1)] rd(2,4) by simp_all
  show ?thesis unfolding g v e ..
qed

theorem ORMap_puts_converge_witness:
  "\<exists>r r'. NewORMap demo_hash 1 (Some StringCodec) [] = Ok r \<and> NewORMap demo_hash 2 (Some StringCodec) [] = Ok r' \<and>
     ORMap_Get (fold (\<lambda>x. om_deliver demo_hash (om_put x)) [([7], mkDot 3 1, [5]), ([7], mkDot 2 2, [6])] r) [7]
     = ORMap_Get (fold (\<lambda>x. om_deliver demo_hash (om_put x)) [([7], mkDot 2 2, [6]), ([7], mkDot 3 1, [5])] r') [7]"
proof -
  have seed: "MakeSeed demo_hash \<noteq> 0" and opts: "oBackend (applyOptions []) = None" by (simp_all add: applyOptions_def)
  obtain r :: "bytes ORMap" where r: "NewORMap demo_hash 1 (Some StringCodec) [] = Ok r"
    using demo_ORMap [of 1] by blast
  obtain r' :: "bytes ORMap" where r': "NewORMap demo_hash 2 (Some StringCodec) [] = Ok r'"
    using demo_ORMap [of 2] by blast
  show ?thesis
    by (intro exI conjI, rule r, rule r', rule ORMap_puts_converge [OF seed seed opts opts r r' demo_cluster_card])
      (auto simp: om_put_def om_fits_short demo_clock demo_cluster_card same_write_def)
qed

text \<open>
  The value of an entry that a remove leaves alive: the one of the greatest dot before the
  remove, or, when the remove comes first, the one of the later put.
\<close>

lemma put_put_remove:
  assumes "omr_inv R mh r" "card R < 2 ^ 32" "rData r = \<lparr>omCodec = c, omBackend = newMemoryBackend\<rparr>"
    and "om_fits R (OmPut k v [(i, n)])" "om_fits R (OmPut k w [(j, m)])" "om_fits R (OmRem k t vc)"
    and "i \<noteq> j" "mkDot j m < mkDot i n" "VClock_Get vc j < m"
  shows "\<exists>dm. orMapState_GetBytes (rData (fold (om_deliver mh) [OmPut k v [(i, n)], OmPut k w [(j, m)], OmRem k t vc] r)) k = Some (v, dm)"
proof -
  let ?p = "OmPut k v [(i, n)]" and ?q = "OmPut k w [(j, m)]" and ?x = "OmRem k t vc"
  define a where "a = om_deliver mh ?q (om_deliver mh ?p r)"
  note step = om_deliver_step [OF _ assms(2)]
  have st: "rStrategy p = alwaysMergeClock" "or_inv R (omBackend (rData p))" if "omr_inv R h p" for h and p :: "'a ORMap"
    using that by (auto simp: omr_inv_def)
  have put: "om_put (k, mkDot i n, v) = ?p" "om_put (k, mkDot j m, w) = ?q" by (simp_all add: om_put_def)
  have nm: "m \<noteq> 0" using assms(5) by (auto simp: om_fits_def pos_map_def)
  have fresh: "om_view r = (\<lambda>_ _. (0, 0))"
    using assms(3) by (simp add: or_view_def or_entry_def or_ctx_def memory.get_empty memory.tget_empty VClock_Get_def fun_eq_iff)
  note s1 = om_put_step [OF fresh_puts(1) [OF assms(1-3)], of "(k, mkDot i n, v)", unfolded put, OF assms(4)]
  note s2 = om_put_step [OF conjunct1 [OF s1], of "(k, mkDot j m, w)", unfolded put, OF assms(5)]
  have nlt: "\<not> mkDot i n < mkDot j m" using assms(8) by simp
  have "om_lww (rData a) k = Some (mkDot i n, v)"
    using s1 s2 fresh_puts(2) [OF assms(1-3)] nlt by (simp add: a_def lww_step_def)
  then obtain dm1 where dm1: "orMapState_GetBytes (rData a) k = Some (v, dm1)"
    by (auto simp: om_lww_def split: option.splits)
  have a: "omr_inv R mh a" using s2 by (simp add: a_def om_puts_inv_def)
  have av: "om_view a k j = (m, 0)"
    using step [OF assms(1,4)] step [OF conjunct1 [OF step [OF assms(1,4)]] assms(5)] assms(7)
    by (simp add: a_def fresh cell_add_def mget0_Cons max_def keep_def word_gt_0)
  have "fst (om_view (om_deliver mh ?x a) k j) \<noteq> 0"
    using step [OF a assms(6)] av assms(9) nm by (simp add: keep_def)
  then obtain v' dm' where g: "orMapState_GetBytes (rData (om_deliver mh ?x a)) k = Some (v', dm')"
    using live_bytes [OF st(2) [OF conjunct1 [OF step [OF a assms(6)]]]] by metis
  then have "\<exists>dm. orMapState_GetBytes (rData a) k = Some (v', dm)"
    using rem_value [OF st(2) [OF a], of k t "sorted_map vc" v' dm'] om_deliver_data [OF st(1) [OF a] assms(2,6), of mh] by simp
  with dm1 g show ?thesis by (simp add: a_def)
qed

lemma put_remove_put:
  assumes "omr_inv R mh r" "card R < 2 ^ 32" "rData r = \<lparr>omCodec = c, omBackend = newMemoryBackend\<rparr>"
    and "om_fits R (OmPut k v [(i, n)])" "om_fits R (OmPut k w [(j, m)])" "om_fits R (OmRem k t vc)"
    and "n \<le> VClock_Get vc i" "VClock_Get vc j < m"
  shows "\<exists>dm. orMapState_GetBytes (rData (fold (om_deliver mh) [OmPut k v [(i, n)], OmRem k t vc, OmPut k w [(j, m)]] r)) k = Some (w, dm)"
proof -
  let ?p = "OmPut k v [(i, n)]" and ?q = "OmPut k w [(j, m)]" and ?x = "OmRem k t vc"
  define b where "b = om_deliver mh ?x (om_deliver mh ?p r)"
  note step = om_deliver_step [OF _ assms(2)]
  have st: "rStrategy p = alwaysMergeClock" "or_inv R (omBackend (rData p))" if "omr_inv R h p" for h and p :: "'a ORMap"
    using that by (auto simp: omr_inv_def)
  have nm: "m \<noteq> 0" using assms(5) by (auto simp: om_fits_def pos_map_def)
  have k0: "keep 0 x = x" "keep x 0 = 0" for x by (auto simp: keep_def word_gt_0)
  have fresh: "om_view r = (\<lambda>_ _. (0, 0))"
    using assms(3) by (simp add: or_view_def or_entry_def or_ctx_def memory.get_empty memory.tget_empty VClock_Get_def fun_eq_iff)
  note t1 = step [OF assms(1,4)]
  note t2 = step [OF conjunct1 [OF t1] assms(6)]
  have b: "omr_inv R mh b" using t2 by (simp add: b_def)
  have bv: "om_view b k l = (0, VClock_Get vc l)" for l
    using t1 t2 assms(7) by (simp add: b_def fresh cell_add_def mget0_Cons max_def k0)
  then have "memoryBackend_GetEntry (omBackend (rData b)) k = None"
    using or_live [OF st(2) [OF b], of k] by (cases "memoryBackend_GetEntry (omBackend (rData b)) k") auto
  moreover have "fst (om_view (om_deliver mh ?q b) k j) \<noteq> 0"
    using step [OF b assms(5)] bv assms(8) nm by (simp add: cell_add_def mget0_Cons max_def keep_def)
  then obtain w' dm2 where g2: "orMapState_GetBytes (rData (om_deliver mh ?q b)) k = Some (w', dm2)"
    using live_bytes [OF st(2) [OF conjunct1 [OF step [OF b assms(5)]]]] by metis
  moreover have "mb_inv (omBackend (rData b))" using st(2) [OF b] by (simp add: or_inv_def)
  ultimately have "w' = w"
    using put_absent_value [of "rData b" k w "[(j, m)]" w' dm2] om_deliver_data [OF st(1) [OF b] assms(2,5), of mh] by simp
  with g2 show ?thesis by (simp add: b_def)
qed

text \<open>
  C40: a remove keeps the value of an entry that survives it, even when the put that wrote the
  value was the one removed: after two puts of different replicas and a remove that observed
  only the winner, one replica reads the removed value, while a replica that got the remove
  between the two puts reads the surviving one.
\<close>

theorem ORMap_value_diverges:
  assumes "omr_inv R mh r" "omr_inv R mh' r'" "card R < 2 ^ 32"
    and "rData r = \<lparr>omCodec = c, omBackend = newMemoryBackend\<rparr>" "rData r' = \<lparr>omCodec = c, omBackend = newMemoryBackend\<rparr>"
    and "om_fits R (OmPut k v [(i, n)])" "om_fits R (OmPut k w [(j, m)])" "om_fits R (OmRem k t vc)"
    and "i \<noteq> j" "mkDot j m < mkDot i n" "n \<le> VClock_Get vc i" "VClock_Get vc j < m"
  shows "\<exists>dm dm'. orMapState_GetBytes (rData (fold (om_deliver mh) [OmPut k v [(i, n)], OmPut k w [(j, m)], OmRem k t vc] r)) k = Some (v, dm) \<and>
    orMapState_GetBytes (rData (fold (om_deliver mh') [OmPut k v [(i, n)], OmRem k t vc, OmPut k w [(j, m)]] r')) k = Some (w, dm')"
  using put_put_remove [OF assms(1,3,4,6-10,12)] put_remove_put [OF assms(2,3,5,6-8,11,12)] by blast

theorem ORMap_value_diverges_witness:
  "\<exists>r r'. NewORMap demo_hash 1 (Some StringCodec) [] = Ok r \<and> NewORMap demo_hash 2 (Some StringCodec) [] = Ok r' \<and>
     (\<exists>dm dm'. orMapState_GetBytes (rData (fold (om_deliver demo_hash)
         [OmPut [7] [5] [(3, 2)], OmPut [7] [6] [(2, 1)], OmRem [7] (mkDot 1 1) [(3, 2)]] r)) [7] = Some ([5], dm) \<and>
       orMapState_GetBytes (rData (fold (om_deliver demo_hash)
         [OmPut [7] [5] [(3, 2)], OmRem [7] (mkDot 1 1) [(3, 2)], OmPut [7] [6] [(2, 1)]] r')) [7] = Some ([6], dm'))"
proof -
  obtain r :: "bytes ORMap" where r: "NewORMap demo_hash 1 (Some StringCodec) [] = Ok r" "\<And>R. omr_inv R demo_hash r"
      "rData r = \<lparr>omCodec = StringCodec, omBackend = newMemoryBackend\<rparr>"
    using demo_ORMap [of 1] by blast
  obtain r' :: "bytes ORMap" where r': "NewORMap demo_hash 2 (Some StringCodec) [] = Ok r'" "\<And>R. omr_inv R demo_hash r'"
      "rData r' = \<lparr>omCodec = StringCodec, omBackend = newMemoryBackend\<rparr>"
    using demo_ORMap [of 2] by blast
  have f: "om_fits demo_cluster (OmPut [7] [5] [(3, 2)])" "om_fits demo_cluster (OmPut [7] [6] [(2, 1)])"
      "om_fits demo_cluster (OmRem [7] (mkDot 1 1) [(3, 2)])"
    by (auto simp: om_fits_short demo_clock demo_cluster_card)
  have lt: "mkDot 2 1 < mkDot 3 2" by (simp add: DotGT_less [symmetric] DotGT_def)
  show ?thesis
    by (intro exI [of _ r] exI [of _ r'] conjI r(1) r'(1),
        rule ORMap_value_diverges [OF r(2) r'(2) demo_cluster_card r(3) r'(3) f _ lt])
      (simp_all add: VClock_Get_def mget0_def)
qed

end
