(* ===== verification/ORMapNetwork.thy ===== *)
theory ORMapNetwork
  imports ObservedCluster ORMaps
begin

text \<open>
  Clusters of observed-remove maps: the contract of \<^verbatim>\<open>ObservedCluster\<close> for \<^verbatim>\<open>ormap.go\<close> and the public map of
  \<^verbatim>\<open>node.go\<close>. An entry of the map stores the encoded value of one of the puts of its key.
\<close>

section \<open>Definitions\<close>

definition om_fresh :: "ReplicaID set \<Rightarrow> (ReplicaID \<Rightarrow> maphash) \<Rightarrow> 'v Codec \<Rightarrow> ReplicaID \<Rightarrow> 'v ORMap \<Rightarrow> bool" where
  "om_fresh R mh c i r \<longleftrightarrow> card R < 2 ^ 32 \<and> MakeSeed (mh i) \<noteq> 0 \<and>
     (\<exists>opts. oBackend (applyOptions opts) = None \<and> NewORMap (mh i) i (Some c) opts = Ok r)"

inductive om_local ::
    "ReplicaID set \<Rightarrow> (ReplicaID \<Rightarrow> maphash) \<Rightarrow> 'v Codec \<Rightarrow> ReplicaID \<Rightarrow> or_hist \<Rightarrow> 'v ORMap \<Rightarrow> or_hist \<Rightarrow> 'v ORMap \<Rightarrow> sends \<Rightarrow> bool"
  for R mh c where
  om_put: "\<lbrakk>ORMap_Put (mh i) r k v = (r', Ok (out, w)); i \<in> R; hsClock h i + 1 \<noteq> 0; Encode c v = Inr b; length k + length b < 2 ^ 62\<rbrakk> \<Longrightarrow>
    om_local R mh c i h r (hs_log h i (Some (EvAdd k b))) r' out"
| om_remove: "\<lbrakk>ORMap_Remove (mh i) r k = (r', out, w); i \<in> R; hsClock h i + 1 \<noteq> 0; length k < 2 ^ 62\<rbrakk> \<Longrightarrow>
    om_local R mh c i h r (hs_log h i (Some (EvRem k (or_sees (omBackend (rData r)) (remove_context r) k)))) r' out"
| om_refused: "\<lbrakk>ORMap_Put (mh i) r k v = (r', Err x); i \<in> R; hsClock h i + 1 \<noteq> 0; Encode c v = Inl x\<rbrakk> \<Longrightarrow>
    om_local R mh c i h r (hs_log h i None) r' []"

type_synonym 'v om_net = "('v orMapState, or_hist) net"

definition om_cluster :: "ReplicaID set \<Rightarrow> (ReplicaID \<Rightarrow> maphash) \<Rightarrow> 'v Codec \<Rightarrow> 'v om_net \<Rightarrow> bool" where
  "om_cluster R mh c = cluster mh orMapM (om_fresh R mh c) hs_empty (om_local R mh c)"

section \<open>The map meets the contract\<close>

fun om_of :: "or_delta \<Rightarrow> om_op" where
  "om_of (OrPut k v dm) = OmPut k v dm"
| "om_of (OrDrop k d c) = OmRem k d c"

lemma om_fits_long:
  assumes "card R < 2 ^ 32" "or_fit (\<lambda>v. v) R x" "or_size x < 2 ^ 62"
  shows "om_fits R (om_of x)"
proof (cases x)
  case (OrPut k v dm)
  then show ?thesis
    using assms in_cluster_length [of R dm] length_PutUvarint [of "of_nat (length k)"] length_PutUvarint [of "of_nat (length v)"]
    by (simp add: om_fits_def length_encodeDotMap)
next
  case (OrDrop k d c)
  then show ?thesis
    using assms in_cluster_length [of R c] length_PutUvarint [of "of_nat (length k)"]
    by (simp add: om_fits_def rm_delta_def encodeVClock_def length_encodeDotMap)
qed

lemma om_of_facts:
  assumes "or_fit (\<lambda>v. v) R x"
  shows "set (diDots (om_info (om_of x))) = or_dots x"
    "omBackend (om_write (om_stored (om_of x)) s) = or_write om_win (\<lambda>v. v) x (omBackend s)"
  using assms by (cases x; auto simp: image_iff pos_map_wf wf_map_mem)+

lemma DeltasSince_om: "orMapState_DeltasSince s hwm = map (om_delta \<circ> om_of) (or_since (omBackend s) hwm)"
proof -
  let ?e = "\<lambda>(k, e). map (\<lambda>(k, v, dm). om_delta (OmPut k v dm)) (case seen_entry hwm e of Some vd \<Rightarrow> [(k, vd)] | None \<Rightarrow> [])"
  let ?t = "\<lambda>(k, t). map (\<lambda>(k, d, c). om_delta (OmRem k d c)) (case seen_tomb hwm t of Some dc \<Rightarrow> [(k, dc)] | None \<Rightarrow> [])"
  have e: "rangeLoop (\<lambda>(k, e). (\<lambda>key valBytes metaBytes x. case decodeDotMap metaBytes of
        Ok dm \<Rightarrow> (if list_ex (\<lambda>(rep, counter). counter > VClock_Get hwm rep) dm
          then (x @ [appendVarintBytes (appendVarintBytes [opPut] key) valBytes @ encodeDotMap dm], True) else (x, True))
      | _ \<Rightarrow> (x, True)) k (meValue e) (meMeta e)) xs ys = ys @ concat (map ?e xs)" for xs ys
    by (rule rangeLoop_collect) (auto simp: list_ex_iff seen_entry_def seen_dots_def split: go.splits)
  have t: "rangeLoop (\<lambda>(k, m). (\<lambda>key meta x. case decodeRemoveTombstone meta of
        Ok (dot, ctx) \<Rightarrow> (if Counter dot > VClock_Get hwm (Replica dot)
          then (x @ [appendVarintBytes [opRemove] key @ encodeDot dot @ encodeVClock ctx], True) else (x, True))
      | _ \<Rightarrow> (x, True)) k m) xs ys = ys @ concat (map ?t xs)" for xs ys
    by (rule rangeLoop_collect) (auto simp: rm_delta_def seen_tomb_def split: go.splits)
  show ?thesis
    unfolding orMapState_DeltasSince_def orMapState_RangeBytes_def memoryBackend_RangeEntries_def
      memoryBackend_RangeTombstones_def Let_def e t
    by (simp add: or_since_def pick_def map_concat comp_def case_prod_unfold)
qed

text \<open>The local operations on the storage.\<close>

lemma Put_overwrite:
  "Encode (omCodec s) v = Inr b \<Longrightarrow>
   orMapState_Put s k v d = (s\<lparr>omBackend := memoryBackend_PutEntry (omBackend s) k b (encodeDotMap (or_overwrite (omBackend s) k d))\<rparr>,
     Ok (om_delta (OmPut k b [(Replica d, Counter d)])))"
  by (auto simp: orMapState_Put_def Let_def orMapState_GetBytes_def or_overwrite_def or_entry_def split: option.splits go.splits)

lemma Remove_drop_om:
  "orMapState_Remove s k d ctx = (s\<lparr>omBackend := or_drop (omBackend s) k d ctx\<rparr>, om_delta (OmRem k d ctx))"
  by (simp add: orMapState_Remove_def rm_delta_def or_drop_def)

lemma ORMap_operation_data:
  "rData (fst (ORMap_Put mh r k v)) = fst (orMapState_Put (rData r) k v (snd (replica_nextDot r)))"
  "rData (fst (ORMap_Remove mh r k)) = fst (orMapState_Remove (rData r) k (snd (replica_nextDot r)) (remove_context r))"
  by (auto simp: ORMap_Put_def ORMap_Remove_def Let_def split_beta remove_context_def split: go.splits)

definition om_stamped :: "maphash \<Rightarrow> 'v ORMap \<Rightarrow> 'v ORMap \<Rightarrow> bool" where
  "om_stamped mh r r' \<longleftrightarrow> rReceived r' = rReceived (fst (replica_nextDot r)) \<and> rLocal r' = rLocal (fst (replica_nextDot r)) \<and>
     rStrategy r' = rStrategy r \<and> (ormap.replica_inv mh r \<and> mb_inv (omBackend (rData r')) \<longrightarrow> ormap.replica_inv mh r')"

lemma om_refused_data:
  assumes "ORMap_Put mh r k v = (r', Err e)" "Encode (omCodec (rData r)) v = Inl x"
  shows "rData r' = rData r"
proof -
  have "rData (fst (ORMap_Put mh r k v)) = rData r" using assms(2) by (simp only: ORMap_operation_data orMapState_Put_def) simp
  with assms(1) show ?thesis by simp
qed

lemma om_operation_stamped:
  "om_stamped mh r (fst (ORMap_Put mh r k v))" "om_stamped mh r (fst (ORMap_Remove mh r k))"
proof -
  have "om_stamped mh r (replica_trackKey mh orMapM ((fst (replica_nextDot r))\<lparr>rData := s\<rparr>) k)"
    "om_stamped mh r ((fst (replica_nextDot r))\<lparr>rData := s\<rparr>)" for s
    using ormap.local_op_inv [of mh r s k] ormap.data_inv [OF ormap.nextDot_inv, of mh r s]
    by (simp_all add: om_stamped_def)
  then show "om_stamped mh r (fst (ORMap_Put mh r k v))" "om_stamped mh r (fst (ORMap_Remove mh r k))"
    by (auto simp: ORMap_Put_def ORMap_Remove_def Let_def split_beta split: go.splits)
qed

lemma om_operation_sends:
  assumes "(p, m) \<in> set out"
  shows "snd (orMapState_Put (rData r) k v (snd (replica_nextDot r))) = Ok q \<Longrightarrow>
      snd (ORMap_Put mh r k v) = Ok (out, w) \<Longrightarrow> tmDelta m = tagDelta q"
    and "snd (orMapState_Remove (rData r) k (snd (replica_nextDot r)) (remove_context r)) = q \<Longrightarrow>
      snd (ORMap_Remove mh r k) = (out, w) \<Longrightarrow> tmDelta m = tagDelta q"
proof -
  have sends: "tmDelta m = tagDelta x" if "replica_propagate u d x = (out, w)" for u :: "'a ORMap" and d x
    using propagate_sends [of p m u d x] assms that by simp
  show "snd (orMapState_Put (rData r) k v (snd (replica_nextDot r))) = Ok q \<Longrightarrow>
      snd (ORMap_Put mh r k v) = Ok (out, w) \<Longrightarrow> tmDelta m = tagDelta q"
    by (auto simp: ORMap_Put_def Let_def split_beta intro: sends split: go.splits)
  show "snd (orMapState_Remove (rData r) k (snd (replica_nextDot r)) (remove_context r)) = q \<Longrightarrow>
      snd (ORMap_Remove mh r k) = (out, w) \<Longrightarrow> tmDelta m = tagDelta q"
    by (auto simp: ORMap_Remove_def Let_def split_beta remove_context_def intro: sends)
qed

lemma om_local_result:
  assumes "om_local R mh c i h r h' r' out" "omCodec (rData r) = c"
  shows "i \<in> R" "hsClock h i + 1 \<noteq> 0" "om_stamped (mh i) r r'" "omCodec (rData r') = c"
proof -
  have "i \<in> R \<and> hsClock h i + 1 \<noteq> 0 \<and> om_stamped (mh i) r r' \<and> omCodec (rData r') = c"
    using assms(1)
  proof cases
    case (om_put k v w b)
    then have "r' = fst (ORMap_Put (mh i) r k v)" by simp
    with om_put assms(2) om_operation_stamped(1) [of "mh i" r k v] show ?thesis by (simp add: ORMap_operation_data Put_overwrite)
  next
    case (om_remove k w)
    then have "r' = fst (ORMap_Remove (mh i) r k)" by simp
    with om_remove assms(2) om_operation_stamped(2) [of "mh i" r k] show ?thesis by (simp add: ORMap_operation_data Remove_drop_om)
  next
    case (om_refused k v x)
    with om_refused_data [of "mh i" r k v r' x x] assms(2) om_operation_stamped(1) [of "mh i" r k v] show ?thesis by simp
  qed
  then show "i \<in> R" "hsClock h i + 1 \<noteq> 0" "om_stamped (mh i) r r'" "omCodec (rData r') = c" by blast+
qed

lemma om_local_effect:
  assumes "om_local R mh c i h r h' r' out" "omCodec (rData r) = c" "lcReplica (rLocal r) = i" "lcCounter (rLocal r) = hsClock h i"
  shows "\<exists>q. or_effect (\<lambda>v. v) i (remove_context r) h (omBackend (rData r)) h' (omBackend (rData r')) q \<and>
    (\<forall>(p, m) \<in> set out. \<exists>x. q = Some x \<and> tmDelta m = tagDelta ((om_delta \<circ> om_of) x))"
proof -
  have d: "snd (replica_nextDot r) = hs_next h i" by (simp add: hs_next_def assms(3,4))
  from assms(1) show ?thesis
  proof cases
    case (om_put k v w b)
    have r': "r' = fst (ORMap_Put (mh i) r k v)" using om_put by simp
    have put: "orMapState_Put (rData r) k v (hs_next h i) = ((rData r)\<lparr>omBackend := memoryBackend_PutEntry (omBackend (rData r)) k b
        (encodeDotMap (or_overwrite (omBackend (rData r)) k (hs_next h i)))\<rparr>, Ok (om_delta (OmPut k b [(i, hsClock h i + 1)])))"
      using Put_overwrite [of "rData r" v b k "hs_next h i"] om_put(5) assms(2) by (simp add: hs_next_def del: om_delta.simps)
    have "tmDelta m = tagDelta (om_delta (OmPut k b [(i, hsClock h i + 1)]))" if "(q, m) \<in> set out" for q m
      using om_operation_sends(1) [OF that, of r k v _ "mh i" w] om_put(2) put d by (simp del: om_delta.simps nextDot_simps)
    then show ?thesis
      using effect_add [of k b "\<lambda>v. v" i "remove_context r" h "omBackend (rData r)"] om_put(1,6) put d
      by (intro exI [of _ "Some (OrPut k b [(i, hsClock h i + 1)])"]) (auto simp: r' ORMap_operation_data simp del: om_delta.simps nextDot_simps)
  next
    case (om_remove k w)
    have r': "r' = fst (ORMap_Remove (mh i) r k)" using om_remove by simp
    have "tmDelta m = tagDelta (om_delta (OmRem k (hs_next h i) (remove_context r)))" if "(q, m) \<in> set out" for q m
      using om_operation_sends(2) [OF that, of r k _ "mh i" w] om_remove(2) Remove_drop_om [of "rData r" k] d by (simp del: om_delta.simps nextDot_simps)
    then show ?thesis
      using effect_remove [of k "\<lambda>v. v" i "remove_context r" h "omBackend (rData r)"] om_remove(1,5) d
      by (intro exI [of _ "Some (OrDrop k (hs_next h i) (remove_context r))"])
        (auto simp: r' ORMap_operation_data Remove_drop_om simp del: om_delta.simps nextDot_simps)
  next
    case (om_refused k v x)
    then have "rData r' = rData r" using om_refused_data [of "mh i" r k v r' x x] assms(2) by simp
    with om_refused show ?thesis by (intro exI [of _ None]) (auto intro: effect_none)
  qed
qed

interpretation om_net: observed_cluster orMapM omBackend "om_delta \<circ> om_of" om_win "\<lambda>v. v" omCodec R mh c
  "om_fresh R mh c" "om_local R mh c" for R mh c
proof
  fix x and s :: "'a orMapState"
  assume a: "card R < 2 ^ 32" "or_fit (\<lambda>v. v) R x" "or_size x < 2 ^ 62"
  note ok = om_delta_ok [OF a(1) om_fits_long [OF a], of s]
  show "\<exists>info. mParseDelta orMapM s ((om_delta \<circ> om_of) x) = (s, Ok info) \<and> set (diDots info) = or_dots x \<and>
      snd (mApply orMapM s ((om_delta \<circ> om_of) x)) = Ok () \<and>
      omBackend (fst (mApply orMapM s ((om_delta \<circ> om_of) x))) = or_write om_win (\<lambda>v. v) x (omBackend s) \<and>
      omCodec (fst (mApply orMapM s ((om_delta \<circ> om_of) x))) = omCodec s"
    using om_of_facts [OF a(2)] ok by simp
next
  fix gc and s :: "'a orMapState" and hwm
  show "mGCTombstones orMapM = Some gc \<Longrightarrow> omBackend (gc s hwm) = or_gc (omBackend s) hwm \<and> omCodec (gc s hwm) = omCodec s"
    by (auto simp: GC_om)
  show "mDeltasSince orMapM s hwm = map (om_delta \<circ> om_of) (or_since (omBackend s) hwm)"
    by (simp add: DeltasSince_om)
next
  fix i and r :: "'a ORMap"
  assume "om_fresh R mh c i r"
  then obtain opts where f: "card R < 2 ^ 32" "MakeSeed (mh i) \<noteq> 0" "oBackend (applyOptions opts) = None" "NewORMap (mh i) i (Some c) opts = Ok r"
    by (auto simp: om_fresh_def)
  have "rReceived r = newReceivedClock" "rLocal r = newLocalClock i"
    using f(4) by (auto simp: NewORMap_def newORMapState_def requireCodec_def newReplica_def Let_def)
  with NewORMap_fresh [OF f(2-4)] f(1)
  show "card R < 2 ^ 32 \<and> ormap.replica_inv (mh i) r \<and> rStrategy r = alwaysMergeClock \<and> rLocal r = newLocalClock i \<and>
      rReceived r = newReceivedClock \<and> omCodec (rData r) = c \<and> omBackend (rData r) = newMemoryBackend"
    by (auto simp: omr_inv_def)
next
  fix i h r h' r' out
  assume "om_local R mh c i h r h' r' out" "omCodec (rData r) = c"
  note l = om_local_result [OF this]
  then show "i \<in> R \<and> hsClock h i + 1 \<noteq> 0 \<and> omCodec (rData r') = c \<and> rReceived r' = rReceived (fst (replica_nextDot r)) \<and>
      rLocal r' = rLocal (fst (replica_nextDot r)) \<and> rStrategy r' = rStrategy r" by (simp add: om_stamped_def)
next
  fix i h r h' r' out
  assume l: "om_local R mh c i h r h' r' out" and r: "ormap.replica_inv (mh i) r" "mb_inv (omBackend (rData r'))"
  from l have "\<exists>k v. r' = fst (ORMap_Put (mh i) r k v) \<or> r' = fst (ORMap_Remove (mh i) r k)" by cases (metis fst_conv)+
  with om_operation_stamped [of "mh i" r] r show "ormap.replica_inv (mh i) r'" by (auto simp: om_stamped_def)
next
  fix i h r h' r' out
  assume "om_local R mh c i h r h' r' out" "omCodec (rData r) = c" "lcReplica (rLocal r) = i" "lcCounter (rLocal r) = hsClock h i"
  then show "\<exists>q. or_effect (\<lambda>v. v) i (remove_context r) h (omBackend (rData r)) h' (omBackend (rData r')) q \<and>
      (\<forall>(p, m) \<in> set out. \<exists>x. q = Some x \<and> tmDelta m = tagDelta ((om_delta \<circ> om_of) x))" by (rule om_local_effect)
qed (simp_all add: om_win_def)

section \<open>Properties\<close>

lemma om_cluster_facts:
  assumes "om_cluster R mh c s"
  shows "om_net.promise R c (netGhost s) i (rLocal (netNodes s i)) (rReceived (netNodes s i)) (rData (netNodes s i))"
  using om_net.reach_promise(1) [OF assms [unfolded om_cluster_def]] .

text \<open>The values of the history are encodings.\<close>

lemma om_history_encoded:
  assumes "om_cluster R mh c s"
  shows "hsEvent (netGhost s) d = Some (EvAdd k b) \<Longrightarrow> \<exists>v. Encode c v = Inr b"
  using assms unfolding om_cluster_def
proof (induction arbitrary: d k b rule: cluster.induct)
  case (cluster_local s i h r out)
  have h: "hsEvent h d = Some (EvAdd k b)" using cluster_local.prems by simp
  from cluster_local.hyps(2) h have "hsEvent (netGhost s) d = Some (EvAdd k b) \<or> (\<exists>v. Encode c v = Inr b)"
    by cases (auto simp: hs_log_def split: if_splits)
  with cluster_local.IH [of d k b] show ?case by blast
qed (simp_all add: hs_empty_def)

text \<open>What a replica whose promise holds reads.\<close>

lemma om_promise_Get:
  assumes p: "om_net.promise R c (netGhost s) i lc rc (rData r)" and s: "om_cluster R mh c s"
    and cd: "\<forall>v b. Encode c v = Inr b \<longrightarrow> Decode c b = Inr v"
  shows "ORMap_Get r k = Some x \<Longrightarrow> \<exists>d b. hsEvent (netGhost s) d = Some (EvAdd k b) \<and> Encode c x = Inr b"
    and "fst (om_view r k j) \<noteq> 0 \<Longrightarrow> ORMap_Get r k \<noteq> None"
proof -
  note inv = om_net.promiseD(7) [OF p] and code = om_net.promiseD(3) [OF p]
  have wrote: "\<exists>d v. hsEvent (netGhost s) d = Some (EvAdd k b) \<and> Encode c v = Inr b" if "orMapState_GetBytes (rData r) k = Some (b, dm)" for b dm
  proof -
    have "or_value (omBackend (rData r)) k = Some b"
      using that by (auto simp: orMapState_GetBytes_def or_value_def split: option.splits go.splits)
    from hs_holdsD(5) [OF om_net.promiseD(8) [OF p] this] om_history_encoded [OF s] show ?thesis unfolding hs_wrote_def by blast
  qed
  show "\<exists>d b. hsEvent (netGhost s) d = Some (EvAdd k b) \<and> Encode c x = Inr b" if "ORMap_Get r k = Some x"
  proof -
    from that obtain b dm where b: "orMapState_GetBytes (rData r) k = Some (b, dm)" "Decode c b = Inr x"
      by (auto simp: ORMap_Get_bytes code split: option.splits sum.splits)
    from wrote [OF b(1)] obtain d v where v: "hsEvent (netGhost s) d = Some (EvAdd k b)" "Encode c v = Inr b" by blast
    with cd b(2) show ?thesis by auto
  qed
  show "ORMap_Get r k \<noteq> None" if live: "fst (om_view r k j) \<noteq> 0"
  proof -
    obtain b dm where b: "orMapState_GetBytes (rData r) k = Some (b, dm)"
      using live or_live [OF inv, of k] GetBytes_inv [OF inv, of k] by fastforce
    from wrote [OF b] cd b show ?thesis by (auto simp: ORMap_Get_bytes code)
  qed
qed

text \<open>A cluster of three in which replica 1 has put a value; every replica sends its digests to replica 1.\<close>

lemma om_net_demo:
  obtains s where "om_cluster demo_cluster (\<lambda>_. demo_hash) StringCodec s" "netGhost s = hs_log hs_empty 1 (Some (EvAdd [7] [5]))"
    "rTopology (netNodes s 2) = Some [1]" "ticking (netNodes s 2)" "rTransport (netNodes s 1)" "replica_hash demo_hash (netNodes s 1) = 1" "replica_hash demo_hash (netNodes s 2) = 0"
proof -
  let ?os = "[WithTransport True, WithTopology (Some [1])]"
  have seed: "MakeSeed demo_hash \<noteq> 0" and opts: "oBackend (applyOptions ?os) = None"
    by (simp_all add: applyOptions_def WithTransport_def WithTopology_def)
  have "\<exists>r. NewORMap demo_hash i (Some StringCodec) ?os = Ok r \<and> rTopology r = Some [1] \<and> rMerkle r = newMerkleMap demo_hash \<and>
      ticking r" for i
    by (auto simp: ticking_def defaultAEInterval_def NewORMap_def newORMapState_def requireCodec_def newReplica_def applyOptions_def WithTransport_def WithTopology_def Let_def)
  then obtain nodes where n: "\<And>i. NewORMap demo_hash i (Some StringCodec) ?os = Ok (nodes i)" "\<And>i. rTopology (nodes i) = Some [1]"
      "\<And>i. rMerkle (nodes i) = newMerkleMap demo_hash" "\<And>i. ticking (nodes i)" by metis
  have s0: "om_cluster demo_cluster (\<lambda>_. demo_hash) StringCodec \<lparr>netNodes = nodes, netSent = {}, netGhost = hs_empty\<rparr>"
      (is "om_cluster _ _ _ ?s0")
    unfolding om_cluster_def
  proof (rule cluster_new)
    show "om_fresh demo_cluster (\<lambda>_. demo_hash) StringCodec i (nodes i)" for i
      unfolding om_fresh_def using n(1) opts seed demo_cluster_card by blast
  qed
  note p = om_net.promiseD [OF om_cluster_facts [OF s0, of 1]]
  have "Encode (omCodec (rData (nodes 1))) [5] = Inr [5]" using p(3) by (simp add: StringCodec_def)
  note put = Put_overwrite [OF this, of "[7]" "snd (replica_nextDot (nodes 1))"]
  have "\<exists>out w. snd (ORMap_Put demo_hash (nodes 1) [7] [5]) = Ok (out, w)"
    by (simp add: ORMap_Put_def Let_def split_beta put del: om_delta.simps nextDot_simps(3))
  then obtain r' out w where a: "ORMap_Put demo_hash (nodes 1) [7] [5] = (r', Ok (out, w))" by (metis prod.collapse)
  have tr: "rTransport r'"
    using arg_cong [OF a, of "\<lambda>x. rTransport (fst x)"] n(4)
    by (simp add: ticking_def ORMap_Put_def Let_def split_beta put del: om_delta.simps nextDot_simps(3))
  have mb: "mb_inv (omBackend (rData (nodes 1)))" using p(7) by (simp add: or_inv_def)
  have "rMerkle (fst (replica_nextDot (nodes 1))) = newMerkleMap demo_hash"
    by (simp add: replica_nextDot_def localClock_Next_def Let_def n(3))
  then have "\<exists>m. rMerkle (fst (ORMap_Put demo_hash (nodes 1) [7] [5])) = merkleMap_Put demo_hash (newMerkleMap demo_hash) [7] m"
    by (simp add: ORMap_Put_def Let_def split_beta put replica_trackKey_def orMapState_EntryMeta_def memory.laws [OF mb]
        del: om_delta.simps nextDot_simps(3)) (rule exI, rule refl)
  then have h: "replica_hash demo_hash r' = 1" using a by (auto simp: replica_hash_def root_hash_def newMerkleMap_def merkleMap_Put_def)
  have "om_local demo_cluster (\<lambda>_. demo_hash) StringCodec 1 hs_empty (nodes 1) (hs_log hs_empty 1 (Some (EvAdd [7] [5]))) r' out"
    by (rule om_put [where k = "[7]" and v = "[5]" and w = w]) (use a in \<open>simp_all add: StringCodec_def hs_empty_def\<close>)
  with s0 have "om_cluster demo_cluster (\<lambda>_. demo_hash) StringCodec (net_step 1 r' out (?s0\<lparr>netGhost := hs_log hs_empty 1 (Some (EvAdd [7] [5]))\<rparr>))"
    unfolding om_cluster_def by (intro cluster_local) simp_all
  then show ?thesis by (rule that) (use h n tr in \<open>simp_all add: replica_hash_def root_hash_def newMerkleMap_def\<close>)
qed

lemma om_one_put:
  "added (hs_log hs_empty 1 (Some (EvAdd [7] [5]))) [7] (mkDot 1 1)" "\<not> observed (hs_log hs_empty 1 (Some (EvAdd [7] [5]))) [7] 1 1"
  by (auto simp: hs_log_def hs_next_def hs_empty_def added_def observed_def split: if_splits)

text \<open>
  C10: a cluster of observed-remove maps whose codec decodes what it encodes, in every reachable state: a value that is
  read was put under that key, and a put wins: a replica that issued a put, or has received it, has a value under the key
  as long as no remove has observed that put (had it in its context or in the entry it dropped).
\<close>

theorem ORMap_network:
  assumes "om_cluster R mh c s" "\<forall>v b. Encode c v = Inr b \<longrightarrow> Decode c b = Inr v"
  shows "(\<forall>x. ORMap_Get (netNodes s i) k = Some x \<longrightarrow> (\<exists>d b. hsEvent (netGhost s) d = Some (EvAdd k b) \<and> Encode c x = Inr b)) \<and>
    (\<forall>j n. added (netGhost s) k (mkDot j n) \<and> (j = i \<or> receivedClock_Covers (rReceived (netNodes s i)) j n) \<and>
       \<not> observed (netGhost s) k j n \<longrightarrow> ORMap_Get (netNodes s i) k \<noteq> None)"
proof -
  note p = om_cluster_facts [OF assms(1), of i]
  note get = om_promise_Get [OF p assms(1,2)]
  from get(1) get(2) om_net.promise_live [OF p, of k] show ?thesis by blast
qed

theorem ORMap_network_witness:
  "\<exists>s. om_cluster demo_cluster (\<lambda>_. demo_hash) StringCodec s \<and> ORMap_Get (netNodes s 1) [7] = Some [5]"
proof -
  obtain s where s: "om_cluster demo_cluster (\<lambda>_. demo_hash) StringCodec s" "netGhost s = hs_log hs_empty 1 (Some (EvAdd [7] [5]))"
    by (rule om_net_demo)
  have "\<forall>v b. Encode StringCodec v = Inr b \<longrightarrow> Decode StringCodec b = Inr v" by (simp add: StringCodec_def)
  from ORMap_network [OF s(1) this, where i = 1 and k = "[7]"] om_one_put s(2)
  have "ORMap_Get (netNodes s 1) [7] = Some [5]"
    by (auto simp: hs_log_def hs_empty_def StringCodec_def split: if_splits)
  with s(1) show ?thesis by blast
qed

text \<open>
  C11: anti-entropy loses no put, message by message: in every reachable state, when the anti-entropy loop of
  replica \<open>i\<close> runs, its topology has \<open>j\<close>, \<open>j\<close> has a transport and the two report different hashes, ticks and deliveries alone lead to a reachable state in which \<open>i\<close> reads a value
  under every key with a put that either of the two had issued or received and no remove has observed; the value was put
  under that key.
\<close>

theorem ORMap_network_exchange:
  assumes "om_cluster R mh c s" "\<forall>v b. Encode c v = Inr b \<longrightarrow> Decode c b = Inr v"
    and "i \<noteq> j" "rTopology (netNodes s i) = Some ps" "j \<in> set ps" "ticking (netNodes s i)" "rTransport (netNodes s j)"
    and "replica_hash (mh j) (netNodes s j) \<noteq> replica_hash (mh i) (netNodes s i)"
  shows "\<exists>t. gossip mh orMapM s t \<and> om_cluster R mh c t \<and> (\<forall>k l n x. added (netGhost s) k (mkDot l n) \<and>
    \<not> observed (netGhost s) k l n \<and> (l = x \<or> receivedClock_Covers (rReceived (netNodes s x)) l n) \<and> x \<in> {i, j} \<longrightarrow>
      (\<exists>v d b. ORMap_Get (netNodes t i) k = Some v \<and> hsEvent (netGhost s) d = Some (EvAdd k b) \<and> Encode c v = Inr b))"
proof -
  from om_net.exchange_live [OF assms(1) [unfolded om_cluster_def] assms(3-8)]
  obtain t where t: "gossip mh orMapM s t"
    "om_net.promise R c (netGhost s) i (rLocal (netNodes t i)) (rReceived (netNodes t i)) (rData (netNodes t i))"
    "\<forall>k l n x. added (netGhost s) k (mkDot l n) \<and> \<not> observed (netGhost s) k l n \<and>
      (l = x \<or> receivedClock_Covers (rReceived (netNodes s x)) l n) \<and> x \<in> {i, j} \<longrightarrow> fst (om_view (netNodes t i) k l) \<noteq> 0"
    by (elim exE conjE) (rule that)
  note get = om_promise_Get [OF t(2) assms(1,2)]
  have "\<exists>v d b. ORMap_Get (netNodes t i) k = Some v \<and> hsEvent (netGhost s) d = Some (EvAdd k b) \<and> Encode c v = Inr b"
    if "fst (om_view (netNodes t i) k l) \<noteq> 0" for k l
    using get(1) get(2) [OF that] by fastforce
  with t(3) have "\<forall>k l n x. added (netGhost s) k (mkDot l n) \<and>
    \<not> observed (netGhost s) k l n \<and> (l = x \<or> receivedClock_Covers (rReceived (netNodes s x)) l n) \<and> x \<in> {i, j} \<longrightarrow>
      (\<exists>v d b. ORMap_Get (netNodes t i) k = Some v \<and> hsEvent (netGhost s) d = Some (EvAdd k b) \<and> Encode c v = Inr b)" by blast
  with t(1) gossip_cluster [OF t(1) assms(1) [unfolded om_cluster_def]] show ?thesis unfolding om_cluster_def by blast
qed

theorem ORMap_network_exchange_witness:
  "\<exists>s t. om_cluster demo_cluster (\<lambda>_. demo_hash) StringCodec s \<and> gossip (\<lambda>_. demo_hash) orMapM s t \<and>
     (\<exists>v. ORMap_Get (netNodes t 2) [7] = Some v)"
proof -
  obtain s where s: "om_cluster demo_cluster (\<lambda>_. demo_hash) StringCodec s" "netGhost s = hs_log hs_empty 1 (Some (EvAdd [7] [5]))"
      "rTopology (netNodes s 2) = Some [1]" "ticking (netNodes s 2)" "rTransport (netNodes s 1)" "replica_hash demo_hash (netNodes s 1) = 1" "replica_hash demo_hash (netNodes s 2) = 0"
    by (rule om_net_demo)
  have "\<forall>v b. Encode StringCodec v = Inr b \<longrightarrow> Decode StringCodec b = Inr v" by (simp add: StringCodec_def)
  from ORMap_network_exchange [OF s(1) this, of 2 1 "[1]"] s(3-7) obtain t where t: "gossip (\<lambda>_. demo_hash) orMapM s t"
      "\<forall>k l n x. added (netGhost s) k (mkDot l n) \<and> \<not> observed (netGhost s) k l n \<and>
        (l = x \<or> receivedClock_Covers (rReceived (netNodes s x)) l n) \<and> x \<in> {2, 1} \<longrightarrow>
        (\<exists>v d b. ORMap_Get (netNodes t 2) k = Some v \<and> hsEvent (netGhost s) d = Some (EvAdd k b) \<and> Encode StringCodec v = Inr b)"
    by auto
  from t(2) [rule_format, of "[7]" 1 1 1] om_one_put s(2) have "\<exists>v. ORMap_Get (netNodes t 2) [7] = Some v" by auto
  with s(1) t(1) show ?thesis by blast
qed

end
