(* ===== verification/AWLWWMaps.thy ===== *)
theory AWLWWMaps
  imports Observed
begin

text \<open>
  The add-wins last-writer-wins map: the storage type (\<^verbatim>\<open>awlwwmap.go\<close>) and the public type over a
  replica with the add-wins clock (\<^verbatim>\<open>node.go\<close>). Every delivered delta is one step of the abstract
  machine \<open>aw_step\<close>, in which a put meets a tombstone by causality and an entry by its dot.
\<close>

section \<open>Definitions\<close>

record 'v awLWWMapState =
  amCodec :: "'v Codec"
  amBackend :: memoryBackend

definition newAWLWWMapState :: "'v Codec option \<Rightarrow> Option list \<Rightarrow> 'v awLWWMapState go" where
  "newAWLWWMapState codec opts =
     go_bind (requireCodec codec) (\<lambda>_.
       let os = applyOptions opts;
           b = (case oBackend os of None \<Rightarrow> newMemoryBackend | Some b \<Rightarrow> b)
       in Ok \<lparr>amCodec = the codec, amBackend = b\<rparr>)"

definition awLWWMapState_Put ::
    "'v awLWWMapState \<Rightarrow> bytes \<Rightarrow> 'v \<Rightarrow> Dot \<Rightarrow> 'v awLWWMapState \<times> bytes go" where
  "awLWWMapState_Put m key v dot =
     (case Encode (amCodec m) v of
        Inl e \<Rightarrow> (m, Err e)
      | Inr valBytes \<Rightarrow>
          (m\<lparr>amBackend := memoryBackend_DeleteTombstone
              (memoryBackend_PutEntry (amBackend m) key valBytes (encodeDot dot)) key\<rparr>,
           Ok (appendVarintBytes (appendVarintBytes [opPut] key) valBytes @ encodeDot dot)))"

definition awLWWMapState_PutBytes :: "'v awLWWMapState \<Rightarrow> bytes \<Rightarrow> bytes \<Rightarrow> Dot \<Rightarrow> 'v awLWWMapState" where
  "awLWWMapState_PutBytes m key valBytes dot =
     m\<lparr>amBackend := memoryBackend_DeleteTombstone
         (memoryBackend_PutEntry (amBackend m) key valBytes (encodeDot dot)) key\<rparr>"

definition awLWWMapState_Remove ::
    "'v awLWWMapState \<Rightarrow> bytes \<Rightarrow> Dot \<Rightarrow> VClock \<Rightarrow> 'v awLWWMapState \<times> bytes" where
  "awLWWMapState_Remove m key dot context =
     (m\<lparr>amBackend := memoryBackend_PutTombstone (memoryBackend_DeleteEntry (amBackend m) key) key
         (encodeRemoveTombstone dot context)\<rparr>,
      appendVarintBytes [opRemove] key @ encodeDot dot @ encodeVClock context)"

definition awLWWMapState_Get :: "'v awLWWMapState \<Rightarrow> bytes \<Rightarrow> ('v \<times> Dot) option" where
  "awLWWMapState_Get m key =
     (case memoryBackend_GetEntry (amBackend m) key of
        None \<Rightarrow> None
      | Some (valBytes, metaBytes) \<Rightarrow>
          (case Decode (amCodec m) valBytes of
             Inr v \<Rightarrow> (case decodeDot metaBytes of Ok dot \<Rightarrow> Some (v, dot) | _ \<Rightarrow> None)
           | Inl _ \<Rightarrow> None))"

definition awLWWMapState_GetBytes :: "'v awLWWMapState \<Rightarrow> bytes \<Rightarrow> (bytes \<times> Dot) option" where
  "awLWWMapState_GetBytes m key =
     (case memoryBackend_GetEntry (amBackend m) key of
        None \<Rightarrow> None
      | Some (valBytes, metaBytes) \<Rightarrow>
          (case decodeDot metaBytes of Ok dot \<Rightarrow> Some (valBytes, dot) | _ \<Rightarrow> None))"

definition awLWWMapState_GetTombstone :: "'v awLWWMapState \<Rightarrow> bytes \<Rightarrow> (Dot \<times> VClock) option" where
  "awLWWMapState_GetTombstone m key =
     (case memoryBackend_GetTombstone (amBackend m) key of
        None \<Rightarrow> None
      | Some metaBytes \<Rightarrow> (case decodeRemoveTombstone metaBytes of Ok dc \<Rightarrow> Some dc | _ \<Rightarrow> None))"

definition awLWWMapState_Range ::
    "'v awLWWMapState \<Rightarrow> (bytes \<Rightarrow> 'v \<Rightarrow> Dot \<Rightarrow> 'x \<Rightarrow> 'x \<times> bool) \<Rightarrow> 'x \<Rightarrow> 'x" where
  "awLWWMapState_Range m fn x =
     memoryBackend_RangeEntries (amBackend m) (\<lambda>key valBytes metaBytes x.
       case Decode (amCodec m) valBytes of
         Inr v \<Rightarrow> (case decodeDot metaBytes of Ok dot \<Rightarrow> fn key v dot x | _ \<Rightarrow> (x, True))
       | Inl _ \<Rightarrow> (x, True)) x"

definition awLWWMapState_RangeTombstones ::
    "'v awLWWMapState \<Rightarrow> (bytes \<Rightarrow> Dot \<Rightarrow> VClock \<Rightarrow> 'x \<Rightarrow> 'x \<times> bool) \<Rightarrow> 'x \<Rightarrow> 'x" where
  "awLWWMapState_RangeTombstones m fn x =
     memoryBackend_RangeTombstones (amBackend m) (\<lambda>key metaBytes x.
       case decodeRemoveTombstone metaBytes of Ok (dot, ctx) \<Rightarrow> fn key dot ctx x | _ \<Rightarrow> (x, True)) x"

definition awLWWMapState_Len :: "'v awLWWMapState \<Rightarrow> nat" where
  "awLWWMapState_Len m = memoryBackend_EntryLen (amBackend m)"

definition awLWWMapState_TombstoneLen :: "'v awLWWMapState \<Rightarrow> nat" where
  "awLWWMapState_TombstoneLen m = memoryBackend_TombstoneLen (amBackend m)"

definition awLWWMapState_EntryMeta :: "'v awLWWMapState \<Rightarrow> bytes \<Rightarrow> bytes option" where
  "awLWWMapState_EntryMeta m key = map_option snd (memoryBackend_GetEntry (amBackend m) key)"

definition awLWWMapState_TombstoneMeta :: "'v awLWWMapState \<Rightarrow> bytes \<Rightarrow> bytes option" where
  "awLWWMapState_TombstoneMeta m key = memoryBackend_GetTombstone (amBackend m) key"

definition awLWWMapState_parsePutDelta :: "bytes \<Rightarrow> deltaInfo go" where
  "awLWWMapState_parsePutDelta data =
     go_bind (readVarintBytes data 0) (\<lambda>(keyBytes, off). go_bind (readVarintBytes data off) (\<lambda>(_, off).
       if off + 16 > int (length data) then Err ErrShortBuffer
       else go_bind (go_bind (slice_from data off) decodeDot) (\<lambda>dot. go_bind (slice data off (off + 16)) (\<lambda>meta.
         Ok \<lparr>diOp = opPut, diKey = keyBytes, diMeta = meta, diContext = None, diDots = [dot]\<rparr>))))"

definition awLWWMapState_parseRemoveDelta :: "bytes \<Rightarrow> deltaInfo go" where
  "awLWWMapState_parseRemoveDelta data =
     go_bind (readVarintBytes data 0) (\<lambda>(keyBytes, off).
       if off + 16 > int (length data) then Err ErrShortBuffer
       else go_bind (go_bind (slice_from data off) decodeDot) (\<lambda>dot.
         go_bind (slice_from data (off + 16)) (\<lambda>context. go_bind (slice data off (off + 16)) (\<lambda>meta.
           Ok \<lparr>diOp = opRemove, diKey = keyBytes, diMeta = meta, diContext = Some context, diDots = [dot]\<rparr>))))"

definition awLWWMapState_ParseDelta :: "'v awLWWMapState \<Rightarrow> bytes \<Rightarrow> deltaInfo go" where
  "awLWWMapState_ParseDelta m delta =
     (case delta of
        [] \<Rightarrow> Err ErrShortBuffer
      | b # data \<Rightarrow>
          if b = opPut then awLWWMapState_parsePutDelta data
          else if b = opRemove then awLWWMapState_parseRemoveDelta data
          else Err ErrUnknownOp)"

definition awLWWMapState_applyPut :: "'v awLWWMapState \<Rightarrow> bytes \<Rightarrow> 'v awLWWMapState \<times> unit go" where
  "awLWWMapState_applyPut m data =
     (case go_bind (readVarintBytes data 0) (\<lambda>(keyBytes, off). go_bind (readVarintBytes data off) (\<lambda>(valBytes, off).
         if off + 16 > int (length data) then Err ErrShortBuffer
         else go_bind (go_bind (slice_from data off) decodeDot) (\<lambda>remoteDot. Ok (keyBytes, valBytes, remoteDot)))) of
        Ok (keyBytes, valBytes, remoteDot) \<Rightarrow> (awLWWMapState_PutBytes m keyBytes valBytes remoteDot, Ok ())
      | Err e \<Rightarrow> (m, Err e)
      | Panic \<Rightarrow> (m, Panic))"

definition awLWWMapState_applyRemove :: "'v awLWWMapState \<Rightarrow> bytes \<Rightarrow> 'v awLWWMapState \<times> unit go" where
  "awLWWMapState_applyRemove m data =
     (case go_bind (readVarintBytes data 0) (\<lambda>(keyBytes, off).
         if off + 16 > int (length data) then Err ErrShortBuffer
         else go_bind (go_bind (slice_from data off) decodeDot) (\<lambda>remoteDot.
           go_bind (go_bind (slice_from data (off + 16)) decodeVClock) (\<lambda>remoteCtx.
             Ok (keyBytes, remoteDot, remoteCtx)))) of
        Ok (keyBytes, remoteDot, remoteCtx) \<Rightarrow> (fst (awLWWMapState_Remove m keyBytes remoteDot remoteCtx), Ok ())
      | Err e \<Rightarrow> (m, Err e)
      | Panic \<Rightarrow> (m, Panic))"

definition awLWWMapState_Apply :: "'v awLWWMapState \<Rightarrow> bytes \<Rightarrow> 'v awLWWMapState \<times> unit go" where
  "awLWWMapState_Apply m delta =
     (case delta of
        [] \<Rightarrow> (m, Err ErrShortBuffer)
      | b # data \<Rightarrow>
          if b = opPut then awLWWMapState_applyPut m data
          else if b = opRemove then awLWWMapState_applyRemove m data
          else (m, Err ErrUnknownOp))"

definition awLWWMapState_DeltasSince :: "'v awLWWMapState \<Rightarrow> VClock \<Rightarrow> bytes list" where
  "awLWWMapState_DeltasSince m peerHWM =
     (let deltas = memoryBackend_RangeEntries (amBackend m) (\<lambda>key valBytes metaBytes deltas.
            case decodeDot metaBytes of
              Ok dot \<Rightarrow>
                if Counter dot > VClock_Get peerHWM (Replica dot)
                then (deltas @ [appendVarintBytes (appendVarintBytes [opPut] key) valBytes @ encodeDot dot], True)
                else (deltas, True)
            | _ \<Rightarrow> (deltas, True)) []
      in awLWWMapState_RangeTombstones m (\<lambda>key dot ctx deltas.
            if Counter dot > VClock_Get peerHWM (Replica dot)
            then (deltas @ [appendVarintBytes [opRemove] key @ encodeDot dot @ encodeVClock ctx], True)
            else (deltas, True)) deltas)"

definition awLWWMapM :: "'v awLWWMapState mergeable" where
  "awLWWMapM = \<lparr>mEntryMeta = awLWWMapState_EntryMeta, mTombstoneMeta = awLWWMapState_TombstoneMeta,
     mParseDelta = (\<lambda>m d. (m, awLWWMapState_ParseDelta m d)), mApply = awLWWMapState_Apply,
     mDeltasSince = awLWWMapState_DeltasSince, mGCTombstones = None\<rparr>"

subsection \<open>The public type (node.go)\<close>

type_synonym 'v AWLWWMap = "'v awLWWMapState replica"

definition NewAWLWWMap :: "maphash \<Rightarrow> ReplicaID \<Rightarrow> 'v Codec option \<Rightarrow> Option list \<Rightarrow> 'v AWLWWMap go" where
  "NewAWLWWMap mh rid codec opts =
     (let os = applyOptions opts;
          stateOpts = (if oBackend os \<noteq> None then [WithBackend (oBackend os)] else [])
      in go_map (\<lambda>state. newReplica mh rid state addWinsClock opts) (newAWLWWMapState codec stateOpts))"

definition AWLWWMap_Put :: "maphash \<Rightarrow> 'v AWLWWMap \<Rightarrow> bytes \<Rightarrow> 'v \<Rightarrow> 'v AWLWWMap \<times> (sends \<times> WriteResult) go" where
  "AWLWWMap_Put mh m key v =
     (let (r, dot) = replica_nextDot m; (s, d) = awLWWMapState_Put (rData r) key v dot; r = r\<lparr>rData := s\<rparr> in
      case d of
        Err e \<Rightarrow> (r, Err e)
      | Panic \<Rightarrow> (r, Panic)
      | Ok delta \<Rightarrow> (let r = replica_trackKey mh awLWWMapM r key in (r, Ok (replica_propagate r dot delta))))"

definition AWLWWMap_Remove :: "maphash \<Rightarrow> 'v AWLWWMap \<Rightarrow> bytes \<Rightarrow> 'v AWLWWMap \<times> sends \<times> WriteResult" where
  "AWLWWMap_Remove mh m key =
     (let (r, dot) = replica_nextDot m;
          (s, delta) = awLWWMapState_Remove (rData r) key dot (receivedClock_HWM (rReceived r));
          r = replica_trackKey mh awLWWMapM (r\<lparr>rData := s\<rparr>) key
      in (r, replica_propagate r dot delta))"

definition AWLWWMap_Get :: "'v AWLWWMap \<Rightarrow> bytes \<Rightarrow> 'v option" where
  "AWLWWMap_Get m key = map_option fst (awLWWMapState_Get (rData m) key)"

definition AWLWWMap_Len :: "'v AWLWWMap \<Rightarrow> nat" where
  "AWLWWMap_Len m = awLWWMapState_Len (rData m)"

definition AWLWWMap_Range :: "'v AWLWWMap \<Rightarrow> (bytes \<Rightarrow> 'v \<Rightarrow> 'x \<Rightarrow> 'x \<times> bool) \<Rightarrow> 'x \<Rightarrow> 'x" where
  "AWLWWMap_Range m fn x = awLWWMapState_Range (rData m) (\<lambda>key v _. fn key v) x"

definition AWLWWMap_Close :: "'v AWLWWMap \<Rightarrow> 'v AWLWWMap" where
  "AWLWWMap_Close m = replica_Close m"

section \<open>The invariant and the view\<close>

definition aw_inv :: "'v awLWWMapState \<Rightarrow> bool" where
  "aw_inv m \<longleftrightarrow> mb_inv (amBackend m) \<and> memory.exclusive (amBackend m) \<and>
     (\<forall>k v e. memoryBackend_GetEntry (amBackend m) k = Some (v, e) \<longrightarrow> (\<exists>d. e = encodeDot d)) \<and>
     (\<forall>k e. memoryBackend_GetTombstone (amBackend m) k = Some e \<longrightarrow>
        (\<exists>d ctx. e = encodeRemoveTombstone d ctx \<and> wf_map ctx \<and> length ctx < 2 ^ 32))"

datatype aw_cell = Live Dot bytes | Dead Dot "ReplicaID \<Rightarrow> u64"

definition aw_view :: "'v awLWWMapState \<Rightarrow> bytes \<Rightarrow> aw_cell option" where
  "aw_view m k =
     (case awLWWMapState_GetBytes m k of
        Some (v, d) \<Rightarrow> Some (Live d v)
      | None \<Rightarrow> map_option (\<lambda>(d, c). Dead d (VClock_Get c)) (awLWWMapState_GetTombstone m k))"

text \<open>The operations as they travel, the write each performs and the step each takes when delivered.\<close>

datatype aw_op = AwPut bytes Dot bytes | AwRem bytes Dot VClock

fun aw_key :: "aw_op \<Rightarrow> bytes" where
  "aw_key (AwPut k d v) = k"
| "aw_key (AwRem k d c) = k"

fun aw_cell_of :: "aw_op \<Rightarrow> aw_cell" where
  "aw_cell_of (AwPut k d v) = Live d v"
| "aw_cell_of (AwRem k d c) = Dead d (VClock_Get c)"

fun aw_write :: "aw_op \<Rightarrow> 'v awLWWMapState \<Rightarrow> 'v awLWWMapState" where
  "aw_write (AwPut k d v) m = awLWWMapState_PutBytes m k v d"
| "aw_write (AwRem k d c) m = fst (awLWWMapState_Remove m k d c)"

fun aw_delta :: "aw_op \<Rightarrow> bytes" where
  "aw_delta (AwPut k d v) = appendVarintBytes (appendVarintBytes [opPut] k) v @ encodeDot d"
| "aw_delta (AwRem k d c) = rm_delta k d c"

fun aw_ctx_ok :: "aw_op \<Rightarrow> bool" where
  "aw_ctx_ok (AwPut k d v) \<longleftrightarrow> True"
| "aw_ctx_ok (AwRem k d c) \<longleftrightarrow> wf_map c \<and> length c < 2 ^ 32"

definition aw_fits :: "aw_op \<Rightarrow> bool" where
  "aw_fits x \<longleftrightarrow> length (aw_delta x) < 2 ^ 63 \<and> aw_ctx_ok x"

definition aw_covers :: "(ReplicaID \<Rightarrow> u64) \<Rightarrow> Dot \<Rightarrow> bool" where
  "aw_covers c d \<longleftrightarrow> Counter d \<le> c (Replica d)"

fun aw_admits :: "aw_op \<Rightarrow> aw_cell option \<Rightarrow> bool" where
  "aw_admits x None \<longleftrightarrow> True"
| "aw_admits (AwPut k d v) (Some (Live l w)) \<longleftrightarrow> l < d"
| "aw_admits (AwPut k d v) (Some (Dead t c)) \<longleftrightarrow> \<not> aw_covers c d"
| "aw_admits (AwRem k d c) (Some (Live l w)) \<longleftrightarrow> aw_covers (VClock_Get c) l"
| "aw_admits (AwRem k d c) (Some (Dead t c')) \<longleftrightarrow> t < d"

definition aw_step :: "aw_op \<Rightarrow> (bytes \<Rightarrow> aw_cell option) \<Rightarrow> bytes \<Rightarrow> aw_cell option" where
  "aw_step x a = (if aw_admits x (a (aw_key x)) then a(aw_key x \<mapsto> aw_cell_of x) else a)"

lemma aw_inv_write: "aw_inv m \<Longrightarrow> aw_ctx_ok x \<Longrightarrow> aw_inv (aw_write x m)"
  by (cases x) (auto simp: aw_inv_def awLWWMapState_PutBytes_def awLWWMapState_Remove_def
      memory.live_write memory.tombstone_write memory.exclusive_live_write memory.exclusive_tombstone_write
      split: if_splits)

lemma aw_view_write:
  assumes "aw_inv m" "aw_ctx_ok x"
  shows "aw_view (aw_write x m) = (aw_view m)(aw_key x \<mapsto> aw_cell_of x)"
proof (cases x)
  case (AwPut k d v)
  with assms show ?thesis
    by (auto simp: aw_inv_def awLWWMapState_PutBytes_def aw_view_def awLWWMapState_GetBytes_def
        awLWWMapState_GetTombstone_def memory.live_write fun_eq_iff split: option.splits)
next
  case (AwRem k d c)
  with assms show ?thesis
    by (auto simp: aw_inv_def awLWWMapState_Remove_def aw_view_def awLWWMapState_GetBytes_def
        awLWWMapState_GetTombstone_def memory.tombstone_write fun_eq_iff split: option.splits)
qed

lemma aw_codec_write [simp]: "amCodec (aw_write x m) = amCodec m"
  by (cases x) (simp_all add: awLWWMapState_PutBytes_def awLWWMapState_Remove_def)

text \<open>What a cell says about the stored metadata.\<close>

lemma aw_view_meta:
  assumes "aw_inv m"
  obtains (none) "aw_view m k = None" "awLWWMapState_EntryMeta m k = None" "awLWWMapState_TombstoneMeta m k = None"
  | (live) d v where "aw_view m k = Some (Live d v)" "awLWWMapState_EntryMeta m k = Some (encodeDot d)"
      "awLWWMapState_TombstoneMeta m k = None" "memoryBackend_GetEntry (amBackend m) k = Some (v, encodeDot d)"
  | (dead) d c where "aw_view m k = Some (Dead d (VClock_Get c))" "awLWWMapState_EntryMeta m k = None"
      "awLWWMapState_TombstoneMeta m k = Some (encodeRemoveTombstone d c)" "wf_map c" "length c < 2 ^ 32"
proof -
  have ex: "memoryBackend_GetEntry (amBackend m) k = None \<or> memoryBackend_GetTombstone (amBackend m) k = None"
    using assms by (auto simp: aw_inv_def memory.exclusive_def)
  show ?thesis
  proof (cases "memoryBackend_GetEntry (amBackend m) k")
    case (Some e)
    obtain v mt where e: "e = (v, mt)" by (cases e)
    obtain d where "mt = encodeDot d" using assms Some e unfolding aw_inv_def by blast
    with Some e ex show ?thesis
      by (intro live [of d v]) (auto simp: aw_view_def awLWWMapState_GetBytes_def awLWWMapState_EntryMeta_def
          awLWWMapState_TombstoneMeta_def)
  next
    case None
    show ?thesis
    proof (cases "memoryBackend_GetTombstone (amBackend m) k")
      case (Some mt)
      obtain d c where "mt = encodeRemoveTombstone d c" "wf_map c" "length c < 2 ^ 32"
        using assms Some unfolding aw_inv_def by blast
      with Some None show ?thesis
        by (intro dead [of d c]) (auto simp: aw_view_def awLWWMapState_GetBytes_def awLWWMapState_GetTombstone_def
            awLWWMapState_EntryMeta_def awLWWMapState_TombstoneMeta_def)
    qed (use None in \<open>intro none; simp add: aw_view_def awLWWMapState_GetBytes_def awLWWMapState_GetTombstone_def
            awLWWMapState_EntryMeta_def awLWWMapState_TombstoneMeta_def\<close>)
  qed
qed

section \<open>Deltas\<close>

fun aw_info :: "aw_op \<Rightarrow> deltaInfo" where
  "aw_info (AwPut k d v) = \<lparr>diOp = opPut, diKey = k, diMeta = encodeDot d, diContext = None, diDots = [d]\<rparr>"
| "aw_info (AwRem k d c) =
     \<lparr>diOp = opRemove, diKey = k, diMeta = encodeDot d, diContext = Some (encodeVClock c), diDots = [d]\<rparr>"

lemma aw_put_cons: "aw_delta (AwPut k d v) = opPut # appendVarintBytes [] k @ appendVarintBytes [] v @ encodeDot d"
  by (simp add: appendVarintBytes_def)

text \<open>
  The context is stored as it was decoded, with its entries in encoding order, which is the same clock.
\<close>

fun aw_stored :: "aw_op \<Rightarrow> aw_op" where
  "aw_stored (AwPut k d v) = AwPut k d v"
| "aw_stored (AwRem k d c) = AwRem k d (sorted_map c)"

lemma aw_stored_simps [simp]:
  "aw_key (aw_stored x) = aw_key x" "aw_cell_of (aw_stored x) = aw_cell_of x"
  "aw_ctx_ok x \<Longrightarrow> aw_ctx_ok (aw_stored x)"
  by (cases x; simp)+

lemma aw_delta_put:
  assumes "length (aw_delta (AwPut k d v)) < 2 ^ 63"
  shows "awLWWMapState_ParseDelta m (aw_delta (AwPut k d v)) = Ok (aw_info (AwPut k d v))"
    and "awLWWMapState_Apply m (aw_delta (AwPut k d v)) = (aw_write (AwPut k d v) m, Ok ())"
proof -
  have len: "length (appendVarintBytes [] k @ appendVarintBytes [] v @ encodeDot d @ []) < 2 ^ 63"
    using assms by (simp add: aw_put_cons del: aw_delta.simps)
  note [simp del] = aw_delta.simps length_append
  note [simp] = aw_put_cons awLWWMapState_ParseDelta_def awLWWMapState_parsePutDelta_def
    awLWWMapState_Apply_def awLWWMapState_applyPut_def
  show "awLWWMapState_ParseDelta m (aw_delta (AwPut k d v)) = Ok (aw_info (AwPut k d v))"
    by (rule read_two_fields_dot [OF len]) simp
  show "awLWWMapState_Apply m (aw_delta (AwPut k d v)) = (aw_write (AwPut k d v) m, Ok ())"
    by (rule read_two_fields_dot [OF len]) simp
qed

lemma aw_delta_rem:
  assumes "aw_fits (AwRem k d c)"
  shows "awLWWMapState_ParseDelta m (aw_delta (AwRem k d c)) = Ok (aw_info (AwRem k d c))"
    and "awLWWMapState_Apply m (aw_delta (AwRem k d c)) = (aw_write (AwRem k d (sorted_map c)) m, Ok ())"
proof -
  have c: "decodeVClock (encodeVClock c) = Ok (sorted_map c)"
    using assms by (simp add: aw_fits_def decodeVClock_encodeVClock')
  have len: "length (appendVarintBytes [] k @ encodeDot d @ encodeVClock c) < 2 ^ 63"
    using assms by (simp add: aw_fits_def rm_delta_cons)
  note [simp del] = length_append
  note [simp] = rm_delta_cons awLWWMapState_ParseDelta_def awLWWMapState_parseRemoveDelta_def
    awLWWMapState_Apply_def awLWWMapState_applyRemove_def c
  show "awLWWMapState_ParseDelta m (aw_delta (AwRem k d c)) = Ok (aw_info (AwRem k d c))"
    by (rule read_field_dot [OF len]) simp
  show "awLWWMapState_Apply m (aw_delta (AwRem k d c)) = (aw_write (AwRem k d (sorted_map c)) m, Ok ())"
    by (rule read_field_dot [OF len]) simp
qed

lemma aw_delta_ok:
  assumes "aw_fits x"
  shows "awLWWMapState_ParseDelta m (aw_delta x) = Ok (aw_info x)"
    and "awLWWMapState_Apply m (aw_delta x) = (aw_write (aw_stored x) m, Ok ())"
proof -
  show "awLWWMapState_ParseDelta m (aw_delta x) = Ok (aw_info x)"
    using assms aw_delta_put(1) [of _ _ _ m] aw_delta_rem(1) [of _ _ _ m] by (cases x) (auto simp: aw_fits_def simp del: aw_delta.simps)
  show "awLWWMapState_Apply m (aw_delta x) = (aw_write (aw_stored x) m, Ok ())"
    using assms aw_delta_put(2) [of _ _ _ m] aw_delta_rem(2) [of _ _ _ m]
    by (cases x) (auto simp: aw_fits_def simp del: aw_delta.simps aw_write.simps)
qed

section \<open>Delivery\<close>

lemma awLWWMapM_simps [simp]:
  "mEntryMeta awLWWMapM = awLWWMapState_EntryMeta" "mTombstoneMeta awLWWMapM = awLWWMapState_TombstoneMeta"
  "mParseDelta awLWWMapM = (\<lambda>m d. (m, awLWWMapState_ParseDelta m d))" "mApply awLWWMapM = awLWWMapState_Apply"
  "mDeltasSince awLWWMapM = awLWWMapState_DeltasSince" "mGCTombstones awLWWMapM = None"
  by (simp_all add: awLWWMapM_def)

text \<open>Whatever the bytes, an accepted delta is one write, and a refused one changes nothing.\<close>

lemma aw_Apply_cases:
  "(\<exists>x. awLWWMapState_Apply m delta = (aw_write x m, Ok ()) \<and> aw_ctx_ok x \<and>
      (\<forall>info. awLWWMapState_ParseDelta m delta = Ok info \<longrightarrow> diKey info = aw_key x)) \<or>
   fst (awLWWMapState_Apply m delta) = m \<and> snd (awLWWMapState_Apply m delta) \<noteq> Ok ()"
proof (cases delta)
  case (Cons b data)
  consider (put) "b = opPut" | (rem) "b = opRemove" | (other) "b \<noteq> opPut" "b \<noteq> opRemove" by blast
  then show ?thesis
  proof cases
    case put
    have "(\<exists>k d v. awLWWMapState_applyPut m data = (aw_write (AwPut k d v) m, Ok ()) \<and>
        (\<forall>info. awLWWMapState_parsePutDelta data = Ok info \<longrightarrow> diKey info = k)) \<or>
        fst (awLWWMapState_applyPut m data) = m \<and> snd (awLWWMapState_applyPut m data) \<noteq> Ok ()"
      unfolding awLWWMapState_applyPut_def awLWWMapState_parsePutDelta_def
      by (auto simp: go_simps split: go.splits prod.splits) (rule exI, rule conjI, (rule exI)+, rule refl, auto)
    with put Cons show ?thesis
      unfolding awLWWMapState_Apply_def awLWWMapState_ParseDelta_def
      by (simp del: aw_write.simps) (metis aw_ctx_ok.simps(1) aw_key.simps(1))
  next
    case rem
    have "(\<exists>k d c. awLWWMapState_applyRemove m data = (aw_write (AwRem k d c) m, Ok ()) \<and> aw_ctx_ok (AwRem k d c) \<and>
        (\<forall>info. awLWWMapState_parseRemoveDelta data = Ok info \<longrightarrow> diKey info = k)) \<or>
        fst (awLWWMapState_applyRemove m data) = m \<and> snd (awLWWMapState_applyRemove m data) \<noteq> Ok ()"
    proof (cases "snd (awLWWMapState_applyRemove m data) = Ok ()")
      case True
      then obtain k off d c where kc: "readVarintBytes data 0 = Ok (k, off)" "\<not> off + 16 > int (length data)"
          "go_bind (slice_from data off) decodeDot = Ok d" "go_bind (slice_from data (off + 16)) decodeVClock = Ok c"
        by (auto simp: awLWWMapState_applyRemove_def go_simps split: go.splits if_splits)
      then have "decodeVClock (drop (nat (off + 16)) data) = Ok c" by (auto simp: go_simps slice_from_def slice_def split: if_splits)
      then have "aw_ctx_ok (AwRem k d c)" using decodeDotMap_length by (auto simp: decodeVClock_def)
      moreover have "awLWWMapState_applyRemove m data = (aw_write (AwRem k d c) m, Ok ())"
        using kc by (simp add: awLWWMapState_applyRemove_def)
      moreover have "\<forall>info. awLWWMapState_parseRemoveDelta data = Ok info \<longrightarrow> diKey info = k"
        using kc by (auto simp: awLWWMapState_parseRemoveDelta_def go_simps)
      ultimately show ?thesis by blast
    next
      case False
      then show ?thesis by (auto simp: awLWWMapState_applyRemove_def split: go.splits)
    qed
    with rem Cons show ?thesis
      unfolding awLWWMapState_Apply_def awLWWMapState_ParseDelta_def
      by (simp del: aw_write.simps aw_ctx_ok.simps) (metis aw_key.simps(2))
  qed (use Cons in \<open>auto simp: awLWWMapState_Apply_def\<close>)
qed (simp add: awLWWMapState_Apply_def)

lemma aw_meta_other:
  assumes "aw_inv m" "k' \<noteq> aw_key x"
  shows "meta_of awLWWMapM (aw_write x m) k' = meta_of awLWWMapM m k'"
  using assms
  by (cases x) (auto simp: aw_inv_def awLWWMapState_PutBytes_def awLWWMapState_Remove_def meta_of_def
      awLWWMapState_EntryMeta_def awLWWMapState_TombstoneMeta_def memory.live_write memory.tombstone_write
      split: option.splits)

interpretation awlwwmap: tracked_storage awLWWMapM aw_inv
proof
  fix s :: "'a awLWWMapState" and delta
  assume "aw_inv s"
  then show "aw_inv (fst (mApply awLWWMapM s delta))"
    using aw_Apply_cases [of s delta] aw_inv_write by auto
  fix info k
  assume "snd (mParseDelta awLWWMapM s delta) = Ok info" "k \<noteq> diKey info"
  with \<open>aw_inv s\<close> show "meta_of awLWWMapM (fst (mApply awLWWMapM s delta)) k = meta_of awLWWMapM s k"
    using aw_Apply_cases [of s delta] aw_meta_other by auto
next
  fix s :: "'a awLWWMapState" and delta
  assume "snd (mApply awLWWMapM s delta) \<noteq> Ok ()"
  then show "fst (mApply awLWWMapM s delta) = s"
    using aw_Apply_cases [of s delta] by auto
qed simp_all

definition awr_inv :: "maphash \<Rightarrow> 'v AWLWWMap \<Rightarrow> bool" where
  "awr_inv mh r \<longleftrightarrow> awlwwmap.replica_inv mh r \<and> rStrategy r = addWinsClock"

definition aw_deliver :: "maphash \<Rightarrow> aw_op \<Rightarrow> 'v AWLWWMap \<Rightarrow> 'v AWLWWMap" where
  "aw_deliver mh x r = fst (replica_applyDelta mh awLWWMapM r 0 (mkDot 0 0) (aw_delta x))"

lemma aw_allows:
  assumes "aw_inv m" "aw_ctx_ok x"
  shows "addWinsClock (queryable_of awLWWMapM m) (aw_info x) \<longleftrightarrow> aw_admits x (aw_view m (aw_key x))"
proof -
  have long: "length (encodeRemoveTombstone t c) > 16" "drop 16 (encodeRemoveTombstone t c) = encodeVClock c" for t c
    by (simp_all add: encodeRemoveTombstone_def encodeVClock_def length_encodeDotMap)
  have cov: "covered_by (encodeVClock c) d \<longleftrightarrow> aw_covers (VClock_Get c) d"
      "not_covered_by (encodeVClock c) d \<longleftrightarrow> \<not> aw_covers (VClock_Get c) d"
    if "wf_map c" "length c < 2 ^ 32" for c d
    using covered_by_encode [OF that, of "[]"] not_covered_by_encode [OF that, of "[]"] by (auto simp: aw_covers_def)
  have bt: "beaten d (encodeRemoveTombstone t c) \<longleftrightarrow> d \<le> t" for d t c
    by (simp add: encodeRemoveTombstone_def)
  note [simp] = addWinsClock_def queryable_of_def
  show ?thesis
    by (rule aw_view_meta [OF assms(1), of "aw_key x"]; use assms(2) in \<open>cases x\<close>)
      (auto simp: long cov bt not_le)
qed

lemma aw_deliver_view:
  assumes "awr_inv mh r" "aw_fits x"
  shows "aw_view (rData (aw_deliver mh x r)) = aw_step x (aw_view (rData r))"
    and "amCodec (rData (aw_deliver mh x r)) = amCodec (rData r)"
proof -
  have inv: "aw_inv (rData r)" and st: "rStrategy r = addWinsClock"
    using assms(1) by (auto simp: awr_inv_def awlwwmap.replica_inv_def)
  have ok: "aw_ctx_ok x" using assms(2) by (simp add: aw_fits_def)
  have p: "mParseDelta awLWWMapM (rData r) (aw_delta x) = (rData r, Ok (aw_info x))"
    using aw_delta_ok(1) [OF assms(2), of "rData r"] by simp
  have data: "rData (aw_deliver mh x r) =
      (if aw_admits x (aw_view (rData r) (aw_key x)) then aw_write (aw_stored x) (rData r) else rData r)"
    unfolding aw_deliver_def applyDelta_data [OF p] st
    using aw_allows [OF inv ok] aw_delta_ok(2) [OF assms(2), of "rData r"] by simp
  show "aw_view (rData (aw_deliver mh x r)) = aw_step x (aw_view (rData r))"
    using aw_view_write [OF inv, of "aw_stored x"] ok by (simp add: data aw_step_def)
  show "amCodec (rData (aw_deliver mh x r)) = amCodec (rData r)" by (simp add: data)
qed

lemma aw_deliver_inv: "awr_inv mh r \<Longrightarrow> awr_inv mh (aw_deliver mh x r)"
  by (simp add: awr_inv_def aw_deliver_def awlwwmap.applyDelta_inv)

lemma aw_deliver_all:
  "awr_inv mh r \<Longrightarrow> list_all aw_fits xs \<Longrightarrow>
   awr_inv mh (fold (aw_deliver mh) xs r) \<and> aw_view (rData (fold (aw_deliver mh) xs r)) = fold aw_step xs (aw_view (rData r)) \<and>
   amCodec (rData (fold (aw_deliver mh) xs r)) = amCodec (rData r)"
  by (induction xs arbitrary: r) (auto simp: aw_deliver_inv aw_deliver_view)

section \<open>Reads and local writes\<close>

definition aw_read :: "'v Codec \<Rightarrow> aw_cell option \<Rightarrow> 'v option" where
  "aw_read cd cell =
     (case cell of Some (Live _ b) \<Rightarrow> (case Decode cd b of Inr v \<Rightarrow> Some v | Inl _ \<Rightarrow> None) | _ \<Rightarrow> None)"

lemma AWLWWMap_Get_view: "AWLWWMap_Get r k = aw_read (amCodec (rData r)) (aw_view (rData r) k)"
  by (auto simp: AWLWWMap_Get_def awLWWMapState_Get_def aw_view_def awLWWMapState_GetBytes_def aw_read_def
      split: option.splits go.splits sum.splits)

lemma NewAWLWWMap_Ok:
  assumes "MakeSeed mh \<noteq> 0" "oBackend (applyOptions opts) = None"
  obtains r where "NewAWLWWMap mh i (Some c) opts = Ok r" "awr_inv mh r" "aw_view (rData r) = (\<lambda>_. None)"
    "amCodec (rData r) = c" "rLocal r = newLocalClock i"
proof -
  let ?m = "\<lparr>amCodec = c, amBackend = newMemoryBackend\<rparr>"
  let ?r = "newReplica mh i ?m addWinsClock opts"
  have "aw_inv ?m" "aw_view ?m = (\<lambda>_. None)"
    by (simp_all add: aw_inv_def memory.inv_empty memory.exclusive_empty memory.get_empty memory.tget_empty
        aw_view_def awLWWMapState_GetBytes_def awLWWMapState_GetTombstone_def fun_eq_iff)
  moreover have "rLocal ?r = newLocalClock i" by (simp add: newReplica_def Let_def)
  ultimately show ?thesis
    using assms received.inv_empty
    by (intro that [of ?r]) (simp_all add: NewAWLWWMap_def newAWLWWMapState_def requireCodec_def applyOptions_def
        awr_inv_def awlwwmap.replica_inv_def mm_inv_new Let_def)
qed

lemma AWLWWMap_Put_data:
  assumes "Encode (amCodec (rData r)) v = Inr b"
  shows "rData (fst (AWLWWMap_Put mh r k v)) = aw_write (AwPut k (mkDot (lcReplica (rLocal r)) (lcCounter (rLocal r) + 1)) b) (rData r)"
  using assms by (simp add: AWLWWMap_Put_def Let_def split_beta awLWWMapState_Put_def awLWWMapState_PutBytes_def)

lemma AWLWWMap_Remove_data:
  "rData (fst (AWLWWMap_Remove mh r k)) =
     aw_write (AwRem k (mkDot (lcReplica (rLocal r)) (lcCounter (rLocal r) + 1)) (remove_context r)) (rData r)"
  by (simp add: AWLWWMap_Remove_def Let_def split_beta remove_context_def)

section \<open>Properties\<close>

text \<open>
  C4: every delivered delta, whatever the earlier history, is one step of the abstract map \<open>aw_step\<close>:
  a put replaces an older entry and a tombstone that has not observed it, a remove replaces an
  entry it has observed and an older tombstone, and every other delta changes nothing. Reads
  return the decoded live value.
\<close>

theorem AWLWWMap_refines:
  assumes "awr_inv mh r" "list_all aw_fits xs"
  shows "AWLWWMap_Get (fold (aw_deliver mh) xs r) k = aw_read (amCodec (rData r)) (fold aw_step xs (aw_view (rData r)) k)"
  using aw_deliver_all [OF assms] by (simp add: AWLWWMap_Get_view)

lemma aw_fits_short:
  "length k < 128 \<Longrightarrow> length v < 128 \<Longrightarrow> aw_fits (AwPut k d v)"
  "length k < 128 \<Longrightarrow> wf_map c \<Longrightarrow> length c < 2 ^ 32 \<Longrightarrow> aw_fits (AwRem k d c)"
  by (simp_all add: aw_fits_def length_PutUvarint_short rm_delta_def encodeVClock_def length_encodeDotMap)

theorem AWLWWMap_refines_witness:
  "\<exists>r. NewAWLWWMap demo_hash 1 (Some StringCodec) [] = Ok r \<and>
     AWLWWMap_Get (fold (aw_deliver demo_hash) [AwPut [7] (mkDot 2 1) [5], AwRem [7] (mkDot 3 1) [(2, 1)]] r) [7] = None"
proof -
  obtain r :: "bytes AWLWWMap" where r: "NewAWLWWMap demo_hash 1 (Some StringCodec) [] = Ok r" "awr_inv demo_hash r"
      "aw_view (rData r) = (\<lambda>_. None)"
    using NewAWLWWMap_Ok [of demo_hash "[]" 1 StringCodec] by (auto simp: applyOptions_def)
  have "list_all aw_fits [AwPut [7] (mkDot 2 1) [5], AwRem [7] (mkDot 3 1) [(2, 1)]]"
    by (simp add: aw_fits_short wf_map_def)
  from AWLWWMap_refines [OF r(2) this, of "[7]"] r(1,3) show ?thesis
    by (auto simp: aw_step_def aw_covers_def VClock_Get_def mget0_def aw_read_def)
qed

text \<open>
  Add wins: for a key that is still unset, a put and a remove reach the same result in
  either order. The put survives unless the remover had observed it, and an observed put
  stays removed even when it arrives after the remove.
\<close>

theorem AWLWWMap_add_wins:
  assumes "awr_inv mh r" "aw_fits (AwPut k d b)" "aw_fits (AwRem k t c)" "aw_view (rData r) k = None"
    and "Decode (amCodec (rData r)) b = Inr v"
  shows "AWLWWMap_Get (aw_deliver mh (AwRem k t c) (aw_deliver mh (AwPut k d b) r)) k
      = (if Counter d \<le> VClock_Get c (Replica d) then None else Some v) \<and>
    AWLWWMap_Get (aw_deliver mh (AwPut k d b) (aw_deliver mh (AwRem k t c) r)) k
      = (if Counter d \<le> VClock_Get c (Replica d) then None else Some v)"
  using assms
  by (auto simp: AWLWWMap_Get_view aw_deliver_view aw_deliver_inv aw_step_def aw_covers_def aw_read_def)

theorem AWLWWMap_add_wins_witness:
  "\<exists>r. NewAWLWWMap demo_hash 1 (Some StringCodec) [] = Ok r \<and>
     AWLWWMap_Get (aw_deliver demo_hash (AwPut [7] (mkDot 2 2) [5]) (aw_deliver demo_hash (AwRem [7] (mkDot 3 1) [(2, 1)]) r)) [7] = Some [5]"
proof -
  obtain r :: "bytes AWLWWMap" where r: "NewAWLWWMap demo_hash 1 (Some StringCodec) [] = Ok r" "awr_inv demo_hash r"
      "aw_view (rData r) = (\<lambda>_. None)" "amCodec (rData r) = StringCodec"
    using NewAWLWWMap_Ok [of demo_hash "[]" 1 StringCodec] by (auto simp: applyOptions_def)
  have f: "aw_fits (AwPut [7] (mkDot 2 2) [5])" "aw_fits (AwRem [7] (mkDot 3 1) [(2, 1)])"
    by (simp_all add: aw_fits_short wf_map_def)
  have "\<not> (2 :: u64) \<le> 1" by (simp add: word_le_nat_alt)
  with AWLWWMap_add_wins [OF r(2) f, of "[5]"] r show ?thesis
    by (auto simp: StringCodec_def VClock_Get_def mget0_def)
qed

text \<open>
  over an older entry the map is order dependent: when a remove has observed the newer
  put but not the older one, put-then-remove ends in a tombstone and remove-then-put keeps the
  removed value, so two replicas with the same deltas disagree.
\<close>

theorem AWLWWMap_order_dependent:
  assumes "awr_inv mh r" "awr_inv mh' r'" "aw_fits (AwPut k d b)" "aw_fits (AwRem k t c)"
    and "aw_view (rData r) k = Some (Live l w)" "aw_view (rData r') k = Some (Live l w)" "l < d"
    and "Counter d \<le> VClock_Get c (Replica d)" "VClock_Get c (Replica l) < Counter l"
  shows "aw_view (rData (fold (aw_deliver mh) [AwPut k d b, AwRem k t c] r)) k = Some (Dead t (VClock_Get c)) \<and>
    aw_view (rData (fold (aw_deliver mh') [AwRem k t c, AwPut k d b] r')) k = Some (Live d b)"
  using assms by (simp add: aw_deliver_view aw_deliver_inv aw_step_def aw_covers_def)

theorem AWLWWMap_order_dependent_witness:
  "\<exists>r. NewAWLWWMap demo_hash 1 (Some StringCodec) [] = Ok r \<and>
     aw_view (rData (fold (aw_deliver demo_hash) [AwPut [7] (mkDot 2 2) [5], AwRem [7] (mkDot 2 3) [(2, 3)]]
       (aw_deliver demo_hash (AwPut [7] (mkDot 3 1) [6]) r))) [7] \<noteq>
     aw_view (rData (fold (aw_deliver demo_hash) [AwRem [7] (mkDot 2 3) [(2, 3)], AwPut [7] (mkDot 2 2) [5]]
       (aw_deliver demo_hash (AwPut [7] (mkDot 3 1) [6]) r))) [7]"
proof -
  obtain r :: "bytes AWLWWMap" where r: "NewAWLWWMap demo_hash 1 (Some StringCodec) [] = Ok r" "awr_inv demo_hash r"
      "aw_view (rData r) = (\<lambda>_. None)"
    using NewAWLWWMap_Ok [of demo_hash "[]" 1 StringCodec] by (auto simp: applyOptions_def)
  have f: "aw_fits (AwPut [7] (mkDot 2 2) [5])" "aw_fits (AwRem [7] (mkDot 2 3) [(2, 3)])" "aw_fits (AwPut [7] (mkDot 3 1) [6])"
    by (simp_all add: aw_fits_short wf_map_def)
  let ?r = "aw_deliver demo_hash (AwPut [7] (mkDot 3 1) [6]) r"
  have inv: "awr_inv demo_hash ?r" using r(2) by (rule aw_deliver_inv)
  have v: "aw_view (rData ?r) [7] = Some (Live (mkDot 3 1) [6])"
    using aw_deliver_view(1) [OF r(2) f(3)] r(3) by (simp add: aw_step_def)
  have lt: "mkDot 3 1 < mkDot 2 2" by (simp add: DotGT_less [symmetric] DotGT_def)
  from AWLWWMap_order_dependent [OF inv inv f(1,2) v v lt] r(1) show ?thesis
    by (auto simp: VClock_Get_def mget0_def)
qed

text \<open>
  C32: a put is read back and a remove hides the key, whatever the map holds; other keys are untouched. At a peer that
  holds the key the delta of the remove takes it out exactly when the dot of the peer's put lies within the contiguous
  high-water marks of the remover, the context of the remove; a put beyond a gap stays, even one that the remover had received
  and no longer shows.
\<close>

theorem AWLWWMap_Put_Remove:
  assumes "awr_inv mh r" "Encode (amCodec (rData r)) v = Inr b" "Decode (amCodec (rData r)) b = Inr v"
    and "aw_fits (AwRem k (snd (replica_nextDot r)) (remove_context r))"
  shows "AWLWWMap_Get (fst (AWLWWMap_Put mh r k v)) k = Some v \<and>
    AWLWWMap_Get (fst (AWLWWMap_Remove mh r k)) k = None \<and>
    (\<forall>k'. k' \<noteq> k \<longrightarrow> AWLWWMap_Get (fst (AWLWWMap_Put mh r k v)) k' = AWLWWMap_Get r k' \<and>
       AWLWWMap_Get (fst (AWLWWMap_Remove mh r k)) k' = AWLWWMap_Get r k') \<and>
    (\<forall>mh' p l w. awr_inv mh' p \<and> aw_view (rData p) k = Some (Live l w) \<longrightarrow>
       AWLWWMap_Get (aw_deliver mh' (AwRem k (snd (replica_nextDot r)) (remove_context r)) (p :: 'v AWLWWMap)) k =
         (if Counter l \<le> VClock_Get (receivedClock_HWM (rReceived (fst (replica_nextDot r)))) (Replica l) then None
          else AWLWWMap_Get p k))"
proof -
  have inv: "aw_inv (rData r)" using assms(1) by (simp add: awr_inv_def awlwwmap.replica_inv_def)
  have ok: "aw_ctx_ok (AwRem k d (remove_context r))" for d using assms(4) by (simp add: aw_fits_def)
  show ?thesis
    using assms(2-4) aw_view_write [OF inv ok] aw_view_write [OF inv, of "AwPut k d b" for d]
    by (simp add: AWLWWMap_Get_view AWLWWMap_Put_data AWLWWMap_Remove_data aw_deliver_view del: aw_write.simps)
      (auto simp: aw_read_def aw_step_def aw_covers_def remove_context_def)
qed

theorem AWLWWMap_Put_Remove_witness:
  "\<exists>r. NewAWLWWMap demo_hash 1 (Some StringCodec) [] = Ok r \<and>
     AWLWWMap_Get (fst (AWLWWMap_Put demo_hash r [7] [5])) [7] = Some [5] \<and>
     AWLWWMap_Get (fst (AWLWWMap_Remove demo_hash r [7])) [7] = None"
proof -
  obtain r :: "bytes AWLWWMap" where r: "NewAWLWWMap demo_hash 1 (Some StringCodec) [] = Ok r" "awr_inv demo_hash r"
      "amCodec (rData r) = StringCodec" "rReceived r = newReceivedClock"
    using NewAWLWWMap_Ok [of demo_hash "[]" 1 StringCodec]
    by (auto simp: applyOptions_def NewAWLWWMap_def newAWLWWMapState_def requireCodec_def Let_def)
  have "rc_inv (rReceived r)" using r(2) by (simp add: awr_inv_def awlwwmap.replica_inv_def)
  then have "aw_fits (AwRem [7] (snd (replica_nextDot r)) (remove_context r))"
    using remove_context_new [OF r(4)] by (intro aw_fits_short) (simp_all add: remove_context_wf)
  from AWLWWMap_Put_Remove [OF r(2) _ _ this, of "[5]" "[5]"] r show ?thesis by (auto simp: StringCodec_def)
qed

end
