(* ===== verification/AddWinsNetwork.thy ===== *)
theory AddWinsNetwork
  imports Histories Exchange AWLWWMaps
begin

text \<open>
  Clusters of add-wins maps (\<^verbatim>\<open>awlwwmap.go\<close> and the public map of \<^verbatim>\<open>node.go\<close>). Against the history of puts and removes, a replica
  that has issued or received a put reads its value unless a remove has observed the put, a newer put of the key
  exists, or a local put stamped below it has overwritten it, which the second half of the ghost records.
\<close>

section \<open>Histories and what a replica holds\<close>

type_synonym aw_ghost = "or_hist \<times> (bytes \<times> Dot) set"

definition aw_gone :: "aw_ghost \<Rightarrow> bytes \<Rightarrow> Dot \<Rightarrow> bool" where
  "aw_gone g k d \<longleftrightarrow> observed (fst g) k (Replica d) (Counter d) \<or> (k, d) \<in> snd g \<or> (\<exists>d'. added (fst g) k d' \<and> d < d')"

definition clock_observed :: "or_hist \<Rightarrow> bytes \<Rightarrow> (ReplicaID \<Rightarrow> u64) \<Rightarrow> bool" where
  "clock_observed h k c \<longleftrightarrow> (\<forall>j. c j \<noteq> 0 \<longrightarrow> observed h k j (c j))"

fun aw_sent :: "or_hist \<Rightarrow> aw_op \<Rightarrow> bool" where
  "aw_sent h (AwPut k d v) \<longleftrightarrow> hsEvent h d = Some (EvAdd k v)"
| "aw_sent h (AwRem k d c) \<longleftrightarrow> wf_map c \<and> length c < 2 ^ 32 \<and> removed h k d \<and> clock_observed h k (VClock_Get c)"

fun aw_cell_ok :: "or_hist \<Rightarrow> bytes \<Rightarrow> aw_cell \<Rightarrow> bool" where
  "aw_cell_ok h k (Live d v) \<longleftrightarrow> hsEvent h d = Some (EvAdd k v)"
| "aw_cell_ok h k (Dead d c) \<longleftrightarrow> removed h k d \<and> clock_observed h k c"

definition aw_holds :: "aw_ghost \<Rightarrow> receivedClock \<Rightarrow> (bytes \<Rightarrow> aw_cell option) \<Rightarrow> bool" where
  "aw_holds g rc a \<longleftrightarrow> (\<forall>j n. n \<in> seen rc j \<longrightarrow> n \<le> hsClock (fst g) j) \<and>
     (\<forall>k c. a k = Some c \<longrightarrow> aw_cell_ok (fst g) k c) \<and>
     (\<forall>k d v. hsEvent (fst g) d = Some (EvAdd k v) \<and> Counter d \<in> seen rc (Replica d) \<longrightarrow> a k = Some (Live d v) \<or> aw_gone g k d)"

lemma aw_holdsD:
  assumes "aw_holds g rc a"
  shows "\<forall>j n. n \<in> seen rc j \<longrightarrow> n \<le> hsClock (fst g) j" "a k = Some c \<Longrightarrow> aw_cell_ok (fst g) k c"
    "hsEvent (fst g) d = Some (EvAdd k v) \<Longrightarrow> Counter d \<in> seen rc (Replica d) \<Longrightarrow> a k = Some (Live d v) \<or> aw_gone g k d"
  using assms by (simp_all add: aw_holds_def)

text \<open>What a context covers was observed.\<close>

lemma covered_observed:
  assumes "clock_observed h k c" "aw_covers c d" "Counter d \<noteq> 0"
  shows "observed h k (Replica d) (Counter d)"
proof -
  have "c (Replica d) \<noteq> 0" using assms(2,3) by (auto simp: aw_covers_def)
  with assms(1) have "observed h k (Replica d) (c (Replica d))" by (simp add: clock_observed_def)
  then show ?thesis using assms(2) by (auto simp: aw_covers_def intro: observed_le)
qed

definition aw_grow :: "aw_ghost \<Rightarrow> aw_ghost \<Rightarrow> bool" where
  "aw_grow g g' \<longleftrightarrow> hs_grow (fst g) (fst g') \<and> snd g \<subseteq> snd g'"

lemma aw_grow_facts:
  assumes "aw_grow g g'"
  shows "aw_gone g k d \<Longrightarrow> aw_gone g' k d" "clock_observed (fst g) k c \<Longrightarrow> clock_observed (fst g') k c"
    "aw_sent (fst g) x \<Longrightarrow> aw_sent (fst g') x" "aw_cell_ok (fst g) k cell \<Longrightarrow> aw_cell_ok (fst g') k cell"
proof -
  have grow: "hs_grow (fst g) (fst g')" "snd g \<subseteq> snd g'" using assms by (simp_all add: aw_grow_def)
  note f = grow_facts [OF grow(1)]
  show "aw_gone g k d \<Longrightarrow> aw_gone g' k d" using f(1,2) grow(2) unfolding aw_gone_def by blast
  show obs: "clock_observed (fst g) k c \<Longrightarrow> clock_observed (fst g') k c" for k c using f(1) by (simp add: clock_observed_def)
  have ev: "hsEvent (fst g) d = Some e \<Longrightarrow> hsEvent (fst g') d = Some e" for d e using grow(1) by (simp add: hs_grow_def)
  show "aw_sent (fst g) x \<Longrightarrow> aw_sent (fst g') x" using obs ev f(3) by (cases x) simp_all
  show "aw_cell_ok (fst g) k cell \<Longrightarrow> aw_cell_ok (fst g') k cell" using obs ev f(3) by (cases cell) simp_all
qed

lemma aw_holds_grow:
  assumes "aw_holds g rc a" "aw_grow g g'"
  shows "aw_holds g' rc a"
proof -
  note old = aw_holdsD [OF assms(1)] and grow = aw_grow_facts [OF assms(2)]
  have hg: "hs_grow (fst g) (fst g')" using assms(2) by (simp add: aw_grow_def)
  have "\<forall>j n. n \<in> seen rc j \<longrightarrow> n \<le> hsClock (fst g') j" using old(1) grow_facts(5) [OF hg] by (blast intro: order_trans)
  moreover have "a k = Some (Live d v) \<or> aw_gone g' k d"
    if "hsEvent (fst g') d = Some (EvAdd k v)" "Counter d \<in> seen rc (Replica d)" for k d v
  proof -
    have "hsEvent (fst g) d = Some (EvAdd k v)" using that hg old(1) by (simp add: hs_grow_def)
    from old(3) [OF this that(2)] grow(1) show ?thesis by blast
  qed
  ultimately show ?thesis using old(2) grow(4) by (simp add: aw_holds_def)
qed

section \<open>The effect of a delta and of the operations\<close>

fun aw_dot :: "aw_op \<Rightarrow> Dot" where
  "aw_dot (AwPut k d v) = d"
| "aw_dot (AwRem k d c) = d"

lemma aw_holds_step:
  assumes h: "hist_ok R (fst g)" "aw_holds g rc a" and x: "aw_sent (fst g) x"
    and sn: "\<And>j n. n \<in> seen rc' j \<Longrightarrow> n \<in> seen rc j \<or> mkDot j n = aw_dot x"
  shows "aw_holds g rc' (aw_step x a)"
proof -
  note old = aw_holdsD [OF h(2)]
  have dot: "Counter (aw_dot x) \<noteq> 0 \<and> Counter (aw_dot x) \<le> hsClock (fst g) (Replica (aw_dot x))"
    using x hist_okD(3) [OF h(1)] by (cases x) (auto simp: removed_def)
  have clock: "n \<le> hsClock (fst g) j" if "n \<in> seen rc' j" for j n
    using sn [OF that] old(1) dot by (metis Dot.select_convs(1,2))
  have cell: "aw_cell_ok (fst g) k c" if "aw_step x a k = Some c" for k c
    using that x old(2) by (cases x) (auto simp: aw_step_def split: if_splits)
  have held: "aw_step x a k = Some (Live d v) \<or> aw_gone g k d"
    if d: "hsEvent (fst g) d = Some (EvAdd k v)" "Counter d \<in> seen rc' (Replica d)" for k d v
  proof -
    have nz: "Counter d \<noteq> 0" using hist_okD(3) [OF h(1) d(1)] by blast
    consider (gone) "aw_gone g k d" | (live) "a k = Some (Live d v)" | (new) "aw_dot x = d"
      using sn [OF d(2)] old(3) [OF d(1)] by auto
    then show ?thesis
    proof cases
      case live
      then show ?thesis
      proof (cases x)
        case (AwPut k' l w)
        with live x show ?thesis by (auto simp: aw_step_def aw_gone_def added_def)
      next
        case (AwRem k' t c)
        with live x nz covered_observed [of "fst g" k "VClock_Get c" d] show ?thesis by (auto simp: aw_step_def aw_gone_def)
      qed
    next
      case new
      then obtain xp: "x = AwPut k d v" using x d(1) by (cases x) (auto simp: removed_def)
      show ?thesis
      proof (cases "aw_admits x (a k)")
        case True
        then show ?thesis by (simp add: xp aw_step_def)
      next
        case False
        then obtain cell where c: "a k = Some cell" by (cases "a k") auto
        note ok = old(2) [OF c]
        show ?thesis
        proof (cases cell)
          case (Live l w)
          with False c have "\<not> l < d" by (simp add: xp)
          with Live ok d(1) c show ?thesis
            by (cases "l = d") (auto simp: xp aw_step_def aw_gone_def added_def)
        next
          case (Dead t e)
          with False c have "aw_covers e d" by (simp add: xp)
          with Dead ok nz covered_observed [of "fst g" k e d] show ?thesis by (simp add: aw_gone_def)
        qed
      qed
    qed simp
  qed
  from clock cell held show ?thesis by (simp add: aw_holds_def)
qed

text \<open>A local put takes the place of what its replica holds, whatever the dots.\<close>

definition aw_stale :: "(bytes \<Rightarrow> aw_cell option) \<Rightarrow> bytes \<Rightarrow> Dot \<Rightarrow> (bytes \<times> Dot) set" where
  "aw_stale a k d = {(k, l) | l. (\<exists>w. a k = Some (Live l w)) \<and> \<not> l < d}"

lemma aw_holds_put:
  assumes h: "hist_ok R h" "aw_holds (h, L) rc a" and i: "hsClock h i + 1 \<noteq> 0"
    and sn: "\<forall>j n. n \<in> seen rc' j \<longrightarrow> n \<in> seen rc j \<or> mkDot j n = hs_next h i"
  shows "aw_holds (hs_log h i (Some (EvAdd k v)), L \<union> aw_stale a k (hs_next h i)) rc' (a(k \<mapsto> Live (hs_next h i) v))"
    and "aw_grow (h, L) (hs_log h i (Some (EvAdd k v)), L \<union> aw_stale a k (hs_next h i))"
proof -
  let ?d = "hs_next h i" and ?g = "(hs_log h i (Some (EvAdd k v)), L \<union> aw_stale a k (hs_next h i))"
  show grow: "aw_grow (h, L) ?g" using hs_log_grow [OF h(1) i] by (simp add: aw_grow_def)
  note old = aw_holdsD [OF aw_holds_grow [OF h(2) grow]]
  have ev: "hsEvent (fst ?g) ?d = Some (EvAdd k v)" by simp
  have "n \<le> hsClock (fst ?g) j" if "n \<in> seen rc' j" for j n
    using sn [rule_format, OF that]
  proof
    assume "n \<in> seen rc j"
    with old(1) show ?thesis by blast
  qed (simp add: hs_next_def)
  moreover have "aw_cell_ok (fst ?g) k' c" if "(a(k \<mapsto> Live ?d v)) k' = Some c" for k' c
    using that old(2) [of k' c] ev by (auto split: if_splits)
  moreover have "(a(k \<mapsto> Live ?d v)) k' = Some (Live e w) \<or> aw_gone ?g k' e"
    if e: "hsEvent (fst ?g) e = Some (EvAdd k' w)" "Counter e \<in> seen rc' (Replica e)" for k' e w
  proof (cases "e = ?d")
    case True
    with e(1) ev show ?thesis by auto
  next
    case False
    then have "Counter e \<in> seen rc (Replica e)" using sn [rule_format, OF e(2)] by simp
    from old(3) [OF e(1) this] show ?thesis
    proof
      assume live: "a k' = Some (Live e w)"
      show ?thesis
      proof (cases "k' = k")
        case True
        have "added (fst ?g) k ?d" using ev by (simp add: added_def)
        with True live show ?thesis by (cases "e < ?d") (auto simp: aw_gone_def aw_stale_def)
      qed (use live in simp)
    qed simp
  qed
  ultimately show "aw_holds ?g rc' (a(k \<mapsto> Live ?d v))" unfolding aw_holds_def by blast
qed

text \<open>What the remover of a key sees: its entry and the context of the remove.\<close>

definition aw_sees :: "(bytes \<Rightarrow> aw_cell option) \<Rightarrow> VClock \<Rightarrow> bytes \<Rightarrow> ReplicaID \<Rightarrow> u64" where
  "aw_sees a ctx k j = max (VClock_Get ctx j) (case a k of Some (Live l w) \<Rightarrow> if Replica l = j then Counter l else 0 | _ \<Rightarrow> 0)"

lemma aw_holds_remove:
  assumes h: "hist_ok R h" "aw_holds (h, L) rc a" and i: "i \<in> R" "hsClock h i + 1 \<noteq> 0" and k: "length k < 2 ^ 62"
    and c: "\<And>j ev. VClock_Get ctx j \<le> hsClock (hs_log h i ev) j"
    and sn: "\<forall>j n. n \<in> seen rc' j \<longrightarrow> n \<in> seen rc j \<or> mkDot j n = hs_next h i"
  defines "g \<equiv> (hs_log h i (Some (EvRem k (aw_sees a ctx k))), L)"
  shows "aw_holds g rc' (a(k \<mapsto> Dead (hs_next h i) (VClock_Get ctx)))" "aw_grow (h, L) g" "hist_ok R (fst g)"
    and "removed (fst g) k (hs_next h i)" "clock_observed (fst g) k (VClock_Get ctx)"
proof -
  let ?d = "hs_next h i"
  show grow: "aw_grow (h, L) g" using hs_log_grow [OF h(1) i(2)] by (simp add: aw_grow_def g_def)
  note old = aw_holdsD [OF aw_holds_grow [OF h(2) grow]]
  have ev: "hsEvent (fst g) ?d = Some (EvRem k (aw_sees a ctx k))" by (simp add: g_def)
  then show rem: "removed (fst g) k ?d" by (simp add: removed_def)
  have obs: "observed (fst g) k j n" if "n \<le> aw_sees a ctx k j" for j n unfolding observed_def using ev that by blast
  then show co: "clock_observed (fst g) k (VClock_Get ctx)" by (simp add: clock_observed_def aw_sees_def)
  have "aw_sees a ctx k j \<le> hsClock (fst g) j" for j
  proof -
    have "Counter l \<le> hsClock (fst g) (Replica l)" if "a k = Some (Live l w)" for l w
    proof -
      have "hsEvent h l = Some (EvAdd k w)" using aw_holdsD(2) [OF h(2) that] by simp
      then have "Counter l \<le> hsClock h (Replica l)" using hist_okD(3) [OF h(1)] by blast
      then show ?thesis using grow_facts(5) [OF hs_log_grow [OF h(1) i(2)]] unfolding g_def fst_conv by (rule order_trans)
    qed
    then show ?thesis using c [of j] by (auto simp: aw_sees_def g_def split: option.splits aw_cell.splits)
  qed
  then show "hist_ok R (fst g)" using k unfolding g_def fst_conv by (intro hs_log_ok [OF h(1) i(2,1)]) auto
  have "n \<le> hsClock (fst g) j" if "n \<in> seen rc' j" for j n
    using sn [rule_format, OF that]
  proof
    assume "n \<in> seen rc j"
    with old(1) show ?thesis by blast
  qed (simp add: hs_next_def g_def)
  moreover have "aw_cell_ok (fst g) k' e" if "(a(k \<mapsto> Dead ?d (VClock_Get ctx))) k' = Some e" for k' e
    using that old(2) [of k' e] rem co by (auto split: if_splits)
  moreover have "(a(k \<mapsto> Dead ?d (VClock_Get ctx))) k' = Some (Live e w) \<or> aw_gone g k' e"
    if e: "hsEvent (fst g) e = Some (EvAdd k' w)" "Counter e \<in> seen rc' (Replica e)" for k' e w
  proof -
    have "e \<noteq> ?d" using e(1) ev by auto
    then have "Counter e \<in> seen rc (Replica e)" using sn [rule_format, OF e(2)] by simp
    from old(3) [OF e(1) this] obs [of "Counter e" "Replica e"] show ?thesis
      by (cases "k' = k") (auto simp: aw_gone_def aw_sees_def)
  qed
  ultimately show "aw_holds g rc' (a(k \<mapsto> Dead ?d (VClock_Get ctx)))" unfolding aw_holds_def by blast
qed

lemma aw_holds_none:
  assumes h: "hist_ok R h" "aw_holds (h, L) rc a" and i: "hsClock h i + 1 \<noteq> 0"
    and sn: "\<forall>j n. n \<in> seen rc' j \<longrightarrow> n \<in> seen rc j \<or> mkDot j n = hs_next h i"
  shows "aw_holds (hs_log h i None, L) rc' a" "aw_grow (h, L) (hs_log h i None, L)"
proof -
  let ?g = "(hs_log h i None, L)"
  show grow: "aw_grow (h, L) ?g" using hs_log_grow [OF h(1) i] by (simp add: aw_grow_def)
  note old = aw_holdsD [OF aw_holds_grow [OF h(2) grow]]
  have "n \<le> hsClock (fst ?g) j" if "n \<in> seen rc' j" for j n
    using sn [rule_format, OF that]
  proof
    assume "n \<in> seen rc j"
    with old(1) show ?thesis by blast
  qed (simp add: hs_next_def)
  moreover have "a k = Some (Live e w) \<or> aw_gone ?g k e"
    if e: "hsEvent (fst ?g) e = Some (EvAdd k w)" "Counter e \<in> seen rc' (Replica e)" for k e w
  proof -
    have "e \<noteq> hs_next h i" using e(1) by auto
    then have "Counter e \<in> seen rc (Replica e)" using sn [rule_format, OF e(2)] by simp
    from old(3) [OF e(1) this] show ?thesis .
  qed
  ultimately show "aw_holds ?g rc' a" using old(2) unfolding aw_holds_def by blast
qed

section \<open>The cluster\<close>

definition aw_fresh :: "ReplicaID set \<Rightarrow> (ReplicaID \<Rightarrow> maphash) \<Rightarrow> 'v Codec \<Rightarrow> ReplicaID \<Rightarrow> 'v AWLWWMap \<Rightarrow> bool" where
  "aw_fresh R mh c i r \<longleftrightarrow> card R < 2 ^ 32 \<and> MakeSeed (mh i) \<noteq> 0 \<and>
     (\<exists>opts. oBackend (applyOptions opts) = None \<and> NewAWLWWMap (mh i) i (Some c) opts = Ok r)"

inductive aw_local ::
    "ReplicaID set \<Rightarrow> (ReplicaID \<Rightarrow> maphash) \<Rightarrow> 'v Codec \<Rightarrow> ReplicaID \<Rightarrow> aw_ghost \<Rightarrow> 'v AWLWWMap \<Rightarrow> aw_ghost \<Rightarrow> 'v AWLWWMap \<Rightarrow> sends \<Rightarrow> bool"
  for R mh c where
  aw_put: "\<lbrakk>AWLWWMap_Put (mh i) r k v = (r', Ok (out, w)); i \<in> R; hsClock h i + 1 \<noteq> 0; Encode c v = Inr b; length k + length b < 2 ^ 62\<rbrakk> \<Longrightarrow>
    aw_local R mh c i (h, L) r (hs_log h i (Some (EvAdd k b)), L \<union> aw_stale (aw_view (rData r)) k (hs_next h i)) r' out"
| aw_remove: "\<lbrakk>AWLWWMap_Remove (mh i) r k = (r', out, w); i \<in> R; hsClock h i + 1 \<noteq> 0; length k < 2 ^ 62\<rbrakk> \<Longrightarrow>
    aw_local R mh c i (h, L) r (hs_log h i (Some (EvRem k (aw_sees (aw_view (rData r)) (remove_context r) k))), L) r' out"
| aw_refused: "\<lbrakk>AWLWWMap_Put (mh i) r k v = (r', Err x); i \<in> R; hsClock h i + 1 \<noteq> 0; Encode c v = Inl x\<rbrakk> \<Longrightarrow>
    aw_local R mh c i (h, L) r (hs_log h i None, L) r' []"

type_synonym 'v aw_net = "('v awLWWMapState, aw_ghost) net"

definition aw_cluster :: "ReplicaID set \<Rightarrow> (ReplicaID \<Rightarrow> maphash) \<Rightarrow> 'v Codec \<Rightarrow> 'v aw_net \<Rightarrow> bool" where
  "aw_cluster R mh c = cluster mh awLWWMapM (aw_fresh R mh c) (hs_empty, {}) (aw_local R mh c)"

definition aw_promise :: "ReplicaID set \<Rightarrow> 'v Codec \<Rightarrow> aw_ghost \<Rightarrow> ReplicaID \<Rightarrow> localClock \<Rightarrow> receivedClock \<Rightarrow> 'v awLWWMapState \<Rightarrow> bool" where
  "aw_promise R c g i lc rc m \<longleftrightarrow> lcReplica lc = i \<and> lcCounter lc = hsClock (fst g) i \<and> amCodec m = c \<and> rc_inv rc \<and>
     (\<forall>n. n \<noteq> 0 \<longrightarrow> n \<le> hsClock (fst g) i \<longrightarrow> n \<in> seen rc i) \<and> hist_ok R (fst g) \<and> aw_inv m \<and> aw_holds g rc (aw_view m)"

lemma aw_promiseD:
  assumes "aw_promise R c g i lc rc m"
  shows "lcReplica lc = i" "lcCounter lc = hsClock (fst g) i" "amCodec m = c" "rc_inv rc"
    "n \<noteq> 0 \<Longrightarrow> n \<le> hsClock (fst g) i \<Longrightarrow> n \<in> seen rc i" "hist_ok R (fst g)" "aw_inv m" "aw_holds g rc (aw_view m)"
  using assms by (simp_all add: aw_promise_def)

definition aw_payload :: "aw_ghost \<Rightarrow> bytes \<Rightarrow> bool" where
  "aw_payload g d \<longleftrightarrow> (\<exists>x. d = aw_delta x \<and> aw_sent (fst g) x)"

lemma aw_sent_fits:
  assumes "hist_ok R h" "aw_sent h x"
  shows "aw_fits x"
proof (cases x)
  case (AwPut k d v)
  then have "length k + length v < 2 ^ 62" using assms hist_okD(4) [OF assms(1)] by simp
  with AwPut length_PutUvarint [of "of_nat (length k)"] length_PutUvarint [of "of_nat (length v)"] show ?thesis
    by (simp add: aw_fits_def)
next
  case (AwRem k d c)
  then have "length k < 2 ^ 62" using assms hist_okD(5) [OF assms(1)] by (auto simp: removed_def)
  with AwRem assms(2) length_PutUvarint [of "of_nat (length k)"] show ?thesis
    by (simp add: aw_fits_def rm_delta_def encodeVClock_def length_encodeDotMap)
qed

text \<open>A delivered delta.\<close>

lemma aw_deliver_promise:
  assumes p: "aw_promise R c g i (rLocal r) (rReceived r) (rData r)" and r: "awr_inv m r" and x: "aw_sent (fst g) x"
  shows "aw_promise R c g i (rLocal r) (rReceived (aw_deliver m x r)) (rData (aw_deliver m x r))"
    and "seen (rReceived (aw_deliver m x r)) j = seen (rReceived r) j \<union> {n. n \<noteq> 0 \<and> mkDot j n = aw_dot x}"
    and "awr_inv m (aw_deliver m x r)" "rLocal (aw_deliver m x r) = rLocal r"
proof -
  note p' = aw_promiseD [OF p]
  have fits: "aw_fits x" by (rule aw_sent_fits [OF p'(6) x])
  show inv: "awr_inv m (aw_deliver m x r)" by (rule aw_deliver_inv [OF r])
  show "rLocal (aw_deliver m x r) = rLocal r" by (simp add: aw_deliver_def)
  have "diDots (aw_info x) = [aw_dot x]" by (cases x) simp_all
  then have rec: "rReceived (aw_deliver m x r) = record_loop [aw_dot x] (rReceived r)"
    using applyDelta_received [of awLWWMapM r "aw_delta x" "aw_info x" m 0 "mkDot 0 0"] aw_delta_ok [OF fits, of "rData r"]
    by (simp add: aw_deliver_def)
  show sn: "seen (rReceived (aw_deliver m x r)) j = seen (rReceived r) j \<union> {n. n \<noteq> 0 \<and> mkDot j n = aw_dot x}" for j
    using received.record_all [OF p'(4), of "[aw_dot x]" j] by (auto simp: rec)
  have "aw_holds g (rReceived (aw_deliver m x r)) (aw_view (rData (aw_deliver m x r)))"
    unfolding aw_deliver_view(1) [OF r fits] by (rule aw_holds_step [OF p'(6,8) x]) (use sn in blast)
  with p' inv aw_deliver_view(2) [OF r fits] show "aw_promise R c g i (rLocal r) (rReceived (aw_deliver m x r)) (rData (aw_deliver m x r))"
    by (simp add: aw_promise_def sn awr_inv_def awlwwmap.replica_inv_def)
qed

text \<open>What every outcome of an operation does around the storage.\<close>

definition aw_stamped :: "maphash \<Rightarrow> 'v AWLWWMap \<Rightarrow> 'v AWLWWMap \<Rightarrow> bool" where
  "aw_stamped mh r r' \<longleftrightarrow> rReceived r' = rReceived (fst (replica_nextDot r)) \<and> rLocal r' = rLocal (fst (replica_nextDot r)) \<and>
     (awr_inv mh r \<and> aw_inv (rData r') \<longrightarrow> awr_inv mh r')"

lemma aw_operation_stamped:
  "aw_stamped mh r (fst (AWLWWMap_Put mh r k v))" "aw_stamped mh r (fst (AWLWWMap_Remove mh r k))"
proof -
  have "aw_stamped mh r (replica_trackKey mh awLWWMapM ((fst (replica_nextDot r))\<lparr>rData := s\<rparr>) k)"
    "aw_stamped mh r ((fst (replica_nextDot r))\<lparr>rData := s\<rparr>)" for s
    using awlwwmap.local_op_inv [of mh r s k] awlwwmap.data_inv [OF awlwwmap.nextDot_inv, of mh r s]
    by (simp_all add: aw_stamped_def awr_inv_def)
  then show "aw_stamped mh r (fst (AWLWWMap_Put mh r k v))" "aw_stamped mh r (fst (AWLWWMap_Remove mh r k))"
    by (auto simp: AWLWWMap_Put_def AWLWWMap_Remove_def Let_def split_beta split: go.splits)
qed

lemma aw_operation_writes:
  assumes "lcReplica (rLocal r) = i" "lcCounter (rLocal r) = hsClock h i"
  shows "Encode (amCodec (rData r)) v = Inr b \<Longrightarrow> rData (fst (AWLWWMap_Put mh r k v)) = aw_write (AwPut k (hs_next h i) b) (rData r)"
    "Encode (amCodec (rData r)) v = Inl e \<Longrightarrow> rData (fst (AWLWWMap_Put mh r k v)) = rData r"
    "rData (fst (AWLWWMap_Remove mh r k)) = aw_write (AwRem k (hs_next h i) (remove_context r)) (rData r)"
    "snd (AWLWWMap_Put mh r k v) = Ok (out, w) \<Longrightarrow> Encode (amCodec (rData r)) v = Inr b \<Longrightarrow> (p, m) \<in> set out \<Longrightarrow>
      tmDelta m = tagDelta (aw_delta (AwPut k (hs_next h i) b))"
    "snd (AWLWWMap_Remove mh r k) = (out, w') \<Longrightarrow> (p, m) \<in> set out \<Longrightarrow>
      tmDelta m = tagDelta (aw_delta (AwRem k (hs_next h i) (remove_context r)))"
proof -
  have sends: "tmDelta m = tagDelta x" if "replica_propagate u d x = (out, w)" "(p, m) \<in> set out" for u :: "'a AWLWWMap" and d x out w
    using propagate_sends [of p m u d x] that by simp
  show "Encode (amCodec (rData r)) v = Inr b \<Longrightarrow> rData (fst (AWLWWMap_Put mh r k v)) = aw_write (AwPut k (hs_next h i) b) (rData r)"
    "rData (fst (AWLWWMap_Remove mh r k)) = aw_write (AwRem k (hs_next h i) (remove_context r)) (rData r)"
    by (simp_all add: AWLWWMap_Put_data AWLWWMap_Remove_data hs_next_def assms)
  show "Encode (amCodec (rData r)) v = Inl e \<Longrightarrow> rData (fst (AWLWWMap_Put mh r k v)) = rData r"
    by (simp add: AWLWWMap_Put_def Let_def split_beta awLWWMapState_Put_def)
  show "tmDelta m = tagDelta (aw_delta (AwPut k (hs_next h i) b))"
    if "snd (AWLWWMap_Put mh r k v) = Ok (out, w)" "Encode (amCodec (rData r)) v = Inr b" "(p, m) \<in> set out"
    using that assms by (auto simp: AWLWWMap_Put_def Let_def split_beta awLWWMapState_Put_def hs_next_def intro: sends)
  show "tmDelta m = tagDelta (aw_delta (AwRem k (hs_next h i) (remove_context r)))"
    if "snd (AWLWWMap_Remove mh r k) = (out, w')" "(p, m) \<in> set out"
    using that assms by (auto simp: AWLWWMap_Remove_def Let_def split_beta awLWWMapState_Remove_def hs_next_def rm_delta_def
        remove_context_def intro: sends)
qed

text \<open>The part of an operation's effect that depends on which it is.\<close>

definition aw_effect_ok :: "ReplicaID set \<Rightarrow> ReplicaID \<Rightarrow> aw_ghost \<Rightarrow> aw_ghost \<Rightarrow> 'v AWLWWMap \<Rightarrow> 'v AWLWWMap \<Rightarrow> sends \<Rightarrow> bool" where
  "aw_effect_ok R i g g' r r' out \<longleftrightarrow> hist_ok R (fst g') \<and> aw_grow g g' \<and>
     hsClock (fst g') = (hsClock (fst g))(i := hsClock (fst g) i + 1) \<and> aw_inv (rData r') \<and> amCodec (rData r') = amCodec (rData r) \<and>
     aw_holds g' (rReceived r') (aw_view (rData r')) \<and> (\<forall>(p, m) \<in> set out. \<exists>d. tmDelta m = tagDelta d \<and> aw_payload g' d)"

lemma aw_local_effect:
  assumes l: "aw_local R mh c i g r g' r' out" and p: "aw_promise R c g i (rLocal r) (rReceived r) (rData r)"
    and sn: "\<forall>j n. n \<in> seen (rReceived r') j \<longrightarrow> n \<in> seen (rReceived r) j \<or> mkDot j n = hs_next (fst g) i"
  shows "aw_effect_ok R i g g' r r' out"
  using l
proof cases
  case (aw_put k v w h b L)
  note p' = aw_promiseD [OF p, unfolded aw_put(1) fst_conv]
  have enc: "Encode (amCodec (rData r)) v = Inr b" using aw_put p'(3) by simp
  note st = aw_operation_writes [OF p'(1,2)]
  have data: "rData r' = aw_write (AwPut k (hs_next h i) b) (rData r)" using st(1) [OF enc, of "mh i" k] aw_put by simp
  have view: "aw_view (rData r') = (aw_view (rData r))(k \<mapsto> Live (hs_next h i) b)" "aw_inv (rData r')"
    using aw_view_write [OF p'(7), of "AwPut k (hs_next h i) b"] aw_inv_write [OF p'(7), of "AwPut k (hs_next h i) b"] by (simp_all add: data del: aw_write.simps)
  have h: "hist_ok R (fst g')" unfolding aw_put(2) fst_conv by (rule hs_log_ok [OF p'(6) aw_put(5,4)]) (use aw_put in simp_all)
  note a = aw_holds_put [OF p'(6,8) aw_put(5) sn [unfolded aw_put(1) fst_conv], where k = k and v = b, folded aw_put(2) view(1)]
  have "aw_payload g' (aw_delta (AwPut k (hs_next h i) b))"
    unfolding aw_payload_def by (rule exI [of _ "AwPut k (hs_next h i) b"]) (simp add: aw_put(2))
  with st(4) [OF _ enc, of "mh i" k out w] aw_put(3) have "\<forall>(p, m) \<in> set out. \<exists>d. tmDelta m = tagDelta d \<and> aw_payload g' d" by fastforce
  with h a view(2) show ?thesis
    unfolding aw_effect_ok_def by (simp add: aw_put(1,2) data hs_log_def del: aw_write.simps)
next
  case (aw_remove k w h L)
  note p' = aw_promiseD [OF p, unfolded aw_remove(1) fst_conv]
  let ?ctx = "remove_context r"
  note st = aw_operation_writes [OF p'(1,2)]
  note ctx = remove_context_ok [OF p'(6) aw_holdsD(1) [OF p'(8), unfolded fst_conv] p'(4,1,2) aw_remove(4,5)]
  have wf: "wf_map ?ctx" "length ?ctx < 2 ^ 32"
    using ctx(1) in_cluster_length [OF ctx(1) hist_okD(1) [OF p'(6)]] by (simp_all add: in_cluster_def)
  then have ok: "aw_ctx_ok (AwRem k (hs_next h i) ?ctx)" by simp
  have data: "rData r' = aw_write (AwRem k (hs_next h i) ?ctx) (rData r)" using st(3) [of "mh i" k] aw_remove by simp
  have view: "aw_view (rData r') = (aw_view (rData r))(k \<mapsto> Dead (hs_next h i) (VClock_Get ?ctx))" "aw_inv (rData r')"
    using aw_view_write [OF p'(7) ok] aw_inv_write [OF p'(7) ok] by (simp_all add: data del: aw_write.simps)
  note a = aw_holds_remove [OF p'(6,8) aw_remove(4,5,6) ctx(2) sn [unfolded aw_remove(1) fst_conv], folded aw_remove(2) view(1)]
  have "aw_payload g' (aw_delta (AwRem k (hs_next h i) ?ctx))"
    unfolding aw_payload_def by (rule exI [of _ "AwRem k (hs_next h i) ?ctx"]) (use a(4,5) wf in \<open>simp add: aw_remove(2)\<close>)
  with st(5) [of "mh i" k out w] aw_remove(3) have "\<forall>(p, m) \<in> set out. \<exists>d. tmDelta m = tagDelta d \<and> aw_payload g' d" by fastforce
  with a view(2) show ?thesis
    unfolding aw_effect_ok_def by (simp add: aw_remove(1,2) data hs_log_def del: aw_write.simps)
next
  case (aw_refused k v x h L)
  note p' = aw_promiseD [OF p, unfolded aw_refused(1) fst_conv]
  have "Encode (amCodec (rData r)) v = Inl x" using aw_refused p'(3) by simp
  from aw_operation_writes(2) [OF p'(1,2) this, of "mh i" k] aw_refused(4) have data: "rData r' = rData r" by simp
  have h: "hist_ok R (fst g')" unfolding aw_refused(2) fst_conv by (rule hs_log_ok [OF p'(6) aw_refused(6,5)]) simp_all
  note a = aw_holds_none [OF p'(6,8) aw_refused(6) sn [unfolded aw_refused(1) fst_conv], folded aw_refused(2) data]
  with h p'(7) show ?thesis unfolding aw_effect_ok_def by (simp add: aw_refused(1,2,3) data hs_log_def)
qed

lemma aw_local_promise:
  assumes l: "aw_local R mh c i g r g' r' out" and p: "aw_promise R c g i (rLocal r) (rReceived r) (rData r)"
  shows "aw_effect_ok R i g g' r r' out" "awr_inv (mh i) r \<Longrightarrow> awr_inv (mh i) r'" "aw_promise R c g' i (rLocal r') (rReceived r') (rData r')"
proof -
  note p' = aw_promiseD [OF p]
  have st: "aw_stamped (mh i) r r'" "i \<in> R" "hsClock (fst g) i + 1 \<noteq> 0"
    using l aw_operation_stamped [of "mh i" r] by (cases; (metis fst_conv)+)+
  have lc: "rLocal r' = rLocal (fst (replica_nextDot r))" and rc: "rReceived r' = receivedClock_Record (rReceived r) i (hsClock (fst g) i + 1)"
    using st(1) p'(1,2) by (simp_all add: aw_stamped_def)
  have sn: "seen (rReceived r') j = (if j = i then insert (hsClock (fst g) i + 1) (seen (rReceived r) i) else seen (rReceived r) j)" for j
    using Record_spec [OF p'(4), of i "hsClock (fst g) i + 1"] st(3) by (simp add: rc)
  have "\<forall>j n. n \<in> seen (rReceived r') j \<longrightarrow> n \<in> seen (rReceived r) j \<or> mkDot j n = hs_next (fst g) i"
    by (auto simp: sn hs_next_def split: if_splits)
  then show e: "aw_effect_ok R i g g' r r' out" by (rule aw_local_effect [OF l p])
  then have clock: "hsClock (fst g') i = hsClock (fst g) i + 1" by (simp add: aw_effect_ok_def)
  have own: "n \<in> seen (rReceived r') i" if "n \<noteq> 0" "n \<le> hsClock (fst g') i" for n
    using p'(5) [OF that(1)] next_counter(3) [OF st(3), of n] that(2) clock by (auto simp: sn)
  show "awr_inv (mh i) r \<Longrightarrow> awr_inv (mh i) r'" using st(1) e by (simp add: aw_stamped_def aw_effect_ok_def)
  have "rc_inv (rReceived r')" using Record_spec [OF p'(4)] by (simp add: rc)
  moreover have "lcReplica (rLocal r') = i" "lcCounter (rLocal r') = hsClock (fst g') i"
    using p'(1,2) clock by (simp_all add: lc replica_nextDot_def localClock_Next_def Let_def)
  ultimately show "aw_promise R c g' i (rLocal r') (rReceived r') (rData r')"
    using e own p'(3) by (simp add: aw_promise_def aw_effect_ok_def)
qed

text \<open>The answers: an entry or a tombstone for every dot the clock does not cover.\<close>

definition aw_since :: "'v awLWWMapState \<Rightarrow> VClock \<Rightarrow> aw_op list" where
  "aw_since m hwm =
     concat (map (\<lambda>(k, e). case decodeDot (meMeta e) of
         Ok d \<Rightarrow> if Counter d > VClock_Get hwm (Replica d) then [AwPut k d (meValue e)] else [] | _ \<Rightarrow> []) (mbEntries (amBackend m))) @
     concat (map (\<lambda>(k, t). case decodeRemoveTombstone t of
         Ok (d, c) \<Rightarrow> if Counter d > VClock_Get hwm (Replica d) then [AwRem k d c] else [] | _ \<Rightarrow> []) (mbTombstones (amBackend m)))"

lemma DeltasSince_aw: "awLWWMapState_DeltasSince m hwm = map aw_delta (aw_since m hwm)"
proof -
  let ?e = "\<lambda>(k, e). map aw_delta (case decodeDot (meMeta e) of
         Ok d \<Rightarrow> if Counter d > VClock_Get hwm (Replica d) then [AwPut k d (meValue e)] else [] | _ \<Rightarrow> [])"
  let ?t = "\<lambda>(k, t). map aw_delta (case decodeRemoveTombstone t of
         Ok (d, c) \<Rightarrow> if Counter d > VClock_Get hwm (Replica d) then [AwRem k d c] else [] | _ \<Rightarrow> [])"
  have e: "rangeLoop (\<lambda>(k, e). (\<lambda>key valBytes metaBytes x. case decodeDot metaBytes of
        Ok dot \<Rightarrow> (if Counter dot > VClock_Get hwm (Replica dot)
          then (x @ [appendVarintBytes (appendVarintBytes [opPut] key) valBytes @ encodeDot dot], True) else (x, True))
      | _ \<Rightarrow> (x, True)) k (meValue e) (meMeta e)) xs ys = ys @ concat (map ?e xs)" for xs ys
    by (rule rangeLoop_collect) (auto split: go.splits)
  have t: "rangeLoop (\<lambda>(k, m). (\<lambda>key metaBytes x. case decodeRemoveTombstone metaBytes of
        Ok (dot, ctx) \<Rightarrow> (if Counter dot > VClock_Get hwm (Replica dot)
          then (x @ [appendVarintBytes [opRemove] key @ encodeDot dot @ encodeVClock ctx], True) else (x, True))
      | _ \<Rightarrow> (x, True)) k m) xs ys = ys @ concat (map ?t xs)" for xs ys
    by (rule rangeLoop_collect) (auto simp: rm_delta_def split: go.splits)
  show ?thesis
    unfolding awLWWMapState_DeltasSince_def awLWWMapState_RangeTombstones_def memoryBackend_RangeEntries_def
      memoryBackend_RangeTombstones_def Let_def e t
    by (simp add: aw_since_def map_concat comp_def case_prod_unfold)
qed

lemma aw_since_mem:
  assumes "aw_inv m"
  shows "x \<in> set (aw_since m hwm) \<Longrightarrow> aw_view m (aw_key x) = Some (aw_cell_of x) \<and> aw_ctx_ok x"
    and "aw_view m k = Some (Live d v) \<Longrightarrow> VClock_Get hwm (Replica d) < Counter d \<Longrightarrow> AwPut k d v \<in> set (aw_since m hwm)"
proof -
  have mb: "mb_inv (amBackend m)" using assms by (simp add: aw_inv_def)
  have ent: "(k, e) \<in> set (mbEntries (amBackend m)) \<longleftrightarrow> mget (mbEntries (amBackend m)) k = Some e" for k e
    using mb by (simp add: mb_inv_def wf_map_mem)
  have tom: "(k, t) \<in> set (mbTombstones (amBackend m)) \<longleftrightarrow> mget (mbTombstones (amBackend m)) k = Some t" for k t
    using mb by (simp add: mb_inv_def wf_map_mem)
  show "aw_view m (aw_key x) = Some (aw_cell_of x) \<and> aw_ctx_ok x" if x: "x \<in> set (aw_since m hwm)"
  proof -
    consider k e d where "x = AwPut k d (meValue e)" "(k, e) \<in> set (mbEntries (amBackend m))" "decodeDot (meMeta e) = Ok d"
      | k t d c where "x = AwRem k d c" "(k, t) \<in> set (mbTombstones (amBackend m))" "decodeRemoveTombstone t = Ok (d, c)"
      using x by (auto simp: aw_since_def split: go.splits if_splits)
    then show ?thesis
    proof cases
      case 1
      then show ?thesis by (simp add: ent aw_view_def awLWWMapState_GetBytes_def memoryBackend_GetEntry_def)
    next
      case 2
      then have t: "memoryBackend_GetTombstone (amBackend m) k = Some t" by (simp add: tom memoryBackend_GetTombstone_def)
      then have "memoryBackend_GetEntry (amBackend m) k = None" using assms by (auto simp: aw_inv_def memory.exclusive_def)
      moreover obtain d' c' where "t = encodeRemoveTombstone d' c'" "wf_map c'" "length c' < 2 ^ 32"
        using assms t unfolding aw_inv_def by blast
      ultimately show ?thesis using 2 t
        by (auto simp: aw_view_def awLWWMapState_GetBytes_def awLWWMapState_GetTombstone_def)
    qed
  qed
  show "AwPut k d v \<in> set (aw_since m hwm)" if "aw_view m k = Some (Live d v)" "VClock_Get hwm (Replica d) < Counter d"
  proof -
    have "memoryBackend_GetEntry (amBackend m) k = Some (v, encodeDot d)"
      using that(1) by (cases rule: aw_view_meta [OF assms, of k]) auto
    then obtain e where e: "(k, e) \<in> set (mbEntries (amBackend m))" "meMeta e = encodeDot d" "meValue e = v"
      by (auto simp: memoryBackend_GetEntry_def ent split: option.splits)
    with that(2) show ?thesis by (force simp: aw_since_def)
  qed
qed

lemma aw_since_sorted: "aw_since m (sorted_map hwm) = aw_since m hwm"
  by (simp add: aw_since_def cong: go.case_cong)

lemma aw_since_sent:
  assumes "aw_inv m" "aw_holds g rc (aw_view m)" "x \<in> set (aw_since m hwm)"
  shows "aw_sent (fst g) x"
proof -
  note m = aw_since_mem(1) [OF assms(1,3)]
  from aw_holdsD(2) [OF assms(2) m [THEN conjunct1]] m show ?thesis by (cases x) auto
qed

interpretation aw_net: cluster_protocol awLWWMapM aw_inv mh addWinsClock "aw_fresh R mh c" "(hs_empty, {})" "aw_local R mh c"
  "aw_promise R c" aw_payload for mh R and c :: "'v Codec"
proof
  fix i and r :: "'v AWLWWMap"
  assume "aw_fresh R mh c i r"
  then obtain opts where f: "card R < 2 ^ 32" "MakeSeed (mh i) \<noteq> 0" "oBackend (applyOptions opts) = None" "NewAWLWWMap (mh i) i (Some c) opts = Ok r"
    by (auto simp: aw_fresh_def)
  obtain "awr_inv (mh i) r" "aw_view (rData r) = (\<lambda>_. None)" "amCodec (rData r) = c" "rLocal r = newLocalClock i"
    using NewAWLWWMap_Ok [OF f(2,3), of i c] f(4) by auto
  moreover have "rReceived r = newReceivedClock"
    using f(4) by (auto simp: NewAWLWWMap_def newAWLWWMapState_def requireCodec_def newReplica_def Let_def)
  ultimately show "awlwwmap.replica_inv (mh i) r \<and> rStrategy r = addWinsClock \<and> aw_promise R c (hs_empty, {}) i (rLocal r) (rReceived r) (rData r)"
    using f(1) received.inv_empty received.arrived_empty
    by (auto simp: awr_inv_def aw_promise_def aw_holds_def newLocalClock_def hs_empty_def hist_ok_def awlwwmap.replica_inv_def)
next
  fix i and r r' :: "'v AWLWWMap" and g g' out
  assume a: "awlwwmap.replica_inv (mh i) r" "rStrategy r = addWinsClock" "aw_promise R c g i (rLocal r) (rReceived r) (rData r)"
    and l: "aw_local R mh c i g r g' r' out"
  have "awr_inv (mh i) r" using a by (simp add: awr_inv_def)
  with aw_local_promise [OF l a(3)]
  show "awlwwmap.replica_inv (mh i) r' \<and> rStrategy r' = addWinsClock \<and> aw_promise R c g' i (rLocal r') (rReceived r') (rData r') \<and>
      (\<forall>(p, m) \<in> set out. \<exists>d. tmDelta m = tagDelta d \<and> aw_payload g' d)" by (simp add: awr_inv_def aw_effect_ok_def)
next
  fix i and r r' :: "'v AWLWWMap" and g g' out
  assume a: "aw_promise R c g i (rLocal r) (rReceived r) (rData r)" and l: "aw_local R mh c i g r g' r' out"
  have e: "aw_grow g g' \<and> hist_ok R (fst g') \<and> hsClock (fst g') = (hsClock (fst g))(i := hsClock (fst g) i + 1)"
    using aw_local_promise(1) [OF l a] by (simp add: aw_effect_ok_def)
  show "j \<noteq> i \<Longrightarrow> aw_promise R c g j lc rc s \<Longrightarrow> aw_promise R c g' j lc rc s" for j lc rc s
    using e aw_holds_grow [of g rc "aw_view s" g'] by (auto simp: aw_promise_def)
  show "aw_payload g d \<Longrightarrow> aw_payload g' d" for d using e aw_grow_facts(3) unfolding aw_payload_def by blast
next
  fix i and r r' :: "'v AWLWWMap" and g d
  assume a: "awlwwmap.replica_inv (mh i) r" "rStrategy r = addWinsClock" "aw_promise R c g i (rLocal r) (rReceived r) (rData r)"
    and "aw_payload g d" and r': "r' = fst (replica_applyDelta (mh i) awLWWMapM r 0 (mkDot 0 0) d)"
  then obtain x where x: "d = aw_delta x" "aw_sent (fst g) x" by (auto simp: aw_payload_def)
  have "awr_inv (mh i) r" using a by (simp add: awr_inv_def)
  from aw_deliver_promise(1) [OF a(3) this x(2)] show "aw_promise R c g i (rLocal r) (rReceived r') (rData r')"
    by (simp add: r' x(1) aw_deliver_def)
next
  fix g i lc rc and s :: "'v awLWWMapState" and d hwm
  assume p: "aw_promise R c g i lc rc s" and "d \<in> set (mDeltasSince awLWWMapM s hwm)"
  then obtain x where "d = aw_delta x" "x \<in> set (aw_since s hwm)" by (auto simp: DeltasSince_aw)
  with aw_since_sent [OF aw_promiseD(7,8) [OF p]] show "aw_payload g d" unfolding aw_payload_def by blast
qed simp_all

section \<open>What a replica reads, before and after an exchange\<close>

lemma aw_cluster_facts:
  assumes "aw_cluster R mh c s"
  shows "awr_inv (mh i) (netNodes s i)"
    "aw_promise R c (netGhost s) i (rLocal (netNodes s i)) (rReceived (netNodes s i)) (rData (netNodes s i))"
  using aw_net.reachable [OF assms [unfolded aw_cluster_def], of i] by (simp_all add: awr_inv_def)

text \<open>A put that is known and not gone is held.\<close>

definition aw_lasting :: "aw_ghost \<Rightarrow> bytes \<Rightarrow> Dot \<Rightarrow> bytes \<Rightarrow> bool" where
  "aw_lasting g k d b \<longleftrightarrow> hsEvent (fst g) d = Some (EvAdd k b) \<and> \<not> aw_gone g k d"

lemma aw_known_held:
  assumes p: "aw_promise R c g i (rLocal r) (rReceived r) (rData r)" and d: "aw_lasting g k d b"
    and "Replica d = i \<or> receivedClock_Covers (rReceived r) (Replica d) (Counter d)"
  shows "Counter d \<in> seen (rReceived r) (Replica d)" "aw_view (rData r) k = Some (Live d b)"
proof -
  note p' = aw_promiseD [OF p]
  have e: "hsEvent (fst g) d = Some (EvAdd k b)" "\<not> aw_gone g k d" using d by (simp_all add: aw_lasting_def)
  have "Counter d \<noteq> 0" "Counter d \<le> hsClock (fst g) (Replica d)" using hist_okD(3) [OF p'(6) e(1)] by simp_all
  with assms(3) p'(5) show s: "Counter d \<in> seen (rReceived r) (Replica d)" by (auto simp: Covers_seen)
  from aw_holdsD(3) [OF p'(8) e(1) s] e(2) show "aw_view (rData r) k = Some (Live d b)" by blast
qed

lemma aw_deliver_run:
  assumes "aw_promise R c g i (rLocal r) (rReceived r) (rData r)" "awr_inv m r" "\<forall>x \<in> set xs. aw_sent (fst g) x"
  shows "aw_promise R c g i (rLocal (fold (aw_deliver m) xs r)) (rReceived (fold (aw_deliver m) xs r)) (rData (fold (aw_deliver m) xs r)) \<and>
    seen (rReceived (fold (aw_deliver m) xs r)) j = seen (rReceived r) j \<union> {n. n \<noteq> 0 \<and> mkDot j n \<in> aw_dot ` set xs}"
  using assms
proof (induction xs arbitrary: r)
  case (Cons x xs)
  have x: "aw_sent (fst g) x" using Cons.prems by simp
  note d = aw_deliver_promise [OF Cons.prems(1,2) x]
  have "aw_promise R c g i (rLocal (aw_deliver m x r)) (rReceived (aw_deliver m x r)) (rData (aw_deliver m x r))" using d(1,4) by simp
  from Cons.IH [OF this d(3)] Cons.prems d(2) show ?case by auto
qed simp

lemma aw_sync:
  fixes i j x :: ReplicaID
  assumes s: "aw_cluster R mh c s" and d: "aw_lasting (netGhost s) k d b"
    and x: "Replica d = x \<or> receivedClock_Covers (rReceived (netNodes s x)) (Replica d) (Counter d)" "x \<in> {i, j}"
  shows "aw_view (rData (apply_all (mh i) awLWWMapM
    (awLWWMapState_DeltasSince (rData (netNodes s j)) (receivedClock_HWM (rReceived (netNodes s i)))) (netNodes s i))) k = Some (Live d b)"
proof -
  let ?hwm = "receivedClock_HWM (rReceived (netNodes s i))" and ?g = "netGhost s"
  let ?xs = "aw_since (rData (netNodes s j)) ?hwm"
  let ?r = "fold (aw_deliver (mh i)) ?xs (netNodes s i)"
  note f = aw_cluster_facts [OF s]
  have eq: "apply_all (mh i) awLWWMapM (awLWWMapState_DeltasSince (rData (netNodes s j)) ?hwm) (netNodes s i) = ?r"
    by (simp add: DeltasSince_aw fold_map comp_def aw_deliver_def [abs_def])
  have sent: "\<forall>x \<in> set ?xs. aw_sent (fst ?g) x" using aw_since_sent [OF aw_promiseD(7,8) [OF f(2)]] by blast
  note all = aw_deliver_run [OF f(2) [of i] f(1) sent]
  have known: "Counter d \<in> seen (rReceived (netNodes s x)) (Replica d)" "aw_view (rData (netNodes s x)) k = Some (Live d b)"
    using aw_known_held [OF f(2) d x(1)] by blast+
  have nz: "Counter d \<noteq> 0" using hist_okD(3) [OF aw_promiseD(6) [OF f(2) [of i]]] d by (auto simp: aw_lasting_def)
  have "Counter d \<in> seen (rReceived ?r) (Replica d)"
  proof (cases "x = i")
    case True
    with known(1) all show ?thesis by blast
  next
    case False
    with x(2) have xj: "x = j" by simp
    show ?thesis
    proof (cases "Counter d \<le> VClock_Get ?hwm (Replica d)")
      case True
      then have "Counter d \<in> seen (rReceived (netNodes s i)) (Replica d)"
        using nz by (simp add: HWM_Get [OF aw_promiseD(4) [OF f(2)]] seen_def word_gt_0)
      with all show ?thesis by blast
    next
      case False
      then have "AwPut k d b \<in> set ?xs" using aw_since_mem(2) [OF aw_promiseD(7) [OF f(2)]] known(2) xj by simp
      then have "mkDot (Replica d) (Counter d) \<in> aw_dot ` set ?xs" by (force simp: image_iff)
      with all nz show ?thesis by blast
    qed
  qed
  then show ?thesis
    using aw_holdsD(3) [OF aw_promiseD(8) [OF all [THEN conjunct1]]] d unfolding eq aw_lasting_def by blast
qed

lemma aw_exchange:
  fixes i j :: ReplicaID
  assumes s: "aw_cluster R mh c s" and ij: "i \<noteq> j" "rTopology (netNodes s i) = Some ps" "j \<in> set ps"
      "ticking (netNodes s i)" "rTransport (netNodes s j)"
    and hash: "replica_hash (mh j) (netNodes s j) \<noteq> replica_hash (mh i) (netNodes s i)"
  shows "\<exists>t. gossip mh awLWWMapM s t \<and> aw_cluster R mh c t \<and> netGhost t = netGhost s \<and>
    (\<forall>k d b x. aw_lasting (netGhost s) k d b \<and> (Replica d = x \<or> receivedClock_Covers (rReceived (netNodes s x)) (Replica d) (Counter d)) \<and>
      x \<in> {i, j} \<longrightarrow> aw_view (rData (netNodes t i)) k = Some (Live d b))"
proof -
  let ?hwm = "receivedClock_HWM (rReceived (netNodes s i))" and ?g = "netGhost s"
  let ?Q = "\<lambda>r. aw_promise R c ?g i (rLocal r) (rReceived r) (rData r) \<and> awr_inv (mh i) r"
  note f = aw_cluster_facts [OF s]
  have since: "mDeltasSince awLWWMapM a (sorted_map ?hwm) = map aw_delta (aw_since a ?hwm)" for a :: "'a awLWWMapState"
    by (simp add: DeltasSince_aw aw_since_sorted)
  have ok: "mm_inv (mh l) (rMerkle (netNodes s l))" for l using f(1) [of l] by (simp add: awr_inv_def awlwwmap.replica_inv_def)
  have cl: "in_cluster R ?hwm"
    by (rule HWM_in_cluster [OF aw_promiseD(6) [OF f(2)] aw_holdsD(1) [OF aw_promiseD(8) [OF f(2)]] aw_promiseD(4) [OF f(2)]])
  then have hwm: "wf_map ?hwm" "length ?hwm < 2 ^ 32"
    using in_cluster_length [OF cl hist_okD(1) [OF aw_promiseD(6) [OF f(2)]]] by (simp_all add: in_cluster_def)
  have tick: "?Q r" if "replica_sendDigests (mh i) awLWWMapM (netNodes s i) = Ok (r, out)" for r out
    using aw_cluster_facts [OF cluster_tick [OF s [unfolded aw_cluster_def] that ij(4), folded aw_cluster_def], of i] by simp
  have step: "?Q (fst (replica_applyDelta (mh i) awLWWMapM r 0 (mkDot 0 0) d)) \<and> snd (replica_applyDelta (mh i) awLWWMapM r 0 (mkDot 0 0) d) \<noteq> Panic"
    if d: "d \<in> set (mDeltasSince awLWWMapM (rData (netNodes s j)) (sorted_map ?hwm))" and r: "?Q r" for r d
  proof -
    obtain x where x: "d = aw_delta x" "x \<in> set (aw_since (rData (netNodes s j)) ?hwm)" using d unfolding since by auto
    have sent: "aw_sent (fst ?g) x" by (rule aw_since_sent [OF aw_promiseD(7,8) [OF f(2)] x(2)])
    have "aw_promise R c ?g i (rLocal r) (rReceived r) (rData r)" "awr_inv (mh i) r" using r by blast+
    note d = aw_deliver_promise [OF this sent]
    have "snd (replica_applyDelta (mh i) awLWWMapM r 0 (mkDot 0 0) (aw_delta x)) \<noteq> Panic"
      using aw_delta_ok [OF aw_sent_fits [OF aw_promiseD(6) [OF f(2)] sent], of "rData r"]
      by (auto simp: replica_applyDelta_def Let_def split_beta split: go.splits)
    with d(1,3,4) show ?thesis by (simp add: aw_deliver_def x(1))
  qed
  obtain s1 t where t: "gossip mh awLWWMapM s s1" "gossip mh awLWWMapM s t" "netNodes s1 j = netNodes s j"
      "rReceived (netNodes s1 i) = rReceived (netNodes s i)"
      "netNodes t i = apply_all (mh i) awLWWMapM (mDeltasSince awLWWMapM (rData (netNodes s1 j)) (sorted_map ?hwm)) (netNodes s1 i)"
    by (rule exchange_run [where Q = ?Q and M = awLWWMapM, OF ij(1) ok ok ij(2-5) hash hwm refl tick step])
  have s1: "aw_cluster R mh c s1" unfolding aw_cluster_def by (rule gossip_cluster [OF t(1) s [unfolded aw_cluster_def]])
  have g: "netGhost s1 = ?g" by (rule gossip_ghost [OF t(1)])
  have sync: "netNodes t i = apply_all (mh i) awLWWMapM
      (awLWWMapState_DeltasSince (rData (netNodes s1 j)) (receivedClock_HWM (rReceived (netNodes s1 i)))) (netNodes s1 i)"
    using t(4,5) since by (simp add: DeltasSince_aw)
  have "aw_view (rData (netNodes t i)) k = Some (Live d b)"
    if "aw_lasting ?g k d b" "Replica d = x \<or> receivedClock_Covers (rReceived (netNodes s x)) (Replica d) (Counter d)" "x \<in> {i, j}" for k d b x
    using aw_sync [OF s1, of k d b x i j] that t(3,4) unfolding g sync by auto
  moreover have "aw_cluster R mh c t" unfolding aw_cluster_def by (rule gossip_cluster [OF t(2) s [unfolded aw_cluster_def]])
  ultimately show ?thesis using t(2) gossip_ghost [OF t(2)] by blast
qed

section \<open>Properties\<close>

text \<open>The values of the history are encodings.\<close>

lemma aw_history_encoded:
  assumes "aw_cluster R mh c s"
  shows "hsEvent (fst (netGhost s)) d = Some (EvAdd k b) \<Longrightarrow> \<exists>v. Encode c v = Inr b"
  using assms unfolding aw_cluster_def
proof (induction arbitrary: d k b rule: cluster.induct)
  case (cluster_local s i h r out)
  have h: "hsEvent (fst h) d = Some (EvAdd k b)" using cluster_local.prems by simp
  from cluster_local.hyps(2) h have "hsEvent (fst (netGhost s)) d = Some (EvAdd k b) \<or> (\<exists>v. Encode c v = Inr b)"
    by cases (auto simp: hs_log_def split: if_splits)
  with cluster_local.IH [of d k b] show ?case by blast
qed (simp_all add: hs_empty_def)

text \<open>A cluster of three in which replica 1 has put a value; every replica sends its digests to replica 1.\<close>

lemma aw_net_demo:
  obtains s where "aw_cluster demo_cluster (\<lambda>_. demo_hash) StringCodec s" "aw_lasting (netGhost s) [7] (mkDot 1 1) [5]"
    "rTopology (netNodes s 2) = Some [1]" "ticking (netNodes s 2)" "rTransport (netNodes s 1)" "replica_hash demo_hash (netNodes s 1) = 1" "replica_hash demo_hash (netNodes s 2) = 0"
proof -
  let ?os = "[WithTransport True, WithTopology (Some [1])]"
  have seed: "MakeSeed demo_hash \<noteq> 0" and opts: "oBackend (applyOptions ?os) = None"
    by (simp_all add: applyOptions_def WithTransport_def WithTopology_def)
  have "\<exists>r. NewAWLWWMap demo_hash i (Some StringCodec) ?os = Ok r \<and> rTopology r = Some [1] \<and> rMerkle r = newMerkleMap demo_hash \<and>
      ticking r" for i
    by (auto simp: ticking_def defaultAEInterval_def NewAWLWWMap_def newAWLWWMapState_def requireCodec_def newReplica_def applyOptions_def WithTransport_def WithTopology_def Let_def)
  then obtain nodes where n: "\<And>i. NewAWLWWMap demo_hash i (Some StringCodec) ?os = Ok (nodes i)" "\<And>i. rTopology (nodes i) = Some [1]"
      "\<And>i. rMerkle (nodes i) = newMerkleMap demo_hash" "\<And>i. ticking (nodes i)" by metis
  have s0: "aw_cluster demo_cluster (\<lambda>_. demo_hash) StringCodec \<lparr>netNodes = nodes, netSent = {}, netGhost = (hs_empty, {})\<rparr>"
      (is "aw_cluster _ _ _ ?s0")
    unfolding aw_cluster_def
  proof (rule cluster_new)
    show "aw_fresh demo_cluster (\<lambda>_. demo_hash) StringCodec i (nodes i)" for i
      unfolding aw_fresh_def using n(1) opts seed demo_cluster_card by blast
  qed
  note p = aw_promiseD [OF aw_cluster_facts(2) [OF s0, of 1]]
  have v: "aw_view (rData (nodes 1)) = (\<lambda>_. None)"
    using NewAWLWWMap_Ok [OF seed opts, of 1 StringCodec] n(1) [of 1] by auto
  have enc: "Encode (amCodec (rData (nodes 1))) [5] = Inr [5]" using p(3) by (simp add: StringCodec_def)
  note put = awLWWMapState_Put_def enc
  have "\<exists>out w. snd (AWLWWMap_Put demo_hash (nodes 1) [7] [5]) = Ok (out, w)"
    by (simp add: AWLWWMap_Put_def Let_def split_beta put)
  then obtain r' out w where a: "AWLWWMap_Put demo_hash (nodes 1) [7] [5] = (r', Ok (out, w))" by (metis prod.collapse)
  have tr: "rTransport r'"
    using arg_cong [OF a, of "\<lambda>x. rTransport (fst x)"] n(4) by (simp add: ticking_def AWLWWMap_Put_def Let_def split_beta put)
  have mb: "mb_inv (amBackend (rData (nodes 1)))" using p(7) by (simp add: aw_inv_def)
  have "rMerkle (fst (replica_nextDot (nodes 1))) = newMerkleMap demo_hash"
    by (simp add: replica_nextDot_def localClock_Next_def Let_def n(3))
  then have "\<exists>m. rMerkle (fst (AWLWWMap_Put demo_hash (nodes 1) [7] [5])) = merkleMap_Put demo_hash (newMerkleMap demo_hash) [7] m"
    by (simp add: AWLWWMap_Put_def Let_def split_beta put replica_trackKey_def awLWWMapState_EntryMeta_def memory.live_write [OF mb]) blast
  then have h: "replica_hash demo_hash r' = 1" using a by (auto simp: replica_hash_def root_hash_def newMerkleMap_def merkleMap_Put_def)
  let ?g = "(hs_log hs_empty 1 (Some (EvAdd [7] [5])), {} \<union> aw_stale (aw_view (rData (nodes 1))) [7] (hs_next hs_empty 1))"
  have "aw_local demo_cluster (\<lambda>_. demo_hash) StringCodec 1 (hs_empty, {}) (nodes 1) ?g r' out"
    by (rule aw_put [where v = "[5]" and w = w]) (use a in \<open>simp_all add: StringCodec_def hs_empty_def\<close>)
  with s0 have s: "aw_cluster demo_cluster (\<lambda>_. demo_hash) StringCodec (net_step 1 r' out (?s0\<lparr>netGhost := ?g\<rparr>))"
    unfolding aw_cluster_def by (intro cluster_local) simp_all
  have "aw_lasting ?g [7] (mkDot 1 1) [5]"
    by (auto simp: aw_lasting_def aw_gone_def aw_stale_def v hs_log_def hs_next_def hs_empty_def added_def observed_def split: if_splits)
  with s show ?thesis by (intro that [OF s]) (use h n tr in \<open>simp_all add: replica_hash_def root_hash_def newMerkleMap_def\<close>)
qed

text \<open>
  C12: a cluster of add-wins maps whose codec decodes what it encodes, in every reachable state: a value that is read was
  put under that key, and a replica that has issued or received a put reads exactly its value, unless a remove has
  observed the put, a newer put of the key exists, or a local put stamped below it has overwritten it.
\<close>

theorem AWLWWMap_network:
  assumes "aw_cluster R mh c s" "\<forall>v b. Encode c v = Inr b \<longrightarrow> Decode c b = Inr v"
  shows "(\<forall>v. AWLWWMap_Get (netNodes s i) k = Some v \<longrightarrow> (\<exists>d b. hsEvent (fst (netGhost s)) d = Some (EvAdd k b) \<and> Encode c v = Inr b)) \<and>
    (\<forall>d v b. Encode c v = Inr b \<and> aw_lasting (netGhost s) k d b \<and>
       (Replica d = i \<or> receivedClock_Covers (rReceived (netNodes s i)) (Replica d) (Counter d)) \<longrightarrow>
       AWLWWMap_Get (netNodes s i) k = Some v)"
proof (intro conjI allI impI)
  note f = aw_cluster_facts(2) [OF assms(1), of i]
  have read: "AWLWWMap_Get (netNodes s i) k = Some v \<longleftrightarrow>
      (\<exists>d b. aw_view (rData (netNodes s i)) k = Some (Live d b) \<and> Decode c b = Inr v)" for v
    using aw_promiseD(3) [OF f] by (auto simp: AWLWWMap_Get_view aw_read_def split: option.splits aw_cell.splits sum.splits)
  show "\<exists>d b. hsEvent (fst (netGhost s)) d = Some (EvAdd k b) \<and> Encode c v = Inr b" if got: "AWLWWMap_Get (netNodes s i) k = Some v" for v
  proof -
    obtain d b where a: "aw_view (rData (netNodes s i)) k = Some (Live d b)" "Decode c b = Inr v"
      using got unfolding read by blast
    have e: "hsEvent (fst (netGhost s)) d = Some (EvAdd k b)" using aw_holdsD(2) [OF aw_promiseD(8) [OF f] a(1)] by simp
    then obtain v' where "Encode c v' = Inr b" using aw_history_encoded [OF assms(1)] by blast
    with assms(2) a(2) e show ?thesis by auto
  qed
  show "AWLWWMap_Get (netNodes s i) k = Some v"
    if "Encode c v = Inr b \<and> aw_lasting (netGhost s) k d b \<and>
      (Replica d = i \<or> receivedClock_Covers (rReceived (netNodes s i)) (Replica d) (Counter d))" for d v b
    using aw_known_held(2) [OF f, of k d b] that assms(2) unfolding read by auto
qed

theorem AWLWWMap_network_witness:
  "\<exists>s. aw_cluster demo_cluster (\<lambda>_. demo_hash) StringCodec s \<and> AWLWWMap_Get (netNodes s 1) [7] = Some [5]"
proof -
  obtain s where s: "aw_cluster demo_cluster (\<lambda>_. demo_hash) StringCodec s" "aw_lasting (netGhost s) [7] (mkDot 1 1) [5]"
    using aw_net_demo by metis
  have "\<forall>v b. Encode StringCodec v = Inr b \<longrightarrow> Decode StringCodec b = Inr v" "Encode StringCodec [5] = Inr [5]"
    by (simp_all add: StringCodec_def)
  with AWLWWMap_network [OF s(1), of 1 "[7]"] s(2) have "AWLWWMap_Get (netNodes s 1) [7] = Some [5]" by force
  with s(1) show ?thesis by blast
qed

text \<open>
  C13: anti-entropy of the add-wins map, message by message: in every reachable state, when the anti-entropy loop of
  replica \<open>i\<close> runs, its topology has \<open>j\<close>, \<open>j\<close> has a transport and the two report different hashes, ticks and deliveries alone lead to a reachable state in which \<open>i\<close> reads the
  value of every put that either of the two had issued or received and that is not gone.
\<close>

theorem AWLWWMap_network_exchange:
  assumes "aw_cluster R mh c s" "\<forall>v b. Encode c v = Inr b \<longrightarrow> Decode c b = Inr v"
    and "i \<noteq> j" "rTopology (netNodes s i) = Some ps" "j \<in> set ps" "ticking (netNodes s i)" "rTransport (netNodes s j)"
    and "replica_hash (mh j) (netNodes s j) \<noteq> replica_hash (mh i) (netNodes s i)"
  shows "\<exists>t. gossip mh awLWWMapM s t \<and> aw_cluster R mh c t \<and> (\<forall>k d b v x. Encode c v = Inr b \<and> aw_lasting (netGhost s) k d b \<and>
    (Replica d = x \<or> receivedClock_Covers (rReceived (netNodes s x)) (Replica d) (Counter d)) \<and> x \<in> {i, j} \<longrightarrow>
      AWLWWMap_Get (netNodes t i) k = Some v)"
proof -
  obtain t where t: "gossip mh awLWWMapM s t" "aw_cluster R mh c t"
    "\<forall>k d b x. aw_lasting (netGhost s) k d b \<and> (Replica d = x \<or> receivedClock_Covers (rReceived (netNodes s x)) (Replica d) (Counter d)) \<and>
      x \<in> {i, j} \<longrightarrow> aw_view (rData (netNodes t i)) k = Some (Live d b)"
    using aw_exchange [OF assms(1,3-8)] by blast
  have "amCodec (rData (netNodes t i)) = c" using aw_promiseD(3) [OF aw_cluster_facts(2) [OF t(2)]] .
  then have "AWLWWMap_Get (netNodes t i) k = Some v" if "Encode c v = Inr b" "aw_view (rData (netNodes t i)) k = Some (Live d b)" for k d b v
    using that assms(2) by (simp add: AWLWWMap_Get_view aw_read_def)
  with t show ?thesis by blast
qed

theorem AWLWWMap_network_exchange_witness:
  "\<exists>s t. aw_cluster demo_cluster (\<lambda>_. demo_hash) StringCodec s \<and> gossip (\<lambda>_. demo_hash) awLWWMapM s t \<and>
     AWLWWMap_Get (netNodes t 2) [7] = Some [5]"
proof -
  obtain s where s: "aw_cluster demo_cluster (\<lambda>_. demo_hash) StringCodec s" "aw_lasting (netGhost s) [7] (mkDot 1 1) [5]"
      "rTopology (netNodes s 2) = Some [1]" "ticking (netNodes s 2)" "rTransport (netNodes s 1)" "replica_hash demo_hash (netNodes s 1) = 1" "replica_hash demo_hash (netNodes s 2) = 0"
    by (rule aw_net_demo)
  have c: "\<forall>v b. Encode StringCodec v = Inr b \<longrightarrow> Decode StringCodec b = Inr v" "Encode StringCodec [5] = Inr [5]"
    by (simp_all add: StringCodec_def)
  from AWLWWMap_network_exchange [OF s(1) c(1), of 2 1 "[1]"] s(3-7) obtain t where t: "gossip (\<lambda>_. demo_hash) awLWWMapM s t"
      "\<forall>k d b v x. Encode StringCodec v = Inr b \<and> aw_lasting (netGhost s) k d b \<and>
        (Replica d = x \<or> receivedClock_Covers (rReceived (netNodes s x)) (Replica d) (Counter d)) \<and> x \<in> {2, 1} \<longrightarrow>
        AWLWWMap_Get (netNodes t 2) k = Some v"
    by auto
  from t(2) [rule_format, of "[5]" "[5]" "[7]" "mkDot 1 1" 1] s(2) c(2) have "AWLWWMap_Get (netNodes t 2) [7] = Some [5]" by simp
  with s(1) t(1) show ?thesis by blast
qed

end
