(* ===== verification/Collection.thy ===== *)
theory Collection
  imports SetNetwork
begin

text \<open>
  The garbage collection of tombstones (\<^verbatim>\<open>sendDigests\<close> in \<^verbatim>\<open>replica.go\<close>) and what it costs an observed-remove set: the
  bound is the least of the clocks that peers have reported so far, not of all peers, and after the collection nothing
  is left that says that the element was removed.
\<close>

section \<open>What a tick collects\<close>

lemma Get_LowerBounds:
  "wf_map a \<Longrightarrow> n \<le> VClock_Get (fold (\<lambda>(_, ph) m. VClock_LowerBound m ph) ws a) j \<longleftrightarrow>
     n \<le> VClock_Get a j \<and> (\<forall>w \<in> snd ` set ws. n \<le> VClock_Get w j)"
  by (induction ws arbitrary: a) (auto simp: wf_LowerBound Get_LowerBound split_beta)

lemma tick_collects:
  assumes "replica_sendDigests mh M r = Ok (r', out)" "rTopology r = Some (p # ps)" "mGCTombstones M = Some gc" "rPeerHWMs r \<noteq> []"
    and "rc_inv (rReceived r)"
  obtains hwm where "rData r' = gc (rData r) hwm"
    "\<And>n j. n \<le> VClock_Get hwm j \<longleftrightarrow> (\<forall>w \<in> insert (receivedClock_HWM (rReceived r)) (snd ` set (rPeerHWMs r)). n \<le> VClock_Get w j)"
proof -
  let ?hwm = "fold (\<lambda>(_, ph) m. VClock_LowerBound m ph) (rPeerHWMs r) (VClock_Clone (receivedClock_HWM (rReceived r)))"
  obtain mm h where "merkleMap_Hash mh (rMerkle r) = Ok (mm, h)"
    using assms(1,2) by (auto simp: replica_sendDigests_def go_simps)
  then have "rData r' = gc (rData r) ?hwm"
    using assms(1-4) by (auto simp: replica_sendDigests_def Let_def split: if_splits)
  moreover have "wf_map (receivedClock_HWM (rReceived r))"
    using assms(5) by (simp add: receivedClock_HWM_def rc_inv_def pos_map_wf)
  ultimately show ?thesis
    by (intro that [of ?hwm]) (simp_all add: Get_LowerBounds VClock_Clone_def del: fold_simps)
qed

lemma peers_kept [simp]:
  "rPeerHWMs (fst (replica_applyDelta mh M r from dot delta)) = rPeerHWMs r"
  "rTopology (fst (replica_applyDelta mh M r from dot delta)) = rTopology r"
  "rPeerHWMs (fst (replica_nextDot r)) = rPeerHWMs r" "rTopology (fst (replica_nextDot r)) = rTopology r"
  by (auto simp: replica_applyDelta_def replica_nextDot_def Let_def split: go.splits prod.splits if_splits)

text \<open>The digest of a peer is entered in the table of peers.\<close>

lemma digest_entered:
  assumes "mm_inv mh (rMerkle r)" "wf_map hwm" "length hwm < 2 ^ 32"
  obtains mm out where "replica_handleMessage mh M r i d (encodeAEDigest h hwm) =
    Ok (r\<lparr>rPeerHWMs := mput i (sorted_map hwm) (rPeerHWMs r), rMerkle := mm\<rparr>, out)"
proof -
  obtain mm l where l: "merkleMap_Hash mh (rMerkle r) = Ok (mm, l)" using Hash_spec [OF assms(1)] by metis
  let ?d = "encodeAEDigest h hwm"
  have e: "?d = msgAEDigest # drop 1 ?d" by (simp add: encodeAEDigest_def)
  have "\<exists>out. replica_handleMessage mh M r i d (msgAEDigest # drop 1 ?d) =
      Ok (r\<lparr>rPeerHWMs := mput i (sorted_map hwm) (rPeerHWMs r), rMerkle := mm\<rparr>, out)"
    using l decodeAEDigest_encode [OF assms(2,3), of h]
    by (cases "l = h") (simp_all add: replica_handleMessage_def replica_handleSyncDigest_def Let_def msgAEDigest_def msgDelta_def)
  with that e show ?thesis by metis
qed

section \<open>The set after a collection\<close>

text \<open>A key without entry and tombstone does not occur in what is selected for a peer.\<close>

lemma os_since_none:
  assumes "or_inv R (osBackend s)" "memoryBackend_GetEntry (osBackend s) k = None" "memoryBackend_GetTombstone (osBackend s) k = None"
    and "x \<in> set (os_since s hwm)"
  shows "os_key x \<noteq> k"
proof -
  have "map_of (pick (seen_dots hwm) (mbEntries (osBackend s))) k = None"
    using pick_dots(1) [OF assms(1), of hwm k] assms(2) by (simp add: or_entry_def)
  moreover have "map_of (pick (seen_tomb hwm) (mbTombstones (osBackend s))) k = None"
    using pick_tombs(1) [OF assms(1), of hwm k] assms(3) by (cases "map_of (pick (seen_tomb hwm) (mbTombstones (osBackend s))) k") auto
  ultimately show ?thesis using assms(4) by (auto simp: os_since_def map_of_eq_None_iff image_iff)
qed

lemma run_other:
  "\<forall>x \<in> set xs. os_key x \<noteq> k \<Longrightarrow> fold code_step (map os_abs xs) v k = v k"
proof (induction xs arbitrary: v)
  case (Cons x xs)
  then show ?case by (cases x) auto
qed simp

text \<open>The key of a collected tombstone is unknown to the replica, and is not mentioned to any peer.\<close>

lemma collected_key:
  assumes "osr_inv R mh r" "memoryBackend_GetEntry (osBackend (rData r)) k = None"
    and "orSetState_TombstoneMeta (rData r) k = Some t" "decodeRemoveTombstone t = Ok (d, ctx)"
    and "rTopology r = Some (p # ps)" "rPeerHWMs r \<noteq> []"
    and "\<forall>w \<in> insert (receivedClock_HWM (rReceived r)) (snd ` set (rPeerHWMs r)). Counter d \<le> VClock_Get w (Replica d)"
    and "replica_sendDigests mh orSetM r = Ok (r', out)"
  shows "osr_inv R mh r'" "osCodec (rData r') = osCodec (rData r)" "os_view r' k = (\<lambda>_. (0, 0))"
    "memoryBackend_GetEntry (osBackend (rData r')) k = None" "memoryBackend_GetTombstone (osBackend (rData r')) k = None"
proof -
  have inv: "or_inv R (osBackend (rData r))" and mb: "mb_inv (osBackend (rData r))" and rc: "rc_inv (rReceived r)"
    and ri: "orset.replica_inv mh r" "rStrategy r = alwaysMergeClock"
    using assms(1) by (auto simp: osr_inv_def or_inv_def orset.replica_inv_def)
  have "mGCTombstones orSetM = Some orSetState_GCTombstones" by simp
  from tick_collects [OF assms(8,5) this assms(6) rc] obtain w where data: "rData r' = orSetState_GCTombstones (rData r) w"
    and w: "\<And>n j. n \<le> VClock_Get w j \<longleftrightarrow> (\<forall>w \<in> insert (receivedClock_HWM (rReceived r)) (snd ` set (rPeerHWMs r)). n \<le> VClock_Get w j)"
    by blast
  have stored: "osBackend (rData r') = or_gc (osBackend (rData r)) w" by (simp add: data GC_backend)
  show "osCodec (rData r') = osCodec (rData r)" by (simp add: data GC_backend)
  show "osr_inv R mh r'"
    using orset.sendDigests_inv [OF ri(1) assms(8)] sendDigests_sends [OF assms(8)] assms(8) ri or_gc_inv [OF inv]
    by (auto simp: osr_inv_def stored)
  show none: "memoryBackend_GetEntry (osBackend (rData r')) k = None"
    using assms(2) by (simp add: stored memoryBackend_GetEntry_def or_gc_entries)
  show tomb: "memoryBackend_GetTombstone (osBackend (rData r')) k = None"
    using assms(3,4,7) w by (auto simp: stored or_gc_tombstone [OF mb] gc_pick_def orSetState_TombstoneMeta_def)
  from none tomb show "os_view r' k = (\<lambda>_. (0, 0))"
    by (simp add: or_view_def or_entry_def or_ctx_def VClock_Get_def fun_eq_iff)
qed

lemma unknown_key_kept:
  assumes "osr_inv R mh r" "osr_inv R mh' q" "card R < 2 ^ 32" "Encode (osCodec (rData q)) e = Inr k"
    and "memoryBackend_GetEntry (osBackend (rData r)) k = None" "memoryBackend_GetTombstone (osBackend (rData r)) k = None"
    and "\<forall>x \<in> set (orSetState_DeltasSince (rData r) hwm). length x < 2 ^ 63"
  shows "ORSet_Contains (apply_all mh' orSetM (orSetState_DeltasSince (rData r) hwm) q) e = ORSet_Contains q e"
proof -
  let ?xs = "os_since (rData r) hwm"
  have inv: "or_inv R (osBackend (rData r))" "or_inv R (osBackend (rData q))" using assms(1,2) by (simp_all add: osr_inv_def)
  have fits: "list_all (os_fits R) ?xs"
    using os_since_ok [OF inv(1)] assms(7) by (auto simp: list_all_iff os_fits_def DeltasSince_os)
  have run: "apply_all mh' orSetM (orSetState_DeltasSince (rData r) hwm) q = fold (os_deliver mh') ?xs q"
    by (simp add: DeltasSince_os fold_map comp_def os_deliver_def [abs_def])
  have "\<forall>x \<in> set ?xs. os_key x \<noteq> k" using os_since_none [OF inv(1) assms(5,6)] by blast
  note other = run_other [OF this, of "os_view q"]
  show ?thesis
    using Contains_run [OF assms(2,3) fits assms(4)] Contains_view [OF inv(2) assms(4)] other by (simp add: run)
qed

text \<open>
  C39: a remove is lost when its tombstone is collected before every peer has received it. The tick asks only the peers
  that have sent a digest: after it, whatever clock a peer reports, the deltas selected for it leave the element in the
  peer's set, although it is not in the set here; and an add that the remove had observed, received once more, restores
  the element here too.
\<close>

theorem ORSet_collected_remove:
  assumes "osr_inv R mh r" "osr_inv R mh' q" "card R < 2 ^ 32" "osCodec (rData q) = osCodec (rData r)" "Encode (osCodec (rData r)) e = Inr k"
    and "\<not> ORSet_Contains r e" "orSetState_TombstoneMeta (rData r) k = Some t" "decodeRemoveTombstone t = Ok (d, ctx)"
    and "rTopology r = Some (p # ps)" "rPeerHWMs r \<noteq> []"
    and "\<forall>w \<in> insert (receivedClock_HWM (rReceived r)) (snd ` set (rPeerHWMs r)). Counter d \<le> VClock_Get w (Replica d)"
    and "replica_sendDigests mh orSetM r = Ok (r', out)" "\<forall>x \<in> set (orSetState_DeltasSince (rData r') hwm). length x < 2 ^ 63"
    and "os_fits R (OsAdd k [(j, n)])"
  shows "\<not> ORSet_Contains r' e \<and>
    ORSet_Contains (apply_all mh' orSetM (orSetState_DeltasSince (rData r') hwm) q) e = ORSet_Contains q e \<and>
    ORSet_Contains (os_deliver mh (OsAdd k [(j, n)]) r') e"
proof -
  have "memoryBackend_GetEntry (osBackend (rData r)) k = None"
    using assms(5,6) by (cases "memoryBackend_GetEntry (osBackend (rData r)) k") (auto simp: ORSet_Contains_def orSetState_Contains_def)
  note c = collected_key [OF assms(1) this assms(7-12)]
  have enc: "Encode (osCodec (rData q)) e = Inr k" "Encode (osCodec (rData r')) e = Inr k" using assms(4,5) c(2) by simp_all
  have inv: "or_inv R (osBackend (rData r'))" using c(1) by (simp add: osr_inv_def)
  have "\<not> ORSet_Contains r' e" using Contains_view [OF inv enc(2)] c(3) by simp
  moreover note unknown_key_kept [OF c(1) assms(2,3) enc(1) c(4,5) assms(13)]
  moreover have "fst (os_view (os_deliver mh (OsAdd k [(j, n)]) r') k j) \<noteq> 0"
    using os_deliver_step [OF c(1) assms(3,14)] assms(14)
    by (auto simp: c(3) cell_add_def mget0_Cons max_def os_fits_def pos_map_def)
  then have "ORSet_Contains (os_deliver mh (OsAdd k [(j, n)]) r') e"
    using os_deliver_step [OF c(1) assms(3,14)] Contains_view [of R _ e k] enc(2) by (auto simp: osr_inv_def)
  ultimately show ?thesis by blast
qed

text \<open>A replica of three that has received and removed an element, then a digest of replica 3.\<close>

lemma collect_demo:
  obtains r a :: "bytes ORSet" where "NewORSet demo_hash 1 (Some StringCodec) [WithTransport True, WithTopology (Some [2, 3])] = Ok r"
    "a = fst (ORSet_Remove demo_hash (os_deliver demo_hash (OsAdd [7] [(3, 1)]) r) [7])"
    "osr_inv demo_cluster demo_hash a" "osCodec (rData a) = StringCodec" "\<not> ORSet_Contains a [7]" "rTopology a = Some [2, 3]" "rPeerHWMs a = []"
    "osBackend (rData a) = \<lparr>mbEntries = [], mbTombstones = [([7], encodeRemoveTombstone (mkDot 1 1) [(3, 1), (1, 1)])]\<rparr>"
    "receivedClock_HWM (rReceived a) = [(3, 1), (1, 1)]" "rTransport a"
proof -
  let ?os = "[WithTransport True, WithTopology (Some [2, 3])]" and ?x = "OsAdd [7] [(3, 1)]"
  have seed: "MakeSeed demo_hash \<noteq> 0" "oBackend (applyOptions ?os) = None" by (simp_all add: applyOptions_def WithTransport_def WithTopology_def)
  obtain r :: "bytes ORSet" where r: "NewORSet demo_hash 1 (Some StringCodec) ?os = Ok r" "\<And>R. osr_inv R demo_hash r"
      "os_view r = (\<lambda>_ _. (0, 0))" "osCodec (rData r) = StringCodec" "rLocal r = newLocalClock 1" "rReceived r = newReceivedClock"
    using NewORSet_Ok [OF seed] by metis
  have new: "osBackend (rData r) = newMemoryBackend" "rTopology r = Some [2, 3]" "rPeerHWMs r = []" "rTransport r"
    using r(1) by (auto simp: NewORSet_def newORSetState_def requireCodec_def newReplica_def applyOptions_def WithTransport_def
        WithTopology_def Let_def)
  have f: "os_fits demo_cluster ?x" by (auto simp: os_fits_short demo_clock demo_cluster_card)
  have sm: "sorted_map [(3, 1)] = [(3 :: ReplicaID, 1 :: u64)]" by (simp add: sorted_map_def sortedReplicaIDs_sort mget0_def)
  let ?r = "os_deliver demo_hash ?x r" 
  have st: "osr_inv demo_cluster demo_hash ?r" "osCodec (rData ?r) = StringCodec"
    using os_deliver_step [OF r(2) demo_cluster_card f] r(4) by auto
  have b: "osBackend (rData ?r) = \<lparr>mbEntries = [([7], \<lparr>meValue = [], meMeta = encodeDotMap [(3, 1)]\<rparr>)], mbTombstones = []\<rparr>"
    using os_deliver_data [OF _ demo_cluster_card f, of r demo_hash] r(2) [of demo_cluster]
    by (simp add: osr_inv_def new(1) sm or_add_def or_prune_def newMemoryBackend_def memoryBackend_GetEntry_def
        memoryBackend_GetTombstone_def memoryBackend_PutEntry_def)
  have "rReceived ?r = record_loop (diDots (os_info ?x)) newReceivedClock"
    using os_delta_ok [OF demo_cluster_card f, of "rData r"] r(6)
    by (simp add: os_deliver_def applyDelta_received del: os_delta.simps os_info.simps)
  then have rc: "rReceived ?r = receivedClock_Record newReceivedClock 3 1" by (simp add: sm)
  have lc: "rLocal ?r = newLocalClock 1" using r(5) by (simp add: os_deliver_def)
  have ctx: "remove_context ?r = [(3, 1), (1, 1)]"
    by (simp add: remove_context_def rc lc newLocalClock_def Let_def receivedClock_HWM_def
        receivedClock_Record_def newReceivedClock_def receivedClock_advanceHWM_def mget0_def mclone_def)
  let ?a = "fst (ORSet_Remove demo_hash ?r [7])"
  have dot: "snd (replica_nextDot ?r) = mkDot 1 1" by (simp add: lc newLocalClock_def)
  have cl: "in_cluster demo_cluster [(3, 1), (1, 1)]" by (simp add: in_cluster_def wf_map_def)
  have "or_inv demo_cluster (osBackend (rData ?r))" using st(1) by (simp add: osr_inv_def)
  note rem = remove_state [OF this demo_cluster_card cl, of "[7]" "[7]" "mkDot 1 1", folded dot ctx, folded ORSet_Remove_data [of demo_hash]]
  have enc: "Encode (osCodec (rData ?r)) [7] = Inr [7]" by (simp add: st(2) StringCodec_def)
  show ?thesis
  proof (rule that [OF r(1) refl])
    show "osr_inv demo_cluster demo_hash ?a" "osCodec (rData ?a) = StringCodec"
      using os_operation_stamped(2) [of demo_hash ?r "[7]"] rem enc st by (auto simp: os_stamped_def osr_inv_def or_inv_def)
    then show "\<not> ORSet_Contains ?a [7]"
      using Contains_view [of demo_cluster ?a "[7]" "[7]"] rem enc by (simp add: osr_inv_def StringCodec_def)
    show "rTopology ?a = Some [2, 3]" "rPeerHWMs ?a = []" "rTransport ?a"
      using new(2-4) by (auto simp: os_deliver_def applyDelta_transport ORSet_Remove_def Let_def split_beta split: go.splits)
    show "osBackend (rData ?a) = \<lparr>mbEntries = [], mbTombstones = [([7], encodeRemoveTombstone (mkDot 1 1) [(3, 1), (1, 1)])]\<rparr>"
      unfolding ORSet_Remove_data dot ctx Remove_drop [OF enc]
      by (simp add: b or_drop_def memoryBackend_DeleteEntry_def memoryBackend_PutTombstone_def)
    show "receivedClock_HWM (rReceived ?a) = [(3, 1), (1, 1)]"
      using os_operation_stamped(2) [of demo_hash ?r "[7]"] ctx by (simp add: os_stamped_def remove_context_def)
  qed
qed

lemma collect_demo_answer:
  assumes "osBackend s = \<lparr>mbEntries = [], mbTombstones = [([7], encodeRemoveTombstone (mkDot 1 1) [(3, 1), (1, 1)])]\<rparr>"
  shows "\<forall>x \<in> set (orSetState_DeltasSince s hwm). length x < 2 ^ 63"
    "\<forall>x \<in> set (orSetState_DeltasSince (orSetState_GCTombstones s w) hwm). length x < 2 ^ 63"
proof -
  let ?t = "encodeRemoveTombstone (mkDot 1 1) [(3, 1), (1, 1)]"
  have cl: "in_cluster demo_cluster [(3, 1), (1, 1)]" by (simp add: in_cluster_def wf_map_def)
  have "os_fits demo_cluster (OsRem [7] (mkDot 1 1) (sorted_map [(3, 1), (1, 1)]))"
    using cl by (intro os_fits_short) (simp_all add: demo_cluster_card)
  then have len: "length (os_delta (OsRem [7] (mkDot 1 1) (sorted_map [(3, 1), (1, 1)]))) < 2 ^ 63" by (simp add: os_fits_def)
  have since: "\<forall>x \<in> set (orSetState_DeltasSince u hwm). length x < 2 ^ 63"
    if "mbEntries (osBackend u) = []" "set (mbTombstones (osBackend u)) \<subseteq> {([7], ?t)}" for u :: "'a orSetState"
    using len that decode_cluster(2) [OF cl demo_cluster_card, of "mkDot 1 1"]
    by (auto simp: DeltasSince_os os_since_def pick_def seen_tomb_def split: if_splits simp del: os_delta.simps)
  show "\<forall>x \<in> set (orSetState_DeltasSince s hwm). length x < 2 ^ 63" by (rule since) (simp_all add: assms)
  have "set (mbTombstones (or_gc (osBackend s) w)) \<subseteq> {([7], ?t)}"
    unfolding or_gc_pick by (simp add: assms pick_def memoryBackend_DeleteTombstone_def split: option.splits)
  then show "\<forall>x \<in> set (orSetState_DeltasSince (orSetState_GCTombstones s w) hwm). length x < 2 ^ 63"
    by (intro since) (simp_all add: GC_backend or_gc_entries assms)
qed

theorem ORSet_collected_remove_witness:
  "\<exists>r q a r' out out'. NewORSet demo_hash 1 (Some StringCodec) [WithTransport True, WithTopology (Some [2, 3])] = Ok r \<and>
     NewORSet demo_hash 2 (Some StringCodec) [] = Ok q \<and>
     replica_handleMessage demo_hash orSetM (fst (ORSet_Remove demo_hash (os_deliver demo_hash (OsAdd [7] [(3, 1)]) r) [7])) 3
       (mkDot 0 0) (encodeAEDigest 0 [(1, 1), (3, 1)]) = Ok (a, out) \<and>
     replica_sendDigests demo_hash orSetM a = Ok (r', out') \<and> \<not> ORSet_Contains r' [7] \<and>
     ORSet_Contains (apply_all demo_hash orSetM (orSetState_DeltasSince (rData r') [])
       (os_deliver demo_hash (OsAdd [7] [(3, 1)]) q)) [7] \<and>
     ORSet_Contains (os_deliver demo_hash (OsAdd [7] [(3, 1)]) r') [7]"
proof -
  let ?x = "OsAdd [7] [(3, 1)]"
  obtain r b :: "bytes ORSet" where r: "NewORSet demo_hash 1 (Some StringCodec) [WithTransport True, WithTopology (Some [2, 3])] = Ok r"
      "b = fst (ORSet_Remove demo_hash (os_deliver demo_hash ?x r) [7])"
      "osr_inv demo_cluster demo_hash b" "osCodec (rData b) = StringCodec" "\<not> ORSet_Contains b [7]" "rTopology b = Some [2, 3]" "rPeerHWMs b = []"
      "osBackend (rData b) = \<lparr>mbEntries = [], mbTombstones = [([7], encodeRemoveTombstone (mkDot 1 1) [(3, 1), (1, 1)])]\<rparr>"
      "receivedClock_HWM (rReceived b) = [(3, 1), (1, 1)]" "rTransport b"
    by (rule collect_demo)
  have hw: "wf_map [(1 :: ReplicaID, 1 :: u64), (3, 1)]" "mm_inv demo_hash (rMerkle b)"
    using r(3) by (simp_all add: wf_map_def osr_inv_def orset.replica_inv_def)
  obtain mm out where a: "replica_handleMessage demo_hash orSetM b 3 (mkDot 0 0) (encodeAEDigest 0 [(1, 1), (3, 1)]) =
      Ok (b\<lparr>rPeerHWMs := [(3, [(1, 1), (3, 1)])], rMerkle := mm\<rparr>, out)" (is "_ = Ok (?a, _)")
    using digest_entered [OF hw(2,1), of orSetM 3 "mkDot 0 0" 0] r(7)
    by (auto simp: mput_fresh sorted_map_def sortedReplicaIDs_sort mget0_def)
  have ai: "osr_inv demo_cluster demo_hash ?a"
    using orset.handleMessage_inv [OF _ a] r(3) by (simp add: osr_inv_def)
  obtain q :: "bytes ORSet" where q: "NewORSet demo_hash 2 (Some StringCodec) [] = Ok q" "\<And>R. osr_inv R demo_hash q"
      "os_view q = (\<lambda>_ _. (0, 0))" "osCodec (rData q) = StringCodec"
    using demo_ORSet [of 2] by blast
  have f: "os_fits demo_cluster ?x" by (auto simp: os_fits_short demo_clock demo_cluster_card)
  note st = os_deliver_step [OF q(2) demo_cluster_card f]
  have "orset.replica_inv demo_hash ?a" "rTransport ?a" using ai r(10) by (simp_all add: osr_inv_def)
  then obtain r' out' where r': "replica_sendDigests demo_hash orSetM ?a = Ok (r', out')" by (rule orset.sendDigests_total)
  have len: "\<forall>x \<in> set (orSetState_DeltasSince (rData r') []). length x < 2 ^ 63"
    using sendDigests_sends(4) [OF r'] collect_demo_answer [OF r(8)] by (auto simp del: power_numeral numeral_power_eq_of_nat_cancel_iff)
  have live: "ORSet_Contains (os_deliver demo_hash ?x q) [7]"
    using st q Contains_view [of demo_cluster "os_deliver demo_hash ?x q" "[7]" "[7]"]
    by (auto simp: osr_inv_def StringCodec_def cell_add_def mget0_Cons max_def word_gt_0 intro!: exI [of _ 3])
  have tomb: "orSetState_TombstoneMeta (rData ?a) [7] = Some (encodeRemoveTombstone (mkDot 1 1) [(3, 1), (1, 1)])"
    "decodeRemoveTombstone (encodeRemoveTombstone (mkDot 1 1) [(3, 1), (1, 1)]) = Ok (mkDot 1 1, sorted_map [(3, 1), (1, 1)])"
    by (simp add: orSetState_TombstoneMeta_def r(8) memoryBackend_GetTombstone_def)
      (rule decode_encodeRemoveTombstone; simp add: wf_map_def)
  have "\<not> ORSet_Contains r' [7] \<and>
      ORSet_Contains (apply_all demo_hash orSetM (orSetState_DeltasSince (rData r') []) (os_deliver demo_hash ?x q)) [7] =
        ORSet_Contains (os_deliver demo_hash ?x q) [7] \<and>
      ORSet_Contains (os_deliver demo_hash ?x r') [7]"
  proof (rule ORSet_collected_remove [OF ai st [THEN conjunct1] demo_cluster_card _ _ _ tomb _ _ _ r' len f])
    show "\<not> ORSet_Contains ?a [7]" using r(5) by (simp add: ORSet_Contains_def)
  qed (use st q(4) r(4,6,9) in \<open>simp_all add: StringCodec_def VClock_Get_def mget0_def\<close>)
  then show ?thesis using r(1,2) q(1) a r' live by blast
qed

end
