(* ===== verification/Waiting.thy ===== *)
theory Waiting
  imports Replica
begin

text \<open>
  Waiting for the acknowledgements of a write (\<^verbatim>\<open>WriteResult.Wait\<close> of \<^verbatim>\<open>replica.go\<close>) and the goroutines of
  \<^verbatim>\<open>propagate\<close> that hand it the ack channels. \<open>Wait\<close> is a machine that stops at each of its two \<^verbatim>\<open>select\<close> statements
  and goes on with the case that fires. Which case can fire is decided by the write in flight: the sends that have
  not returned, the ack channels in the buffer of \<^verbatim>\<open>ackCh\<close>, the acks that have arrived and the context.
\<close>

section \<open>Definitions\<close>

text \<open>
  The cases of the two statements: an ack channel is received from \<^verbatim>\<open>ackCh\<close> (named by the number of its peer),
  \<^verbatim>\<open>ackCh\<close> is closed, the ack arrives, the context ends. \<open>AtChannels got received\<close> is the outer statement,
  \<open>AtAck ack got received\<close> the inner one.
\<close>

datatype waitCase = AckChan nat | AckChClosed | AckDone | CtxDone

datatype waitPoint = AtChannels nat nat | AtAck nat nat nat | Returned "unit go"

definition waitHead :: "nat \<Rightarrow> nat \<Rightarrow> nat \<Rightarrow> nat \<Rightarrow> waitPoint" where
  "waitHead needed tot got received =
     (if received < tot then AtChannels got received
      else if got \<ge> needed then Returned (Ok ())
      else Returned (Err ErrQuorumTimeout))"

definition waitStart :: "WriteResult option \<Rightarrow> waitPoint" where
  "waitStart w =
     (case w of
        None \<Rightarrow> Returned (Ok ())
      | Some wr \<Rightarrow> if wrNeeded wr = 0 then Returned (Ok ()) else waitHead (wrNeeded wr) (wrTotal wr) 0 0)"

text \<open>What \<open>Wait\<close> does in a case of the statement it is at; \<open>None\<close>: the statement has no such case.\<close>

fun waitStep :: "nat \<Rightarrow> nat \<Rightarrow> waitPoint \<Rightarrow> waitCase \<Rightarrow> waitPoint option" where
  "waitStep needed tot (AtChannels got received) (AckChan ack) = Some (AtAck ack got (received + 1))"
| "waitStep needed tot (AtChannels got received) AckChClosed = Some (Returned (Err ErrQuorumTimeout))"
| "waitStep needed tot (AtChannels got received) CtxDone = Some (Returned (Err ErrQuorumTimeout))"
| "waitStep needed tot (AtAck ack got received) AckDone =
     Some (if got + 1 \<ge> needed then Returned (Ok ()) else waitHead needed tot (got + 1) received)"
| "waitStep needed tot (AtAck ack got received) CtxDone = Some (Returned (Err ErrQuorumTimeout))"
| "waitStep needed tot _ _ = None"

text \<open>\<open>Wait\<close> over the cases that fire, one after the other; \<open>None\<close>: it has not returned and blocks after the last.\<close>

fun waitLoop :: "nat \<Rightarrow> nat \<Rightarrow> waitPoint \<Rightarrow> waitCase list \<Rightarrow> unit go option" where
  "waitLoop needed tot (Returned r) es = Some r"
| "waitLoop needed tot p [] = None"
| "waitLoop needed tot p (e # es) =
     (case waitStep needed tot p e of None \<Rightarrow> None | Some p' \<Rightarrow> waitLoop needed tot p' es)"

definition WriteResult_Wait :: "WriteResult option \<Rightarrow> waitCase list \<Rightarrow> unit go option" where
  "WriteResult_Wait w es =
     (case w of None \<Rightarrow> Some (Ok ()) | Some wr \<Rightarrow> waitLoop (wrNeeded wr) (wrTotal wr) (waitStart w) es)"

subsection \<open>A write in flight\<close>

text \<open>
  The peers are numbered. \<open>wsPending\<close>: \<^verbatim>\<open>Send\<close> has not returned; \<open>wsFailed\<close>: it returned no channel; \<open>wsQueue\<close>: the buffer of
  \<^verbatim>\<open>ackCh\<close>, which has room for all peers; \<open>wsAcked\<close>: the ack has arrived; \<open>wsDone\<close>: the context of \<open>Wait\<close> has ended.
\<close>

record writeState =
  wsPending :: "nat set"
  wsFailed :: "nat set"
  wsQueue :: "nat list"
  wsAcked :: "nat set"
  wsDone :: bool
  wsPoint :: waitPoint

definition write_new :: "WriteResult \<Rightarrow> writeState" where
  "write_new w = \<lparr>wsPending = {..<wrTotal w}, wsFailed = {}, wsQueue = [], wsAcked = {}, wsDone = False, wsPoint = waitStart (Some w)\<rparr>"

text \<open>The cases that can fire: nothing closes \<^verbatim>\<open>ackCh\<close>. When several can, Go takes any of them.\<close>

fun waitReady :: "writeState \<Rightarrow> waitCase \<Rightarrow> bool" where
  "waitReady s (AckChan ack) = (case wsQueue s of a # _ \<Rightarrow> a = ack | [] \<Rightarrow> False)"
| "waitReady s AckChClosed = False"
| "waitReady s AckDone = (case wsPoint s of AtAck ack _ _ \<Rightarrow> ack \<in> wsAcked s | _ \<Rightarrow> False)"
| "waitReady s CtxDone = wsDone s"

fun waitTake :: "writeState \<Rightarrow> waitCase \<Rightarrow> waitPoint \<Rightarrow> writeState" where
  "waitTake s (AckChan ack) p = s\<lparr>wsQueue := tl (wsQueue s), wsPoint := p\<rparr>"
| "waitTake s _ p = s\<lparr>wsPoint := p\<rparr>"

text \<open>\<open>wait_on w k s t\<close>: \<open>Wait\<close> alone gets from \<open>s\<close> to \<open>t\<close> in \<open>k\<close> steps.\<close>

inductive wait_on :: "WriteResult \<Rightarrow> nat \<Rightarrow> writeState \<Rightarrow> writeState \<Rightarrow> bool" for w where
  wait_here: "wait_on w 0 s s"
| wait_more: "\<lbrakk>wait_on w k s t; waitReady t e; waitStep (wrNeeded w) (wrTotal w) (wsPoint t) e = Some p\<rbrakk> \<Longrightarrow>
    wait_on w (Suc k) s (waitTake t e p)"

text \<open>\<open>write_run w n s\<close>: the write can get to \<open>s\<close>, in which \<open>Wait\<close> has taken \<open>n\<close> steps.\<close>

inductive write_run :: "WriteResult \<Rightarrow> nat \<Rightarrow> writeState \<Rightarrow> bool" for w where
  run_new: "write_run w 0 (write_new w)"
| run_sent: "\<lbrakk>write_run w n s; p \<in> wsPending s\<rbrakk> \<Longrightarrow>
    write_run w n (s\<lparr>wsPending := wsPending s - {p}, wsQueue := wsQueue s @ [p]\<rparr>)"
| run_failed: "\<lbrakk>write_run w n s; p \<in> wsPending s\<rbrakk> \<Longrightarrow>
    write_run w n (s\<lparr>wsPending := wsPending s - {p}, wsFailed := insert p (wsFailed s)\<rparr>)"
| run_acked: "\<lbrakk>write_run w n s; p < wrTotal w\<rbrakk> \<Longrightarrow> write_run w n (s\<lparr>wsAcked := insert p (wsAcked s)\<rparr>)"
| run_done: "write_run w n s \<Longrightarrow> write_run w n (s\<lparr>wsDone := True\<rparr>)"
| run_wait: "\<lbrakk>write_run w n s; waitReady s e; waitStep (wrNeeded w) (wrTotal w) (wsPoint s) e = Some p\<rbrakk> \<Longrightarrow>
    write_run w (Suc n) (waitTake s e p)"

inductive_cases wait_onE: "wait_on w k s t"

section \<open>The result for given cases\<close>

abbreviation acks :: "nat list \<Rightarrow> waitCase list" where
  "acks ps \<equiv> concat (map (\<lambda>p. [AckChan p, AckDone]) ps)"

lemma take_acks:
  "(\<exists>ps. length ps = Suc m \<and> take (2 * Suc m) es = acks ps) \<longleftrightarrow>
   (\<exists>p es' ps. es = AckChan p # AckDone # es' \<and> length ps = m \<and> take (2 * m) es' = acks ps)"
proof
  assume "\<exists>ps. length ps = Suc m \<and> take (2 * Suc m) es = acks ps"
  then obtain p ps where p: "length ps = m" "take (2 * Suc m) es = AckChan p # AckDone # acks ps" by (auto simp: length_Suc_conv)
  then obtain es' where "es = AckChan p # AckDone # es'" by (cases es; cases "tl es") auto
  with p show "\<exists>p es' ps. es = AckChan p # AckDone # es' \<and> length ps = m \<and> take (2 * m) es' = acks ps" by auto
next
  assume "\<exists>p es' ps. es = AckChan p # AckDone # es' \<and> length ps = m \<and> take (2 * m) es' = acks ps"
  then obtain p es' ps where "es = AckChan p # AckDone # es'" "length ps = m" "take (2 * m) es' = acks ps" by blast
  then show "\<exists>ps. length ps = Suc m \<and> take (2 * Suc m) es = acks ps" by (intro exI [of _ "p # ps"]) simp
qed

lemma waitLoop_two:
  "waitLoop needed tot (AtChannels got received) es = Some (Ok ()) \<longleftrightarrow>
   (\<exists>p es'. es = AckChan p # AckDone # es' \<and>
      waitLoop needed tot (if got + 1 \<ge> needed then Returned (Ok ()) else waitHead needed tot (got + 1) (received + 1)) es' = Some (Ok ()))"
proof (cases es)
  case (Cons x xs)
  show ?thesis
  proof (cases x)
    case (AckChan p)
    show ?thesis
    proof (cases xs)
      case (Cons y ys)
      with \<open>es = x # xs\<close> AckChan show ?thesis by (cases y) auto
    qed (use Cons AckChan in auto)
  qed (use Cons in auto)
qed auto

lemma waitLoop_Ok_iff:
  "0 < m \<Longrightarrow> needed = got + m \<Longrightarrow> received + m \<le> tot \<Longrightarrow>
   waitLoop needed tot (AtChannels got received) es = Some (Ok ()) \<longleftrightarrow> (\<exists>ps. length ps = m \<and> take (2 * m) es = acks ps)"
proof (induction m arbitrary: got received es)
  case (Suc m)
  show ?case
  proof (cases "m = 0")
    case True
    then show ?thesis using Suc.prems by (simp only: waitLoop_two take_acks) auto
  next
    case False
    then have "waitHead needed tot (got + 1) (received + 1) = AtChannels (got + 1) (received + 1)" "\<not> got + 1 \<ge> needed"
      using Suc.prems by (simp_all add: waitHead_def)
    then show ?thesis
      unfolding take_acks waitLoop_two [of _ _ got] using Suc.IH [of "got + 1" "received + 1"] Suc.prems False by auto
  qed
qed simp

lemma Wait_Ok_iff:
  assumes "0 < wrNeeded w" "wrNeeded w \<le> wrTotal w"
  shows "WriteResult_Wait (Some w) es = Some (Ok ()) \<longleftrightarrow>
    (\<exists>ps. length ps = wrNeeded w \<and> take (2 * wrNeeded w) es = acks ps)"
  using assms waitLoop_Ok_iff [of "wrNeeded w" "wrNeeded w" 0 0 "wrTotal w" es]
  by (simp add: WriteResult_Wait_def waitStart_def waitHead_def)

section \<open>The invariant of a write in flight\<close>

text \<open>Which peers have acknowledged the \<open>got\<close> channels that \<open>Wait\<close> has counted.\<close>

definition counted :: "writeState \<Rightarrow> nat \<Rightarrow> nat set \<Rightarrow> bool" where
  "counted s got A \<longleftrightarrow> A \<subseteq> wsAcked s \<and> finite A \<and> card A = got \<and> A \<inter> (wsPending s \<union> set (wsQueue s)) = {}"

definition waits_ok :: "WriteResult \<Rightarrow> nat \<Rightarrow> writeState \<Rightarrow> bool" where
  "waits_ok w n s \<longleftrightarrow>
     (case wsPoint s of
        AtChannels got received \<Rightarrow> received = got \<and> got < wrNeeded w \<and> n = 2 * got \<and> (\<exists>A. counted s got A) \<and>
          got + card (wsPending s) + length (wsQueue s) + card (wsFailed s) = wrTotal w
      | AtAck ack got received \<Rightarrow> received = Suc got \<and> got < wrNeeded w \<and> n = Suc (2 * got) \<and> ack < wrTotal w \<and>
          ack \<notin> wsPending s \<and> ack \<notin> set (wsQueue s) \<and> (\<exists>A. counted s got A \<and> ack \<notin> A) \<and>
          Suc got + card (wsPending s) + length (wsQueue s) + card (wsFailed s) = wrTotal w
      | Returned r \<Rightarrow> n \<le> 2 * wrNeeded w \<and> (r = Ok () \<and> wrNeeded w \<le> card (wsAcked s) \<or> r = Err ErrQuorumTimeout \<and> wsDone s))"

definition write_ok :: "WriteResult \<Rightarrow> nat \<Rightarrow> writeState \<Rightarrow> bool" where
  "write_ok w n s \<longleftrightarrow> waits_ok w n s \<and> wsPending s \<subseteq> {..<wrTotal w} \<and> set (wsQueue s) \<subseteq> {..<wrTotal w} \<and>
     wsFailed s \<subseteq> {..<wrTotal w} \<and> wsAcked s \<subseteq> {..<wrTotal w} \<and> distinct (wsQueue s) \<and>
     wsPending s \<inter> set (wsQueue s) = {} \<and> wsPending s \<inter> wsFailed s = {} \<and> finite (wsPending s) \<and> finite (wsFailed s) \<and> finite (wsAcked s)"

lemma write_ok_new: "0 < wrNeeded w \<Longrightarrow> wrNeeded w \<le> wrTotal w \<Longrightarrow> write_ok w 0 (write_new w)"
  by (auto simp: write_ok_def waits_ok_def write_new_def waitStart_def waitHead_def counted_def intro!: exI [of _ "{}"])

lemma counted_mono:
  "counted s got A \<Longrightarrow> wsAcked s \<subseteq> wsAcked t \<Longrightarrow> wsPending t \<union> set (wsQueue t) \<subseteq> wsPending s \<union> set (wsQueue s) \<Longrightarrow> counted t got A"
  by (auto simp: counted_def)

lemma write_ok_wait:
  assumes ok: "write_ok w n s" and ready: "waitReady s e" and step: "waitStep (wrNeeded w) (wrTotal w) (wsPoint s) e = Some p"
    and le: "wrNeeded w \<le> wrTotal w"
  shows "write_ok w (Suc n) (waitTake s e p)"
proof (cases "wsPoint s")
  case (AtChannels got received)
  show ?thesis
  proof (cases e)
    case (AckChan ack)
    then obtain q where q: "wsQueue s = ack # q" using ready by (cases "wsQueue s") auto
    from ok AtChannels obtain A where A: "counted s got A" by (auto simp: write_ok_def waits_ok_def)
    then have "counted (waitTake s e p) got A \<and> ack \<notin> A" by (auto simp: counted_def AckChan q)
    with ok step AtChannels AckChan q show ?thesis by (auto simp: write_ok_def waits_ok_def)
  next
    case CtxDone
    with ok ready step AtChannels show ?thesis by (auto simp: write_ok_def waits_ok_def)
  qed (use ready step AtChannels in auto)
next
  case (AtAck ack got received)
  show ?thesis
  proof (cases e)
    case AckDone
    have ack: "ack \<in> wsAcked s" using ready AckDone AtAck by simp
    from ok AtAck obtain A where A: "counted s got A" "ack \<notin> A" by (auto simp: write_ok_def waits_ok_def)
    have A': "counted (waitTake s e p) (Suc got) (insert ack A)"
      using A ack ok AtAck by (auto simp: counted_def AckDone write_ok_def waits_ok_def)
    then have card: "Suc got \<le> card (wsAcked s)"
      using ok card_mono [of "wsAcked s" "insert ack A"] by (auto simp: counted_def AckDone write_ok_def)
    show ?thesis
    proof (cases "Suc got \<ge> wrNeeded w")
      case True
      with ok step AtAck AckDone card show ?thesis by (auto simp: write_ok_def waits_ok_def)
    next
      case False
      then have "p = AtChannels (Suc got) (Suc got)"
        using step ok AtAck AckDone le by (auto simp: waitHead_def write_ok_def waits_ok_def)
      with ok AtAck AckDone A' False show ?thesis by (auto simp: write_ok_def waits_ok_def)
    qed
  next
    case CtxDone
    with ok ready step AtAck show ?thesis by (auto simp: write_ok_def waits_ok_def)
  qed (use ready step AtAck in auto)
next
  case (Returned r)
  with step show ?thesis by simp
qed

lemma write_ok_env:
  assumes ok: "write_ok w n s"
    and t: "wsPoint t = wsPoint s" "wsAcked s \<subseteq> wsAcked t" "wsPending t \<union> set (wsQueue t) \<subseteq> wsPending s \<union> set (wsQueue s)"
      "card (wsPending t) + length (wsQueue t) + card (wsFailed t) = card (wsPending s) + length (wsQueue s) + card (wsFailed s)"
      "wsDone s \<longrightarrow> wsDone t" "finite (wsAcked t)"
  shows "waits_ok w n t"
proof -
  have "card (wsAcked s) \<le> card (wsAcked t)" by (rule card_mono [OF t(6,2)])
  moreover have "counted t got A" if "counted s got A" for got A by (rule counted_mono [OF that t(2,3)])
  ultimately show ?thesis
    using ok t by (cases "wsPoint s") (auto simp: write_ok_def waits_ok_def intro: order_trans)
qed

lemma run_ok:
  assumes "write_run w n s" "0 < wrNeeded w" "wrNeeded w \<le> wrTotal w"
  shows "write_ok w n s"
  using assms(1)
proof (induction rule: write_run.induct)
  case run_new
  show ?case by (rule write_ok_new [OF assms(2,3)])
next
  case (run_sent n s p)
  then have "waits_ok w n (s\<lparr>wsPending := wsPending s - {p}, wsQueue := wsQueue s @ [p]\<rparr>)"
    by (intro write_ok_env [OF run_sent.IH]) (auto simp: write_ok_def card_Suc_Diff1 simp del: card_Diff_insert)
  with run_sent show ?case by (auto simp: write_ok_def)
next
  case (run_failed n s p)
  then have "card (wsPending s) = Suc (card (wsPending s - {p}))" "card (insert p (wsFailed s)) = Suc (card (wsFailed s))"
    using card_Suc_Diff1 [of "wsPending s" p] by (auto simp: write_ok_def intro!: card_insert_disjoint)
  with run_failed have "waits_ok w n (s\<lparr>wsPending := wsPending s - {p}, wsFailed := insert p (wsFailed s)\<rparr>)"
    by (intro write_ok_env [OF run_failed.IH]) (auto simp: write_ok_def)
  with run_failed show ?case by (auto simp: write_ok_def)
next
  case (run_acked n s p)
  then have "waits_ok w n (s\<lparr>wsAcked := insert p (wsAcked s)\<rparr>)"
    by (intro write_ok_env [OF run_acked.IH]) (auto simp: write_ok_def)
  with run_acked show ?case by (auto simp: write_ok_def)
next
  case (run_done n s)
  then have "waits_ok w n (s\<lparr>wsDone := True\<rparr>)" by (intro write_ok_env [OF run_done.IH]) (auto simp: write_ok_def)
  with run_done show ?case by (auto simp: write_ok_def)
next
  case (run_wait n s e p)
  show ?case by (rule write_ok_wait [OF run_wait.IH run_wait.hyps(2,3) assms(3)])
qed

section \<open>Progress\<close>

text \<open>When \<open>Wait\<close> cannot be held up: its context has ended, or every peer's channel has arrived and is acknowledged.\<close>

definition unblocked :: "WriteResult \<Rightarrow> writeState \<Rightarrow> bool" where
  "unblocked w s \<longleftrightarrow> wsDone s \<or> wsPending s = {} \<and> wsFailed s = {} \<and> {..<wrTotal w} \<subseteq> wsAcked s"

lemma waitTake_fields [simp]:
  "wsPending (waitTake s e p) = wsPending s" "wsFailed (waitTake s e p) = wsFailed s"
  "wsAcked (waitTake s e p) = wsAcked s" "wsDone (waitTake s e p) = wsDone s" "wsPoint (waitTake s e p) = p"
  by (cases e; simp)+

lemma wait_on_facts:
  assumes "wait_on w k s t"
  shows "write_run w n s \<Longrightarrow> write_run w (n + k) t" "unblocked w t \<longleftrightarrow> unblocked w s" "wsDone t \<longleftrightarrow> wsDone s" "wsAcked t = wsAcked s"
  using assms by (induction rule: wait_on.induct) (auto simp: unblocked_def intro: run_wait)

lemma unblocked_progress:
  assumes "write_ok w n s" "unblocked w s" "wrNeeded w \<le> wrTotal w"
  shows "(\<exists>r. wsPoint s = Returned r) \<or> (\<exists>e p. waitReady s e \<and> waitStep (wrNeeded w) (wrTotal w) (wsPoint s) e = Some p)"
proof (cases "wsPoint s")
  case (AtChannels got received)
  show ?thesis
  proof (cases "wsDone s")
    case True
    with AtChannels show ?thesis by (intro disjI2 exI [of _ CtxDone]) simp
  next
    case False
    with assms AtChannels have "wsQueue s \<noteq> []" by (auto simp: unblocked_def write_ok_def waits_ok_def)
    then obtain a q where "wsQueue s = a # q" by (cases "wsQueue s") auto
    with AtChannels show ?thesis by (intro disjI2 exI [of _ "AckChan a"]) simp
  qed
next
  case (AtAck ack got received)
  show ?thesis
  proof (cases "wsDone s")
    case True
    with AtAck show ?thesis by (intro disjI2 exI [of _ CtxDone]) simp
  next
    case False
    with assms AtAck have "ack \<in> wsAcked s" by (auto simp: unblocked_def write_ok_def waits_ok_def)
    with AtAck show ?thesis by (intro disjI2 exI [of _ AckDone]) simp
  qed
qed simp

lemma run_steps: "write_ok w n s \<Longrightarrow> n \<le> 2 * wrNeeded w"
  by (cases "wsPoint s") (auto simp: write_ok_def waits_ok_def)

lemma run_result:
  "write_ok w n s \<Longrightarrow> wsPoint s = Returned r \<Longrightarrow>
   r = Ok () \<and> wrNeeded w \<le> card (wsAcked s) \<or> r = Err ErrQuorumTimeout \<and> wsDone s"
  by (auto simp: write_ok_def waits_ok_def)

lemma unblocked_returns:
  assumes run: "write_run w n s" and w: "0 < wrNeeded w" "wrNeeded w \<le> wrTotal w" and free: "unblocked w s"
  shows "\<exists>k t r. wait_on w k s t \<and> wsPoint t = Returned r"
proof (rule ccontr)
  assume no: "\<not> ?thesis"
  have "\<exists>t. wait_on w k s t" for k
  proof (induction k)
    case 0
    then show ?case using wait_here by blast
  next
    case (Suc k)
    then obtain t where t: "wait_on w k s t" by blast
    have "write_ok w (n + k) t" "unblocked w t" using wait_on_facts [OF t] run_ok [OF _ w] run free by blast+
    from unblocked_progress [OF this w(2)] no t wait_more [OF t] show ?case by blast
  qed
  then obtain t where t: "wait_on w (Suc (2 * wrNeeded w)) s t" by blast
  from run_steps [OF run_ok [OF wait_on_facts(1) [OF t run] w]] show False by simp
qed

section \<open>Properties\<close>

text \<open>
  C30: waiting ends. In every state that a write and its environment can reach, \<open>Wait\<close> has taken, and will take, at most
  two steps for each peer of the quorum; once its context has ended, or the channel of every peer has arrived and is acknowledged, it
  never blocks, whichever ready case each \<^verbatim>\<open>select\<close> takes, and so returns: nil only if a quorum has acknowledged,
  the quorum error only if the context has ended.
\<close>

theorem Wait_returns:
  assumes "write_run w n s" "0 < wrNeeded w" "wrNeeded w \<le> wrTotal w"
  shows "(\<forall>k t. wait_on w k s t \<longrightarrow> n + k \<le> 2 * wrNeeded w \<and>
      (\<forall>r. wsPoint t = Returned r \<longrightarrow> r = Ok () \<and> wrNeeded w \<le> card (wsAcked s) \<or> r = Err ErrQuorumTimeout \<and> wsDone s)) \<and>
    (wsDone s \<or> wsPending s = {} \<and> wsFailed s = {} \<and> {..<wrTotal w} \<subseteq> wsAcked s \<longrightarrow>
      (\<exists>k t r. wait_on w k s t \<and> wsPoint t = Returned r) \<and>
      (\<forall>k t. wait_on w k s t \<longrightarrow> (\<exists>r. wsPoint t = Returned r) \<or>
         (\<exists>e p. waitReady t e \<and> waitStep (wrNeeded w) (wrTotal w) (wsPoint t) e = Some p)))"
proof -
  have ok: "write_ok w (n + k) t \<and> wsAcked t = wsAcked s \<and> (wsDone t \<longleftrightarrow> wsDone s) \<and> (unblocked w t \<longleftrightarrow> unblocked w s)"
    if "wait_on w k s t" for k t
    using wait_on_facts [OF that] run_ok [OF _ assms(2,3)] assms(1) by blast
  show ?thesis
    unfolding unblocked_def [symmetric]
    using ok run_steps run_result unblocked_progress [OF _ _ assms(3)] unblocked_returns [OF assms] by (metis (no_types, lifting))
qed

text \<open>Every send has returned and the first \<open>m\<close> peers beside the first have acknowledged.\<close>

lemma run_all_sent:
  "m \<le> wrTotal w \<Longrightarrow> write_run w 0 ((write_new w)\<lparr>wsPending := {m..<wrTotal w}, wsQueue := [0..<m]\<rparr>)"
proof (induction m)
  case 0
  have "(write_new w)\<lparr>wsPending := {0..<wrTotal w}, wsQueue := [0..<0]\<rparr> = write_new w" by (auto simp: write_new_def)
  then show ?case using run_new by metis
next
  case (Suc m)
  have "{m..<wrTotal w} - {m} = {Suc m..<wrTotal w}" by auto
  with run_sent [OF Suc.IH, of m] Suc.prems show ?case by simp
qed

lemma run_others_acked:
  "Suc m \<le> wrTotal w \<Longrightarrow> write_run w 0 ((write_new w)\<lparr>wsPending := {}, wsQueue := [0..<wrTotal w], wsAcked := {1..<Suc m}\<rparr>)"
proof (induction m)
  case 0
  then show ?case using run_all_sent [of "wrTotal w" w] by (simp add: write_new_def)
next
  case (Suc m)
  have "insert (Suc m) {1..<Suc m} = {1..<Suc (Suc m)}" by auto
  with run_acked [OF Suc.IH, of "Suc m"] Suc.prems show ?case by simp
qed

text \<open>
  C33: \<open>Wait\<close> can block although the quorum is reached: it waits for the acks one after the other in the order in which the channels arrived, so
  that, when the quorum is not the whole topology, one silent peer holds it up although every send has returned and all other
  peers have acknowledged, until the context ends.
\<close>

theorem Wait_blocks:
  assumes "0 < wrNeeded w" "wrNeeded w < wrTotal w"
  shows "\<exists>n s. write_run w n s \<and> wsPending s = {} \<and> wsFailed s = {} \<and> wrNeeded w \<le> card (wsAcked s) \<and>
    (\<forall>r. wsPoint s \<noteq> Returned r) \<and> (\<forall>k t. wait_on w k s t \<longrightarrow> t = s)"
proof -
  obtain m where m: "wrTotal w = Suc m" using assms(2) by (cases "wrTotal w") auto
  define s where "s = (write_new w)\<lparr>wsPending := {}, wsQueue := [0..<wrTotal w], wsAcked := {1..<Suc m}\<rparr>"
  have s: "write_run w 0 s" "wsPoint s = AtChannels 0 0" "wsQueue s = 0 # [1..<Suc m]"
    using run_others_acked [of m w] assms(1) m by (simp_all add: s_def write_new_def waitStart_def waitHead_def upt_conv_Cons del: upt_Suc)
  define t where "t = waitTake s (AckChan 0) (AtAck 0 0 1)"
  have t: "write_run w 1 t" using run_wait [OF s(1), of "AckChan 0"] s by (simp add: t_def)
  have point: "wsPoint t = AtAck 0 0 1" "0 \<notin> wsAcked t" "\<not> wsDone t" by (simp_all add: t_def s_def write_new_def)
  have stuck: "waitStep (wrNeeded w) (wrTotal w) (wsPoint t) e = None" if "waitReady t e" for e
    using that point by (cases e) (auto split: list.splits)
  have "u = t" if "wait_on w k t u" for k u
    using that stuck by (induction rule: wait_on.induct) auto
  moreover have "wsPending t = {}" "wsFailed t = {}" "wrNeeded w \<le> card (wsAcked t)"
    using assms(2) m by (simp_all add: t_def s_def write_new_def)
  ultimately show ?thesis using t point by (intro exI [of _ 1] exI [of _ t]) auto
qed

theorem Wait_blocks_witness:
  "\<exists>n s. write_run \<lparr>wrAckCh = True, wrNeeded = 1, wrTotal = 2\<rparr> n s \<and> 1 \<le> card (wsAcked s) \<and> (\<forall>r. wsPoint s \<noteq> Returned r) \<and>
     (\<forall>k t. wait_on \<lparr>wrAckCh = True, wrNeeded = 1, wrTotal = 2\<rparr> k s t \<longrightarrow> t = s)"
proof -
  have "0 < wrNeeded \<lparr>wrAckCh = True, wrNeeded = 1, wrTotal = 2\<rparr>"
    "wrNeeded \<lparr>wrAckCh = True, wrNeeded = 1, wrTotal = 2\<rparr> < wrTotal \<lparr>wrAckCh = True, wrNeeded = 1, wrTotal = 2\<rparr>"
    by simp_all
  from Wait_blocks [OF this] show ?thesis by auto
qed

theorem Wait_returns_witness:
  "\<exists>n s. write_run \<lparr>wrAckCh = True, wrNeeded = 1, wrTotal = 2\<rparr> n s \<and> wsAcked s = {0, 1} \<and>
     (\<exists>k t. wait_on \<lparr>wrAckCh = True, wrNeeded = 1, wrTotal = 2\<rparr> k s t \<and> wsPoint t = Returned (Ok ()))"
proof -
  let ?w = "\<lparr>wrAckCh = True, wrNeeded = 1, wrTotal = 2\<rparr>"
  let ?s = "(write_new ?w)\<lparr>wsPending := {}, wsQueue := [0..<wrTotal ?w], wsAcked := {1..<Suc 1}\<rparr>"
  have "write_run ?w 0 ?s" by (rule run_others_acked) simp
  then have run: "write_run ?w 0 (?s\<lparr>wsAcked := insert 0 (wsAcked ?s)\<rparr>)" (is "write_run _ _ ?t") by (rule run_acked) simp
  have free: "wsPending ?t = {}" "wsFailed ?t = {}" "{..<wrTotal ?w} \<subseteq> wsAcked ?t" "wsAcked ?t = {0, 1}" "\<not> wsDone ?t"
    by (auto simp: write_new_def)
  have w: "0 < wrNeeded ?w" "wrNeeded ?w \<le> wrTotal ?w" by simp_all
  from Wait_returns [OF run w] free obtain k t r where t: "wait_on ?w k ?t t" "wsPoint t = Returned r" by blast
  with Wait_returns [OF run w] free(5) have "wsPoint t = Returned (Ok ())" by blast
  with t(1) run free(4) show ?thesis by blast
qed

end
