(* ===== verification/LWWRegisters.thy ===== *)
theory LWWRegisters
  imports Replica
begin

text \<open>
  The last-writer-wins register: the storage type (\<^verbatim>\<open>lwwreg.go\<close>) and the public type over a
  replica with the last-writer-wins clock (\<^verbatim>\<open>node.go\<close>). Its view is one cell, a dot with the
  bytes written under it.
\<close>

section \<open>Definitions\<close>

record 'v lwwRegisterState =
  lrCodec :: "'v Codec"
  lrValBytes :: bytes
  lrDot :: Dot
  lrHasVal :: bool

definition newLWWRegisterState :: "'v Codec option \<Rightarrow> 'v lwwRegisterState go" where
  "newLWWRegisterState codec =
     go_bind (requireCodec codec) (\<lambda>_.
       Ok \<lparr>lrCodec = the codec, lrValBytes = [], lrDot = mkDot 0 0, lrHasVal = False\<rparr>)"

definition lwwRegisterState_Set :: "'v lwwRegisterState \<Rightarrow> 'v \<Rightarrow> Dot \<Rightarrow> 'v lwwRegisterState \<times> bytes go" where
  "lwwRegisterState_Set r v dot =
     (case Encode (lrCodec r) v of
        Inl e \<Rightarrow> (r, Err e)
      | Inr b \<Rightarrow> (r\<lparr>lrValBytes := b, lrDot := dot, lrHasVal := True\<rparr>, Ok (appendVarintBytes [] b @ encodeDot dot)))"

definition lwwRegisterState_SetBytes :: "'v lwwRegisterState \<Rightarrow> bytes \<Rightarrow> Dot \<Rightarrow> 'v lwwRegisterState" where
  "lwwRegisterState_SetBytes r valBytes dot = r\<lparr>lrValBytes := valBytes, lrDot := dot, lrHasVal := True\<rparr>"

definition lwwRegisterState_Get :: "'v lwwRegisterState \<Rightarrow> ('v \<times> Dot) option" where
  "lwwRegisterState_Get r =
     (if \<not> lrHasVal r then None
      else case Decode (lrCodec r) (lrValBytes r) of Inl _ \<Rightarrow> None | Inr v \<Rightarrow> Some (v, lrDot r))"

definition lwwRegisterState_GetBytes :: "'v lwwRegisterState \<Rightarrow> (bytes \<times> Dot) option" where
  "lwwRegisterState_GetBytes r = (if \<not> lrHasVal r then None else Some (lrValBytes r, lrDot r))"

definition lwwRegisterState_HasValue :: "'v lwwRegisterState \<Rightarrow> bool" where
  "lwwRegisterState_HasValue r = lrHasVal r"

definition lwwRegisterState_EntryMeta :: "'v lwwRegisterState \<Rightarrow> bytes \<Rightarrow> bytes option" where
  "lwwRegisterState_EntryMeta r key = (if \<not> lrHasVal r then None else Some (encodeDot (lrDot r)))"

definition lwwRegisterState_TombstoneMeta :: "'v lwwRegisterState \<Rightarrow> bytes \<Rightarrow> bytes option" where
  "lwwRegisterState_TombstoneMeta r key = None"

definition lwwRegisterState_ParseDelta :: "'v lwwRegisterState \<Rightarrow> bytes \<Rightarrow> deltaInfo go" where
  "lwwRegisterState_ParseDelta r delta =
     go_bind (readVarintBytes delta 0) (\<lambda>(_, off).
       if off + 16 > int (length delta) then Err ErrShortBuffer
       else go_bind (go_bind (slice_from delta off) decodeDot) (\<lambda>dot. go_bind (slice delta off (off + 16)) (\<lambda>meta.
         Ok \<lparr>diOp = 0, diKey = [], diMeta = meta, diContext = None, diDots = [dot]\<rparr>)))"

definition lwwRegisterState_Apply :: "'v lwwRegisterState \<Rightarrow> bytes \<Rightarrow> 'v lwwRegisterState \<times> unit go" where
  "lwwRegisterState_Apply r delta =
     (case go_bind (readVarintBytes delta 0) (\<lambda>(valBytes, off).
         if off + 16 > int (length delta) then Err ErrShortBuffer
         else go_bind (go_bind (slice_from delta off) decodeDot) (\<lambda>remoteDot. Ok (valBytes, remoteDot))) of
        Ok (valBytes, remoteDot) \<Rightarrow> (lwwRegisterState_SetBytes r valBytes remoteDot, Ok ())
      | Err e \<Rightarrow> (r, Err e)
      | Panic \<Rightarrow> (r, Panic))"

definition lwwRegisterState_DeltasSince :: "'v lwwRegisterState \<Rightarrow> VClock \<Rightarrow> bytes list" where
  "lwwRegisterState_DeltasSince r peerHWM =
     (if \<not> lrHasVal r then []
      else if Counter (lrDot r) \<le> VClock_Get peerHWM (Replica (lrDot r)) then []
      else [appendVarintBytes [] (lrValBytes r) @ encodeDot (lrDot r)])"

definition lwwRegisterM :: "'v lwwRegisterState mergeable" where
  "lwwRegisterM = \<lparr>mEntryMeta = lwwRegisterState_EntryMeta, mTombstoneMeta = lwwRegisterState_TombstoneMeta,
     mParseDelta = (\<lambda>r d. (r, lwwRegisterState_ParseDelta r d)), mApply = lwwRegisterState_Apply,
     mDeltasSince = lwwRegisterState_DeltasSince, mGCTombstones = None\<rparr>"

subsection \<open>The public type (node.go)\<close>

type_synonym 'v LWWRegister = "'v lwwRegisterState replica"

definition NewLWWRegister :: "maphash \<Rightarrow> ReplicaID \<Rightarrow> 'v Codec option \<Rightarrow> Option list \<Rightarrow> 'v LWWRegister go" where
  "NewLWWRegister mh rid codec opts =
     go_map (\<lambda>state. newReplica mh rid state lwwClock opts) (newLWWRegisterState codec)"

definition LWWRegister_Set ::
    "maphash \<Rightarrow> 'v LWWRegister \<Rightarrow> 'v \<Rightarrow> 'v LWWRegister \<times> (sends \<times> WriteResult) go" where
  "LWWRegister_Set mh reg v =
     (let (r, dot) = replica_nextDot reg; (s, d) = lwwRegisterState_Set (rData r) v dot; r = r\<lparr>rData := s\<rparr> in
      case d of
        Err e \<Rightarrow> (r, Err e)
      | Panic \<Rightarrow> (r, Panic)
      | Ok delta \<Rightarrow> (let r = replica_trackKey mh lwwRegisterM r [] in (r, Ok (replica_propagate r dot delta))))"

definition LWWRegister_Get :: "'v LWWRegister \<Rightarrow> 'v option" where
  "LWWRegister_Get reg = map_option fst (lwwRegisterState_Get (rData reg))"

definition LWWRegister_Close :: "'v LWWRegister \<Rightarrow> 'v LWWRegister" where
  "LWWRegister_Close m = replica_Close m"

section \<open>The view and the deltas\<close>

definition lr_view :: "'v lwwRegisterState \<Rightarrow> unit \<Rightarrow> (Dot \<times> bytes) option" where
  "lr_view r _ = (if lrHasVal r then Some (lrDot r, lrValBytes r) else None)"

definition lr_delta :: "unit \<times> Dot \<times> bytes \<Rightarrow> bytes" where
  "lr_delta x = appendVarintBytes [] (snd (snd x)) @ encodeDot (fst (snd x))"

definition lr_fits :: "unit \<times> Dot \<times> bytes \<Rightarrow> bool" where
  "lr_fits x \<longleftrightarrow> length (lr_delta x) < 2 ^ 63"

definition lr_deliver :: "maphash \<Rightarrow> unit \<times> Dot \<times> bytes \<Rightarrow> 'v LWWRegister \<Rightarrow> 'v LWWRegister" where
  "lr_deliver mh x r = fst (replica_applyDelta mh lwwRegisterM r 0 (mkDot 0 0) (lr_delta x))"

lemma lwwRegisterM_simps [simp]:
  "mEntryMeta lwwRegisterM = lwwRegisterState_EntryMeta" "mTombstoneMeta lwwRegisterM = lwwRegisterState_TombstoneMeta"
  "mParseDelta lwwRegisterM = (\<lambda>r d. (r, lwwRegisterState_ParseDelta r d))" "mApply lwwRegisterM = lwwRegisterState_Apply"
  "mDeltasSince lwwRegisterM = lwwRegisterState_DeltasSince" "mGCTombstones lwwRegisterM = None"
  by (simp_all add: lwwRegisterM_def)

lemma lr_delta_read:
  assumes "lr_fits (u, d, b)"
  shows "lwwRegisterState_ParseDelta r (lr_delta (u, d, b)) =
      Ok \<lparr>diOp = 0, diKey = [], diMeta = encodeDot d, diContext = None, diDots = [d]\<rparr>"
    and "lwwRegisterState_Apply r (lr_delta (u, d, b)) = (lwwRegisterState_SetBytes r b d, Ok ())"
proof -
  have len: "length (appendVarintBytes [] b @ encodeDot d @ []) < 2 ^ 63"
    using assms by (simp add: lr_fits_def lr_delta_def)
  note [simp] = lr_delta_def lwwRegisterState_ParseDelta_def lwwRegisterState_Apply_def
  show "lwwRegisterState_ParseDelta r (lr_delta (u, d, b)) =
      Ok \<lparr>diOp = 0, diKey = [], diMeta = encodeDot d, diContext = None, diDots = [d]\<rparr>"
    by (rule read_field_dot [OF len]) (simp del: length_append)
  show "lwwRegisterState_Apply r (lr_delta (u, d, b)) = (lwwRegisterState_SetBytes r b d, Ok ())"
    by (rule read_field_dot [OF len]) (simp del: length_append)
qed

lemma lr_allows:
  assumes "diMeta info = encodeDot d"
  shows "lwwClock (queryable_of lwwRegisterM s) info \<longleftrightarrow> (case lr_view s () of None \<Rightarrow> True | Some (l, _) \<Rightarrow> l < d)"
  using assms
  by (auto simp: lwwClock_def queryable_of_def lwwRegisterState_EntryMeta_def lwwRegisterState_TombstoneMeta_def
      lr_view_def not_le)

lemma lr_view_Set: "lr_view (lwwRegisterState_SetBytes r b d) = (\<lambda>_. Some (d, b))"
  by (auto simp: lr_view_def lwwRegisterState_SetBytes_def)

interpretation lwwreg: storage lwwRegisterM "\<lambda>_. True"
  by unfold_locales auto

definition lr_inv :: "maphash \<Rightarrow> 'v LWWRegister \<Rightarrow> bool" where
  "lr_inv mh r \<longleftrightarrow> lwwreg.replica_inv mh r \<and> rStrategy r = lwwClock"

lemma lr_deliver_data:
  assumes "rStrategy r = lwwClock" "lr_fits ((), d, b)"
  shows "rData (lr_deliver mh ((), d, b) r) =
    (if (case lr_view (rData r) () of None \<Rightarrow> True | Some (l, _) \<Rightarrow> l < d)
     then lwwRegisterState_SetBytes (rData r) b d else rData r)"
proof -
  let ?info = "\<lparr>diOp = 0, diKey = [], diMeta = encodeDot d, diContext = None, diDots = [d]\<rparr>"
  have p: "mParseDelta lwwRegisterM (rData r) (lr_delta ((), d, b)) = (rData r, Ok ?info)"
    using lr_delta_read(1) [OF assms(2)] by simp
  show ?thesis
    unfolding lr_deliver_def applyDelta_data [OF p] assms(1)
    using lr_delta_read(2) [OF assms(2), of "rData r"] lr_allows [of ?info d "rData r"] by simp
qed

interpretation lwwreg_sec: delta_crdt "lr_deliver mh" "\<lambda>r. lr_view (rData r)" lww_step lr_fits same_write "lr_inv mh" for mh
proof
  fix r :: "'a LWWRegister" and x :: "unit \<times> Dot \<times> bytes"
  assume r: "lr_inv mh r" and x: "lr_fits x"
  show "lr_inv mh (lr_deliver mh x r)"
    using r by (simp add: lr_inv_def lr_deliver_def lwwreg.applyDelta_inv)
  obtain d b where xd: "x = ((), d, b)" by (cases x) auto
  have "rStrategy r = lwwClock" using r by (simp add: lr_inv_def)
  from lr_deliver_data [OF this, of d b mh] x xd show "lr_view (rData (lr_deliver mh x r)) = lww_step x (lr_view (rData r))"
    by (auto simp: lww_step_def lr_view_Set)
qed (rule lww_step_commute lww_step_idem, assumption?)+

lemma lr_codec_deliver:
  "lr_inv mh r \<Longrightarrow> list_all lr_fits ds \<Longrightarrow> lrCodec (rData (fold (lr_deliver mh) ds r)) = lrCodec (rData r)"
proof (induction ds arbitrary: r)
  case (Cons x ds)
  obtain d b where x: "x = ((), d, b)" by (cases x) auto
  have "lr_inv mh (lr_deliver mh x r)" using Cons.prems by (simp add: lwwreg_sec.inv_deliver)
  with Cons x show ?case by (simp add: lr_deliver_data lr_inv_def lwwRegisterState_SetBytes_def)
qed simp

definition lr_read :: "'v Codec \<Rightarrow> (Dot \<times> bytes) option \<Rightarrow> 'v option" where
  "lr_read cd cell = (case cell of None \<Rightarrow> None | Some (_, b) \<Rightarrow> (case Decode cd b of Inr v \<Rightarrow> Some v | Inl _ \<Rightarrow> None))"

lemma LWWRegister_Get_view: "LWWRegister_Get r = lr_read (lrCodec (rData r)) (lr_view (rData r) ())"
  by (auto simp: LWWRegister_Get_def lwwRegisterState_Get_def lr_view_def lr_read_def split: sum.splits)

lemma NewLWWRegister_Ok:
  assumes "MakeSeed mh \<noteq> 0"
  obtains r where "NewLWWRegister mh i (Some c) opts = Ok r" "lr_inv mh r" "lr_view (rData r) = (\<lambda>_. None)"
    "lrCodec (rData r) = c" "rLocal r = newLocalClock i"
proof -
  let ?s = "\<lparr>lrCodec = c, lrValBytes = [], lrDot = mkDot 0 0, lrHasVal = False\<rparr>"
  let ?r = "newReplica mh i ?s lwwClock opts"
  have "rLocal ?r = newLocalClock i" by (simp add: newReplica_def Let_def)
  then show ?thesis
    using assms received.inv_empty
    by (intro that [of ?r]) (auto simp: NewLWWRegister_def newLWWRegisterState_def requireCodec_def
        lr_inv_def lwwreg.replica_inv_def mm_inv_new lr_view_def)
qed

section \<open>Properties\<close>

text \<open>The register holds the write with the greatest dot.\<close>

lemma lr_greatest:
  assumes "\<forall>d \<in> set ds. \<forall>e \<in> set ds. same_write d e" "((), d, b) \<in> set ds" "\<forall>e \<in> set ds. fst (snd e) \<le> d"
  shows "fold lww_step ds (\<lambda>_. None) () = Some (d, b)"
proof -
  obtain l b' where l: "fold lww_step ds (\<lambda>_. None) () = Some (l, b')" "d \<le> l"
    using lww_fold_covers [OF assms(2)] by blast
  then have mem: "((), l, b') \<in> set ds" using lww_fold_origin [of ds "\<lambda>_. None" "()"] by auto
  with assms(3) l(2) have "l = d" by force
  moreover have "same_write ((), d, b) ((), l, b')" using assms(1,2) mem by blast
  ultimately show ?thesis using l(1) by (simp add: same_write_def)
qed

text \<open>
  C19: strong eventual consistency of the register: replicas that received the same writes, in any order and any number of
  times, read the same: nothing when there was no write, and otherwise the decoded value of the write with the
  greatest dot.
\<close>

theorem LWWRegister_converges:
  assumes "MakeSeed mh \<noteq> 0" "MakeSeed mh' \<noteq> 0"
    and "NewLWWRegister mh i (Some c) opts = Ok r" "NewLWWRegister mh' j (Some c) opts' = Ok r'"
    and "list_all lr_fits ds" "\<forall>d \<in> set ds. \<forall>e \<in> set ds. same_write d e" "set ds = set es"
  shows "LWWRegister_Get (fold (lr_deliver mh) ds r) = LWWRegister_Get (fold (lr_deliver mh') es r') \<and>
    (ds = [] \<longrightarrow> LWWRegister_Get (fold (lr_deliver mh) ds r) = None) \<and>
    (\<forall>d b. ((), d, b) \<in> set ds \<and> (\<forall>e \<in> set ds. fst (snd e) \<le> d) \<longrightarrow>
       LWWRegister_Get (fold (lr_deliver mh) ds r) = (case Decode c b of Inr v \<Rightarrow> Some v | Inl _ \<Rightarrow> None))"
proof -
  have r: "lr_inv mh r" "lr_view (rData r) = (\<lambda>_. None)" "lrCodec (rData r) = c"
    using NewLWWRegister_Ok [OF assms(1), of i c opts] assms(3) by auto
  have r': "lr_inv mh' r'" "lr_view (rData r') = (\<lambda>_. None)" "lrCodec (rData r') = c"
    using NewLWWRegister_Ok [OF assms(2), of j c opts'] assms(4) by auto
  have es: "list_all lr_fits es" "\<forall>d \<in> set es. \<forall>e \<in> set es. same_write d e"
    using assms(5-7) by (auto simp: list_all_iff)
  have v: "lr_view (rData (fold (lr_deliver mh) ds r)) = lr_view (rData (fold (lr_deliver mh') es r'))"
    using lwwreg_sec.view_of_set [OF r(1) assms(5,6)] lwwreg_sec.view_of_set [OF r'(1) es] r(2) r'(2) assms(7) by simp
  have f: "lr_view (rData (fold (lr_deliver mh) ds r)) = fold lww_step ds (\<lambda>_. None)"
    using lwwreg_sec.deliver_all [OF r(1) assms(5)] r(2) by simp
  have get: "LWWRegister_Get (fold (lr_deliver mh) ds r) = lr_read c (fold lww_step ds (\<lambda>_. None) ())"
    by (simp add: LWWRegister_Get_view lr_codec_deliver [OF r(1) assms(5)] r(3) f)
  have get': "LWWRegister_Get (fold (lr_deliver mh') es r') = lr_read c (fold lww_step ds (\<lambda>_. None) ())"
    by (simp add: LWWRegister_Get_view lr_codec_deliver [OF r'(1) es(1)] r'(3) v [symmetric] f)
  have "lr_read c (fold lww_step ds (\<lambda>_. None) ()) = (case Decode c b of Inr v \<Rightarrow> Some v | Inl _ \<Rightarrow> None)"
    if "((), d, b) \<in> set ds \<and> (\<forall>e \<in> set ds. fst (snd e) \<le> d)" for d b
    using lr_greatest [OF assms(6), of d b] that by (simp add: lr_read_def)
  moreover have "ds = [] \<Longrightarrow> lr_read c (fold lww_step ds (\<lambda>_. None) ()) = None" by (simp add: lr_read_def)
  ultimately show ?thesis unfolding get get' by blast
qed

theorem LWWRegister_converges_witness:
  "\<exists>r r'. NewLWWRegister demo_hash 1 (Some StringCodec) [] = Ok r \<and> NewLWWRegister demo_hash 2 (Some StringCodec) [] = Ok r' \<and>
     LWWRegister_Get (fold (lr_deliver demo_hash) [((), mkDot 4 2, [6]), ((), mkDot 3 1, [5])] r) = Some [6] \<and>
     LWWRegister_Get (fold (lr_deliver demo_hash) [((), mkDot 3 1, [5]), ((), mkDot 4 2, [6])] r') = Some [6]"
proof -
  have seed: "MakeSeed demo_hash \<noteq> 0" by simp
  obtain r :: "bytes LWWRegister" where r: "NewLWWRegister demo_hash 1 (Some StringCodec) [] = Ok r"
    by (rule NewLWWRegister_Ok [OF seed])
  obtain r' :: "bytes LWWRegister" where r': "NewLWWRegister demo_hash 2 (Some StringCodec) [] = Ok r'"
    by (rule NewLWWRegister_Ok [OF seed])
  let ?ds = "[((), mkDot 4 2, [6]), ((), mkDot 3 1, [5])]" and ?es = "[((), mkDot 3 1, [5]), ((), mkDot 4 2, [6])]"
  have fits: "lr_fits ((), d, [x])" for d x
    using length_PutUvarint_short [of 1] by (simp add: lr_fits_def lr_delta_def length_append_varint)
  then have c: "list_all lr_fits ?ds" "\<forall>d \<in> set ?ds. \<forall>e \<in> set ?ds. same_write d e" "set ?ds = set ?es"
    by (auto simp: same_write_def)
  have top: "((), mkDot 4 2, [6]) \<in> set ?ds \<and> (\<forall>e \<in> set ?ds. fst (snd e) \<le> mkDot 4 2)"
    by (auto simp: less_eq_Dot_ext_def)
  note p = LWWRegister_converges [OF seed seed r r' c]
  have "LWWRegister_Get (fold (lr_deliver demo_hash) ?ds r) = (case Decode StringCodec [6] of Inr v \<Rightarrow> Some v | Inl _ \<Rightarrow> None)"
    using p top by blast
  then have "LWWRegister_Get (fold (lr_deliver demo_hash) ?ds r) = Some [6]" by (simp add: StringCodec_def del: fold_simps)
  with p r r' show ?thesis by metis
qed

end
