(* ===== verification/MVRegisters.thy ===== *)
theory MVRegisters
  imports Replica
begin

text \<open>
  The multi-value register: the storage type (\<^verbatim>\<open>mvreg.go\<close>) and the public type over a replica
  whose clock allows everything (\<^verbatim>\<open>node.go\<close>). Its view is the set of stamped values; a delta
  prunes what its context covers and adds its own value.
\<close>

section \<open>Definitions\<close>

record mvEntry =
  mvValBytes :: bytes
  mvDot :: Dot

record 'v mvRegisterState =
  mrCodec :: "'v Codec"
  mrEntries :: "mvEntry list"

definition newMVRegisterState :: "'v Codec option \<Rightarrow> 'v mvRegisterState go" where
  "newMVRegisterState codec = go_bind (requireCodec codec) (\<lambda>_. Ok \<lparr>mrCodec = the codec, mrEntries = []\<rparr>)"

definition mvRegisterState_Write ::
    "'v mvRegisterState \<Rightarrow> 'v \<Rightarrow> Dot \<Rightarrow> VClock \<Rightarrow> 'v mvRegisterState \<times> bytes go" where
  "mvRegisterState_Write r v dot context =
     (case Encode (mrCodec r) v of
        Inl e \<Rightarrow> (r, Err e)
      | Inr b \<Rightarrow> (r\<lparr>mrEntries := [\<lparr>mvValBytes = b, mvDot = dot\<rparr>]\<rparr>,
                  Ok (appendVarintBytes [] b @ encodeDot dot @ encodeVClock context)))"

definition mvRegisterState_Set :: "'v mvRegisterState \<Rightarrow> 'v \<Rightarrow> Dot \<Rightarrow> 'v mvRegisterState \<times> unit go" where
  "mvRegisterState_Set r v dot =
     (case Encode (mrCodec r) v of
        Inl e \<Rightarrow> (r, Err e)
      | Inr b \<Rightarrow> (r\<lparr>mrEntries := [\<lparr>mvValBytes = b, mvDot = dot\<rparr>]\<rparr>, Ok ()))"

definition mvRegisterState_SetEntries :: "'v mvRegisterState \<Rightarrow> (bytes \<times> Dot) list \<Rightarrow> 'v mvRegisterState" where
  "mvRegisterState_SetEntries r entries = r\<lparr>mrEntries := map (\<lambda>(b, d). \<lparr>mvValBytes = b, mvDot = d\<rparr>) entries\<rparr>"

fun valuesLoop :: "'v Codec \<Rightarrow> mvEntry list \<Rightarrow> 'v list \<Rightarrow> goerror + 'v list" where
  "valuesLoop c [] out = Inr out"
| "valuesLoop c (e # es) out =
     (case Decode c (mvValBytes e) of Inl err \<Rightarrow> Inl err | Inr v \<Rightarrow> valuesLoop c es (out @ [v]))"

definition mvRegisterState_Values :: "'v mvRegisterState \<Rightarrow> goerror + 'v list" where
  "mvRegisterState_Values r = valuesLoop (mrCodec r) (mrEntries r) []"

definition mvRegisterState_RangeEntries ::
    "'v mvRegisterState \<Rightarrow> (bytes \<Rightarrow> Dot \<Rightarrow> 'x \<Rightarrow> 'x \<times> bool) \<Rightarrow> 'x \<Rightarrow> 'x" where
  "mvRegisterState_RangeEntries r fn x = rangeLoop (\<lambda>e. fn (mvValBytes e) (mvDot e)) (mrEntries r) x"

definition mvRegisterState_Len :: "'v mvRegisterState \<Rightarrow> nat" where
  "mvRegisterState_Len r = length (mrEntries r)"

definition mvRegisterState_EntryMeta :: "'v mvRegisterState \<Rightarrow> bytes \<Rightarrow> bytes option" where
  "mvRegisterState_EntryMeta r key = None"

definition mvRegisterState_TombstoneMeta :: "'v mvRegisterState \<Rightarrow> bytes \<Rightarrow> bytes option" where
  "mvRegisterState_TombstoneMeta r key = None"

definition mvRegisterState_ParseDelta :: "'v mvRegisterState \<Rightarrow> bytes \<Rightarrow> deltaInfo go" where
  "mvRegisterState_ParseDelta r delta =
     go_bind (readVarintBytes delta 0) (\<lambda>(_, off).
       if off + 16 > int (length delta) then Err ErrShortBuffer
       else go_bind (go_bind (slice_from delta off) decodeDot) (\<lambda>dot. go_bind (slice delta off (off + 16)) (\<lambda>meta.
         Ok \<lparr>diOp = 0, diKey = [], diMeta = meta, diContext = None, diDots = [dot]\<rparr>)))"

definition mvRegisterState_Apply :: "'v mvRegisterState \<Rightarrow> bytes \<Rightarrow> 'v mvRegisterState \<times> unit go" where
  "mvRegisterState_Apply r delta =
     (case go_bind (readVarintBytes delta 0) (\<lambda>(valBytes, off).
         if off + 16 > int (length delta) then Err ErrShortBuffer
         else go_bind (go_bind (slice_from delta off) decodeDot) (\<lambda>remoteDot.
           go_bind (go_bind (slice_from delta (off + 16)) decodeVClock) (\<lambda>remoteCtx.
             Ok (valBytes, remoteDot, remoteCtx)))) of
        Err e \<Rightarrow> (r, Err e)
      | Panic \<Rightarrow> (r, Panic)
      | Ok (valBytes, remoteDot, remoteCtx) \<Rightarrow>
          (let surviving = filter (\<lambda>e. \<not> VClock_Get remoteCtx (Replica (mvDot e)) \<ge> Counter (mvDot e)) (mrEntries r);
               addRemote = \<not> list_ex (\<lambda>e. Replica (mvDot e) = Replica remoteDot \<and> Counter (mvDot e) \<ge> Counter remoteDot) surviving;
               surviving = (if addRemote then surviving @ [\<lparr>mvValBytes = valBytes, mvDot = remoteDot\<rparr>] else surviving)
           in (r\<lparr>mrEntries := surviving\<rparr>, Ok ())))"

definition mvRegisterState_DeltasSince :: "'v mvRegisterState \<Rightarrow> VClock \<Rightarrow> bytes list" where
  "mvRegisterState_DeltasSince r peerHWM =
     (let ctx = fold (\<lambda>e ctx. if Counter (mvDot e) > VClock_Get ctx (Replica (mvDot e))
            then mput (Replica (mvDot e)) (Counter (mvDot e)) ctx else ctx) (mrEntries r) []
      in concat (map (\<lambda>e. if Counter (mvDot e) > VClock_Get peerHWM (Replica (mvDot e))
            then [appendVarintBytes [] (mvValBytes e) @ encodeDot (mvDot e) @ encodeVClock ctx] else []) (mrEntries r)))"

definition mvRegisterM :: "'v mvRegisterState mergeable" where
  "mvRegisterM = \<lparr>mEntryMeta = mvRegisterState_EntryMeta, mTombstoneMeta = mvRegisterState_TombstoneMeta,
     mParseDelta = (\<lambda>r d. (r, mvRegisterState_ParseDelta r d)), mApply = mvRegisterState_Apply,
     mDeltasSince = mvRegisterState_DeltasSince, mGCTombstones = None\<rparr>"

subsection \<open>The public type (node.go)\<close>

type_synonym 'v MVRegister = "'v mvRegisterState replica"

definition NewMVRegister :: "maphash \<Rightarrow> ReplicaID \<Rightarrow> 'v Codec option \<Rightarrow> Option list \<Rightarrow> 'v MVRegister go" where
  "NewMVRegister mh rid codec opts =
     go_map (\<lambda>state. newReplica mh rid state alwaysMergeClock opts) (newMVRegisterState codec)"

definition MVRegister_Write ::
    "maphash \<Rightarrow> 'v MVRegister \<Rightarrow> 'v \<Rightarrow> 'v MVRegister \<times> (sends \<times> WriteResult) go" where
  "MVRegister_Write mh reg v =
     (let (r, dot) = replica_nextDot reg;
          (s, d) = mvRegisterState_Write (rData r) v dot (receivedClock_HWM (rReceived r)); r = r\<lparr>rData := s\<rparr> in
      case d of
        Err e \<Rightarrow> (r, Err e)
      | Panic \<Rightarrow> (r, Panic)
      | Ok delta \<Rightarrow> (let r = replica_trackKey mh mvRegisterM r [] in (r, Ok (replica_propagate r dot delta))))"

definition MVRegister_Values :: "'v MVRegister \<Rightarrow> goerror + 'v list" where
  "MVRegister_Values reg = mvRegisterState_Values (rData reg)"

definition MVRegister_Len :: "'v MVRegister \<Rightarrow> nat" where
  "MVRegister_Len reg = mvRegisterState_Len (rData reg)"

definition MVRegister_Close :: "'v MVRegister \<Rightarrow> 'v MVRegister" where
  "MVRegister_Close m = replica_Close m"

section \<open>The view and the deltas\<close>

definition mv_view :: "'v mvRegisterState \<Rightarrow> (Dot \<times> bytes) set" where
  "mv_view r = (\<lambda>e. (mvDot e, mvValBytes e)) ` set (mrEntries r)"

definition mv_delta :: "Dot \<times> bytes \<times> VClock \<Rightarrow> bytes" where
  "mv_delta x = (case x of (d, b, ctx) \<Rightarrow> appendVarintBytes [] b @ encodeDot d @ encodeVClock ctx)"

definition mv_fits :: "Dot \<times> bytes \<times> VClock \<Rightarrow> bool" where
  "mv_fits x \<longleftrightarrow> length (mv_delta x) < 2 ^ 63 \<and> wf_map (snd (snd x)) \<and> length (snd (snd x)) < 2 ^ 32"

definition covers :: "VClock \<Rightarrow> Dot \<Rightarrow> bool" where
  "covers ctx d \<longleftrightarrow> Counter d \<le> VClock_Get ctx (Replica d)"

definition mv_step :: "Dot \<times> bytes \<times> VClock \<Rightarrow> (Dot \<times> bytes) set \<Rightarrow> (Dot \<times> bytes) set" where
  "mv_step x E = (case x of (d, b, ctx) \<Rightarrow>
     (let S = {e \<in> E. \<not> covers ctx (fst e)} in
      if \<exists>e \<in> S. Replica (fst e) = Replica d \<and> Counter d \<le> Counter (fst e) then S else insert (d, b) S))"

definition mv_deliver :: "maphash \<Rightarrow> Dot \<times> bytes \<times> VClock \<Rightarrow> 'v MVRegister \<Rightarrow> 'v MVRegister" where
  "mv_deliver mh x r = fst (replica_applyDelta mh mvRegisterM r 0 (mkDot 0 0) (mv_delta x))"

lemma mvRegisterM_simps [simp]:
  "mEntryMeta mvRegisterM = mvRegisterState_EntryMeta" "mTombstoneMeta mvRegisterM = mvRegisterState_TombstoneMeta"
  "mParseDelta mvRegisterM = (\<lambda>r d. (r, mvRegisterState_ParseDelta r d))" "mApply mvRegisterM = mvRegisterState_Apply"
  "mDeltasSince mvRegisterM = mvRegisterState_DeltasSince" "mGCTombstones mvRegisterM = None"
  by (simp_all add: mvRegisterM_def)

lemma mv_delta_read:
  assumes "mv_fits (d, b, ctx)"
  shows "mvRegisterState_ParseDelta r (mv_delta (d, b, ctx)) =
      Ok \<lparr>diOp = 0, diKey = [], diMeta = encodeDot d, diContext = None, diDots = [d]\<rparr>"
    and "snd (mvRegisterState_Apply r (mv_delta (d, b, ctx))) = Ok ()"
    and "mv_view (fst (mvRegisterState_Apply r (mv_delta (d, b, ctx)))) = mv_step (d, b, ctx) (mv_view r)"
proof -
  have len: "length (appendVarintBytes [] b @ encodeDot d @ encodeVClock ctx) < 2 ^ 63"
    and ctx: "decodeVClock (encodeVClock ctx) = Ok (sorted_map ctx)"
    using assms by (simp_all add: mv_fits_def mv_delta_def decodeVClock_encodeVClock')
  show "mvRegisterState_ParseDelta r (mv_delta (d, b, ctx)) =
      Ok \<lparr>diOp = 0, diKey = [], diMeta = encodeDot d, diContext = None, diDots = [d]\<rparr>"
    by (rule read_field_dot [OF len]) (simp add: mv_delta_def mvRegisterState_ParseDelta_def del: length_append)
  let ?S = "filter (\<lambda>e. \<not> VClock_Get ctx (Replica (mvDot e)) \<ge> Counter (mvDot e)) (mrEntries r)"
  let ?T = "if list_ex (\<lambda>e. Replica (mvDot e) = Replica d \<and> Counter (mvDot e) \<ge> Counter d) ?S then ?S
    else ?S @ [\<lparr>mvValBytes = b, mvDot = d\<rparr>]"
  have ap: "mvRegisterState_Apply r (mv_delta (d, b, ctx)) = (r\<lparr>mrEntries := ?T\<rparr>, Ok ())"
    by (rule read_field_dot [OF len]) (simp add: mv_delta_def mvRegisterState_Apply_def ctx del: length_append)
  then show "snd (mvRegisterState_Apply r (mv_delta (d, b, ctx))) = Ok ()" by simp
  show "mv_view (fst (mvRegisterState_Apply r (mv_delta (d, b, ctx)))) = mv_step (d, b, ctx) (mv_view r)"
  proof -
    have img: "(\<lambda>e. (mvDot e, mvValBytes e)) ` set ?S = {e \<in> mv_view r. \<not> covers ctx (fst e)}"
      by (auto simp: mv_view_def covers_def)
    have ex: "list_ex (\<lambda>e. Replica (mvDot e) = Replica d \<and> Counter (mvDot e) \<ge> Counter d) ?S \<longleftrightarrow>
        (\<exists>e \<in> {e \<in> mv_view r. \<not> covers ctx (fst e)}. Replica (fst e) = Replica d \<and> Counter d \<le> Counter (fst e))"
      unfolding img [symmetric] by (auto simp: list_ex_iff)
    have upd: "mv_view (r\<lparr>mrEntries := xs\<rparr>) = (\<lambda>e. (mvDot e, mvValBytes e)) ` set xs" for xs
      by (simp add: mv_view_def)
    show ?thesis
      unfolding ap fst_conv upd mv_step_def Let_def prod.case ex [symmetric] img [symmetric]
      by (simp add: list_ex_iff) (intro impI, elim exE conjE, drule_tac x = e in spec, simp)
  qed
qed

interpretation mvreg: storage mvRegisterM "\<lambda>r. distinct (map mvDot (mrEntries r))"
proof
  fix s :: "'a mvRegisterState" and delta
  assume d: "distinct (map mvDot (mrEntries s))"
  show "distinct (map mvDot (mrEntries (fst (mApply mvRegisterM s delta))))"
    using d by (auto simp: mvRegisterState_Apply_def Let_def distinct_map_filter list_ex_iff
        split: go.splits prod.splits)
qed auto

definition mv_inv :: "maphash \<Rightarrow> 'v MVRegister \<Rightarrow> bool" where
  "mv_inv mh r \<longleftrightarrow> mvreg.replica_inv mh r \<and> rStrategy r = alwaysMergeClock"

lemma mv_deliver_view:
  assumes "rStrategy r = alwaysMergeClock" "mv_fits x"
  shows "mv_view (rData (mv_deliver mh x r)) = mv_step x (mv_view (rData r))"
proof -
  obtain d b ctx where x: "x = (d, b, ctx)" by (cases x)
  have p: "mParseDelta mvRegisterM (rData r) (mv_delta x) =
      (rData r, Ok \<lparr>diOp = 0, diKey = [], diMeta = encodeDot d, diContext = None, diDots = [d]\<rparr>)"
    using mv_delta_read(1) assms(2) by (simp add: x)
  show ?thesis
    unfolding mv_deliver_def applyDelta_data [OF p] assms(1)
    using mv_delta_read(3) assms(2) by (simp add: x alwaysMergeClock_def)
qed

lemma mv_deliver_inv: "mv_inv mh r \<Longrightarrow> mv_inv mh (mv_deliver mh x r)"
  by (simp add: mv_inv_def mv_deliver_def mvreg.applyDelta_inv)

text \<open>Concurrent writes: neither context has seen the other's dot, from different replicas.\<close>

definition concurrent_writes :: "Dot \<times> bytes \<times> VClock \<Rightarrow> Dot \<times> bytes \<times> VClock \<Rightarrow> bool" where
  "concurrent_writes x y \<longleftrightarrow> Replica (fst x) \<noteq> Replica (fst y) \<and>
     \<not> covers (snd (snd y)) (fst x) \<and> \<not> covers (snd (snd x)) (fst y)"

lemma mv_step_mem:
  "e \<in> mv_step (d, b, ctx) E \<longleftrightarrow> e \<in> E \<and> \<not> covers ctx (fst e) \<or>
     e = (d, b) \<and> \<not> (\<exists>f \<in> E. \<not> covers ctx (fst f) \<and> Replica (fst f) = Replica d \<and> Counter d \<le> Counter (fst f))"
  by (auto simp: mv_step_def Let_def)

lemma mv_blocked:
  assumes "\<not> covers ctx' d" "Replica (fst f) = Replica d" "Counter d \<le> Counter (fst f)"
  shows "\<not> covers ctx' (fst f)"
  using assms by (auto simp: covers_def)

definition superseded :: "(Dot \<times> bytes) set \<Rightarrow> VClock \<Rightarrow> Dot \<Rightarrow> bool" where
  "superseded E ctx d \<longleftrightarrow> (\<exists>f \<in> E. \<not> covers ctx (fst f) \<and> Replica (fst f) = Replica d \<and> Counter d \<le> Counter (fst f))"

lemma mv_step_superseded:
  assumes "Replica d \<noteq> Replica d'" "\<not> covers c' d"
  shows "superseded (mv_step (d', b', c') E) c d \<longleftrightarrow> superseded E c d"
proof
  assume "superseded (mv_step (d', b', c') E) c d"
  with assms(1) show "superseded E c d" by (fastforce simp: superseded_def mv_step_mem)
next
  assume "superseded E c d"
  then obtain f where f: "f \<in> E" "\<not> covers c (fst f)" "Replica (fst f) = Replica d" "Counter d \<le> Counter (fst f)"
    by (auto simp: superseded_def)
  then have "f \<in> mv_step (d', b', c') E" using mv_blocked [OF assms(2) f(3,4)] by (simp add: mv_step_mem)
  with f show "superseded (mv_step (d', b', c') E) c d" by (auto simp: superseded_def)
qed

lemma mv_step_commute:
  assumes "concurrent_writes x y"
  shows "mv_step x (mv_step y E) = mv_step y (mv_step x E)"
proof -
  obtain d b c where x: "x = (d, b, c)" by (cases x)
  obtain d' b' c' where y: "y = (d', b', c')" by (cases y)
  have h: "Replica d \<noteq> Replica d'" "\<not> covers c' d" "\<not> covers c d'"
    using assms by (auto simp: x y concurrent_writes_def)
  have mem: "e \<in> mv_step (d, b, c) E \<longleftrightarrow> e \<in> E \<and> \<not> covers c (fst e) \<or> e = (d, b) \<and> \<not> superseded E c d" for e d b c E
    by (simp add: mv_step_mem superseded_def)
  have "e \<in> mv_step (d, b, c) (mv_step (d', b', c') E) \<longleftrightarrow> e \<in> mv_step (d', b', c') (mv_step (d, b, c) E)" for e
    unfolding mem [where d = d and E = "mv_step (d', b', c') E"] mem [where d = d' and E = "mv_step (d, b, c) E"]
      mv_step_superseded [OF h(1,2)] mv_step_superseded [OF h(1) [symmetric] h(3)]
    using h(2,3) by (auto simp: mem)
  then show ?thesis unfolding x y by blast
qed

text \<open>Both writes are kept where no unseen value of their own replica is newer.\<close>

lemma mv_step_two:
  assumes "concurrent_writes x y" "\<not> superseded E (snd (snd x)) (fst x)" "\<not> superseded E (snd (snd y)) (fst y)"
  shows "mv_step x (mv_step y E) = {(fst x, fst (snd x)), (fst y, fst (snd y))} \<union>
    {e \<in> E. \<not> covers (snd (snd x)) (fst e) \<and> \<not> covers (snd (snd y)) (fst e)}"
proof -
  obtain d b c where x: "x = (d, b, c)" by (cases x)
  obtain d' b' c' where y: "y = (d', b', c')" by (cases y)
  have h: "Replica d \<noteq> Replica d'" "\<not> covers c' d" "\<not> covers c d'"
    using assms(1) by (auto simp: x y concurrent_writes_def)
  have mem: "e \<in> mv_step (d, b, c) E \<longleftrightarrow> e \<in> E \<and> \<not> covers c (fst e) \<or> e = (d, b) \<and> \<not> superseded E c d" for e d b c E
    by (simp add: mv_step_mem superseded_def)
  have "\<not> superseded (mv_step (d', b', c') E) c d" "\<not> superseded E c' d'"
    using mv_step_superseded [OF h(1,2), of b' E c] assms(2,3) by (simp_all add: x y)
  then show ?thesis unfolding x y set_eq_iff using h(3) by (simp add: mem) blast
qed

lemma mv_fits_short: "length b < 128 \<Longrightarrow> length c \<le> 1 \<Longrightarrow> mv_fits (d, b, c)"
  by (cases c) (auto simp: mv_fits_def mv_delta_def encodeVClock_def length_encodeDotMap length_append_varint length_PutUvarint_short wf_map_def)

lemma NewMVRegister_Ok:
  assumes "MakeSeed mh \<noteq> 0"
  obtains r where "NewMVRegister mh i (Some c) opts = Ok r" "mv_inv mh r" "mv_view (rData r) = {}"
    "mrCodec (rData r) = c" "rLocal r = newLocalClock i"
proof -
  let ?r = "newReplica mh i \<lparr>mrCodec = c, mrEntries = []\<rparr> alwaysMergeClock opts"
  have "rLocal ?r = newLocalClock i" by (simp add: newReplica_def Let_def)
  then show ?thesis
    using assms received.inv_empty
    by (intro that [of ?r]) (auto simp: NewMVRegister_def newMVRegisterState_def requireCodec_def
        mv_inv_def mvreg.replica_inv_def mm_inv_new mv_view_def)
qed

lemma mv_fits_small: "mv_fits (d, [], [])" "mv_fits (d, [], [(r, n)])"
  by (simp_all add: mv_fits_def mv_delta_def encodeVClock_def length_encodeDotMap PutUvarint.simps [of 0] wf_map_def)

lemma MVRegister_Write_data:
  assumes "Encode (mrCodec (rData r)) v = Inr b"
  shows "rData (fst (MVRegister_Write mh r v)) =
    (rData r)\<lparr>mrEntries := [\<lparr>mvValBytes = b, mvDot = mkDot (lcReplica (rLocal r)) (lcCounter (rLocal r) + 1)\<rparr>]\<rparr>"
  using assms by (simp add: MVRegister_Write_def mvRegisterState_Write_def Let_def split_beta)

text \<open>An answer: one delta for every entry the clock does not cover, all with the dots of all entries as their context.\<close>

abbreviation mv_max :: "mvEntry \<Rightarrow> VClock \<Rightarrow> VClock" where
  "mv_max \<equiv> \<lambda>e ctx. if Counter (mvDot e) > VClock_Get ctx (Replica (mvDot e))
     then mput (Replica (mvDot e)) (Counter (mvDot e)) ctx else ctx"

lemma mv_max_covers:
  assumes "wf_map ctx"
  shows "wf_map (fold mv_max es ctx) \<and> length (fold mv_max es ctx) \<le> length ctx + length es \<and>
    (\<forall>d. covers ctx d \<longrightarrow> covers (fold mv_max es ctx) d) \<and> (\<forall>e \<in> set es. covers (fold mv_max es ctx) (mvDot e))"
  using assms
proof (induction es arbitrary: ctx)
  case (Cons e es)
  have "wf_map (mv_max e ctx)" using Cons.prems by simp
  note IH = Cons.IH [OF this]
  have "length (mv_max e ctx) \<le> Suc (length ctx)" by (simp add: length_mput)
  moreover have "covers (mv_max e ctx) (mvDot e)" "covers ctx d \<Longrightarrow> covers (mv_max e ctx) d" for d
    by (auto simp: covers_def VClock_Get_def mget0_def)
  ultimately show ?case using IH by auto
qed simp

lemma DeltasSince_mv:
  "mvRegisterState_DeltasSince s hwm =
     map (\<lambda>e. mv_delta (mvDot e, mvValBytes e, fold mv_max (mrEntries s) [])) (filter (\<lambda>e. \<not> covers hwm (mvDot e)) (mrEntries s))"
proof -
  have "concat (map (\<lambda>e. if P e then [f e] else []) es) = map f (filter P es)" for P and f :: "mvEntry \<Rightarrow> bytes" and es
    by (induction es) simp_all
  then show ?thesis by (simp add: mvRegisterState_DeltasSince_def mv_delta_def covers_def not_le)
qed

section \<open>Properties\<close>

text \<open>
  C35: two concurrent writes, delivered to any register state, reach the same values in either order; unless the register
  holds a value of the same replica with an equal or higher counter that the write had not seen, both are kept, and beside
  them exactly those older values that neither of the two had seen.
\<close>

theorem MVRegister_concurrent:
  assumes "mv_inv mh r" "mv_fits x" "mv_fits y" "concurrent_writes x y"
  shows "mv_view (rData (mv_deliver mh x (mv_deliver mh y r))) = mv_view (rData (mv_deliver mh y (mv_deliver mh x r))) \<and>
    (\<not> superseded (mv_view (rData r)) (snd (snd x)) (fst x) \<and> \<not> superseded (mv_view (rData r)) (snd (snd y)) (fst y) \<longrightarrow>
      mv_view (rData (mv_deliver mh x (mv_deliver mh y r))) = {(fst x, fst (snd x)), (fst y, fst (snd y))} \<union>
        {e \<in> mv_view (rData r). \<not> covers (snd (snd x)) (fst e) \<and> \<not> covers (snd (snd y)) (fst e)})"
proof -
  have st: "rStrategy r = alwaysMergeClock" "rStrategy (mv_deliver mh x r) = alwaysMergeClock"
      "rStrategy (mv_deliver mh y r) = alwaysMergeClock"
    using assms(1) by (simp_all add: mv_inv_def mv_deliver_def)
  have two: "mv_step x (mv_step y E) = {(fst x, fst (snd x)), (fst y, fst (snd y))} \<union>
      {e \<in> E. \<not> covers (snd (snd x)) (fst e) \<and> \<not> covers (snd (snd y)) (fst e)}"
    if "\<not> superseded E (snd (snd x)) (fst x)" "\<not> superseded E (snd (snd y)) (fst y)" for E
    by (rule mv_step_two [OF assms(4) that])
  show ?thesis using mv_step_commute [OF assms(4)] two by (simp add: mv_deliver_view st assms(2,3))
qed

text \<open>A register holds an older value; two replicas that have seen it write concurrently, a third value is concurrent to both.\<close>

theorem MVRegister_concurrent_witness:
  "\<exists>r. NewMVRegister demo_hash 9 (Some StringCodec) [] = Ok r \<and>
     mv_view (rData (mv_deliver demo_hash (mkDot 1 1, [5], [(3, 1)]) (mv_deliver demo_hash (mkDot 2 1, [6], [(3, 1)])
       (mv_deliver demo_hash (mkDot 4 1, [8], []) (mv_deliver demo_hash (mkDot 3 1, [7], []) r)))))
       = {(mkDot 1 1, [5]), (mkDot 2 1, [6]), (mkDot 4 1, [8])}"
proof -
  have seed: "MakeSeed demo_hash \<noteq> 0" by simp
  obtain r :: "bytes MVRegister" where r: "NewMVRegister demo_hash 9 (Some StringCodec) [] = Ok r"
      "mv_inv demo_hash r" "mv_view (rData r) = {}"
    by (rule NewMVRegister_Ok [OF seed])
  let ?a = "mv_deliver demo_hash (mkDot 3 1, [7], []) r"
    and ?x = "(mkDot 1 1, [5] :: bytes, [(3, 1)] :: VClock)" and ?y = "(mkDot 2 1, [6] :: bytes, [(3, 1)] :: VClock)"
  let ?b = "mv_deliver demo_hash (mkDot 4 1, [8], []) ?a"
  have inv: "mv_inv demo_hash ?a" "mv_inv demo_hash ?b" using r(2) by (simp_all add: mv_deliver_inv)
  have fits: "mv_fits (d, [v], [])" "mv_fits (d, [v], [(j, n)])" for d v j n by (rule mv_fits_short; simp)+
  have st: "rStrategy r = alwaysMergeClock" "rStrategy ?a = alwaysMergeClock" using r(2) inv(1) by (simp_all add: mv_inv_def)
  have b: "mv_view (rData ?b) = {(mkDot 3 1, [7]), (mkDot 4 1, [8])}"
    unfolding mv_deliver_view [OF st(2) fits(1)] mv_deliver_view [OF st(1) fits(1)] r(3)
    by (auto simp: mv_step_def covers_def VClock_Get_def)
  have cov: "covers [(3, 1)] d \<longleftrightarrow> Counter d \<le> (if Replica d = 3 then 1 else 0)" for d by (simp add: covers_def VClock_Get_def mget0_def)
  have cw: "concurrent_writes ?x ?y" by (simp add: concurrent_writes_def cov)
  have sup: "\<not> superseded (mv_view (rData ?b)) (snd (snd ?x)) (fst ?x)" "\<not> superseded (mv_view (rData ?b)) (snd (snd ?y)) (fst ?y)"
    unfolding b by (auto simp: superseded_def)
  have "mv_view (rData (mv_deliver demo_hash ?x (mv_deliver demo_hash ?y ?b))) = {(fst ?x, fst (snd ?x)), (fst ?y, fst (snd ?y))} \<union>
        {e \<in> mv_view (rData ?b). \<not> covers (snd (snd ?x)) (fst e) \<and> \<not> covers (snd (snd ?y)) (fst e)}"
    by (rule mp [OF conjunct2 [OF MVRegister_concurrent [OF inv(2) fits(2) fits(2) cw]] conjI [OF sup]])
  also have "\<dots> = {(mkDot 1 1, [5]), (mkDot 2 1, [6]), (mkDot 4 1, [8])}" unfolding b by (auto simp: cov)
  finally show ?thesis using r(1) by blast
qed

text \<open>
  A write that has seen another one replaces it when they arrive in causal order; when they
  arrive in the opposite order from different replicas, the superseded value comes back and
  stays beside the newer one.
\<close>

theorem MVRegister_reordered:
  assumes "mv_inv mh r" "mv_view (rData r) = {}" "mv_fits (d, b, c)" "mv_fits (d', b', c')"
    and "covers c' d" "Replica d \<noteq> Replica d'" "\<not> covers c d'"
  shows "mv_view (rData (mv_deliver mh (d', b', c') (mv_deliver mh (d, b, c) r))) = {(d', b')} \<and>
    mv_view (rData (mv_deliver mh (d, b, c) (mv_deliver mh (d', b', c') r))) = {(d, b), (d', b')}"
proof -
  have st: "rStrategy r = alwaysMergeClock" "rStrategy (mv_deliver mh x r) = alwaysMergeClock" for x
    using assms(1) by (simp_all add: mv_inv_def mv_deliver_def)
  show ?thesis
    using assms(2,5-7) by (auto simp: mv_deliver_view st assms(3,4) mv_step_def)
qed

theorem MVRegister_reordered_witness:
  "\<exists>r. NewMVRegister demo_hash 9 (Some StringCodec) [] = Ok r \<and>
     mv_view (rData (mv_deliver demo_hash (mkDot 1 1, [], []) (mv_deliver demo_hash (mkDot 2 1, [], [(1, 1)]) r)))
       = {(mkDot 1 1, []), (mkDot 2 1, [])}"
proof -
  have seed: "MakeSeed demo_hash \<noteq> 0" by simp
  obtain r :: "bytes MVRegister" where r: "NewMVRegister demo_hash 9 (Some StringCodec) [] = Ok r"
      "mv_inv demo_hash r" "mv_view (rData r) = {}"
    by (rule NewMVRegister_Ok [OF seed])
  from MVRegister_reordered [OF r(2,3) mv_fits_small(1) [of "mkDot 1 1"] mv_fits_small(2) [of "mkDot 2 1" 1 1]] r show ?thesis
    by (auto simp: covers_def VClock_Get_def mget0_def)
qed

text \<open>
  A local write replaces all values by the written one.
\<close>

theorem MVRegister_Write_Values:
  assumes "Encode (mrCodec (rData r)) v = Inr b" "Decode (mrCodec (rData r)) b = Inr v"
  shows "MVRegister_Values (fst (MVRegister_Write mh r v)) = Inr [v] \<and> MVRegister_Len (fst (MVRegister_Write mh r v)) = 1"
  using assms(2) by (simp add: MVRegister_Write_data [OF assms(1)] MVRegister_Values_def mvRegisterState_Values_def
      MVRegister_Len_def mvRegisterState_Len_def)

theorem MVRegister_Write_Values_witness:
  "MVRegister_Values (fst (MVRegister_Write demo_hash
     (newReplica demo_hash 1 \<lparr>mrCodec = StringCodec, mrEntries = []\<rparr> alwaysMergeClock []) [5])) = Inr [[5]]"
  using MVRegister_Write_Values [of "newReplica demo_hash 1 \<lparr>mrCodec = StringCodec, mrEntries = []\<rparr> alwaysMergeClock []" "[5]" "[5]" demo_hash]
  by (simp add: StringCodec_def)

text \<open>
  C36: an answer can lose a concurrent value: every delta that is selected for a peer carries the dots of all values of the
  register as its context, so that a peer which already holds one of two concurrent values, and is sent the other, drops
  the one it holds.
\<close>

theorem MVRegister_answer_drops:
  assumes "mv_inv mh r" "length (mrEntries (rData s)) < 2 ^ 32" "\<forall>x \<in> set (mvRegisterState_DeltasSince (rData s) hwm). length x < 2 ^ 63"
    and "(d, b) \<in> mv_view (rData s)" "covers hwm d" "(d', b') \<in> mv_view (rData s)" "\<not> covers hwm d'"
  shows "\<forall>x. (d, x) \<notin> mv_view (rData (apply_all mh mvRegisterM (mvRegisterState_DeltasSince (rData s) hwm) r))"
proof -
  let ?ctx = "fold mv_max (mrEntries (rData s)) []"
  let ?xs = "map (\<lambda>e. (mvDot e, mvValBytes e, ?ctx)) (filter (\<lambda>e. \<not> covers hwm (mvDot e)) (mrEntries (rData s)))"
  have ctx: "wf_map ?ctx" "length ?ctx < 2 ^ 32" "covers ?ctx d"
    using mv_max_covers [of "[]" "mrEntries (rData s)"] assms(2,4) by (auto simp: mv_view_def)
  have fits: "list_all mv_fits ?xs" using assms(3) ctx by (auto simp: list_all_iff mv_fits_def DeltasSince_mv)
  have run: "apply_all mh mvRegisterM (mvRegisterState_DeltasSince (rData s) hwm) r = fold (mv_deliver mh) ?xs r"
    by (simp add: DeltasSince_mv fold_map comp_def mv_deliver_def [abs_def])
  have view: "mv_view (rData (fold (mv_deliver mh) xs r)) = fold mv_step xs (mv_view (rData r))"
    if "list_all mv_fits xs" "rStrategy r = alwaysMergeClock" for xs and r :: "'a MVRegister"
    using that
  proof (induction xs arbitrary: r)
    case (Cons x xs)
    have "rStrategy (mv_deliver mh x r) = alwaysMergeClock" using Cons.prems(2) by (simp add: mv_deliver_def)
    with Cons show ?case by (simp add: mv_deliver_view)
  qed simp
  have gone: "\<forall>x. (d, x) \<notin> fold mv_step xs E" if "\<forall>y \<in> set xs. fst y \<noteq> d \<and> snd (snd y) = ?ctx" "xs \<noteq> [] \<or> (\<forall>x. (d, x) \<notin> E)" for xs E
    using that
  proof (induction xs arbitrary: E)
    case (Cons y xs)
    obtain e v c where y: "y = (e, v, c)" by (cases y)
    have "\<forall>x. (d, x) \<notin> mv_step y E" using Cons.prems(1) ctx(3) by (auto simp: y mv_step_mem)
    with Cons show ?case by simp
  qed simp
  have "?xs \<noteq> []" "\<forall>y \<in> set ?xs. fst y \<noteq> d \<and> snd (snd y) = ?ctx"
    using assms(5-7) by (auto simp: mv_view_def filter_empty_conv)
  with gone view [OF fits] assms(1) run show ?thesis by (simp add: mv_inv_def)
qed

text \<open>Two replicas write concurrently; a third one has received the first write and is answered by the second writer.\<close>

theorem MVRegister_answer_drops_witness:
  "\<exists>r r'. NewMVRegister demo_hash 3 (Some StringCodec) [] = Ok r \<and> NewMVRegister demo_hash 2 (Some StringCodec) [] = Ok r' \<and>
     (let w1 = (mkDot 1 1, [], []); w2 = (mkDot 2 1, [], []); a = mv_deliver demo_hash w1 r; s = mv_deliver demo_hash w1 (mv_deliver demo_hash w2 r') in
      (mkDot 1 1, []) \<in> mv_view (rData s) \<and> (mkDot 1 1, []) \<in> mv_view (rData a) \<and>
      (mkDot 1 1, []) \<notin> mv_view (rData (apply_all demo_hash mvRegisterM (mvRegisterState_DeltasSince (rData s) [(1, 1)]) a)))"
proof -
  have seed: "MakeSeed demo_hash \<noteq> 0" by simp
  obtain r :: "bytes MVRegister" where r: "NewMVRegister demo_hash 3 (Some StringCodec) [] = Ok r" "mv_inv demo_hash r" "mv_view (rData r) = {}"
    by (rule NewMVRegister_Ok [OF seed])
  obtain r' :: "bytes MVRegister" where r': "NewMVRegister demo_hash 2 (Some StringCodec) [] = Ok r'" "mv_inv demo_hash r'" "mv_view (rData r') = {}"
    by (rule NewMVRegister_Ok [OF seed])
  let ?w1 = "(mkDot 1 1, [], [])" and ?w2 = "(mkDot 2 1, [], [])"
  let ?a = "mv_deliver demo_hash ?w1 r" and ?s = "mv_deliver demo_hash ?w1 (mv_deliver demo_hash ?w2 r')"
  have inv: "mv_inv demo_hash ?a" "mv_inv demo_hash ?s" using r(2) r'(2) by (simp_all add: mv_deliver_inv)
  have st: "rStrategy r' = alwaysMergeClock" "rStrategy (mv_deliver demo_hash ?w2 r') = alwaysMergeClock"
    using r'(2) by (simp_all add: mv_inv_def mv_deliver_def)
  have s: "mv_view (rData ?s) = {(mkDot 1 1, []), (mkDot 2 1, [])}"
    unfolding mv_deliver_view [OF st(2) mv_fits_small(1)] mv_deliver_view [OF st(1) mv_fits_small(1)] r'(3)
    by (auto simp: mv_step_def covers_def VClock_Get_def)
  have sr: "rStrategy r = alwaysMergeClock" using r(2) by (simp add: mv_inv_def)
  have a: "mv_view (rData ?a) = {(mkDot 1 1, [])}"
    unfolding mv_deliver_view [OF sr mv_fits_small(1)] r(3) by (simp add: mv_step_def)
  let ?es = "mrEntries (rData ?s)"
  have "mvDot ` set ?es = fst ` mv_view (rData ?s)" by (simp add: mv_view_def image_image)
  then have "mvDot ` set ?es = {mkDot 1 1, mkDot 2 1}" by (simp only: s) simp
  moreover have "distinct (map mvDot ?es)" using inv(2) by (simp add: mv_inv_def mvreg.replica_inv_def)
  ultimately have two: "length ?es = 2" using distinct_card [of "map mvDot ?es"] by simp
  have val: "mvValBytes e = []" if "e \<in> set ?es" for e
  proof -
    have "(mvDot e, mvValBytes e) \<in> mv_view (rData ?s)" using that by (auto simp: mv_view_def)
    then show ?thesis by (auto simp: s)
  qed
  have "length (fold mv_max ?es []) \<le> 2" using mv_max_covers [of "[]" ?es] two by simp
  then have "\<forall>x \<in> set (mvRegisterState_DeltasSince (rData ?s) [(1, 1)]). length x < 2 ^ 63"
    using val by (auto simp: DeltasSince_mv mv_delta_def encodeVClock_def length_encodeDotMap PutUvarint.simps [of 0])
  from MVRegister_answer_drops [OF inv(1) _ this, of "mkDot 1 1" "[]" "mkDot 2 1" "[]"] two s
  have "(mkDot 1 1, []) \<notin> mv_view (rData (apply_all demo_hash mvRegisterM (mvRegisterState_DeltasSince (rData ?s) [(1, 1)]) ?a))"
    by (auto simp: covers_def VClock_Get_def mget0_def)
  with r(1) r'(1) s a show ?thesis by (auto simp: Let_def)
qed

end
