(* ===== verification/DeltaMaps.thy ===== *)
theory DeltaMaps
  imports ORSets
begin

text \<open>
  The map of CRDTs (\<^verbatim>\<open>deltamap.go\<close>) and its kinds, mutations and queries (\<^verbatim>\<open>mutations.go\<close>). A kind
  is the dictionary \<open>'i CRDTKind\<close> of its methods over the type \<open>'i\<close> of inner states; methods that
  write through the state pointer return the new state, which the map stores back under its
  key. The kind of observed-remove sets is the one the package provides.
\<close>

section \<open>Definitions\<close>

subsection \<open>Kinds (mutations.go)\<close>

record 'i CRDTKind =
  ckNewState :: "'i go"
  ckParseDelta :: "'i \<Rightarrow> bytes \<Rightarrow> 'i \<times> deltaInfo go"
  ckApplyDelta :: "'i \<Rightarrow> bytes \<Rightarrow> 'i \<times> unit go"
  ckDeltasSince :: "'i \<Rightarrow> VClock \<Rightarrow> bytes list"
  ckEntryMeta :: "'i \<Rightarrow> bytes \<Rightarrow> bytes option"
  ckRemoveAll :: "'i \<Rightarrow> VClock \<Rightarrow> 'i"

text \<open>A mutation of an inner state, given a dot and the received clock; a query reads the state.\<close>

type_synonym 'i Mutation = "'i \<Rightarrow> Dot \<Rightarrow> VClock \<Rightarrow> 'i \<times> bytes go"
type_synonym ('i, 'a) Query = "'i \<Rightarrow> 'a"

subsection \<open>Observed-remove sets as a kind (mutations.go)\<close>

record 'e ORSetKind =
  oskCodec :: "'e Codec option"

definition ORSetKind_newState :: "'e ORSetKind \<Rightarrow> 'e orSetState go" where
  "ORSetKind_newState k = newORSetState (oskCodec k) []"

definition ORSetKind_parseDelta :: "'e ORSetKind \<Rightarrow> 'e orSetState \<Rightarrow> bytes \<Rightarrow> deltaInfo go" where
  "ORSetKind_parseDelta k state delta = orSetState_ParseDelta state delta"

definition ORSetKind_applyDelta :: "'e ORSetKind \<Rightarrow> 'e orSetState \<Rightarrow> bytes \<Rightarrow> 'e orSetState \<times> unit go" where
  "ORSetKind_applyDelta k state delta = orSetState_Apply state delta"

definition ORSetKind_deltasSince :: "'e ORSetKind \<Rightarrow> 'e orSetState \<Rightarrow> VClock \<Rightarrow> bytes list" where
  "ORSetKind_deltasSince k state hwm = orSetState_DeltasSince state hwm"

definition ORSetKind_entryMeta :: "'e ORSetKind \<Rightarrow> 'e orSetState \<Rightarrow> bytes \<Rightarrow> bytes option" where
  "ORSetKind_entryMeta k state key = orSetState_EntryMeta state key"

text \<open>One pass of the pruning loop.\<close>

definition prune_key :: "VClock \<Rightarrow> bytes \<times> DotMap \<Rightarrow> 'e orSetState \<Rightarrow> 'e orSetState" where
  "prune_key ctx = (\<lambda>(key, dots) s.
     let surv = surviving dots ctx in
     if length surv > 0 then orSetState_PutEncoded s key surv else orSetState_RemoveEncoded s key)"

definition ORSetKind_removeAll :: "'e ORSetKind \<Rightarrow> 'e orSetState \<Rightarrow> VClock \<Rightarrow> 'e orSetState" where
  "ORSetKind_removeAll k s ctx =
     (let entries = orSetState_Range s (\<lambda>elemKey dots entries. (entries @ [(elemKey, dots)], True)) []
      in fold (prune_key ctx) entries s)"

definition orSetKind :: "'e ORSetKind \<Rightarrow> 'e orSetState CRDTKind" where
  "orSetKind k = \<lparr>ckNewState = ORSetKind_newState k,
     ckParseDelta = (\<lambda>s d. (s, ORSetKind_parseDelta k s d)), ckApplyDelta = ORSetKind_applyDelta k,
     ckDeltasSince = ORSetKind_deltasSince k, ckEntryMeta = ORSetKind_entryMeta k,
     ckRemoveAll = ORSetKind_removeAll k\<rparr>"

definition AddSetMember_applyMutation :: "'e \<Rightarrow> 'e orSetState Mutation" where
  "AddSetMember_applyMutation v state d hwm = orSetState_Add state v d"

definition RemoveSetMember_applyMutation :: "'e \<Rightarrow> 'e orSetState Mutation" where
  "RemoveSetMember_applyMutation v state d hwm = orSetState_Remove state v d hwm"

definition ContainsSetMember_execQuery :: "'e \<Rightarrow> ('e orSetState, bool) Query" where
  "ContainsSetMember_execQuery v state = orSetState_Contains state v"

definition SetElements_execQuery :: "('e orSetState, 'e list) Query" where
  "SetElements_execQuery state = fst (orSetState_Elements state)"

definition SetLen_execQuery :: "('e orSetState, nat) Query" where
  "SetLen_execQuery state = orSetState_Len state"

subsection \<open>The storage type (deltamap.go)\<close>

record deltaMapTombstone =
  dtDot :: Dot
  dtCtx :: VClock

record 'i deltaMapState =
  dmKind :: "'i CRDTKind"
  dmEntries :: "(bytes, 'i) gomap"
  dmTombstones :: "(bytes, deltaMapTombstone) gomap"

definition newDeltaMapState :: "'i CRDTKind \<Rightarrow> 'i deltaMapState" where
  "newDeltaMapState kind = \<lparr>dmKind = kind, dmEntries = [], dmTombstones = []\<rparr>"

definition deltaMapState_getOrCreate :: "'i deltaMapState \<Rightarrow> bytes \<Rightarrow> 'i deltaMapState \<times> 'i go" where
  "deltaMapState_getOrCreate m key =
     (case mget (dmEntries m) key of
        Some s \<Rightarrow> (m, Ok s)
      | None \<Rightarrow>
          (case ckNewState (dmKind m) of
             Ok s \<Rightarrow> (m\<lparr>dmEntries := mput key s (dmEntries m)\<rparr>, Ok s)
           | Err e \<Rightarrow> (m, Err e)
           | Panic \<Rightarrow> (m, Panic)))"

definition deltaMapState_wrapPut :: "bytes \<Rightarrow> bytes \<Rightarrow> bytes" where
  "deltaMapState_wrapPut key innerDelta = appendVarintBytes [opPut] key @ innerDelta"

definition deltaMapState_wrapRemove :: "bytes \<Rightarrow> Dot \<Rightarrow> VClock \<Rightarrow> bytes" where
  "deltaMapState_wrapRemove key dot ctx = appendVarintBytes [opRemove] key @ encodeDot dot @ encodeVClock ctx"

definition deltaMapState_EntryMeta :: "'i deltaMapState \<Rightarrow> bytes \<Rightarrow> bytes option" where
  "deltaMapState_EntryMeta m key =
     (case mget (dmEntries m) key of None \<Rightarrow> None | Some inner \<Rightarrow> ckEntryMeta (dmKind m) inner key)"

definition deltaMapState_TombstoneMeta :: "'i deltaMapState \<Rightarrow> bytes \<Rightarrow> bytes option" where
  "deltaMapState_TombstoneMeta m key =
     (case mget (dmTombstones m) key of
        None \<Rightarrow> None
      | Some ts \<Rightarrow> Some (encodeRemoveTombstone (dtDot ts) (dtCtx ts)))"

text \<open>The interface promises that parsing leaves the state alone; a put creates the entry.\<close>

definition deltaMapState_ParseDelta :: "'i deltaMapState \<Rightarrow> bytes \<Rightarrow> 'i deltaMapState \<times> deltaInfo go" where
  "deltaMapState_ParseDelta m delta =
     (case delta of
        [] \<Rightarrow> (m, Err ErrShortBuffer)
      | b # data \<Rightarrow>
          (case readVarintBytes data 0 of
             Err e \<Rightarrow> (m, Err e)
           | Panic \<Rightarrow> (m, Panic)
           | Ok (key, off) \<Rightarrow>
               if b = opPut then
                 (case slice_from delta (1 + off) of
                    Err e \<Rightarrow> (m, Err e)
                  | Panic \<Rightarrow> (m, Panic)
                  | Ok innerDelta \<Rightarrow>
                      (let (m, g) = deltaMapState_getOrCreate m key in
                       case g of
                         Err e \<Rightarrow> (m, Err e)
                       | Panic \<Rightarrow> (m, Panic)
                       | Ok inner \<Rightarrow>
                           (let (inner, p) = ckParseDelta (dmKind m) inner innerDelta;
                                m = m\<lparr>dmEntries := mput key inner (dmEntries m)\<rparr>
                            in (m, go_bind p (\<lambda>info. Ok (info\<lparr>diKey := key, diOp := opPut\<rparr>))))))
               else if b = opRemove then
                 (if off + 16 > int (length data) then (m, Err ErrShortBuffer)
                  else (m, go_bind (go_bind (slice_from delta (1 + off)) decodeDot) (\<lambda>dot.
                         Ok \<lparr>diOp = opRemove, diKey = key, diMeta = [], diContext = None, diDots = [dot]\<rparr>)))
               else (m, Err ErrUnknownOp)))"

text \<open>Again the merged context is not assigned.\<close>

definition deltaMapState_Apply :: "'i deltaMapState \<Rightarrow> bytes \<Rightarrow> 'i deltaMapState \<times> unit go" where
  "deltaMapState_Apply m delta =
     (case delta of
        [] \<Rightarrow> (m, Err ErrShortBuffer)
      | b # data \<Rightarrow>
          (case readVarintBytes data 0 of
             Err e \<Rightarrow> (m, Err e)
           | Panic \<Rightarrow> (m, Panic)
           | Ok (key, off) \<Rightarrow>
               if b = opPut then
                 (case slice_from delta (1 + off) of
                    Err e \<Rightarrow> (m, Err e)
                  | Panic \<Rightarrow> (m, Panic)
                  | Ok innerDelta \<Rightarrow>
                      (let (m, g) = deltaMapState_getOrCreate m key in
                       case g of
                         Err e \<Rightarrow> (m, Err e)
                       | Panic \<Rightarrow> (m, Panic)
                       | Ok inner \<Rightarrow>
                           (let (inner, a) = ckApplyDelta (dmKind m) inner innerDelta
                            in (m\<lparr>dmEntries := mput key inner (dmEntries m)\<rparr>, a))))
               else if b = opRemove then
                 (if off + 16 > int (length data) then (m, Err ErrShortBuffer)
                  else case go_bind (go_bind (slice_from delta (1 + off)) decodeDot) (\<lambda>dot.
                         go_bind (go_bind (slice_from delta (1 + off + 16)) decodeVClock) (\<lambda>removeCtx. Ok (dot, removeCtx))) of
                    Err e \<Rightarrow> (m, Err e)
                  | Panic \<Rightarrow> (m, Panic)
                  | Ok (dot, removeCtx) \<Rightarrow>
                      (let dot = (case mget (dmTombstones m) key of
                             Some existing \<Rightarrow> if \<not> DotGT dot (dtDot existing) then dtDot existing else dot
                           | None \<Rightarrow> dot);
                           m = m\<lparr>dmTombstones := mput key \<lparr>dtDot = dot, dtCtx = removeCtx\<rparr> (dmTombstones m)\<rparr>
                       in case mget (dmEntries m) key of
                            None \<Rightarrow> (m, Ok ())
                          | Some inner \<Rightarrow>
                              (let inner = ckRemoveAll (dmKind m) inner removeCtx;
                                   m = m\<lparr>dmEntries := mput key inner (dmEntries m)\<rparr>
                               in (if length (ckDeltasSince (dmKind m) inner []) = 0
                                   then m\<lparr>dmEntries := mdel key (dmEntries m)\<rparr> else m, Ok ()))))
               else (m, Err ErrUnknownOp)))"

definition deltaMapState_DeltasSince :: "'i deltaMapState \<Rightarrow> VClock \<Rightarrow> bytes list" where
  "deltaMapState_DeltasSince m peerHWM =
     (let deltas = fold (\<lambda>(key, inner) deltas.
            fold (\<lambda>d deltas. deltas @ [deltaMapState_wrapPut key d]) (ckDeltasSince (dmKind m) inner peerHWM) deltas)
            (dmEntries m) []
      in fold (\<lambda>(key, ts) deltas.
            if Counter (dtDot ts) > VClock_Get peerHWM (Replica (dtDot ts))
            then deltas @ [deltaMapState_wrapRemove key (dtDot ts) (dtCtx ts)] else deltas) (dmTombstones m) deltas)"

definition deltaMapState_GCTombstones :: "'i deltaMapState \<Rightarrow> VClock \<Rightarrow> 'i deltaMapState" where
  "deltaMapState_GCTombstones m minHWM =
     m\<lparr>dmTombstones := fold (\<lambda>(key, ts) tss.
         if Counter (dtDot ts) \<le> VClock_Get minHWM (Replica (dtDot ts)) then mdel key tss else tss)
       (dmTombstones m) (dmTombstones m)\<rparr>"

definition deltaMapM :: "'i deltaMapState mergeable" where
  "deltaMapM = \<lparr>mEntryMeta = deltaMapState_EntryMeta, mTombstoneMeta = deltaMapState_TombstoneMeta,
     mParseDelta = deltaMapState_ParseDelta, mApply = deltaMapState_Apply,
     mDeltasSince = deltaMapState_DeltasSince, mGCTombstones = Some deltaMapState_GCTombstones\<rparr>"

subsection \<open>The public type (deltamap.go)\<close>

type_synonym 'i DeltaMap = "'i deltaMapState replica"

definition NewDeltaMap :: "maphash \<Rightarrow> ReplicaID \<Rightarrow> 'i CRDTKind \<Rightarrow> Option list \<Rightarrow> 'i DeltaMap" where
  "NewDeltaMap mh rid kind opts = newReplica mh rid (newDeltaMapState kind) alwaysMergeClock opts"

text \<open>A mutation that fails has already used up a dot and created the entry.\<close>

definition DeltaMap_Mutate ::
    "maphash \<Rightarrow> 'i DeltaMap \<Rightarrow> bytes \<Rightarrow> 'i Mutation \<Rightarrow> 'i DeltaMap \<times> (sends \<times> WriteResult) go" where
  "DeltaMap_Mutate mh dm key mut =
     (let (r, d) = replica_nextDot dm; (m, g) = deltaMapState_getOrCreate (rData r) key; r = r\<lparr>rData := m\<rparr> in
      case g of
        Err e \<Rightarrow> (r, Err e)
      | Panic \<Rightarrow> (r, Panic)
      | Ok inner \<Rightarrow>
          (let (inner, x) = mut inner d (receivedClock_HWM (rReceived r));
               r = r\<lparr>rData := m\<lparr>dmEntries := mput key inner (dmEntries m)\<rparr>\<rparr>
           in case x of
                Err e \<Rightarrow> (r, Err e)
              | Panic \<Rightarrow> (r, Panic)
              | Ok innerDelta \<Rightarrow>
                  (let delta = deltaMapState_wrapPut key innerDelta; r = replica_trackKey mh deltaMapM r key
                   in (r, Ok (replica_propagate r d delta)))))"

definition DeltaMap_RemoveKey ::
    "maphash \<Rightarrow> 'i DeltaMap \<Rightarrow> bytes \<Rightarrow> 'i DeltaMap \<times> (sends \<times> WriteResult) go" where
  "DeltaMap_RemoveKey mh dm key =
     (let (r, d) = replica_nextDot dm;
          hwm = receivedClock_HWM (rReceived r);
          delta = deltaMapState_wrapRemove key d hwm;
          m = rData r;
          m = m\<lparr>dmTombstones := mput key \<lparr>dtDot = d, dtCtx = hwm\<rparr> (dmTombstones m)\<rparr>;
          (m, g) = deltaMapState_getOrCreate m key
      in case g of
           Err e \<Rightarrow> (r\<lparr>rData := m\<rparr>, Err e)
         | Panic \<Rightarrow> (r\<lparr>rData := m\<rparr>, Panic)
         | Ok inner \<Rightarrow>
             (let inner = ckRemoveAll (dmKind m) inner hwm;
                  m = m\<lparr>dmEntries := mput key inner (dmEntries m)\<rparr>;
                  m = (if length (ckDeltasSince (dmKind m) inner []) = 0
                       then m\<lparr>dmEntries := mdel key (dmEntries m)\<rparr> else m);
                  r = replica_trackKey mh deltaMapM (r\<lparr>rData := m\<rparr>) key
              in (r, Ok (replica_propagate r d delta))))"

definition DeltaMap_Query :: "'i DeltaMap \<Rightarrow> bytes \<Rightarrow> ('i, 'a) Query \<Rightarrow> 'a option" where
  "DeltaMap_Query dm key q = map_option q (mget (dmEntries (rData dm)) key)"

definition DeltaMap_HasKey :: "'i DeltaMap \<Rightarrow> bytes \<Rightarrow> bool" where
  "DeltaMap_HasKey dm key = (mget (dmEntries (rData dm)) key \<noteq> None)"

definition DeltaMap_Keys :: "'i DeltaMap \<Rightarrow> bytes list" where
  "DeltaMap_Keys dm = map fst (dmEntries (rData dm))"

definition DeltaMap_Len :: "'i DeltaMap \<Rightarrow> nat" where
  "DeltaMap_Len dm = length (dmEntries (rData dm))"

definition DeltaMap_Close :: "'i DeltaMap \<Rightarrow> 'i DeltaMap" where
  "DeltaMap_Close dm = replica_Close dm"

section \<open>Composite deltas\<close>

lemma deltaMapM_simps [simp]:
  "mEntryMeta deltaMapM = deltaMapState_EntryMeta" "mTombstoneMeta deltaMapM = deltaMapState_TombstoneMeta"
  "mParseDelta deltaMapM = deltaMapState_ParseDelta" "mApply deltaMapM = deltaMapState_Apply"
  "mDeltasSince deltaMapM = deltaMapState_DeltasSince" "mGCTombstones deltaMapM = Some deltaMapState_GCTombstones"
  by (simp_all add: deltaMapM_def)

lemma slice_from_Cons: "0 \<le> i \<Longrightarrow> slice_from (b # data) (1 + i) = slice_from data i"
  by (auto simp: slice_from_def slice_def nat_add_distrib)

text \<open>The inner state a delta for a key works on: the stored one, or a new one.\<close>

definition dm_at :: "'i \<Rightarrow> 'i deltaMapState \<Rightarrow> bytes \<Rightarrow> 'i" where
  "dm_at s0 m key = (case mget (dmEntries m) key of Some s \<Rightarrow> s | None \<Rightarrow> s0)"

definition dm_inv :: "'i CRDTKind \<Rightarrow> ('i \<Rightarrow> bool) \<Rightarrow> 'i deltaMapState \<Rightarrow> bool" where
  "dm_inv K P m \<longleftrightarrow> dmKind m = K \<and> wf_map (dmEntries m) \<and> wf_map (dmTombstones m) \<and>
     (\<forall>k s. mget (dmEntries m) k = Some s \<longrightarrow> P s)"

lemma dm_inv_write: "dm_inv K P m \<Longrightarrow> P s \<Longrightarrow> dm_inv K P (m\<lparr>dmEntries := mput k s (dmEntries m)\<rparr>)"
  by (simp add: dm_inv_def)

lemma dm_inv_delete: "dm_inv K P m \<Longrightarrow> dm_inv K P (m\<lparr>dmEntries := mdel k (dmEntries m)\<rparr>)"
  by (simp add: dm_inv_def)

lemma dm_inv_tombstone: "dm_inv K P m \<Longrightarrow> wf_map ts \<Longrightarrow> dm_inv K P (m\<lparr>dmTombstones := ts\<rparr>)"
  by (simp add: dm_inv_def)

lemma dm_inv_at: "dm_inv K P m \<Longrightarrow> P s0 \<Longrightarrow> P (dm_at s0 m k)"
  by (auto simp: dm_inv_def dm_at_def split: option.splits)

lemma getOrCreate_Ok:
  assumes "dm_inv K P m" "ckNewState K = Ok s0" "P s0"
  shows "\<exists>m'. deltaMapState_getOrCreate m k = (m', Ok (dm_at s0 m k)) \<and> dm_inv K P m' \<and>
    mget (dmEntries m') = (mget (dmEntries m))(k \<mapsto> dm_at s0 m k) \<and> dmTombstones m' = dmTombstones m"
proof (cases "mget (dmEntries m) k")
  case None
  with assms show ?thesis
    by (simp add: deltaMapState_getOrCreate_def dm_at_def dm_inv_def [of K P m]) (simp add: dm_inv_def)
next
  case (Some s)
  with assms(1) show ?thesis by (auto simp: deltaMapState_getOrCreate_def dm_at_def)
qed

text \<open>
  What removes do to an entry: the inner state is pruned by the context, and the entry goes when
  nothing is left to send.
\<close>

definition dm_prune :: "'i CRDTKind \<Rightarrow> VClock \<Rightarrow> 'i \<Rightarrow> 'i option" where
  "dm_prune K ctx s =
     (let s = ckRemoveAll K s ctx in if length (ckDeltasSince K s []) = 0 then None else Some s)"

section \<open>The contract of a kind\<close>

text \<open>
  What the map relies on: new states can be made, and the invariant of the inner states survives
  every delta, well formed or not, and every removal.
\<close>

locale crdt_kind =
  fixes K :: "'i CRDTKind" and s0 :: 'i and P :: "'i \<Rightarrow> bool"
  assumes new_state: "ckNewState K = Ok s0" and inv_new: "P s0"
    and inv_parse: "P s \<Longrightarrow> P (fst (ckParseDelta K s d))"
    and inv_apply: "P s \<Longrightarrow> P (fst (ckApplyDelta K s d))"
    and inv_removeAll: "P s \<Longrightarrow> P (ckRemoveAll K s ctx)"
begin

lemma created:
  assumes "dm_inv K P m"
  obtains m' where "deltaMapState_getOrCreate m k = (m', Ok (dm_at s0 m k))" "dm_inv K P m'" "dmKind m' = K"
    "mget (dmEntries m') = (mget (dmEntries m))(k \<mapsto> dm_at s0 m k)" "dmTombstones m' = dmTombstones m" "P (dm_at s0 m k)"
  using getOrCreate_Ok [OF assms new_state inv_new, of k] dm_inv_at [OF assms inv_new, of k] that
  by (auto simp: dm_inv_def)

lemma parse_dm_inv:
  assumes m: "dm_inv K P m"
  shows "dm_inv K P (fst (deltaMapState_ParseDelta m delta))"
proof (cases delta)
  case (Cons b data)
  show ?thesis
  proof (cases "readVarintBytes data 0")
    case (Ok x)
    obtain k off where x: "x = (k, off)" by (cases x)
    show ?thesis
    proof (cases "b = opPut")
      case True
      obtain m' where m': "deltaMapState_getOrCreate m k = (m', Ok (dm_at s0 m k))" "dm_inv K P m'" "dmKind m' = K" "P (dm_at s0 m k)"
        by (rule created [OF m])
      show ?thesis
        using m m' Cons Ok x True inv_parse [OF m'(4)] dm_inv_write [OF m'(2)]
        by (cases "slice_from delta (1 + off)") (simp_all add: deltaMapState_ParseDelta_def Let_def split_beta)
    next
      case False
      with m Cons Ok x show ?thesis by (simp add: deltaMapState_ParseDelta_def)
    qed
  qed (use m Cons in \<open>simp_all add: deltaMapState_ParseDelta_def\<close>)
qed (use m in \<open>simp add: deltaMapState_ParseDelta_def\<close>)

lemma prune_inv: "P s \<Longrightarrow> dm_prune K ctx s = Some s' \<Longrightarrow> P s'"
  using inv_removeAll [of s ctx] by (auto simp: dm_prune_def Let_def split: if_splits)

end

text \<open>A remove whose parts have been read.\<close>

definition dm_remove :: "'i deltaMapState \<Rightarrow> bytes \<Rightarrow> Dot \<Rightarrow> VClock \<Rightarrow> 'i deltaMapState" where
  "dm_remove m key dot ctx =
     (let dot = (case mget (dmTombstones m) key of
             Some existing \<Rightarrow> if \<not> DotGT dot (dtDot existing) then dtDot existing else dot | None \<Rightarrow> dot);
          m = m\<lparr>dmTombstones := mput key \<lparr>dtDot = dot, dtCtx = ctx\<rparr> (dmTombstones m)\<rparr>
      in case mget (dmEntries m) key of
           None \<Rightarrow> m
         | Some inner \<Rightarrow>
             (case dm_prune (dmKind m) ctx inner of
                None \<Rightarrow> m\<lparr>dmEntries := mdel key (mput key (ckRemoveAll (dmKind m) inner ctx) (dmEntries m))\<rparr>
              | Some s \<Rightarrow> m\<lparr>dmEntries := mput key s (dmEntries m)\<rparr>))"

lemma Apply_remove:
  assumes "readVarintBytes data 0 = Ok (k, off)" "\<not> off + 16 > int (length data)"
    and "go_bind (slice_from (opRemove # data) (1 + off)) decodeDot = Ok d"
    and "go_bind (slice_from (opRemove # data) (1 + off + 16)) decodeVClock = Ok ctx"
  shows "deltaMapState_Apply m (opRemove # data) = (dm_remove m k d ctx, Ok ())"
  using assms by (simp add: deltaMapState_Apply_def dm_remove_def dm_prune_def Let_def split: option.splits)

lemma dm_remove_entries:
  "dmKind (dm_remove m k d ctx) = dmKind m \<and>
   mget (dmEntries (dm_remove m k d ctx)) =
     (mget (dmEntries m))(k := Option.bind (mget (dmEntries m) k) (dm_prune (dmKind m) ctx)) \<and>
   (wf_map (dmEntries m) \<longrightarrow> wf_map (dmEntries (dm_remove m k d ctx))) \<and>
   (wf_map (dmTombstones m) \<longrightarrow> wf_map (dmTombstones (dm_remove m k d ctx)))"
  by (auto simp: dm_remove_def Let_def fun_eq_iff split: option.splits)

context crdt_kind
begin

lemma remove_dm_inv:
  assumes m: "dm_inv K P m"
  shows "dm_inv K P (dm_remove m k d ctx)"
proof -
  have "P s'" if "mget (dmEntries m) k = Some s" "dm_prune K ctx s = Some s'" for s s'
    using that m prune_inv [of s ctx s'] by (auto simp: dm_inv_def)
  then show ?thesis
    using m dm_remove_entries [of m k d ctx] by (auto simp: dm_inv_def bind_eq_Some_conv)
qed

lemma apply_dm_inv:
  assumes m: "dm_inv K P m"
  shows "dm_inv K P (fst (deltaMapState_Apply m delta))"
proof (cases delta)
  case (Cons b data)
  show ?thesis
  proof (cases "readVarintBytes data 0")
    case (Ok x)
    obtain k off where x: "x = (k, off)" by (cases x)
    consider (put) "b = opPut" | (rem) "b = opRemove" | (other) "b \<noteq> opPut" "b \<noteq> opRemove" by blast
    then show ?thesis
    proof cases
      case put
      obtain m' where m': "deltaMapState_getOrCreate m k = (m', Ok (dm_at s0 m k))" "dm_inv K P m'" "dmKind m' = K" "P (dm_at s0 m k)"
        by (rule created [OF m])
      show ?thesis
        using m m' Cons Ok x put inv_apply [OF m'(4)] dm_inv_write [OF m'(2)]
        by (cases "slice_from delta (1 + off)") (simp_all add: deltaMapState_Apply_def Let_def split_beta)
    next
      case rem
      show ?thesis
      proof (cases "fst (deltaMapState_Apply m delta) = m")
        case False
        then have "\<not> off + 16 > int (length data)" using Cons Ok x rem by (auto simp: deltaMapState_Apply_def)
        moreover from this False obtain d ctx where "go_bind (slice_from (opRemove # data) (1 + off)) decodeDot = Ok d"
            "go_bind (slice_from (opRemove # data) (1 + off + 16)) decodeVClock = Ok ctx"
          using Cons Ok x rem
          by (cases "go_bind (slice_from (opRemove # data) (1 + off)) decodeDot";
              cases "go_bind (slice_from (opRemove # data) (1 + off + 16)) decodeVClock")
            (auto simp: deltaMapState_Apply_def)
        ultimately show ?thesis
          using Apply_remove [of data k off d ctx m] Ok x Cons rem remove_dm_inv [OF m] by simp
      qed (use m in simp)
    next
      case other
      with m Cons Ok x show ?thesis by (simp add: deltaMapState_Apply_def)
    qed
  qed (use m Cons in \<open>simp_all add: deltaMapState_Apply_def\<close>)
qed (use m in \<open>simp add: deltaMapState_Apply_def\<close>)

lemma gc_dm_inv: "dm_inv K P m \<Longrightarrow> dm_inv K P (deltaMapState_GCTombstones m hwm)"
proof -
  have "wf_map ts \<Longrightarrow> wf_map (fold (\<lambda>(key, x) tss.
         if Counter (dtDot x) \<le> VClock_Get hwm (Replica (dtDot x)) then mdel key tss else tss) xs ts)"
    for ts xs :: "(bytes, deltaMapTombstone) gomap"
    by (induction xs arbitrary: ts) auto
  then show "dm_inv K P m \<Longrightarrow> dm_inv K P (deltaMapState_GCTombstones m hwm)"
    by (simp add: deltaMapState_GCTombstones_def dm_inv_def)
qed

end

sublocale crdt_kind \<subseteq> dm: storage deltaMapM "dm_inv K P"
  by unfold_locales (auto simp: parse_dm_inv apply_dm_inv gc_dm_inv)

context crdt_kind
begin

lemma getOrCreate_inv:
  assumes "dm_inv K P m"
  shows "\<exists>m'. deltaMapState_getOrCreate m k = (m', Ok (dm_at s0 m k)) \<and> dm_inv K P m' \<and> P (dm_at s0 m k)"
  using created [OF assms, of k] by metis

lemma Mutate_inv:
  assumes r: "dm.replica_inv mh r" and mut: "\<And>s d h. P s \<Longrightarrow> P (fst (mut s d h))"
  shows "dm.replica_inv mh (fst (DeltaMap_Mutate mh r k mut))"
proof -
  obtain r1 d where nd: "replica_nextDot r = (r1, d)" by fastforce
  have r1: "dm.replica_inv mh r1" using dm.nextDot_inv [OF r] nd by simp
  have m: "dm_inv K P (rData r1)" using r1 by (simp add: dm.replica_inv_def)
  obtain m' where m': "deltaMapState_getOrCreate (rData r1) k = (m', Ok (dm_at s0 (rData r1) k))" "dm_inv K P m'"
      "P (dm_at s0 (rData r1) k)"
    using getOrCreate_inv [OF m] by blast
  obtain s x where s: "mut (dm_at s0 (rData r1) k) d (receivedClock_HWM (rReceived r1)) = (s, x)" by fastforce
  have "P s" using mut [OF m'(3), of d "receivedClock_HWM (rReceived r1)"] s by simp
  then have "dm.replica_inv mh (r1\<lparr>rData := m'\<lparr>dmEntries := mput k s (dmEntries m')\<rparr>\<rparr>)"
    by (intro dm.data_inv r1 dm_inv_write m'(2))
  then show ?thesis
    using nd m'(1) s by (cases x) (simp_all add: DeltaMap_Mutate_def Let_def dm.trackKey_inv)
qed

lemma RemoveKey_inv:
  assumes r: "dm.replica_inv mh r"
  shows "dm.replica_inv mh (fst (DeltaMap_RemoveKey mh r k))"
proof -
  obtain r1 d where nd: "replica_nextDot r = (r1, d)" by fastforce
  have r1: "dm.replica_inv mh r1" using dm.nextDot_inv [OF r] nd by simp
  let ?hwm = "receivedClock_HWM (rReceived r1)"
  let ?m = "(rData r1)\<lparr>dmTombstones := mput k \<lparr>dtDot = d, dtCtx = ?hwm\<rparr> (dmTombstones (rData r1))\<rparr>"
  have "dm_inv K P ?m" using r1 by (simp add: dm.replica_inv_def dm_inv_def)
  then obtain m' where m': "deltaMapState_getOrCreate ?m k = (m', Ok (dm_at s0 ?m k))" "dm_inv K P m'" "P (dm_at s0 ?m k)"
    using getOrCreate_inv by blast
  let ?s = "ckRemoveAll (dmKind m') (dm_at s0 ?m k) ?hwm"
  have "P ?s" using inv_removeAll [OF m'(3)] m'(2) by (simp add: dm_inv_def)
  then have w: "dm_inv K P (m'\<lparr>dmEntries := mput k ?s (dmEntries m')\<rparr>)" by (rule dm_inv_write [OF m'(2)])
  let ?m2 = "if length (ckDeltasSince (dmKind m') ?s []) = 0
    then m'\<lparr>dmEntries := mdel k (mput k ?s (dmEntries m'))\<rparr> else m'\<lparr>dmEntries := mput k ?s (dmEntries m')\<rparr>"
  have "dm_inv K P ?m2" using w dm_inv_delete [OF w, of k] by simp
  then have "dm.replica_inv mh (replica_trackKey mh deltaMapM (r1\<lparr>rData := ?m2\<rparr>) k)"
    by (intro dm.trackKey_inv dm.data_inv r1)
  then show ?thesis
    using nd m'(1) by (simp add: DeltaMap_RemoveKey_def Let_def split: if_splits)
qed

lemma New_inv: "MakeSeed mh \<noteq> 0 \<Longrightarrow> dm.replica_inv mh (NewDeltaMap mh i K opts)"
  using received.inv_empty
  by (simp add: NewDeltaMap_def newDeltaMapState_def dm.replica_inv_def dm_inv_def mm_inv_new)

end

section \<open>Removing from an observed-remove set\<close>

text \<open>The new state of the set kind.\<close>

abbreviation set0 :: "'e Codec \<Rightarrow> 'e orSetState" where
  "set0 c \<equiv> \<lparr>osCodec = c, osBackend = newMemoryBackend\<rparr>"

lemma orSetKind_simps [simp]:
  "ckNewState (orSetKind k) = ORSetKind_newState k" "ckParseDelta (orSetKind k) = (\<lambda>s d. (s, orSetState_ParseDelta s d))"
  "ckApplyDelta (orSetKind k) = orSetState_Apply" "ckDeltasSince (orSetKind k) = orSetState_DeltasSince"
  "ckEntryMeta (orSetKind k) = orSetState_EntryMeta" "ckRemoveAll (orSetKind k) = ORSetKind_removeAll k"
  by (simp_all add: orSetKind_def ORSetKind_parseDelta_def ORSetKind_applyDelta_def ORSetKind_deltasSince_def
      ORSetKind_entryMeta_def fun_eq_iff)

lemma ORSetKind_newState_Ok: "ORSetKind_newState \<lparr>oskCodec = Some c\<rparr> = Ok (set0 c)"
  by (simp add: ORSetKind_newState_def newORSetState_def requireCodec_def applyOptions_def Let_def)

text \<open>The entry of a key after its pruning by a context.\<close>

definition pruned :: "VClock \<Rightarrow> DotMap \<Rightarrow> (bytes \<times> bytes) option" where
  "pruned ctx dots = (if length (surviving dots ctx) > 0 then Some ([], encodeDotMap (surviving dots ctx)) else None)"

definition dots_in :: "memEntry \<Rightarrow> DotMap option" where
  "dots_in e = (case decodeDotMap (meMeta e) of Ok dm \<Rightarrow> Some dm | _ \<Rightarrow> None)"

lemma removeAll_fold:
  assumes "mb_inv (osBackend s)" "distinct (map fst xs)"
  shows "mb_inv (osBackend (fold (prune_key ctx) xs s)) \<and> osCodec (fold (prune_key ctx) xs s) = osCodec s \<and>
    mbTombstones (osBackend (fold (prune_key ctx) xs s)) = mbTombstones (osBackend s) \<and>
    memoryBackend_GetEntry (osBackend (fold (prune_key ctx) xs s)) k = (case map_of xs k of
      Some dots \<Rightarrow> pruned ctx dots | None \<Rightarrow> memoryBackend_GetEntry (osBackend s) k)"
  using assms
proof (induction xs arbitrary: s)
  case (Cons x xs)
  obtain l dots where x: "x = (l, dots)" by (cases x)
  have l: "map_of xs l = None" using Cons.prems(2) by (simp add: x map_of_eq_None_iff)
  have st: "mb_inv (osBackend (prune_key ctx x s))" "osCodec (prune_key ctx x s) = osCodec s"
      "mbTombstones (osBackend (prune_key ctx x s)) = mbTombstones (osBackend s)"
      "memoryBackend_GetEntry (osBackend (prune_key ctx x s)) = (memoryBackend_GetEntry (osBackend s))(l := pruned ctx dots)"
    using Cons.prems(1)
    by (auto simp: prune_key_def x Let_def orSetState_PutEncoded_def orSetState_RemoveEncoded_def memory.laws pruned_def
        memoryBackend_PutEntry_def memoryBackend_DeleteEntry_def mb_inv_def)
      (simp_all add: fun_eq_iff memoryBackend_GetEntry_def)
  show ?case using Cons.IH [OF st(1)] Cons.prems(2) l by (auto simp: st(2-4) [unfolded x] x split: option.splits)
qed simp

lemma removeAll_spec:
  assumes "mb_inv (osBackend s)"
  shows "mb_inv (osBackend (ORSetKind_removeAll K s ctx))" "osCodec (ORSetKind_removeAll K s ctx) = osCodec s"
    "mbTombstones (osBackend (ORSetKind_removeAll K s ctx)) = mbTombstones (osBackend s)"
    "memoryBackend_GetEntry (osBackend (ORSetKind_removeAll K s ctx)) k = (case memoryBackend_GetEntry (osBackend s) k of
       Some (v, meta) \<Rightarrow> (case decodeDotMap meta of Ok dots \<Rightarrow> pruned ctx dots | _ \<Rightarrow> Some (v, meta)) | None \<Rightarrow> None)"
proof -
  have d: "distinct (map fst (mbEntries (osBackend s)))" using assms by (simp add: mb_inv_def wf_map_def)
  have "rangeLoop (\<lambda>(k, e). (\<lambda>key _ metaBytes x. case decodeDotMap metaBytes of
        Ok dm \<Rightarrow> (x @ [(key, dm)], True) | _ \<Rightarrow> (x, True)) k (meValue e) (meMeta e)) xs []
      = pick dots_in xs" for xs
    by (subst rangeLoop_collect [where g = "\<lambda>(k, e). case dots_in e of Some dm \<Rightarrow> [(k, dm)] | None \<Rightarrow> []"])
      (auto simp: pick_def dots_in_def split: go.splits)
  then have eq: "orSetState_Range s (\<lambda>elemKey dots entries. (entries @ [(elemKey, dots)], True)) []
      = pick dots_in (mbEntries (osBackend s))"
    by (simp add: orSetState_Range_def memoryBackend_RangeEntries_def)
  note f = removeAll_fold [OF assms distinct_pick [OF d, of dots_in], of ctx]
  show "mb_inv (osBackend (ORSetKind_removeAll K s ctx))" "osCodec (ORSetKind_removeAll K s ctx) = osCodec s"
    "mbTombstones (osBackend (ORSetKind_removeAll K s ctx)) = mbTombstones (osBackend s)"
    using f by (simp_all add: ORSetKind_removeAll_def eq)
  show "memoryBackend_GetEntry (osBackend (ORSetKind_removeAll K s ctx)) k = (case memoryBackend_GetEntry (osBackend s) k of
       Some (v, meta) \<Rightarrow> (case decodeDotMap meta of Ok dots \<Rightarrow> pruned ctx dots | _ \<Rightarrow> Some (v, meta)) | None \<Rightarrow> None)"
    using f [of k] unfolding ORSetKind_removeAll_def eq Let_def
    by (auto simp: map_of_pick [OF d] memoryBackend_GetEntry_def dots_in_def split: option.splits go.splits Option.bind_split)
qed

interpretation orset_kind: crdt_kind "orSetKind \<lparr>oskCodec = Some c\<rparr>" "set0 c" "\<lambda>s. osCodec s = c \<and> mb_inv (osBackend s)"
proof
  show "ckNewState (orSetKind \<lparr>oskCodec = Some c\<rparr>) = Ok (set0 c)" by (simp add: ORSetKind_newState_Ok)
  show "osCodec (set0 c) = c \<and> mb_inv (osBackend (set0 c))" by (simp add: memory.inv_empty)
  fix s :: "'a orSetState" and d ctx
  assume s: "osCodec s = c \<and> mb_inv (osBackend s)"
  then show "osCodec (fst (ckParseDelta (orSetKind \<lparr>oskCodec = Some c\<rparr>) s d)) = c \<and>
      mb_inv (osBackend (fst (ckParseDelta (orSetKind \<lparr>oskCodec = Some c\<rparr>) s d)))" by simp
  have "osCodec (fst (orSetState_Apply s d)) = osCodec s"
    using os_Apply_cases [of s d] by (auto simp del: os_write.simps)
  then show "osCodec (fst (ckApplyDelta (orSetKind \<lparr>oskCodec = Some c\<rparr>) s d)) = c \<and>
      mb_inv (osBackend (fst (ckApplyDelta (orSetKind \<lparr>oskCodec = Some c\<rparr>) s d)))"
    using s orset.apply_inv [of s d] by simp
  show "osCodec (ckRemoveAll (orSetKind \<lparr>oskCodec = Some c\<rparr>) s ctx) = c \<and>
      mb_inv (osBackend (ckRemoveAll (orSetKind \<lparr>oskCodec = Some c\<rparr>) s ctx))"
    using s by (simp add: removeAll_spec)
qed

text \<open>Pruning a set of the cluster keeps the live cells the context does not cover.\<close>

lemma removeAll_step:
  assumes inv: "or_inv R (osBackend s)" and card: "card R < 2 ^ 32"
  shows "or_inv R (osBackend (ORSetKind_removeAll K s ctx))"
    and "or_view (osBackend (ORSetKind_removeAll K s ctx)) k r =
      (keep (VClock_Get ctx r) (fst (or_view (osBackend s) k r)), snd (or_view (osBackend s) k r))"
proof -
  let ?b = "osBackend s" and ?b' = "osBackend (ORSetKind_removeAll K s ctx)"
  have mb: "mb_inv ?b" using inv by (simp add: or_inv_def)
  note sp = removeAll_spec [OF mb, of K ctx]
  have tget: "memoryBackend_GetTombstone ?b' = memoryBackend_GetTombstone ?b"
    by (simp add: fun_eq_iff memoryBackend_GetTombstone_def sp(3))
  have ctx: "or_ctx ?b' k = or_ctx ?b k" for k by (simp add: or_ctx_def tget)
  have step: "or_ok_at R ?b' k \<and> or_view ?b' k r =
      (keep (VClock_Get ctx r) (fst (or_view ?b k r)), snd (or_view ?b k r))" for k r
  proof (cases "memoryBackend_GetEntry ?b k")
    case None
    then have "memoryBackend_GetEntry ?b' k = None" by (simp add: sp(4))
    with None inv show ?thesis by (simp add: or_ok_at_def or_inv_at or_view_def or_entry_def ctx tget keep_def)
  next
    case (Some p)
    obtain v meta where p: "p = (v, meta)" by (cases p)
    obtain dm where dm: "or_entry ?b k = Some dm" "in_cluster R dm" "wf_map dm" "dm \<noteq> []"
        "\<And>r c. (r, c) \<in> set dm \<Longrightarrow> VClock_Get (or_ctx ?b k) r < c"
      using or_entry_inv [OF inv Some [unfolded p]] by metis
    have d: "decodeDotMap meta = Ok dm" using dm(1) Some p by (auto simp: or_entry_def split: go.splits)
    have e: "memoryBackend_GetEntry ?b' k = pruned ctx dm" by (simp add: sp(4) Some p d)
    show ?thesis
    proof (cases "surviving dm ctx = []")
      case True
      then have n: "memoryBackend_GetEntry ?b' k = None" by (simp add: e pruned_def)
      have "keep (VClock_Get ctx r) (mget0 dm r) = 0" using mget0_surviving [OF dm(3), of ctx r] True by simp
      with n dm(1) inv show ?thesis by (simp add: or_ok_at_def or_inv_at or_view_def or_entry_def [of ?b'] ctx tget)
    next
      case False
      have c: "in_cluster R (surviving dm ctx)" by (rule in_cluster_surviving [OF dm(2)])
      have "(r, x) \<in> set (surviving dm ctx) \<Longrightarrow> VClock_Get (or_ctx ?b k) r < x" for r x
        using dm(5) by (simp add: set_surviving [OF dm(3)])
      note enc = encoded_dots [OF c card False this]
      have "or_entry ?b' k = Some (sorted_map (surviving dm ctx))" using enc False by (simp add: or_entry_def e pruned_def)
      with enc False dm(1) inv show ?thesis
        by (auto simp: or_ok_at_def or_inv_at or_view_def ctx tget e pruned_def mget0_surviving [OF dm(3)])
    qed
  qed
  have "mb_inv ?b'" by (rule sp(1))
  then show "or_inv R ?b'" using step by (simp add: or_inv_at)
  show "or_view ?b' k r = (keep (VClock_Get ctx r) (fst (or_view ?b k r)), snd (or_view ?b k r))"
    using step by blast
qed

section \<open>Delivery\<close>

definition dm_deliver :: "maphash \<Rightarrow> bytes \<Rightarrow> 'i DeltaMap \<Rightarrow> 'i DeltaMap" where
  "dm_deliver mh delta r = fst (replica_applyDelta mh deltaMapM r 0 (mkDot 0 0) delta)"

lemma applyDelta_run:
  assumes "mParseDelta M (rData r) delta = (s, Ok info)" "rStrategy r = alwaysMergeClock" "mApply M s delta = (s', Ok ())"
  shows "replica_applyDelta mh M r from dot delta =
    (replica_trackKey mh M (r\<lparr>rData := s', rReceived := record_loop (diDots info) (rReceived r)\<rparr>) (diKey info), Ok ())"
  using assms by (simp add: replica_applyDelta_def alwaysMergeClock_def)

context crdt_kind
begin

text \<open>A put delta whose inner delta parses and applies writes the inner state of its key.\<close>

lemma deliver_put:
  assumes m: "dm_inv K P (rData r)" and st: "rStrategy r = alwaysMergeClock"
    and len: "length (deltaMapState_wrapPut k d) < 2 ^ 63"
    and p: "ckParseDelta K (dm_at s0 (rData r) k) d = (dm_at s0 (rData r) k, Ok info)"
    and a: "ckApplyDelta K (dm_at s0 (rData r) k) d = (i', Ok ())"
  shows "mget (dmEntries (rData (dm_deliver mh (deltaMapState_wrapPut k d) r))) = (mget (dmEntries (rData r)))(k \<mapsto> i')"
    and "dmTombstones (rData (dm_deliver mh (deltaMapState_wrapPut k d) r)) = dmTombstones (rData r)"
    and "rStrategy (dm_deliver mh (deltaMapState_wrapPut k d) r) = alwaysMergeClock"
    and "P i' \<Longrightarrow> dm_inv K P (rData (dm_deliver mh (deltaMapState_wrapPut k d) r))"
proof -
  let ?i = "dm_at s0 (rData r) k"
  have w: "deltaMapState_wrapPut k d = opPut # appendVarintBytes [] k @ d"
    by (simp add: deltaMapState_wrapPut_def appendVarintBytes_def)
  have "length (appendVarintBytes [] k @ d) < 2 ^ 63" using len by (simp add: w)
  then obtain off where off: "readVarintBytes (appendVarintBytes [] k @ d) 0 = Ok (k, off)"
      "slice_from (deltaMapState_wrapPut k d) (1 + off) = Ok d"
    by (rule read_field) (simp add: w slice_from_Cons)
  obtain m' where m': "deltaMapState_getOrCreate (rData r) k = (m', Ok ?i)" "dm_inv K P m'" "dmKind m' = K"
      "mget (dmEntries m') = (mget (dmEntries (rData r)))(k \<mapsto> ?i)" "dmTombstones m' = dmTombstones (rData r)"
    by (rule created [OF m])
  let ?m = "m'\<lparr>dmEntries := mput k ?i (dmEntries m')\<rparr>"
  let ?info = "info\<lparr>diKey := k, diOp := opPut\<rparr>"
  have parse: "mParseDelta deltaMapM (rData r) (deltaMapState_wrapPut k d) = (?m, Ok ?info)"
    using off m' p by (simp add: deltaMapState_ParseDelta_def w)
  have "deltaMapState_getOrCreate ?m k = (?m, Ok ?i)" by (simp add: deltaMapState_getOrCreate_def)
  then have "mApply deltaMapM ?m (deltaMapState_wrapPut k d) = (?m\<lparr>dmEntries := mput k i' (dmEntries ?m)\<rparr>, Ok ())"
    using off m' a by (simp add: deltaMapState_Apply_def w)
  note run = applyDelta_run [OF parse st this, of mh 0 "mkDot 0 0"]
  then have data: "rData (dm_deliver mh (deltaMapState_wrapPut k d) r) = ?m\<lparr>dmEntries := mput k i' (dmEntries ?m)\<rparr>"
    by (simp add: dm_deliver_def)
  with m'(4,5) show "mget (dmEntries (rData (dm_deliver mh (deltaMapState_wrapPut k d) r))) = (mget (dmEntries (rData r)))(k \<mapsto> i')"
    "dmTombstones (rData (dm_deliver mh (deltaMapState_wrapPut k d) r)) = dmTombstones (rData r)" by (simp_all add: fun_eq_iff)
  show "rStrategy (dm_deliver mh (deltaMapState_wrapPut k d) r) = alwaysMergeClock" using run st by (simp add: dm_deliver_def)
  show "dm_inv K P (rData (dm_deliver mh (deltaMapState_wrapPut k d) r))" if "P i'"
    unfolding data using m'(2) that dm_inv_at [OF m inv_new] by (intro dm_inv_write)
qed

text \<open>A remove delta prunes the entry of its key.\<close>

lemma deliver_remove:
  assumes m: "dm_inv K P (rData r)" and st: "rStrategy r = alwaysMergeClock"
    and len: "length (deltaMapState_wrapRemove k d ctx) < 2 ^ 63" and vc: "wf_map ctx" "length ctx < 2 ^ 32"
  shows "rData (dm_deliver mh (deltaMapState_wrapRemove k d ctx) r) = dm_remove (rData r) k d (sorted_map ctx)"
    and "rStrategy (dm_deliver mh (deltaMapState_wrapRemove k d ctx) r) = alwaysMergeClock"
proof -
  let ?data = "appendVarintBytes [] k @ encodeDot d @ encodeVClock ctx"
  have w: "deltaMapState_wrapRemove k d ctx = opRemove # ?data"
    by (simp add: deltaMapState_wrapRemove_def appendVarintBytes_def)
  have "length ?data < 2 ^ 63" using len by (simp add: w)
  then obtain off where off: "readVarintBytes ?data 0 = Ok (k, off)" "\<not> off + 16 > int (length ?data)" "0 \<le> off"
      "slice_from (opRemove # ?data) (1 + off) = Ok (encodeDot d @ encodeVClock ctx)"
      "slice_from (opRemove # ?data) (1 + off + 16) = Ok (encodeVClock ctx)"
  proof (rule read_field_dot)
    fix off
    assume r: "readVarintBytes ?data 0 = Ok (k, off)" "\<not> off + 16 > int (length ?data)"
      "slice_from ?data off = Ok (encodeDot d @ encodeVClock ctx)" "slice_from ?data (off + 16) = Ok (encodeVClock ctx)"
    have "0 \<le> off" using r(3) by (auto simp: slice_from_def slice_def split: if_splits)
    with r slice_from_Cons [of off opRemove ?data] slice_from_Cons [of "off + 16" opRemove ?data] that show thesis
      by (simp add: add.assoc)
  qed
  have dots: "go_bind (slice_from (opRemove # ?data) (1 + off)) decodeDot = Ok d"
    "go_bind (slice_from (opRemove # ?data) (1 + off + 16)) decodeVClock = Ok (sorted_map ctx)"
    using off vc by (simp_all add: decodeVClock_encodeVClock')
  have p: "deltaMapState_ParseDelta (rData r) (opRemove # ?data) =
      (rData r, Ok \<lparr>diOp = opRemove, diKey = k, diMeta = [], diContext = None, diDots = [d]\<rparr>)"
    using off dots(1) by (simp add: deltaMapState_ParseDelta_def)
  note a = Apply_remove [OF off(1,2) dots, of "rData r"]
  show "rData (dm_deliver mh (deltaMapState_wrapRemove k d ctx) r) = dm_remove (rData r) k d (sorted_map ctx)"
    "rStrategy (dm_deliver mh (deltaMapState_wrapRemove k d ctx) r) = alwaysMergeClock"
    using p a st by (simp_all add: dm_deliver_def w applyDelta_run)
qed

end

section \<open>Maps of observed-remove sets\<close>

abbreviation set_kind :: "'e Codec \<Rightarrow> 'e orSetState CRDTKind" where
  "set_kind c \<equiv> orSetKind \<lparr>oskCodec = Some c\<rparr>"

text \<open>A map whose inner sets hold dots of the cluster; the cells of the set under a key.\<close>

definition dms_inv :: "ReplicaID set \<Rightarrow> 'e Codec \<Rightarrow> 'e orSetState DeltaMap \<Rightarrow> bool" where
  "dms_inv R c r \<longleftrightarrow> rStrategy r = alwaysMergeClock \<and>
     dm_inv (set_kind c) (\<lambda>s. osCodec s = c \<and> or_inv R (osBackend s)) (rData r)"

abbreviation dms_set :: "'e Codec \<Rightarrow> 'e orSetState DeltaMap \<Rightarrow> bytes \<Rightarrow> 'e orSetState" where
  "dms_set c r k \<equiv> dm_at (set0 c) (rData r) k"

definition dms_put :: "bytes \<times> os_op \<Rightarrow> bytes" where
  "dms_put x = deltaMapState_wrapPut (fst x) (os_delta (snd x))"

definition dms_fits :: "ReplicaID set \<Rightarrow> bytes \<times> os_op \<Rightarrow> bool" where
  "dms_fits R x \<longleftrightarrow> length (dms_put x) < 2 ^ 63 \<and> os_fits R (snd x)"

definition ops_at :: "bytes \<Rightarrow> (bytes \<times> os_op) list \<Rightarrow> or_op list" where
  "ops_at k ds = map (os_abs \<circ> snd) (filter (\<lambda>x. fst x = k) ds)"

lemma set0_inv: "osCodec (set0 c) = c \<and> or_inv R (osBackend (set0 c))"
  by (simp add: or_inv_def memory.inv_empty memory.get_empty memory.tget_empty)

lemma set0_view: "or_view newMemoryBackend = (\<lambda>_ _. (0, 0))"
  by (simp add: or_view_def or_entry_def or_ctx_def memory.get_empty memory.tget_empty VClock_Get_def fun_eq_iff)

lemma dms_mb: "dms_inv R c r \<Longrightarrow> dm_inv (set_kind c) (\<lambda>s. osCodec s = c \<and> mb_inv (osBackend s)) (rData r)"
  by (auto simp: dms_inv_def dm_inv_def or_inv_def)

lemma dms_at: "dms_inv R c r \<Longrightarrow> osCodec (dms_set c r k) = c \<and> or_inv R (osBackend (dms_set c r k))"
  using dm_inv_at [of "set_kind c" _ "rData r" "set0 c" k] set0_inv unfolding dms_inv_def by blast

lemma NewDeltaMap_fresh:
  assumes "r = NewDeltaMap mh i (set_kind c) opts"
  shows "dms_inv R c r" "or_view (osBackend (dms_set c r k)) = (\<lambda>_ _. (0, 0))" "mget (dmEntries (rData r)) k = None"
  using assms by (simp_all add: NewDeltaMap_def newDeltaMapState_def dms_inv_def dm_inv_def dm_at_def set0_view)

lemma Query_Contains:
  assumes "dms_inv R c r" "Encode c e = Inr b"
  shows "DeltaMap_Query r k (ContainsSetMember_execQuery e) =
    (if DeltaMap_HasKey r k then Some (\<exists>i. fst (or_view (osBackend (dms_set c r k)) b i) \<noteq> 0) else None)"
proof (cases "mget (dmEntries (rData r)) k")
  case (Some s)
  have s: "osCodec s = c" "or_inv R (osBackend s)" using assms(1) Some by (auto simp: dms_inv_def dm_inv_def)
  with or_live [OF s(2), of b] Some assms(2) show ?thesis
    by (simp add: DeltaMap_Query_def DeltaMap_HasKey_def ContainsSetMember_execQuery_def orSetState_Contains_def dm_at_def)
qed (simp add: DeltaMap_Query_def DeltaMap_HasKey_def)

lemma dms_put_entries:
  assumes "dms_inv R c r" "card R < 2 ^ 32" "dms_fits R (l, y)"
  shows "mget (dmEntries (rData (dm_deliver mh (dms_put (l, y)) r))) = (mget (dmEntries (rData r)))(l \<mapsto> os_write (os_stored y) (dms_set c r l))"
    and "dms_inv R c (dm_deliver mh (dms_put (l, y)) r)"
proof -
  let ?s = "dms_set c r l" and ?r' = "dm_deliver mh (dms_put (l, y)) r"
  have f: "os_fits R y" "length (deltaMapState_wrapPut l (os_delta y)) < 2 ^ 63" and ok: "os_ok R (os_stored y)"
    using assms(3) by (auto simp: dms_fits_def dms_put_def os_fits_def)
  have st: "rStrategy r = alwaysMergeClock" using assms(1) by (simp add: dms_inv_def)
  note s = dms_at [OF assms(1), of l]
  have p: "ckParseDelta (set_kind c) ?s (os_delta y) = (?s, Ok (os_info y))"
    "ckApplyDelta (set_kind c) ?s (os_delta y) = (os_write (os_stored y) ?s, Ok ())"
    using os_delta_ok [OF assms(2) f(1), of ?s] by simp_all
  note d = orset_kind.deliver_put [OF dms_mb [OF assms(1)] st f(2) p, of mh]
  show e: "mget (dmEntries (rData ?r')) = (mget (dmEntries (rData r)))(l \<mapsto> os_write (os_stored y) ?s)"
    using d(1) by (simp only: dms_put_def fst_conv snd_conv)
  note w = os_write_step [OF conjunct2 [OF s] assms(2) ok]
  have "dm_inv (set_kind c) (\<lambda>s. osCodec s = c \<and> mb_inv (osBackend s)) (rData ?r')"
    using d(4) w s by (simp add: dms_put_def or_inv_def)
  moreover have "osCodec s' = c \<and> or_inv R (osBackend s')" if "mget (dmEntries (rData ?r')) k' = Some s'" for k' s'
  proof (cases "k' = l")
    case True
    with that e have "s' = os_write (os_stored y) ?s" by simp
    with s conjunct1 [OF w] show ?thesis by simp
  next
    case False
    with that e assms(1) show ?thesis by (simp add: dms_inv_def dm_inv_def)
  qed
  ultimately show "dms_inv R c ?r'" using d(3) unfolding dms_inv_def dm_inv_def by (simp add: dms_put_def)
qed

lemma dms_step:
  assumes "dms_inv R c r" "card R < 2 ^ 32" "dms_fits R x"
  shows "dms_inv R c (dm_deliver mh (dms_put x) r) \<and>
    DeltaMap_HasKey (dm_deliver mh (dms_put x) r) k = (DeltaMap_HasKey r k \<or> fst x = k) \<and>
    or_view (osBackend (dms_set c (dm_deliver mh (dms_put x) r) k)) =
      fold code_step (ops_at k [x]) (or_view (osBackend (dms_set c r k)))"
proof -
  obtain l y where x: "x = (l, y)" by (cases x)
  let ?s = "dms_set c r l"
  note e = dms_put_entries [OF assms(1,2), of l y mh, folded x, OF assms(3)]
  have w: "or_view (osBackend (os_write (os_stored y) ?s)) = code_step (os_abs y) (or_view (osBackend ?s))"
    using os_write_step [of R ?s "os_stored y"] dms_at [OF assms(1), of l] assms(2,3)
    by (auto simp: dms_fits_def os_fits_def x)
  have at: "dms_set c (dm_deliver mh (dms_put x) r) k = (if k = l then os_write (os_stored y) ?s else dms_set c r k)"
    by (simp add: dm_at_def e(1))
  have "or_view (osBackend (dms_set c (dm_deliver mh (dms_put x) r) k)) =
      fold code_step (ops_at k [x]) (or_view (osBackend (dms_set c r k)))"
    unfolding at using w by (cases "k = l") (simp_all add: ops_at_def x)
  moreover have "DeltaMap_HasKey (dm_deliver mh (dms_put x) r) k = (DeltaMap_HasKey r k \<or> fst x = k)"
    unfolding DeltaMap_HasKey_def e(1) by (auto simp: x)
  ultimately show ?thesis using e(2) by blast
qed

lemma dms_all:
  assumes "card R < 2 ^ 32"
  shows "dms_inv R c r \<Longrightarrow> list_all (dms_fits R) xs \<Longrightarrow>
    dms_inv R c (fold (\<lambda>x. dm_deliver mh (dms_put x)) xs r) \<and>
    DeltaMap_HasKey (fold (\<lambda>x. dm_deliver mh (dms_put x)) xs r) k = (DeltaMap_HasKey r k \<or> k \<in> fst ` set xs) \<and>
    or_view (osBackend (dms_set c (fold (\<lambda>x. dm_deliver mh (dms_put x)) xs r) k)) =
      fold code_step (ops_at k xs) (or_view (osBackend (dms_set c r k)))"
proof (induction xs arbitrary: r)
  case (Cons x xs)
  have "dms_fits R x" using Cons.prems by simp
  note st = dms_step [OF Cons.prems(1) assms this, of mh k]
  have "ops_at k (x # xs) = ops_at k [x] @ ops_at k xs" by (simp add: ops_at_def)
  with Cons.IH [OF conjunct1 [OF st]] Cons.prems(2) st show ?case by auto
qed (simp add: ops_at_def)

text \<open>What is left of a set after its key was removed with a context.\<close>

lemma map_of_empty: "xs = [] \<longleftrightarrow> (\<forall>k. map_of xs k = None)"
  by (cases xs) (auto simp: map_of_eq_None_iff)

lemma nothing_since:
  assumes "or_inv R (osBackend s)"
  shows "orSetState_DeltasSince s [] = [] \<longleftrightarrow> (\<forall>k. memoryBackend_GetEntry (osBackend s) k = None) \<and>
    (\<forall>k t d c. memoryBackend_GetTombstone (osBackend s) k = Some t \<longrightarrow> decodeRemoveTombstone t = Ok (d, c) \<longrightarrow> Counter d = 0)"
proof -
  let ?b = "osBackend s"
  have "pick (seen_dots []) (mbEntries ?b) = [] \<longleftrightarrow> (\<forall>k. or_entry ?b k = None)"
  proof -
    have "\<exists>(r, c) \<in> set dm. c > VClock_Get [] r" if e: "or_entry ?b k = Some dm" for k dm
    proof -
      obtain v meta where g: "memoryBackend_GetEntry ?b k = Some (v, meta)"
        using e by (auto simp: or_entry_def split: option.splits)
      obtain dm' where "or_entry ?b k = Some dm'" "dm' \<noteq> []" "\<And>r c. (r, c) \<in> set dm' \<Longrightarrow> VClock_Get (or_ctx ?b k) r < c"
        using or_entry_inv [OF assms g] by metis
      with e show ?thesis by (cases dm) (fastforce simp: VClock_Get_def word_gt_0)+
    qed
    then show ?thesis by (auto simp: map_of_empty pick_dots(1) [OF assms] split: option.splits)
  qed
  moreover have "or_entry ?b k = None \<longleftrightarrow> memoryBackend_GetEntry ?b k = None" for k
  proof (cases "memoryBackend_GetEntry ?b k")
    case (Some p)
    obtain v meta where "p = (v, meta)" by (cases p)
    with Some obtain dm where "or_entry ?b k = Some dm" using or_entry_inv [OF assms, of k v meta] by metis
    with Some show ?thesis by simp
  qed (simp add: or_entry_def)
  moreover have "pick (seen_tomb []) (mbTombstones ?b) = [] \<longleftrightarrow> (\<forall>k t d c. memoryBackend_GetTombstone ?b k = Some t \<longrightarrow>
      decodeRemoveTombstone t = Ok (d, c) \<longrightarrow> Counter d = 0)"
  proof -
    have d: "distinct (map fst (mbTombstones ?b))" using assms by (simp add: or_inv_def mb_inv_def wf_map_def)
    have "seen_tomb [] t = None \<longleftrightarrow> (\<forall>d c. decodeRemoveTombstone t = Ok (d, c) \<longrightarrow> Counter d = 0)" for t
      by (auto simp: seen_tomb_def VClock_Get_def word_gt_0 split: go.splits)
    moreover have "Option.bind (map_of (mbTombstones ?b) k) (seen_tomb []) = None \<longleftrightarrow>
        (\<forall>t. mget (mbTombstones ?b) k = Some t \<longrightarrow> seen_tomb [] t = None)" for k
      by (cases "map_of (mbTombstones ?b) k") auto
    ultimately show ?thesis by (simp add: map_of_empty map_of_pick [OF d] memoryBackend_GetTombstone_def)
  qed
  ultimately show ?thesis by (simp add: DeltasSince_os os_since_def)
qed

lemma set_prune:
  assumes "or_inv R (osBackend s)" "card R < 2 ^ 32"
  shows "dm_prune (set_kind c) ctx s = None \<longleftrightarrow> (\<forall>k i. fst (or_view (osBackend s) k i) \<le> VClock_Get ctx i) \<and>
      (\<forall>k t d c. memoryBackend_GetTombstone (osBackend s) k = Some t \<longrightarrow> decodeRemoveTombstone t = Ok (d, c) \<longrightarrow> Counter d = 0)"
    and "dm_prune (set_kind c) ctx s = Some s' \<Longrightarrow> or_inv R (osBackend s') \<and> osCodec s' = osCodec s \<and>
      (\<forall>k i. fst (or_view (osBackend s') k i) = keep (VClock_Get ctx i) (fst (or_view (osBackend s) k i)))"
proof -
  let ?s = "ORSetKind_removeAll \<lparr>oskCodec = Some c\<rparr> s ctx"
  note st = removeAll_step [OF assms, of "\<lparr>oskCodec = Some c\<rparr>" ctx]
  have mb: "mb_inv (osBackend s)" using assms(1) by (simp add: or_inv_def)
  have "memoryBackend_GetTombstone (osBackend ?s) = memoryBackend_GetTombstone (osBackend s)"
    by (simp add: fun_eq_iff memoryBackend_GetTombstone_def removeAll_spec(3) [OF mb])
  moreover have "memoryBackend_GetEntry (osBackend ?s) k = None \<longleftrightarrow>
      (\<forall>i. fst (or_view (osBackend s) k i) \<le> VClock_Get ctx i)" for k
    using or_live [OF st(1), of k] by (auto simp: st(2))
  ultimately show "dm_prune (set_kind c) ctx s = None \<longleftrightarrow> (\<forall>k i. fst (or_view (osBackend s) k i) \<le> VClock_Get ctx i) \<and>
      (\<forall>k t d c. memoryBackend_GetTombstone (osBackend s) k = Some t \<longrightarrow> decodeRemoveTombstone t = Ok (d, c) \<longrightarrow> Counter d = 0)"
    using nothing_since [OF st(1)] by (simp add: dm_prune_def Let_def)
  show "dm_prune (set_kind c) ctx s = Some s' \<Longrightarrow> or_inv R (osBackend s') \<and> osCodec s' = osCodec s \<and>
      (\<forall>k i. fst (or_view (osBackend s') k i) = keep (VClock_Get ctx i) (fst (or_view (osBackend s) k i)))"
    using st removeAll_spec(2) [OF mb] by (auto simp: dm_prune_def Let_def split: if_splits)
qed

text \<open>A local mutation of the set under a key.\<close>

lemma Mutate_set:
  assumes "dms_inv R c r" "mut (dms_set c r k) (snd (replica_nextDot r)) (remove_context r) = (s', Ok d)"
  shows "mget (dmEntries (rData (fst (DeltaMap_Mutate mh r k mut)))) = (mget (dmEntries (rData r)))(k \<mapsto> s')"
proof -
  obtain m' where m': "deltaMapState_getOrCreate (rData r) k = (m', Ok (dms_set c r k))"
      "mget (dmEntries m') = (mget (dmEntries (rData r)))(k \<mapsto> dms_set c r k)"
    by (rule orset_kind.created [OF dms_mb [OF assms(1)]])
  then show ?thesis
    using assms(2) by (simp add: DeltaMap_Mutate_def split_beta Let_def remove_context_def fun_eq_iff)
qed

lemma RemoveKey_set:
  assumes "dms_inv R c r"
  shows "mget (dmEntries (rData (fst (DeltaMap_RemoveKey mh r k)))) =
    (mget (dmEntries (rData r)))(k := dm_prune (set_kind c) (remove_context r) (dms_set c r k))"
proof -
  obtain r1 d where nd: "replica_nextDot r = (r1, d)" by fastforce
  have r1: "rData r1 = rData r" "receivedClock_HWM (rReceived r1) = remove_context r"
    using nextDot_simps(1) [of r] nd by (simp_all add: remove_context_def)
  let ?m = "(rData r)\<lparr>dmTombstones := mput k \<lparr>dtDot = d, dtCtx = remove_context r\<rparr> (dmTombstones (rData r))\<rparr>"
  have "dm_inv (set_kind c) (\<lambda>s. osCodec s = c \<and> mb_inv (osBackend s)) ?m"
    using dms_mb [OF assms] by (simp add: dm_inv_def)
  then obtain m' where m': "deltaMapState_getOrCreate ?m k = (m', Ok (dm_at (set0 c) ?m k))" "dmKind m' = set_kind c"
      "mget (dmEntries m') = (mget (dmEntries ?m))(k \<mapsto> dm_at (set0 c) ?m k)"
    by (rule orset_kind.created)
  have at: "dm_at (set0 c) ?m k = dms_set c r k" by (simp add: dm_at_def)
  show ?thesis
    using m' by (auto simp: DeltaMap_RemoveKey_def nd r1 Let_def dm_prune_def fun_eq_iff at)
qed

text \<open>A delivered remove of a key.\<close>

lemma dms_remove:
  assumes "dms_inv R c r" "card R < 2 ^ 32" "in_cluster R ctx" "length (deltaMapState_wrapRemove k d ctx) < 2 ^ 63"
  shows "mget (dmEntries (rData (dm_deliver mh (deltaMapState_wrapRemove k d ctx) r))) =
      (mget (dmEntries (rData r)))(k := Option.bind (mget (dmEntries (rData r)) k) (dm_prune (set_kind c) (sorted_map ctx)))"
    and "dms_inv R c (dm_deliver mh (deltaMapState_wrapRemove k d ctx) r)"
proof -
  let ?r' = "dm_deliver mh (deltaMapState_wrapRemove k d ctx) r"
  have st: "rStrategy r = alwaysMergeClock" and kind: "dmKind (rData r) = set_kind c"
    using assms(1) by (simp_all add: dms_inv_def dm_inv_def)
  have ctx: "wf_map ctx" "length ctx < 2 ^ 32" using assms(2,3) in_cluster_length by (auto simp: in_cluster_def)
  note d = orset_kind.deliver_remove [OF dms_mb [OF assms(1)] st assms(4) ctx, of mh]
  show e: "mget (dmEntries (rData ?r')) =
      (mget (dmEntries (rData r)))(k := Option.bind (mget (dmEntries (rData r)) k) (dm_prune (set_kind c) (sorted_map ctx)))"
    using dm_remove_entries [of "rData r" k d "sorted_map ctx"] unfolding d(1) kind by blast
  have "dm_inv (set_kind c) (\<lambda>s. osCodec s = c \<and> mb_inv (osBackend s)) (rData ?r')"
    unfolding d(1) by (rule orset_kind.remove_dm_inv [OF dms_mb [OF assms(1)]])
  moreover have "osCodec s' = c \<and> or_inv R (osBackend s')" if "mget (dmEntries (rData ?r')) k' = Some s'" for k' s'
  proof (cases "k' = k")
    case True
    with that e obtain s where s: "mget (dmEntries (rData r)) k = Some s" "dm_prune (set_kind c) (sorted_map ctx) s = Some s'"
      by (auto simp: bind_eq_Some_conv)
    have "osCodec s = c \<and> or_inv R (osBackend s)" using assms(1) s(1) by (simp add: dms_inv_def dm_inv_def)
    with set_prune(2) [OF _ assms(2) s(2)] show ?thesis by simp
  next
    case False
    with that e assms(1) show ?thesis by (simp add: dms_inv_def dm_inv_def)
  qed
  ultimately show "dms_inv R c ?r'" using d(2) unfolding dms_inv_def dm_inv_def by simp
qed

text \<open>One add in a fresh set.\<close>

lemma set0_add:
  assumes "card R < 2 ^ 32" "os_fits R (OsAdd b [(i, n)])"
  shows "or_inv R (osBackend (os_write (os_stored (OsAdd b [(i, n)])) (set0 c)))"
    and "or_view (osBackend (os_write (os_stored (OsAdd b [(i, n)])) (set0 c))) =
      (\<lambda>k r. (if k = b \<and> r = i then n else 0, 0))"
    and "memoryBackend_GetTombstone (osBackend (os_write (os_stored (OsAdd b [(i, n)])) (set0 c))) l = None"
proof -
  have ok: "os_ok R (os_stored (OsAdd b [(i, n)]))" using assms(2) by (simp add: os_fits_def)
  note w = os_write_step [OF conjunct2 [OF set0_inv [of c]] assms(1) ok]
  then show "or_inv R (osBackend (os_write (os_stored (OsAdd b [(i, n)])) (set0 c)))" by blast
  show "or_view (osBackend (os_write (os_stored (OsAdd b [(i, n)])) (set0 c))) = (\<lambda>k r. (if k = b \<and> r = i then n else 0, 0))"
    using conjunct2 [OF w] by (auto simp: set0_view fun_eq_iff cell_add_def mget0_Cons keep_def max_def word_gt_0)
  show "memoryBackend_GetTombstone (osBackend (os_write (os_stored (OsAdd b [(i, n)])) (set0 c))) l = None"
    by (simp add: or_add_def Let_def memory.laws memory.inv_empty memory.tget_empty memory.get_empty)
qed

lemma untracked_Delete: "untracked r \<Longrightarrow> untracked (r\<lparr>rMerkle := merkleMap_Delete (rMerkle r) k\<rparr>)"
  by (simp add: untracked_def merkleMap_Delete_def)

text \<open>Every state of a map of sets: its own operations, any message and any tick.\<close>

inductive dms_reach :: "maphash \<Rightarrow> 'e Codec \<Rightarrow> 'e orSetState DeltaMap \<Rightarrow> bool" for mh c where
  dms_new: "dms_reach mh c (NewDeltaMap mh i (set_kind c) opts)"
| dms_add: "dms_reach mh c r \<Longrightarrow> dms_reach mh c (fst (DeltaMap_Mutate mh r k (AddSetMember_applyMutation e)))"
| dms_rem: "dms_reach mh c r \<Longrightarrow> dms_reach mh c (fst (DeltaMap_Mutate mh r k (RemoveSetMember_applyMutation e)))"
| dms_key: "dms_reach mh c r \<Longrightarrow> dms_reach mh c (fst (DeltaMap_RemoveKey mh r k))"
| dms_msg: "dms_reach mh c r \<Longrightarrow> replica_handleMessage mh deltaMapM r from dot msg = Ok (r', out) \<Longrightarrow> dms_reach mh c r'"
| dms_tick: "dms_reach mh c r \<Longrightarrow> replica_sendDigests mh deltaMapM r = Ok (r', out) \<Longrightarrow> dms_reach mh c r'"

lemma set_mutations_inv:
  assumes "osCodec s = c \<and> mb_inv (osBackend s)"
  shows "osCodec (fst (AddSetMember_applyMutation e s d h)) = c \<and> mb_inv (osBackend (fst (AddSetMember_applyMutation e s d h)))"
    and "osCodec (fst (RemoveSetMember_applyMutation e s d h)) = c \<and> mb_inv (osBackend (fst (RemoveSetMember_applyMutation e s d h)))"
  using assms
  by (auto simp: AddSetMember_applyMutation_def RemoveSetMember_applyMutation_def orSetState_Add_def orSetState_Remove_def
      orSetState_PutEncoded_def orSetState_RemoveEncoded_def Let_def memory.laws split: sum.splits)

lemma reach_inv: "dms_reach mh c r \<Longrightarrow> MakeSeed mh \<noteq> 0 \<Longrightarrow> orset_kind.dm.replica_inv c mh r"
proof (induction rule: dms_reach.induct)
  case (dms_new i opts)
  then show ?case by (rule orset_kind.New_inv)
next
  case (dms_add r k e)
  show ?case by (rule orset_kind.Mutate_inv [OF dms_add.IH [OF dms_add.prems] set_mutations_inv(1)])
next
  case (dms_rem r k e)
  show ?case by (rule orset_kind.Mutate_inv [OF dms_rem.IH [OF dms_rem.prems] set_mutations_inv(2)])
next
  case (dms_key r k)
  show ?case by (rule orset_kind.RemoveKey_inv [OF dms_key.IH [OF dms_key.prems]])
next
  case (dms_msg r "from" dot msg r' out)
  show ?case by (rule orset_kind.dm.handleMessage_inv [OF dms_msg.IH [OF dms_msg.prems] dms_msg.hyps(2)])
next
  case (dms_tick r r' out)
  show ?case by (rule orset_kind.dm.sendDigests_inv [OF dms_tick.IH [OF dms_tick.prems] dms_tick.hyps(2)])
qed

section \<open>Properties\<close>

text \<open>
  C18: maps of observed-remove sets converge: two replicas that received the same inner deltas,
  adds in any order and any number of times and the removes of an element in the order of
  their contexts, answer every membership query alike, absent keys included.
\<close>

theorem DeltaMap_converges:
  assumes "card R < 2 ^ 32" "list_all (dms_fits R) ds" "set ds = set es" "Encode c e = Inr b"
    and "sorted_wrt removes_ordered (ops_at k ds)" "sorted_wrt removes_ordered (ops_at k es)"
  shows "DeltaMap_Query (fold (\<lambda>x. dm_deliver mh (dms_put x)) ds (NewDeltaMap mh i (set_kind c) opts)) k (ContainsSetMember_execQuery e)
    = DeltaMap_Query (fold (\<lambda>x. dm_deliver mh' (dms_put x)) es (NewDeltaMap mh' j (set_kind c) opts')) k (ContainsSetMember_execQuery e)"
proof -
  let ?r = "NewDeltaMap mh i (set_kind c) opts" and ?r' = "NewDeltaMap mh' j (set_kind c) opts'"
  have es: "list_all (dms_fits R) es" using assms(2,3) by (simp add: list_all_iff)
  note r = NewDeltaMap_fresh [OF refl, where mh = mh and i = i and c = c and opts = opts]
    and r' = NewDeltaMap_fresh [OF refl, where mh = mh' and i = j and c = c and opts = opts']
  note a = dms_all [OF assms(1) r(1) assms(2), of mh k] and a' = dms_all [OF assms(1) r'(1) es, of mh' k]
  have "set (ops_at k ds) = set (ops_at k es)" using assms(3) by (auto simp: ops_at_def)
  then have v: "fold code_step (ops_at k ds) (\<lambda>_ _. (0, 0)) = fold code_step (ops_at k es) (\<lambda>_ _. (0, 0))"
    by (rule code_converges [OF _ assms(5,6)])
  have key: "\<not> DeltaMap_HasKey ?r k" "\<not> DeltaMap_HasKey ?r' k" using r(3) r'(3) by (simp_all add: DeltaMap_HasKey_def)
  show ?thesis
    using Query_Contains [OF conjunct1 [OF a] assms(4), of k] Query_Contains [OF conjunct1 [OF a'] assms(4), of k]
      a a' v key assms(3) r(2) r'(2) by simp
qed

lemma dms_fits_short:
  "length k < 128 \<Longrightarrow> os_fits R x \<Longrightarrow> length (os_delta x) < 2 ^ 62 \<Longrightarrow> dms_fits R (k, x)"
  by (simp add: dms_fits_def dms_put_def deltaMapState_wrapPut_def length_append_varint length_PutUvarint_short)

theorem DeltaMap_converges_witness:
  "DeltaMap_Query (fold (\<lambda>x. dm_deliver demo_hash (dms_put x)) [([1], OsAdd [7] [(2, 1)]), ([1], OsRem [7] (mkDot 3 1) [(2, 1)])]
      (NewDeltaMap demo_hash 1 (set_kind StringCodec) [])) [1] (ContainsSetMember_execQuery [7])
   = DeltaMap_Query (fold (\<lambda>x. dm_deliver demo_hash (dms_put x)) [([1], OsRem [7] (mkDot 3 1) [(2, 1)]), ([1], OsAdd [7] [(2, 1)])]
      (NewDeltaMap demo_hash 2 (set_kind StringCodec) [])) [1] (ContainsSetMember_execQuery [7])"
proof -
  have "os_fits demo_cluster (OsAdd [7] [(2, 1)])" "os_fits demo_cluster (OsRem [7] (mkDot 3 1) [(2, 1)])"
    by (auto simp: os_fits_short demo_clock demo_cluster_card)
  moreover have "length (os_delta (OsAdd [7] [(2, 1)])) < 2 ^ 62" "length (os_delta (OsRem [7] (mkDot 3 1) [(2, 1)])) < 2 ^ 62"
    using length_PutUvarint_short [of 1] by (simp_all add: length_append_varint rm_delta_def encodeVClock_def length_encodeDotMap)
  ultimately have f: "dms_fits demo_cluster ([1], OsAdd [7] [(2, 1)])" "dms_fits demo_cluster ([1], OsRem [7] (mkDot 3 1) [(2, 1)])"
    by (simp_all add: dms_fits_short)
  show ?thesis
    by (rule DeltaMap_converges [OF demo_cluster_card, where b = "[7]"]) (use f in \<open>auto simp: ops_at_def StringCodec_def\<close>)
qed

text \<open>
  Adding a member to the set under a key makes it a member, removing it takes it out,
  and neither touches the other members or the other keys.
\<close>

theorem DeltaMap_Mutate_Query:
  assumes "dms_inv R c r" "Encode c e = Inr b"
  shows "DeltaMap_Query (fst (DeltaMap_Mutate mh r k (AddSetMember_applyMutation e))) k (ContainsSetMember_execQuery e) = Some True \<and>
    DeltaMap_Query (fst (DeltaMap_Mutate mh r k (RemoveSetMember_applyMutation e))) k (ContainsSetMember_execQuery e) = Some False \<and>
    (\<forall>mut \<in> {AddSetMember_applyMutation e, RemoveSetMember_applyMutation e}.
       (\<forall>k'. k' \<noteq> k \<longrightarrow> DeltaMap_Query (fst (DeltaMap_Mutate mh r k mut)) k' q = DeltaMap_Query r k' q) \<and>
       (\<forall>e' b'. Encode c e' = Inr b' \<and> b' \<noteq> b \<longrightarrow>
          DeltaMap_Query (fst (DeltaMap_Mutate mh r k mut)) k (ContainsSetMember_execQuery e') =
            Some (orSetState_Contains (dms_set c r k) e')))"
proof -
  let ?s = "dms_set c r k"
  note s = dms_at [OF assms(1), of k]
  have mb: "mb_inv (osBackend ?s)" and en: "Encode (osCodec ?s) e = Inr b" using s assms(2) by (auto simp: or_inv_def)
  obtain s1 d1 where add: "orSetState_Add ?s e (snd (replica_nextDot r)) = (s1, Ok d1)" "osCodec s1 = c"
      "\<exists>x. memoryBackend_GetEntry (osBackend s1) = (memoryBackend_GetEntry (osBackend ?s))(b \<mapsto> x)"
    using s mb assms(2)
    by (auto simp: orSetState_Add_def Let_def orSetState_PutEncoded_def memory.laws split: option.splits)
  obtain s2 d2 where rem: "orSetState_Remove ?s e (snd (replica_nextDot r)) (remove_context r) = (s2, Ok d2)" "osCodec s2 = c"
      "memoryBackend_GetEntry (osBackend s2) = (memoryBackend_GetEntry (osBackend ?s))(b := None)"
    using remove_not_contained [OF mb en, of "snd (replica_nextDot r)" "remove_context r"] s assms(2)
    by (auto simp: orSetState_Remove_def Let_def)
  have m1: "mget (dmEntries (rData (fst (DeltaMap_Mutate mh r k (AddSetMember_applyMutation e))))) = (mget (dmEntries (rData r)))(k \<mapsto> s1)"
    by (rule Mutate_set [OF assms(1)]) (use add(1) in \<open>simp add: AddSetMember_applyMutation_def\<close>)
  have m2: "mget (dmEntries (rData (fst (DeltaMap_Mutate mh r k (RemoveSetMember_applyMutation e))))) = (mget (dmEntries (rData r)))(k \<mapsto> s2)"
    by (rule Mutate_set [OF assms(1)]) (use rem(1) in \<open>simp add: RemoveSetMember_applyMutation_def\<close>)
  show ?thesis
    using s add rem assms(2) by (auto simp: DeltaMap_Query_def m1 m2 ContainsSetMember_execQuery_def orSetState_Contains_def)
qed

theorem DeltaMap_Mutate_Query_witness:
  "DeltaMap_Query (fst (DeltaMap_Mutate demo_hash (NewDeltaMap demo_hash 1 (set_kind StringCodec) []) [1]
     (AddSetMember_applyMutation [7]))) [1] (ContainsSetMember_execQuery [7]) = Some True"
  by (rule conjunct1 [OF DeltaMap_Mutate_Query [OF NewDeltaMap_fresh(1) [OF refl], where b = "[7]"]]) (simp add: StringCodec_def)

text \<open>
  C34: removing a key prunes its set by the contiguous high-water marks of the replica: exactly the members with a dot above
  them stay, although every dot of the set was received: a member that arrived over a gap outlives the removal of
  its key. The key itself goes only if no member stays and the set has no tombstone, so a set that ever
  removed a member keeps its key; other keys are untouched.
\<close>

theorem DeltaMap_RemoveKey_spec:
  assumes "dms_inv R c r" "card R < 2 ^ 32" "Encode c e = Inr b"
  shows "(DeltaMap_Query (fst (DeltaMap_RemoveKey mh r k)) k (ContainsSetMember_execQuery e) = Some True \<longleftrightarrow>
      (\<exists>i. VClock_Get (receivedClock_HWM (rReceived (fst (replica_nextDot r)))) i < fst (or_view (osBackend (dms_set c r k)) b i))) \<and>
    (DeltaMap_HasKey (fst (DeltaMap_RemoveKey mh r k)) k \<longleftrightarrow>
      (\<exists>l i. VClock_Get (receivedClock_HWM (rReceived (fst (replica_nextDot r)))) i < fst (or_view (osBackend (dms_set c r k)) l i)) \<or>
      (\<exists>l t d x. orSetState_TombstoneMeta (dms_set c r k) l = Some t \<and> decodeRemoveTombstone t = Ok (d, x) \<and> Counter d \<noteq> 0)) \<and>
    (\<forall>k'. k' \<noteq> k \<longrightarrow> DeltaMap_Query (fst (DeltaMap_RemoveKey mh r k)) k' q = DeltaMap_Query r k' q)"
proof -
  let ?s = "dms_set c r k" and ?r' = "fst (DeltaMap_RemoveKey mh r k)"
  note s = dms_at [OF assms(1), of k] and e = RemoveKey_set [OF assms(1), of mh k]
  note p = set_prune [OF conjunct2 [OF s] assms(2), of c "remove_context r"]
  have q: "DeltaMap_Query ?r' k (ContainsSetMember_execQuery e) = Some True \<longleftrightarrow>
      (\<exists>i. VClock_Get (remove_context r) i < fst (or_view (osBackend ?s) b i))"
  proof (cases "dm_prune (set_kind c) (remove_context r) ?s")
    case None
    then have "DeltaMap_Query ?r' k (ContainsSetMember_execQuery e) = None" by (simp add: DeltaMap_Query_def e)
    with None p(1) show ?thesis by (auto simp: not_less)
  next
    case (Some s')
    note s' = p(2) [OF Some]
    have "orSetState_Contains s' e \<longleftrightarrow> (\<exists>i. fst (or_view (osBackend s') b i) \<noteq> 0)"
      using or_live [OF conjunct1 [OF s'], of b] s' s assms(3) by (simp add: orSetState_Contains_def)
    with s' Some show ?thesis
      by (simp add: DeltaMap_Query_def e ContainsSetMember_execQuery_def not_le)
  qed
  have "DeltaMap_HasKey ?r' k \<longleftrightarrow> dm_prune (set_kind c) (remove_context r) ?s \<noteq> None"
    by (simp add: DeltaMap_HasKey_def e)
  then have "DeltaMap_HasKey ?r' k \<longleftrightarrow>
      (\<exists>l i. VClock_Get (remove_context r) i < fst (or_view (osBackend ?s) l i)) \<or>
      (\<exists>l t d x. orSetState_TombstoneMeta ?s l = Some t \<and> decodeRemoveTombstone t = Ok (d, x) \<and> Counter d \<noteq> 0)"
    unfolding p(1) orSetState_TombstoneMeta_def by (auto simp: not_less not_le)
  with q show ?thesis unfolding remove_context_def [symmetric] by (auto simp: DeltaMap_Query_def e)
qed

theorem DeltaMap_RemoveKey_spec_witness:
  "DeltaMap_HasKey (fst (DeltaMap_RemoveKey demo_hash (dm_deliver demo_hash (dms_put ([1], OsRem [7] (mkDot 3 1) [(2, 1)]))
     (NewDeltaMap demo_hash 1 (set_kind StringCodec) [])) [1])) [1]"
proof -
  let ?r = "NewDeltaMap demo_hash 1 (set_kind StringCodec) []" and ?x = "OsRem [7] (mkDot 3 1) [(2, 1)]"
  have f: "dms_fits demo_cluster ([1], ?x)"
    using length_PutUvarint_short [of 1] by (intro dms_fits_short)
      (auto simp: os_fits_short demo_clock demo_cluster_card length_append_varint rm_delta_def encodeVClock_def length_encodeDotMap)
  note e = dms_put_entries [OF NewDeltaMap_fresh(1) [OF refl] demo_cluster_card f]
  have inv: "dms_inv demo_cluster StringCodec (dm_deliver demo_hash (dms_put ([1], ?x)) ?r)" by (rule e(2))
  have "dms_set StringCodec ?r [1] = set0 StringCodec" by (simp add: dm_at_def NewDeltaMap_fresh(3) [OF refl])
  then have s: "dms_set StringCodec (dm_deliver demo_hash (dms_put ([1], ?x)) ?r) [1] = os_write (os_stored ?x) (set0 StringCodec)"
    by (simp add: dm_at_def [of _ "rData (dm_deliver _ _ _)"] e(1) del: os_write.simps os_stored.simps)
  have "sorted_map [(2, 1)] = [(2 :: ReplicaID, 1 :: u64)]"
    by (simp add: sorted_map_def sortedReplicaIDs_sort mget0_def)
  then have "orSetState_TombstoneMeta (os_write (os_stored ?x) (set0 StringCodec)) [7] = Some (encodeRemoveTombstone (mkDot 3 1) [(2, 1)])"
    by (simp add: orSetState_TombstoneMeta_def or_remove_def tomb_dot_def memory.laws memory.inv_empty memory.get_empty memory.tget_empty)
  moreover have "decodeRemoveTombstone (encodeRemoveTombstone (mkDot 3 1) [(2, 1)]) = Ok (mkDot 3 1, sorted_map [(2, 1)])"
    by (rule decode_cluster(2) [OF demo_clock(1) demo_cluster_card]) simp
  ultimately have "\<exists>l t d x. orSetState_TombstoneMeta (dms_set StringCodec (dm_deliver demo_hash (dms_put ([1], ?x)) ?r) [1]) l = Some t \<and>
      decodeRemoveTombstone t = Ok (d, x) \<and> Counter d \<noteq> 0"
    unfolding s by (intro exI conjI) (assumption | simp)+
  then show ?thesis
    using conjunct1 [OF conjunct2 [OF DeltaMap_RemoveKey_spec [OF inv demo_cluster_card, of "[7]" "[7]" demo_hash "[1]"]]]
    by (simp add: StringCodec_def)
qed

text \<open>
  the map does not consult its tombstones when a put arrives, so a put and a key removal
  that observed it do not commute: put first, the key is gone; removal first, the member is back.
\<close>

theorem DeltaMap_remove_order:
  assumes "dms_inv R c r" "dms_inv R c r'" "\<not> DeltaMap_HasKey r k" "\<not> DeltaMap_HasKey r' k" "card R < 2 ^ 32"
    and "dms_fits R (k, OsAdd b [(i, n)])" "in_cluster R ctx" "length (deltaMapState_wrapRemove k d ctx) < 2 ^ 63"
    and "n \<le> VClock_Get ctx i" "Encode c e = Inr b"
  shows "DeltaMap_Query (fold (dm_deliver mh) [dms_put (k, OsAdd b [(i, n)]), deltaMapState_wrapRemove k d ctx] r) k
      (ContainsSetMember_execQuery e) = None \<and>
    DeltaMap_Query (fold (dm_deliver mh') [deltaMapState_wrapRemove k d ctx, dms_put (k, OsAdd b [(i, n)])] r') k
      (ContainsSetMember_execQuery e) = Some True"
proof -
  let ?put = "dms_put (k, OsAdd b [(i, n)])" and ?rem = "deltaMapState_wrapRemove k d ctx"
  let ?s = "os_write (os_stored (OsAdd b [(i, n)])) (set0 c)"
  have fits: "os_fits R (OsAdd b [(i, n)])" and n: "n \<noteq> 0"
    using assms(6) by (auto simp: dms_fits_def os_fits_def pos_map_def)
  note new = set0_add [OF assms(5) fits, of c]
  have at: "dms_set c r k = set0 c" using assms(3) by (simp add: DeltaMap_HasKey_def dm_at_def)
  note a = dms_put_entries [OF assms(1,5,6), of mh, unfolded at]
  note b = dms_remove [OF a(2) assms(5,7,8), of mh]
  have "dm_prune (set_kind c) (sorted_map ctx) ?s = None"
    unfolding set_prune(1) [OF new(1) assms(5)] new(2,3) using assms(9) by simp
  then have gone: "mget (dmEntries (rData (dm_deliver mh ?rem (dm_deliver mh ?put r)))) k = None"
    using b(1) a(1) by simp
  note a' = dms_remove [OF assms(2,5,7,8), of mh']
  have "mget (dmEntries (rData (dm_deliver mh' ?rem r'))) k = None"
    using a'(1) assms(4) by (simp add: DeltaMap_HasKey_def)
  then have at': "dms_set c (dm_deliver mh' ?rem r') k = set0 c" by (simp add: dm_at_def)
  note b' = dms_put_entries [OF a'(2) assms(5,6), of mh', unfolded at']
  have "orSetState_Contains ?s e"
    using or_live [OF new(1), of b] n assms(10) new(2) set0_inv [of c] os_write_codec [of "os_stored (OsAdd b [(i, n)])" "set0 c"]
    by (auto simp: orSetState_Contains_def simp del: os_write.simps os_stored.simps os_write_codec)
  then show ?thesis
    using gone b'(1) by (simp add: DeltaMap_Query_def ContainsSetMember_execQuery_def del: os_write.simps os_stored.simps)
qed

theorem DeltaMap_remove_order_witness:
  "DeltaMap_Query (fold (dm_deliver demo_hash) [dms_put ([1], OsAdd [7] [(2, 1)]), deltaMapState_wrapRemove [1] (mkDot 3 1) [(2, 1)]]
      (NewDeltaMap demo_hash 1 (set_kind StringCodec) [])) [1] (ContainsSetMember_execQuery [7]) = None \<and>
   DeltaMap_Query (fold (dm_deliver demo_hash) [deltaMapState_wrapRemove [1] (mkDot 3 1) [(2, 1)], dms_put ([1], OsAdd [7] [(2, 1)])]
      (NewDeltaMap demo_hash 2 (set_kind StringCodec) [])) [1] (ContainsSetMember_execQuery [7]) = Some True"
proof (rule DeltaMap_remove_order [OF NewDeltaMap_fresh(1) [OF refl] NewDeltaMap_fresh(1) [OF refl] _ _ demo_cluster_card])
  have p: "length (PutUvarint 1) = 1" using length_PutUvarint_short [of 1] by simp
  have "os_fits demo_cluster (OsAdd [7] [(2, 1)])" by (auto simp: os_fits_short demo_clock demo_cluster_card)
  then show "dms_fits demo_cluster ([1], OsAdd [7] [(2, 1)])"
    using p by (intro dms_fits_short) (simp_all add: length_append_varint length_encodeDotMap)
  show "length (deltaMapState_wrapRemove [1] (mkDot 3 1) [(2, 1)]) < 2 ^ 63"
    using p by (simp add: deltaMapState_wrapRemove_def length_append_varint encodeVClock_def length_encodeDotMap)
  show "in_cluster demo_cluster [(2, 1)]" by (rule demo_clock(1)) simp
qed (simp_all add: DeltaMap_HasKey_def NewDeltaMap_fresh(3) [OF refl] VClock_Get_def mget0_def StringCodec_def)

text \<open>
  Parsing a put creates its key, although the storage interface says that parsing leaves
  the state alone: a put whose inner delta is refused leaves an empty set behind.
\<close>

theorem DeltaMap_broken_put:
  assumes "dms_inv R c r" "\<not> DeltaMap_HasKey r k" "length (deltaMapState_wrapPut k d) < 2 ^ 63"
    and "orSetState_ParseDelta (set0 c) d = Err x"
  shows "snd (replica_applyDelta mh deltaMapM r from dot (deltaMapState_wrapPut k d)) = Err x \<and>
    DeltaMap_HasKey (fst (replica_applyDelta mh deltaMapM r from dot (deltaMapState_wrapPut k d))) k \<and>
    DeltaMap_Query (fst (replica_applyDelta mh deltaMapM r from dot (deltaMapState_wrapPut k d))) k SetLen_execQuery = Some 0"
proof -
  have w: "deltaMapState_wrapPut k d = opPut # appendVarintBytes [] k @ d"
    by (simp add: deltaMapState_wrapPut_def appendVarintBytes_def)
  have "length (appendVarintBytes [] k @ d) < 2 ^ 63" using assms(3) by (simp add: w)
  then obtain off where off: "readVarintBytes (appendVarintBytes [] k @ d) 0 = Ok (k, off)"
      "slice_from (deltaMapState_wrapPut k d) (1 + off) = Ok d"
    by (rule read_field) (simp add: w slice_from_Cons)
  have at: "dms_set c r k = set0 c" using assms(2) by (simp add: DeltaMap_HasKey_def dm_at_def)
  obtain m' where m': "deltaMapState_getOrCreate (rData r) k = (m', Ok (set0 c))" "dmKind m' = set_kind c"
    using orset_kind.created [OF dms_mb [OF assms(1)], of k] unfolding at by metis
  have "deltaMapState_ParseDelta (rData r) (deltaMapState_wrapPut k d) = (m'\<lparr>dmEntries := mput k (set0 c) (dmEntries m')\<rparr>, Err x)"
    using off m' assms(4) by (simp add: deltaMapState_ParseDelta_def w)
  then show ?thesis
    by (simp add: replica_applyDelta_def DeltaMap_HasKey_def DeltaMap_Query_def SetLen_execQuery_def orSetState_Len_def
        memoryBackend_EntryLen_def newMemoryBackend_def)
qed

theorem DeltaMap_broken_put_witness:
  "DeltaMap_HasKey (fst (replica_applyDelta demo_hash deltaMapM (NewDeltaMap demo_hash 1 (set_kind StringCodec) []) 2 (mkDot 2 1)
     (deltaMapState_wrapPut [1] []))) [1]"
  by (rule conjunct1 [OF conjunct2 [OF DeltaMap_broken_put [OF NewDeltaMap_fresh(1) [OF refl]]]])
    (simp_all add: DeltaMap_HasKey_def NewDeltaMap_fresh(3) [OF refl] deltaMapState_wrapPut_def length_append_varint
      length_PutUvarint_short [of 1, simplified] orSetState_ParseDelta_def)

text \<open>
  The hash map asks the inner set for an element named like the map key, so a member
  with another name leaves the map untracked: its hash stays that of the empty map, and a digest
  of an empty replica is not answered although the member is there.
\<close>

theorem DeltaMap_no_anti_entropy:
  assumes "Encode c e = Inr b" "b \<noteq> k" "r = fst (DeltaMap_Mutate mh (NewDeltaMap mh i (set_kind c) opts) k (AddSetMember_applyMutation e))"
    and "replica_sendDigests mh' deltaMapM (NewDeltaMap mh' j (set_kind c) opts' :: 'e orSetState DeltaMap) = Ok (p', out)" "(q, m) \<in> set out"
    and "replica_handleMessage mh deltaMapM r from (tmDot m) (tmDelta m) = Ok (r', answer)"
  shows "DeltaMap_Query r k (ContainsSetMember_execQuery e) = Some True \<and> answer = []"
proof -
  let ?n = "NewDeltaMap mh i (set_kind c) opts"
  have new: "untracked (NewDeltaMap h l (set_kind c) os :: 'e orSetState DeltaMap)" for h l os
    by (simp add: untracked_def NewDeltaMap_def newMerkleMap_def)
  obtain r1 d where nd: "replica_nextDot ?n = (r1, d)" by fastforce
  have r1: "rData r1 = rData ?n" "untracked r1"
    using nextDot_simps(1) [of ?n] untracked_nextDot [OF new, of mh i opts] nd by simp_all
  have at: "dms_set c ?n k = set0 c" by (simp add: dm_at_def NewDeltaMap_fresh(3) [OF refl])
  have empty: "dmTombstones (rData ?n) = []" "\<And>l. mget (dmEntries (rData ?n)) l = None"
    by (simp_all add: NewDeltaMap_def newDeltaMapState_def)
  obtain m' where m': "deltaMapState_getOrCreate (rData ?n) k = (m', Ok (set0 c))" "dmKind m' = set_kind c" "dmTombstones m' = []"
      and "mget (dmEntries m') = (mget (dmEntries (rData ?n)))(k \<mapsto> set0 c)"
    by (rule orset_kind.created [OF dms_mb [OF NewDeltaMap_fresh(1) [OF refl]], of mh i c opts k, unfolded at empty(1)])
  then have e: "mget (dmEntries m') l = (if l = k then Some (set0 c) else None)" for l by (simp add: empty(2))
  obtain s where s: "orSetState_Add (set0 c) e d = (s, Ok (appendVarintBytes [opPut] b @ encodeDotMap [(Replica d, Counter d)]))"
      "\<And>l. l \<noteq> b \<Longrightarrow> memoryBackend_GetEntry (osBackend s) l = None" "memoryBackend_GetEntry (osBackend s) b \<noteq> None" "osCodec s = c"
    using assms(1) by (simp add: orSetState_Add_def Let_def orSetState_GetEncoded_def orSetState_PutEncoded_def
        memory.get_empty memory.laws memory.inv_empty)
  let ?r2 = "r1\<lparr>rData := m'\<lparr>dmEntries := mput k s (dmEntries m')\<rparr>\<rparr>"
  have r: "r = replica_trackKey mh deltaMapM ?r2 k"
    unfolding assms(3) using m'(1) s(1) by (simp add: DeltaMap_Mutate_def nd r1(1) AddSetMember_applyMutation_def Let_def)
  have "deltaMapState_EntryMeta (rData ?r2) l = None" if "l = k \<or> k = [] \<and> l = [0]" for l
    using that assms(2) s(2) m' e by (auto simp: deltaMapState_EntryMeta_def orSetState_EntryMeta_def)
  moreover have "deltaMapState_TombstoneMeta (rData ?r2) l = None" for l
    by (simp add: deltaMapState_TombstoneMeta_def m')
  ultimately have "r = ?r2\<lparr>rMerkle := merkleMap_Delete (rMerkle ?r2) (if k = [] then [0] else k)\<rparr>"
    unfolding r by (simp add: replica_trackKey_def Let_def)
  then have "untracked r" using untracked_Delete [of ?r2] r1(2) by simp
  from answer_untracked [OF this new assms(4-6)] have "answer = []" .
  moreover have "DeltaMap_Query r k (ContainsSetMember_execQuery e) = Some True"
    using s(3,4) assms(1) by (auto simp: r DeltaMap_Query_def ContainsSetMember_execQuery_def orSetState_Contains_def)
  ultimately show ?thesis by simp
qed


theorem DeltaMap_no_anti_entropy_witness:
  "\<exists>r p' m r'. r = fst (DeltaMap_Mutate demo_hash (NewDeltaMap demo_hash 2 (set_kind StringCodec) []) [1] (AddSetMember_applyMutation [7])) \<and>
     replica_sendDigests demo_hash deltaMapM
       (NewDeltaMap demo_hash 1 (set_kind StringCodec) [WithTransport True, WithTopology (Some [2])]) = Ok (p', [(2, m)]) \<and>
     replica_handleMessage demo_hash deltaMapM r 1 (tmDot m) (tmDelta m) = Ok (r', []) \<and>
     DeltaMap_Query r [1] (ContainsSetMember_execQuery [7]) = Some True"
proof -
  let ?p = "NewDeltaMap demo_hash 1 (set_kind StringCodec) [WithTransport True, WithTopology (Some [2])]"
  define r where "r = fst (DeltaMap_Mutate demo_hash (NewDeltaMap demo_hash 2 (set_kind StringCodec) []) [1] (AddSetMember_applyMutation [7]))"
  have top: "rTransport ?p" "rTopology ?p = Some [2]"
    by (simp_all add: NewDeltaMap_def newReplica_def Let_def applyOptions_def WithTransport_def WithTopology_def)
  obtain mm where "merkleMap_Hash demo_hash (rMerkle ?p) = Ok (mm, 0)"
    by (auto simp: NewDeltaMap_def newMerkleMap_def merkleMap_Hash_def merkleMap_recomputeHash_def)
  then obtain p' m where d: "replica_sendDigests demo_hash deltaMapM ?p = Ok (p', [(2, m)])"
      "tmDelta m = encodeAEDigest 0 (receivedClock_HWM (rReceived ?p))"
    using top by (cases "mGCTombstones deltaMapM"; cases "rPeerHWMs ?p = []") (auto simp: replica_sendDigests_def Let_def)
  have "dms_reach demo_hash StringCodec r" unfolding r_def by (intro dms_reach.intros)
  then have "orset_kind.dm.replica_inv StringCodec demo_hash r" by (rule reach_inv) simp
  then obtain r' out where h: "replica_handleMessage demo_hash deltaMapM r 1 (tmDot m) (tmDelta m) = Ok (r', out)"
    using orset_kind.dm.handleSyncDigest_total [of StringCodec demo_hash r 1 "drop 1 (tmDelta m)"]
    by (auto simp: d(2) replica_handleMessage_def encodeAEDigest_def msgAEDigest_def msgDelta_def)
  have "DeltaMap_Query r [1] (ContainsSetMember_execQuery [7]) = Some True \<and> out = []"
    by (rule DeltaMap_no_anti_entropy [OF _ _ r_def d(1) _ h, where b = "[7]"]) (simp_all add: StringCodec_def)
  with d(1) h show ?thesis by (auto simp: r_def)
qed

text \<open>
  C25: every state a map of sets can reach, by its own operations, by messages of any bytes and
  by ticks, is well formed: its keys are distinct, its inner sets are well formed and keep the
  codec, and no digest makes it panic: none that arrives, whatever its bytes, and, where there is a transport to
  send it over, none that a tick sends.
\<close>

theorem DeltaMap_reachable:
  assumes "dms_reach mh c r" "MakeSeed mh \<noteq> 0"
  shows "distinct (DeltaMap_Keys r) \<and> DeltaMap_Len r = card (Collect (DeltaMap_HasKey r)) \<and>
    (\<forall>k s. DeltaMap_Query r k (\<lambda>s. s) = Some s \<longrightarrow> osCodec s = c \<and> mb_inv (osBackend s)) \<and>
    (rTransport r \<longrightarrow> replica_sendDigests mh deltaMapM r \<noteq> Panic) \<and>
    (\<forall>from dot p. replica_handleMessage mh deltaMapM r from dot (msgAEDigest # p) \<noteq> Panic)"
proof -
  have inv: "orset_kind.dm.replica_inv c mh r" by (rule reach_inv [OF assms])
  then have m: "dm_inv (set_kind c) (\<lambda>s. osCodec s = c \<and> mb_inv (osBackend s)) (rData r)"
    by (simp add: orset_kind.dm.replica_inv_def)
  then have d: "distinct (map fst (dmEntries (rData r)))" by (simp add: dm_inv_def wf_map_def)
  have "k \<in> Collect (DeltaMap_HasKey r) \<longleftrightarrow> k \<in> set (map fst (dmEntries (rData r)))" for k
    using map_of_eq_None_iff [of "dmEntries (rData r)" k] by (simp add: DeltaMap_HasKey_def)
  then have "Collect (DeltaMap_HasKey r) = set (map fst (dmEntries (rData r)))" by blast
  then have len: "DeltaMap_Len r = card (Collect (DeltaMap_HasKey r))"
    using distinct_card [OF d] by (simp add: DeltaMap_Len_def)
  have send: "replica_sendDigests mh deltaMapM r \<noteq> Panic" if t: "rTransport r"
    by (rule orset_kind.dm.sendDigests_total [OF inv t]) simp
  have "replica_handleSyncDigest mh deltaMapM r from p \<noteq> Panic" for "from" p
    by (rule orset_kind.dm.handleSyncDigest_total [OF inv, of "from" p]) simp
  then show ?thesis
    using m d len send
    by (auto simp: DeltaMap_Keys_def DeltaMap_Query_def dm_inv_def replica_handleMessage_def msgAEDigest_def msgDelta_def)
qed

theorem DeltaMap_reachable_witness:
  "DeltaMap_Len (fst (DeltaMap_Mutate demo_hash (NewDeltaMap demo_hash 1 (set_kind StringCodec) []) [1] (AddSetMember_applyMutation [7])))
   = card (Collect (DeltaMap_HasKey (fst (DeltaMap_Mutate demo_hash (NewDeltaMap demo_hash 1 (set_kind StringCodec) []) [1] (AddSetMember_applyMutation [7])))))"
  using DeltaMap_reachable [OF dms_add [OF dms_new [of demo_hash StringCodec 1 "[]"]], of "[1]" "[7]"] by simp

end
