(* ===== verification/Bolt.thy ===== *)
theory Bolt
  imports "HOL-Library.Multiset" Backends
begin

text \<open>
  The disk backend (\<^verbatim>\<open>crdtbolt/bolt.go\<close>). The bbolt database is outside the repository: its
  transactions on the two buckets are the fields of the parameter \<open>'d boltDB\<close>, and what its
  documentation says of them is the hypothesis \<open>bolt_laws\<close>. A \<^verbatim>\<open>db.Update\<close> whose function returns an
  error rolls back, and the backend drops that error, as it drops the errors of a closed database.
\<close>

section \<open>Definitions\<close>

subsection \<open>The database\<close>

record 'd boltDB =
  dOpen :: "bytes \<Rightarrow> 'd option"
  dClose :: "'d \<Rightarrow> 'd"
  dIsOpen :: "'d \<Rightarrow> bool"
  dCreateBucket :: "'d \<Rightarrow> bytes \<Rightarrow> 'd option"
  dGet :: "'d \<Rightarrow> bytes \<Rightarrow> bytes \<Rightarrow> bytes option"
  dPut :: "'d \<Rightarrow> bytes \<Rightarrow> bytes \<Rightarrow> bytes \<Rightarrow> 'd option"
  dDelete :: "'d \<Rightarrow> bytes \<Rightarrow> bytes \<Rightarrow> 'd option"
  dCursor :: "'d \<Rightarrow> bytes \<Rightarrow> (bytes \<times> bytes) list"
  dKeyN :: "'d \<Rightarrow> bytes \<Rightarrow> nat"
  dWriteTo :: "'d \<Rightarrow> bytes option"

definition db_Update :: "'d boltDB \<Rightarrow> ('d \<Rightarrow> 'd option) \<Rightarrow> 'd \<Rightarrow> 'd" where
  "db_Update D fn d = (if dIsOpen D d then (case fn d of Some d' \<Rightarrow> d' | None \<Rightarrow> d) else d)"

definition db_View :: "'d boltDB \<Rightarrow> ('d \<Rightarrow> 'a) \<Rightarrow> 'a \<Rightarrow> 'd \<Rightarrow> 'a" where
  "db_View D fn unset d = (if dIsOpen D d then fn d else unset)"

subsection \<open>The backend\<close>

definition bucketEntries :: bytes where "bucketEntries = map of_char ''entries''"
definition bucketTombstones :: bytes where "bucketTombstones = map of_char ''tombstones''"

record 'd BoltBackend =
  bbDb :: 'd
  bbPath :: bytes

text \<open>An error of \<^verbatim>\<open>Open\<close> is \<open>None\<close>; the database is closed again when a bucket cannot be made.\<close>

definition Open :: "'d boltDB \<Rightarrow> bytes \<Rightarrow> 'd BoltBackend option" where
  "Open D path =
     (case dOpen D path of
        None \<Rightarrow> None
      | Some db \<Rightarrow>
          (case Option.bind (dCreateBucket D db bucketEntries) (\<lambda>db. dCreateBucket D db bucketTombstones) of
             None \<Rightarrow> None
           | Some db \<Rightarrow> Some \<lparr>bbDb = db, bbPath = path\<rparr>))"

definition BoltBackend_Close :: "'d boltDB \<Rightarrow> 'd BoltBackend \<Rightarrow> 'd BoltBackend" where
  "BoltBackend_Close D b = b\<lparr>bbDb := dClose D (bbDb b)\<rparr>"

definition BoltBackend_Path :: "'d BoltBackend \<Rightarrow> bytes" where
  "BoltBackend_Path b = bbPath b"

definition encodeEntry :: "bytes \<Rightarrow> bytes \<Rightarrow> bytes" where
  "encodeEntry val meta = PutUint32 (of_nat (length val)) @ val @ meta"

definition decodeEntry :: "bytes \<Rightarrow> (bytes \<times> bytes) go" where
  "decodeEntry data =
     (if length data < 4 then Ok ([], [])
      else go_bind (Uint32 (take 4 data)) (\<lambda>n.
        let vlen = uint n in
        if int (length data) < 4 + vlen then Ok ([], [])
        else go_bind (slice data 4 (4 + vlen)) (\<lambda>v. go_bind (slice_from data (4 + vlen)) (\<lambda>m. Ok (v, m)))))"

definition BoltBackend_GetEntry :: "'d boltDB \<Rightarrow> 'd BoltBackend \<Rightarrow> bytes \<Rightarrow> (bytes \<times> bytes) option go" where
  "BoltBackend_GetEntry D b key =
     db_View D (\<lambda>d. case dGet D d bucketEntries key of
         None \<Rightarrow> Ok None
       | Some data \<Rightarrow> go_bind (decodeEntry data) (\<lambda>(v, m). Ok (Some (v, m)))) (Ok None) (bbDb b)"

definition BoltBackend_PutEntry :: "'d boltDB \<Rightarrow> 'd BoltBackend \<Rightarrow> bytes \<Rightarrow> bytes \<Rightarrow> bytes \<Rightarrow> 'd BoltBackend" where
  "BoltBackend_PutEntry D b key val meta =
     b\<lparr>bbDb := db_Update D (\<lambda>d. dPut D d bucketEntries key (encodeEntry val meta)) (bbDb b)\<rparr>"

definition BoltBackend_DeleteEntry :: "'d boltDB \<Rightarrow> 'd BoltBackend \<Rightarrow> bytes \<Rightarrow> 'd BoltBackend" where
  "BoltBackend_DeleteEntry D b key = b\<lparr>bbDb := db_Update D (\<lambda>d. dDelete D d bucketEntries key) (bbDb b)\<rparr>"

text \<open>The cursor loop; a panic of \<open>decodeEntry\<close> would end it.\<close>

fun cursorLoop :: "(bytes \<Rightarrow> bytes \<Rightarrow> bytes \<Rightarrow> 's \<Rightarrow> 's \<times> bool) \<Rightarrow> (bytes \<times> bytes) list \<Rightarrow> 's \<Rightarrow> 's go" where
  "cursorLoop fn [] s = Ok s"
| "cursorLoop fn ((k, v) # kvs) s =
     go_bind (decodeEntry v) (\<lambda>(val, met).
       let (s, cont) = fn k val met s in if cont then cursorLoop fn kvs s else Ok s)"

definition BoltBackend_RangeEntries ::
    "'d boltDB \<Rightarrow> 'd BoltBackend \<Rightarrow> (bytes \<Rightarrow> bytes \<Rightarrow> bytes \<Rightarrow> 's \<Rightarrow> 's \<times> bool) \<Rightarrow> 's \<Rightarrow> 's go" where
  "BoltBackend_RangeEntries D b fn s = db_View D (\<lambda>d. cursorLoop fn (dCursor D d bucketEntries) s) (Ok s) (bbDb b)"

definition BoltBackend_EntryLen :: "'d boltDB \<Rightarrow> 'd BoltBackend \<Rightarrow> nat" where
  "BoltBackend_EntryLen D b = db_View D (\<lambda>d. dKeyN D d bucketEntries) 0 (bbDb b)"

definition BoltBackend_GetTombstone :: "'d boltDB \<Rightarrow> 'd BoltBackend \<Rightarrow> bytes \<Rightarrow> bytes option" where
  "BoltBackend_GetTombstone D b key = db_View D (\<lambda>d. dGet D d bucketTombstones key) None (bbDb b)"

definition BoltBackend_PutTombstone :: "'d boltDB \<Rightarrow> 'd BoltBackend \<Rightarrow> bytes \<Rightarrow> bytes \<Rightarrow> 'd BoltBackend" where
  "BoltBackend_PutTombstone D b key meta =
     b\<lparr>bbDb := db_Update D (\<lambda>d. dPut D d bucketTombstones key meta) (bbDb b)\<rparr>"

definition BoltBackend_DeleteTombstone :: "'d boltDB \<Rightarrow> 'd BoltBackend \<Rightarrow> bytes \<Rightarrow> 'd BoltBackend" where
  "BoltBackend_DeleteTombstone D b key = b\<lparr>bbDb := db_Update D (\<lambda>d. dDelete D d bucketTombstones key) (bbDb b)\<rparr>"

definition BoltBackend_RangeTombstones ::
    "'d boltDB \<Rightarrow> 'd BoltBackend \<Rightarrow> (bytes \<Rightarrow> bytes \<Rightarrow> 's \<Rightarrow> 's \<times> bool) \<Rightarrow> 's \<Rightarrow> 's" where
  "BoltBackend_RangeTombstones D b fn s =
     db_View D (\<lambda>d. rangeLoop (\<lambda>(k, v). fn k v) (dCursor D d bucketTombstones) s) s (bbDb b)"

definition BoltBackend_TombstoneLen :: "'d boltDB \<Rightarrow> 'd BoltBackend \<Rightarrow> nat" where
  "BoltBackend_TombstoneLen D b = db_View D (\<lambda>d. dKeyN D d bucketTombstones) 0 (bbDb b)"

text \<open>What a snapshot writes to its file, or its error, \<open>None\<close>.\<close>

definition BoltBackend_Snapshot :: "'d boltDB \<Rightarrow> 'd BoltBackend \<Rightarrow> bytes option" where
  "BoltBackend_Snapshot D b = db_View D (dWriteTo D) None (bbDb b)"

section \<open>What the database promises\<close>

text \<open>A key may have 1 to 32768 bytes and a value fewer than \<open>2 ^ 31 - 1\<close>.\<close>

definition storable :: "bytes \<Rightarrow> bytes \<Rightarrow> bool" where
  "storable k v \<longleftrightarrow> k \<noteq> [] \<and> length k \<le> 32768 \<and> length v < 2 ^ 31 - 1"

definition buckets :: "bytes set" where "buckets = {bucketEntries, bucketTombstones}"

text \<open>
  The documented behaviour of an open database with both buckets (\<open>good\<close>): a put stores the pair
  or is refused, a delete removes the key if it is there, a cursor visits every key once and
  \<^verbatim>\<open>KeyN\<close> counts them.
\<close>

definition bolt_laws :: "'d boltDB \<Rightarrow> ('d \<Rightarrow> bool) \<Rightarrow> bool" where
  "bolt_laws D good \<longleftrightarrow> (\<forall>d. good d \<longrightarrow> dIsOpen D d \<and> (\<forall>b \<in> buckets.
     (\<forall>k v. storable k v \<longrightarrow> (\<exists>d'. dPut D d b k v = Some d' \<and> good d' \<and> dGet D d' = (dGet D d)(b := (dGet D d b)(k \<mapsto> v)))) \<and>
     (\<forall>k v. \<not> storable k v \<longrightarrow> dPut D d b k v = None) \<and>
     (\<forall>k. \<exists>d'. dDelete D d b k = Some d' \<and> good d' \<and> dGet D d' = (dGet D d)(b := (dGet D d b)(k := None))) \<and>
     distinct (map fst (dCursor D d b)) \<and> map_of (dCursor D d b) = dGet D d b \<and>
     dKeyN D d b = card (dom (dGet D d b))))"

lemma buckets_distinct [simp]: "bucketEntries \<noteq> bucketTombstones" "bucketTombstones \<noteq> bucketEntries"
  by (auto simp: bucketEntries_def bucketTombstones_def dest: arg_cong [where f = length])

lemma buckets_mem [simp]: "bucketEntries \<in> buckets" "bucketTombstones \<in> buckets"
  by (simp_all add: buckets_def)

section \<open>Entries\<close>

lemma decode_encode:
  assumes "length v < 2 ^ 32"
  shows "decodeEntry (encodeEntry v m) = Ok (v, m)"
proof -
  have n: "uint (of_nat (length v) :: u32) = int (length v)"
    using assms by (simp add: unsigned_of_nat take_bit_eq_mod)
  have t: "Uint32 (PutUint32 w) = Ok w" for w using Uint32_PutUint32 [of w "[]"] by simp
  have "slice (PutUint32 (of_nat (length v)) @ v @ m) 4 (4 + int (length v)) = Ok v"
    using slice_append [of "PutUint32 (of_nat (length v))" v m] by simp
  moreover have "slice_from (PutUint32 (of_nat (length v)) @ v @ m) (4 + int (length v)) = Ok m"
    by (subst slice_from_Ok) (simp_all add: nat_add_distrib)
  ultimately show ?thesis by (simp add: decodeEntry_def encodeEntry_def t n)
qed

lemma decodeEntry_total: "decodeEntry data \<noteq> Panic \<and> decodeEntry data \<noteq> Err e"
proof (cases "length data < 4")
  case False
  then obtain n where n: "Uint32 (take 4 data) = Ok n" by (simp add: Uint32_def)
  then show ?thesis
    using False uint_ge_0 [of n]
    by (auto simp: decodeEntry_def Let_def slice_def slice_from_def simp del: uint_ge_0)
qed (simp add: decodeEntry_def)

section \<open>The backend over a lawful database\<close>

lemma bolt_put:
  assumes "bolt_laws D good" "good (bbDb b)" "storable k (encodeEntry v m)"
  shows "\<exists>d'. BoltBackend_PutEntry D b k v m = b\<lparr>bbDb := d'\<rparr> \<and> good d' \<and>
    dGet D d' = (dGet D (bbDb b))(bucketEntries := (dGet D (bbDb b) bucketEntries)(k \<mapsto> encodeEntry v m))"
  using assms unfolding bolt_laws_def BoltBackend_PutEntry_def db_Update_def
  by (metis buckets_mem(1) option.simps(5))

lemma bolt_tput:
  assumes "bolt_laws D good" "good (bbDb b)" "storable k m"
  shows "\<exists>d'. BoltBackend_PutTombstone D b k m = b\<lparr>bbDb := d'\<rparr> \<and> good d' \<and>
    dGet D d' = (dGet D (bbDb b))(bucketTombstones := (dGet D (bbDb b) bucketTombstones)(k \<mapsto> m))"
  using assms unfolding bolt_laws_def BoltBackend_PutTombstone_def db_Update_def
  by (metis buckets_mem(2) option.simps(5))

lemma bolt_del:
  assumes "bolt_laws D good" "good (bbDb b)"
  shows "\<exists>d'. BoltBackend_DeleteEntry D b k = b\<lparr>bbDb := d'\<rparr> \<and> good d' \<and>
    dGet D d' = (dGet D (bbDb b))(bucketEntries := (dGet D (bbDb b) bucketEntries)(k := None))"
  using assms unfolding bolt_laws_def BoltBackend_DeleteEntry_def db_Update_def
  by (metis buckets_mem(1) option.simps(5))

lemma bolt_tdel:
  assumes "bolt_laws D good" "good (bbDb b)"
  shows "\<exists>d'. BoltBackend_DeleteTombstone D b k = b\<lparr>bbDb := d'\<rparr> \<and> good d' \<and>
    dGet D d' = (dGet D (bbDb b))(bucketTombstones := (dGet D (bbDb b) bucketTombstones)(k := None))"
  using assms unfolding bolt_laws_def BoltBackend_DeleteTombstone_def db_Update_def
  by (metis buckets_mem(2) option.simps(5))

text \<open>The writes of the interface, on both backends.\<close>

datatype bop = PutE bytes bytes bytes | DelE bytes | PutT bytes bytes | DelT bytes

fun bolt_run :: "'d boltDB \<Rightarrow> bop \<Rightarrow> 'd BoltBackend \<Rightarrow> 'd BoltBackend" where
  "bolt_run D (PutE k v m) b = BoltBackend_PutEntry D b k v m"
| "bolt_run D (DelE k) b = BoltBackend_DeleteEntry D b k"
| "bolt_run D (PutT k m) b = BoltBackend_PutTombstone D b k m"
| "bolt_run D (DelT k) b = BoltBackend_DeleteTombstone D b k"

fun memory_run :: "bop \<Rightarrow> memoryBackend \<Rightarrow> memoryBackend" where
  "memory_run (PutE k v m) b = memoryBackend_PutEntry b k v m"
| "memory_run (DelE k) b = memoryBackend_DeleteEntry b k"
| "memory_run (PutT k m) b = memoryBackend_PutTombstone b k m"
| "memory_run (DelT k) b = memoryBackend_DeleteTombstone b k"

fun bop_fits :: "bop \<Rightarrow> bool" where
  "bop_fits (PutE k v m) \<longleftrightarrow> storable k (encodeEntry v m)"
| "bop_fits (PutT k m) \<longleftrightarrow> storable k m"
| "bop_fits _ \<longleftrightarrow> True"

text \<open>The two backends hold the same pairs.\<close>

definition bolt_sim :: "'d boltDB \<Rightarrow> ('d \<Rightarrow> bool) \<Rightarrow> 'd BoltBackend \<Rightarrow> memoryBackend \<Rightarrow> bool" where
  "bolt_sim D good b m \<longleftrightarrow> good (bbDb b) \<and> mb_inv m \<and>
     dGet D (bbDb b) bucketEntries = (\<lambda>k. map_option (\<lambda>(v, m). encodeEntry v m) (memoryBackend_GetEntry m k)) \<and>
     (\<forall>k v t. memoryBackend_GetEntry m k = Some (v, t) \<longrightarrow> length v < 2 ^ 32) \<and>
     dGet D (bbDb b) bucketTombstones = memoryBackend_GetTombstone m"

lemma bolt_sim_step:
  assumes "bolt_laws D good" "bolt_sim D good b m" "bop_fits x"
  shows "bolt_sim D good (bolt_run D x b) (memory_run x m)"
proof -
  have b: "good (bbDb b)" and mb: "mb_inv m"
    and e: "dGet D (bbDb b) bucketEntries = (\<lambda>k. map_option (\<lambda>(v, m). encodeEntry v m) (memoryBackend_GetEntry m k))"
    and len: "\<And>k v t. memoryBackend_GetEntry m k = Some (v, t) \<Longrightarrow> length v < 2 ^ 32"
    and t: "dGet D (bbDb b) bucketTombstones = memoryBackend_GetTombstone m"
    using assms(2) by (auto simp: bolt_sim_def)
  note laws = memory.laws [OF mb]
  show ?thesis
  proof (cases x)
    case (PutE k v tm)
    then have s: "storable k (encodeEntry v tm)" using assms(3) by simp
    then have v: "length v < 2 ^ 32" by (simp add: storable_def encodeEntry_def)
    obtain d' where d': "BoltBackend_PutEntry D b k v tm = b\<lparr>bbDb := d'\<rparr>" "good d'"
        "dGet D d' = (dGet D (bbDb b))(bucketEntries := (dGet D (bbDb b) bucketEntries)(k \<mapsto> encodeEntry v tm))"
      using bolt_put [OF assms(1) b s] by blast
    show ?thesis using d'(2) v len by (auto simp: PutE bolt_sim_def d'(1,3) laws e t)
  next
    case (DelE k)
    obtain d' where d': "BoltBackend_DeleteEntry D b k = b\<lparr>bbDb := d'\<rparr>" "good d'"
        "dGet D d' = (dGet D (bbDb b))(bucketEntries := (dGet D (bbDb b) bucketEntries)(k := None))"
      using bolt_del [OF assms(1) b] by blast
    show ?thesis using d'(2) len by (auto simp: DelE bolt_sim_def d'(1,3) laws e t)
  next
    case (PutT k tm)
    then have s: "storable k tm" using assms(3) by simp
    obtain d' where d': "BoltBackend_PutTombstone D b k tm = b\<lparr>bbDb := d'\<rparr>" "good d'"
        "dGet D d' = (dGet D (bbDb b))(bucketTombstones := (dGet D (bbDb b) bucketTombstones)(k \<mapsto> tm))"
      using bolt_tput [OF assms(1) b s] by blast
    show ?thesis using d'(2) len by (simp add: PutT bolt_sim_def d'(1,3) laws e t)
  next
    case (DelT k)
    obtain d' where d': "BoltBackend_DeleteTombstone D b k = b\<lparr>bbDb := d'\<rparr>" "good d'"
        "dGet D d' = (dGet D (bbDb b))(bucketTombstones := (dGet D (bbDb b) bucketTombstones)(k := None))"
      using bolt_tdel [OF assms(1) b] by blast
    show ?thesis using d'(2) len by (simp add: DelT bolt_sim_def d'(1,3) laws e t)
  qed
qed

lemma bolt_sim_reads:
  assumes "bolt_laws D good" "bolt_sim D good b m"
  shows "BoltBackend_GetEntry D b k = Ok (memoryBackend_GetEntry m k)"
    "BoltBackend_GetTombstone D b k = memoryBackend_GetTombstone m k"
    "BoltBackend_EntryLen D b = memoryBackend_EntryLen m"
proof -
  have b: "good (bbDb b)" and mb: "mb_inv m" and g: "dGet D (bbDb b) bucketEntries = (\<lambda>k. map_option (\<lambda>(v, m). encodeEntry v m) (memoryBackend_GetEntry m k))"
      "dGet D (bbDb b) bucketTombstones = memoryBackend_GetTombstone m"
      "\<And>v t. memoryBackend_GetEntry m k = Some (v, t) \<Longrightarrow> length v < 2 ^ 32"
    using assms(2) by (auto simp: bolt_sim_def)
  have o: "dIsOpen D (bbDb b)" and n: "dKeyN D (bbDb b) bucketEntries = card (dom (dGet D (bbDb b) bucketEntries))"
    using assms(1) b by (auto simp: bolt_laws_def)
  show "BoltBackend_GetEntry D b k = Ok (memoryBackend_GetEntry m k)"
    using o g(3) by (auto simp: BoltBackend_GetEntry_def db_View_def g(1) decode_encode split: option.splits)
  show "BoltBackend_GetTombstone D b k = memoryBackend_GetTombstone m k"
    using o by (simp add: BoltBackend_GetTombstone_def db_View_def g(2))
  have "dom (dGet D (bbDb b) bucketEntries) = dom (memoryBackend_GetEntry m)" by (auto simp: g(1))
  then show "BoltBackend_EntryLen D b = memoryBackend_EntryLen m"
    using o by (simp add: BoltBackend_EntryLen_def db_View_def n EntryLen_card [OF mb])
qed

lemma bolt_sim_run:
  "bolt_laws D good \<Longrightarrow> bolt_sim D good b m \<Longrightarrow> list_all bop_fits xs \<Longrightarrow>
   bolt_sim D good (fold (bolt_run D) xs b) (fold memory_run xs m)"
  by (induction xs arbitrary: b m) (simp_all add: bolt_sim_step)

text \<open>
  Ranging over the entries decodes every pair: for any callback it is the range loop of the in-memory backend, over the
  entries in the order of the cursor.
\<close>

lemma cursorLoop_range:
  assumes "\<forall>(k, d) \<in> set kvs. decodeEntry d = Ok (meValue (f k), meMeta (f k))"
  shows "cursorLoop fn kvs s = Ok (rangeLoop (\<lambda>(k, e). fn k (meValue e) (meMeta e)) (map (\<lambda>(k, _). (k, f k)) kvs) s)"
  using assms
proof (induction kvs arbitrary: s)
  case (Cons x kvs)
  obtain k d where x: "x = (k, d)" by (cases x)
  have "decodeEntry d = Ok (meValue (f k), meMeta (f k))" using Cons.prems by (simp add: x)
  moreover have "cursorLoop fn kvs s' = Ok (rangeLoop (\<lambda>(k, e). fn k (meValue e) (meMeta e)) (map (\<lambda>(k, _). (k, f k)) kvs) s')" for s'
    by (rule Cons.IH) (use Cons.prems in simp)
  ultimately show ?case by (cases "fn k (meValue (f k)) (meMeta (f k)) s") (simp add: x)
qed simp

lemma bolt_sim_range:
  assumes "bolt_laws D good" "bolt_sim D good b m"
  shows "\<exists>es. mset es = mset (mbEntries m) \<and>
    (\<forall>fn s. BoltBackend_RangeEntries D b fn s = Ok (memoryBackend_RangeEntries (m\<lparr>mbEntries := es\<rparr>) fn s))"
proof -
  let ?c = "dCursor D (bbDb b) bucketEntries"
  have g: "dGet D (bbDb b) bucketEntries = (\<lambda>k. map_option (\<lambda>(v, m). encodeEntry v m) (memoryBackend_GetEntry m k))"
      "\<And>k v t. memoryBackend_GetEntry m k = Some (v, t) \<Longrightarrow> length v < 2 ^ 32" and b: "good (bbDb b)"
      and mb: "distinct (map fst (mbEntries m))"
    using assms(2) by (auto simp: bolt_sim_def mb_inv_def wf_map_def)
  have c: "dIsOpen D (bbDb b)" "distinct (map fst ?c)" "map_of ?c = dGet D (bbDb b) bucketEntries"
    using assms(1) b by (auto simp: bolt_laws_def)
  define f where "f k = the (mget (mbEntries m) k)" for k
  have mem: "(k, d) \<in> set ?c \<longleftrightarrow> (\<exists>e. mget (mbEntries m) k = Some e \<and> d = encodeEntry (meValue e) (meMeta e))" for k d
    using c(2) map_of_eq_Some_iff [of ?c k d] by (auto simp: c(3) g(1) memoryBackend_GetEntry_def split: option.splits)
  let ?es = "map (\<lambda>(k, _). (k, f k)) ?c"
  have dec: "\<forall>(k, d) \<in> set ?c. decodeEntry d = Ok (meValue (f k), meMeta (f k))"
  proof -
    have "length (meValue e) < 2 ^ 32" if "mget (mbEntries m) k = Some e" for k e
      using g(2) [of k "meValue e" "meMeta e"] that by (simp add: memoryBackend_GetEntry_def)
    then show ?thesis by (auto simp: mem f_def intro!: decode_encode)
  qed
  have "set ?es = set (mbEntries m)"
  proof (intro set_eqI, clarify)
    fix k e
    have "(k, e) \<in> set ?es \<longleftrightarrow> (\<exists>d. (k, d) \<in> set ?c \<and> f k = e)" by force
    also have "\<dots> \<longleftrightarrow> mget (mbEntries m) k = Some e" unfolding mem f_def by auto
    finally show "(k, e) \<in> set ?es \<longleftrightarrow> (k, e) \<in> set (mbEntries m)" using mb by simp
  qed
  moreover have "map fst ?es = map fst ?c" by (simp add: case_prod_unfold)
  with c(2) have "distinct (map fst ?es)" by (simp only:)
  then have "distinct ?es" "distinct (mbEntries m)" using mb by (simp_all only: distinct_map)
  ultimately have "mset ?es = mset (mbEntries m)" by (simp only: set_eq_iff_mset_eq_distinct)
  moreover have "BoltBackend_RangeEntries D b fn s = Ok (memoryBackend_RangeEntries (m\<lparr>mbEntries := ?es\<rparr>) fn s)" for fn s
    using c(1) cursorLoop_range [OF dec] by (simp add: BoltBackend_RangeEntries_def db_View_def memoryBackend_RangeEntries_def)
  ultimately show ?thesis by blast
qed

lemma bolt_sim_tombs:
  assumes "bolt_laws D good" "bolt_sim D good b m"
  shows "BoltBackend_TombstoneLen D b = memoryBackend_TombstoneLen m"
    "\<exists>ts. mset ts = mset (mbTombstones m) \<and>
      (\<forall>fn s. BoltBackend_RangeTombstones D b fn s = memoryBackend_RangeTombstones (m\<lparr>mbTombstones := ts\<rparr>) fn s)"
proof -
  let ?c = "dCursor D (bbDb b) bucketTombstones"
  have g: "dGet D (bbDb b) bucketTombstones = mget (mbTombstones m)" and b: "good (bbDb b)" and mb: "distinct (map fst (mbTombstones m))"
    using assms(2) by (auto simp: bolt_sim_def mb_inv_def wf_map_def memoryBackend_GetTombstone_def fun_eq_iff)
  have c: "dIsOpen D (bbDb b)" "distinct (map fst ?c)" "map_of ?c = dGet D (bbDb b) bucketTombstones"
      and n: "dKeyN D (bbDb b) bucketTombstones = card (dom (dGet D (bbDb b) bucketTombstones))"
    using assms(1) b by (auto simp: bolt_laws_def)
  show "BoltBackend_TombstoneLen D b = memoryBackend_TombstoneLen m"
    using c(1) distinct_card [OF mb] by (simp add: BoltBackend_TombstoneLen_def db_View_def n g memoryBackend_TombstoneLen_def dom_map_of_conv_image_fst)
  have "set ?c = set (mbTombstones m)"
    using c(2,3) mb g by (metis map_of_eq_Some_iff subrelI subset_antisym)
  moreover have "distinct ?c" "distinct (mbTombstones m)" using c(2) mb by (simp_all add: distinct_map)
  ultimately have "mset ?c = mset (mbTombstones m)" by (simp only: set_eq_iff_mset_eq_distinct)
  moreover have "BoltBackend_RangeTombstones D b fn s = memoryBackend_RangeTombstones (m\<lparr>mbTombstones := ?c\<rparr>) fn s" for fn s
    using c(1) by (simp add: BoltBackend_RangeTombstones_def db_View_def memoryBackend_RangeTombstones_def)
  ultimately show "\<exists>ts. mset ts = mset (mbTombstones m) \<and>
      (\<forall>fn s. BoltBackend_RangeTombstones D b fn s = memoryBackend_RangeTombstones (m\<lparr>mbTombstones := ts\<rparr>) fn s)" by blast
qed

section \<open>A lawful database\<close>

text \<open>Two association lists, always open, that refuse what cannot be stored.\<close>

type_synonym demo_db = "bytes \<Rightarrow> (bytes, bytes) gomap"

definition demo_bolt :: "demo_db boltDB" where
  "demo_bolt = \<lparr>dOpen = (\<lambda>_. Some (\<lambda>_. [])), dClose = (\<lambda>d. d), dIsOpen = (\<lambda>_. True),
     dCreateBucket = (\<lambda>d _. Some d), dGet = (\<lambda>d b. mget (d b)),
     dPut = (\<lambda>d b k v. if storable k v then Some (d(b := mput k v (d b))) else None),
     dDelete = (\<lambda>d b k. Some (d(b := mdel k (d b)))), dCursor = (\<lambda>d b. d b), dKeyN = (\<lambda>d b. length (d b)),
     dWriteTo = (\<lambda>_. Some [])\<rparr>"

lemma demo_bolt_laws: "bolt_laws demo_bolt (\<lambda>d. \<forall>b. wf_map (d b))"
proof -
  have "length m = card (dom (map_of m))" if "wf_map m" for m :: "(bytes, bytes) gomap"
    using that distinct_card [of "map fst m"] by (simp add: wf_map_def dom_map_of_conv_image_fst)
  moreover have "(\<lambda>x. mget ((d(b := m)) x)) = (\<lambda>x. mget (d x))(b := mget m)" for d :: demo_db and b m by auto
  ultimately show ?thesis by (simp add: bolt_laws_def demo_bolt_def wf_map_def [symmetric]) (auto simp: fun_eq_iff)
qed

section \<open>Properties\<close>

text \<open>
  C20: the disk backend refines the in-memory one: after any sequence of writes that the database can store, every read and
  both counts give what the in-memory backend gives, and ranging over the entries or the tombstones with any callback is
  what the in-memory backend does in some iteration order of its maps, early stops included.
\<close>

theorem Bolt_refines_memory:
  assumes "bolt_laws D good" "good (bbDb b)" "\<And>x. x \<in> buckets \<Longrightarrow> dGet D (bbDb b) x = Map.empty" "list_all bop_fits xs"
    and "b' = fold (bolt_run D) xs b" "m = fold memory_run xs newMemoryBackend"
  shows "BoltBackend_GetEntry D b' k = Ok (memoryBackend_GetEntry m k) \<and> BoltBackend_GetTombstone D b' k = memoryBackend_GetTombstone m k \<and>
    BoltBackend_EntryLen D b' = memoryBackend_EntryLen m \<and> BoltBackend_TombstoneLen D b' = memoryBackend_TombstoneLen m \<and>
    (\<exists>es. mset es = mset (mbEntries m) \<and>
       (\<forall>fn s. BoltBackend_RangeEntries D b' fn s = Ok (memoryBackend_RangeEntries (m\<lparr>mbEntries := es\<rparr>) fn s))) \<and>
    (\<exists>ts. mset ts = mset (mbTombstones m) \<and>
       (\<forall>fn s. BoltBackend_RangeTombstones D b' fn s = memoryBackend_RangeTombstones (m\<lparr>mbTombstones := ts\<rparr>) fn s))"
proof -
  have "bolt_sim D good b newMemoryBackend"
    using assms(2,3) by (auto simp: bolt_sim_def memory.inv_empty memory.get_empty memory.tget_empty fun_eq_iff)
  note sim = bolt_sim_run [OF assms(1) this assms(4), folded assms(5,6)]
  show ?thesis
    by (intro conjI bolt_sim_reads [OF assms(1) sim] bolt_sim_range [OF assms(1) sim] bolt_sim_tombs [OF assms(1) sim])
qed

theorem Bolt_refines_memory_witness:
  "\<exists>b. b = fold (bolt_run demo_bolt) [PutE [1] [2, 3] [4], PutT [5] [6]] \<lparr>bbDb = (\<lambda>_. []), bbPath = []\<rparr> \<and>
     BoltBackend_GetEntry demo_bolt b [1] = Ok (Some ([2, 3], [4])) \<and> BoltBackend_TombstoneLen demo_bolt b = 1 \<and>
     BoltBackend_RangeEntries demo_bolt b (\<lambda>k v m s. (s @ [(k, v, m)], True)) [] = Ok [([1], [2, 3], [4])]"
proof -
  let ?b = "\<lparr>bbDb = (\<lambda>_. []), bbPath = []\<rparr>" and ?xs = "[PutE [1] [2, 3] [4], PutT [5] [6]]"
  have m: "fold memory_run ?xs newMemoryBackend = \<lparr>mbEntries = [([1], \<lparr>meValue = [2, 3], meMeta = [4]\<rparr>)], mbTombstones = [([5], [6])]\<rparr>"
    by (simp add: memoryBackend_PutEntry_def memoryBackend_PutTombstone_def newMemoryBackend_def)
  have fits: "list_all bop_fits ?xs" by (simp add: storable_def encodeEntry_def)
  define b where "b = fold (bolt_run demo_bolt) ?xs ?b"
  define m where "m = \<lparr>mbEntries = [([1], \<lparr>meValue = [2, 3 :: byte], meMeta = [4 :: byte]\<rparr>)], mbTombstones = [([5 :: byte], [6 :: byte])]\<rparr>"
  have "\<And>x. x \<in> buckets \<Longrightarrow> dGet demo_bolt (bbDb ?b) x = Map.empty" "\<forall>x. wf_map (bbDb ?b x)" by (simp_all add: demo_bolt_def wf_map_def)
  note r = Bolt_refines_memory [OF demo_bolt_laws this(2) this(1) fits b_def m_def [folded m], of "[1]"]
  note range = r [THEN conjunct2, THEN conjunct2, THEN conjunct2, THEN conjunct2, THEN conjunct1]
  have "\<exists>es. mset es = mset (mbEntries m) \<and> (\<forall>fn (s :: (bytes \<times> bytes \<times> bytes) list).
      BoltBackend_RangeEntries demo_bolt b fn s = Ok (memoryBackend_RangeEntries (m\<lparr>mbEntries := es\<rparr>) fn s))"
    by (rule range)
  then have "BoltBackend_RangeEntries demo_bolt b (\<lambda>k v m s. (s @ [(k, v, m)], True)) [] = Ok [([1], [2, 3], [4])]"
    by (auto simp: m_def memoryBackend_RangeEntries_def)
  moreover have "BoltBackend_GetEntry demo_bolt b [1] = Ok (Some ([2, 3], [4]))" "BoltBackend_TombstoneLen demo_bolt b = 1"
    using r by (auto simp: m_def memoryBackend_GetEntry_def memoryBackend_TombstoneLen_def)
  ultimately show ?thesis unfolding b_def by blast
qed

text \<open>
  A put the database refuses is lost without a sign: for an empty key, a key of more than
  32768 bytes or an oversized value, the backend is unchanged, which the backend interface does
  not allow for.
\<close>

theorem Bolt_refused_put:
  assumes "bolt_laws D good" "good (bbDb b)" "\<not> storable k (encodeEntry v m)" "\<not> storable k' m'"
  shows "BoltBackend_PutEntry D b k v m = b \<and> BoltBackend_PutTombstone D b k' m' = b"
proof -
  have "dPut D (bbDb b) bucketEntries k (encodeEntry v m) = None" "dPut D (bbDb b) bucketTombstones k' m' = None"
    using assms buckets_mem unfolding bolt_laws_def by blast+
  then show ?thesis by (simp add: BoltBackend_PutEntry_def BoltBackend_PutTombstone_def db_Update_def)
qed

theorem Bolt_refused_put_witness:
  "BoltBackend_PutEntry demo_bolt \<lparr>bbDb = (\<lambda>_. []), bbPath = []\<rparr> [] [1] [2] = \<lparr>bbDb = (\<lambda>_. []), bbPath = []\<rparr>"
  using Bolt_refused_put [OF demo_bolt_laws, of "\<lparr>bbDb = (\<lambda>_. []), bbPath = []\<rparr>" "[]" "[1]" "[2]" "[]" "[2]"]
  by (simp add: storable_def wf_map_def)

text \<open>
  An entry is read back as it was packed, whatever its two parts, and no bytes make the
  unpacking panic.
\<close>

theorem Entry_roundtrip:
  assumes "length v < 2 ^ 32"
  shows "decodeEntry (encodeEntry v m) = Ok (v, m) \<and> (\<forall>data. decodeEntry data \<noteq> Panic)"
  using decode_encode [OF assms] decodeEntry_total by simp

theorem Entry_roundtrip_witness: "decodeEntry (encodeEntry [1, 2] [3]) = Ok ([1, 2], [3])"
  using Entry_roundtrip [of "[1, 2]" "[3]"] by simp

end
