(* ===== verification/Spec2Isabelle.thy ===== *)
theory Spec2Isabelle
  imports Network ListNetwork MapNetwork SetNetwork ORMapNetwork AddWinsNetwork Collection Waiting PNCounters LWWRegisters MVRegisters GLists LWWMaps AWLWWMaps ORSets ORMaps DeltaMaps Bolt
begin

text \<open>
  A verification library for \<^verbatim>\<open>crdt-go\<close>, a Go package of nine conflict-free replicated data types.

  \<^bold>\<open>The program.\<close> Every type has a storage half (\<^verbatim>\<open>gcounter.go\<close>, \<^verbatim>\<open>lwwmap.go\<close>, \<^verbatim>\<open>orset.go\<close>, ...) whose
  mutations return encoded deltas and which implements the interface \<^verbatim>\<open>mergeable\<close>: \<^verbatim>\<open>ParseDelta\<close> summarises a
  delta, \<^verbatim>\<open>Apply\<close> merges it, \<^verbatim>\<open>DeltasSince\<close> selects the deltas a peer lacks, \<^verbatim>\<open>EntryMeta\<close> and \<^verbatim>\<open>TombstoneMeta\<close>
  expose the metadata of a key. The generic half is the replica (\<^verbatim>\<open>replica.go\<close>): it stamps local mutations with dots
  (\<^verbatim>\<open>dot.go\<close>, \<^verbatim>\<open>clock.go\<close>), asks a domination rule (\<^verbatim>\<open>clock_*.go\<close>) whether a remote delta may be applied, records the
  dots it has received (\<^verbatim>\<open>received.go\<close>), keeps a hash map of all metadata (\<^verbatim>\<open>merkle.go\<close>), and sends deltas, digests
  and answers through a transport (\<^verbatim>\<open>concern.go\<close>). Public types (\<^verbatim>\<open>node.go\<close>) lock a replica around one call. Entries
  live in a backend (\<^verbatim>\<open>store.go\<close>): in memory (\<^verbatim>\<open>memory.go\<close>) or on disk (\<^verbatim>\<open>crdtbolt/bolt.go\<close>).

  \<^bold>\<open>Theories.\<close>

  \<^item> \<^verbatim>\<open>Prelude\<close>: bytes and words; the result type \<open>'a go\<close> (\<open>Ok\<close>, \<open>Err\<close>, \<open>Panic\<close>) with slices and their bounds
    check; Go maps as association lists without repeated keys; \<^verbatim>\<open>encoding/binary\<close>; the collections of simplification rules.
  \<^item> \<^verbatim>\<open>Dots\<close> (\<^verbatim>\<open>dot.go\<close>, \<^verbatim>\<open>clock.go\<close>), \<^verbatim>\<open>VClocks\<close> (\<^verbatim>\<open>vclock.go\<close>): dots with their order as an instance of \<open>linorder\<close>, dot maps
    and clocks as two interpretations of the join semilattice \<open>clock_join\<close>.
  \<^item> \<^verbatim>\<open>Wire\<close> (\<^verbatim>\<open>wire.go\<close>, \<^verbatim>\<open>encodable.go\<close>): encoders and decoders, round trips, exactly which inputs panic, canonicity,
    and the codecs as interpretations of \<open>codec_laws\<close>.
  \<^item> \<^verbatim>\<open>Received\<close> (\<^verbatim>\<open>received.go\<close>): the high-water marks with their gap-filling loop, against the set of counters
    received, as an interpretation of \<open>receive_log\<close>.
  \<^item> \<^verbatim>\<open>Backends\<close> (\<^verbatim>\<open>store.go\<close>, \<^verbatim>\<open>memory.go\<close>): the interface \<^verbatim>\<open>Backend\<close> as the locale \<open>backend\<close> and the in-memory backend as its
    interpretation; \<^verbatim>\<open>Bolt\<close> (\<^verbatim>\<open>crdtbolt/bolt.go\<close>): the disk backend, which refines the in-memory one.
  \<^item> \<^verbatim>\<open>Clocks\<close> (\<^verbatim>\<open>interfaces.go\<close>, \<^verbatim>\<open>clock_*.go\<close>): the four domination rules. \<^verbatim>\<open>Merkle\<close> (\<^verbatim>\<open>merkle.go\<close>): the hash map.
  \<^item> \<^verbatim>\<open>Convergence\<close>: delivery in any order and any number of times (\<open>delta_crdt\<close>, its lattice case \<open>delta_lattice\<close>) and the cells of the
    last-writer-wins types.
  \<^item> \<^verbatim>\<open>Replica\<close> (\<^verbatim>\<open>replica.go\<close>, \<^verbatim>\<open>concern.go\<close>, \<^verbatim>\<open>store.go\<close>): the replica over a dictionary \<open>'s mergeable\<close>, its messages, options and
    quorums; \<^verbatim>\<open>Waiting\<close>: \<open>Wait\<close> and the goroutines that feed it, as steps of a write in flight. What a replica relies on is the locale \<open>storage\<close>, and \<open>tracked_storage\<close> where the hash map mirrors the storage.
  \<^item> One theory per type, with its storage half, its public half and an interpretation of the contracts above: \<^verbatim>\<open>GCounters\<close>,
    \<^verbatim>\<open>PNCounters\<close>, \<^verbatim>\<open>LWWMaps\<close>, \<^verbatim>\<open>LWWRegisters\<close>, \<^verbatim>\<open>MVRegisters\<close>, \<^verbatim>\<open>GLists\<close>, \<^verbatim>\<open>AWLWWMaps\<close>, \<^verbatim>\<open>ORSets\<close>, \<^verbatim>\<open>ORMaps\<close>, \<^verbatim>\<open>DeltaMaps\<close>
    (\<^verbatim>\<open>deltamap.go\<close>, \<^verbatim>\<open>mutations.go\<close>). \<^verbatim>\<open>Observed\<close> holds what the observed-remove types share.
  \<^item> \<^verbatim>\<open>Cluster\<close>: replicas of one type over a network that loses, repeats, delays and reorders messages, as an inductive
    set of reachable states, and the locale \<open>cluster_protocol\<close> of what a type owes such a cluster; \<^verbatim>\<open>Network\<close>, \<^verbatim>\<open>ListNetwork\<close>,
    \<^verbatim>\<open>MapNetwork\<close>: its interpretations for the counters, the list and the last-writer-wins map. \<^verbatim>\<open>Exchange\<close>: the runs of a
    cluster without operations, and one round of anti-entropy as such a run.
  \<^item> \<^verbatim>\<open>Histories\<close>: the history of adds and removes of an observed-remove type and of what each remove had observed.
    \<^verbatim>\<open>ObservedCluster\<close>: the locale \<open>observed_cluster\<close>, which proves for both observed-remove types that a cluster keeps its
    promises against that history; \<^verbatim>\<open>SetNetwork\<close> and \<^verbatim>\<open>ORMapNetwork\<close> interpret it for the set and the map.
    \<^verbatim>\<open>AddWinsNetwork\<close>: the add-wins map against the same histories; the ghost also records the puts that a local put stamped
    below them has overwritten.
    \<^verbatim>\<open>Collection\<close>: what the garbage collection of tombstones loses.
  \<^item> This theory: properties across components (messages of arbitrary bytes, the wire, write concerns).

  \<^bold>\<open>Correspondence.\<close> A Go function \<^verbatim>\<open>f\<close> is the definition \<open>f\<close>, a method \<^verbatim>\<open>T.m\<close> the definition \<open>T_m\<close>; a pointer receiver is
  returned updated. An \<^verbatim>\<open>(x, error)\<close> result is \<open>go\<close> or a sum; a result the source computes before it returns an error is returned
  beside it. \<^verbatim>\<open>uint64\<close> is a 64-bit word that wraps; \<^verbatim>\<open>int\<close> is an integer with the conversion from \<^verbatim>\<open>uint64\<close> written out; strings are
  byte lists. A range loop with a callback is \<open>rangeLoop\<close>, which threads what the callback captures and stops where it returns false.
  A public method is one atomic step, since it holds the mutex; what it hands to \<^verbatim>\<open>transport.Send\<close> is returned as a list of sends,
  which the cluster delivers, or not, to replicas that have a transport; only a replica whose anti-entropy loop was started ticks. A
  panic ends the process: a sequence of received messages stops there.

  \<^bold>\<open>What the lemmas show.\<close> For each type: an invariant that no delta, however malformed, breaks; what every operation does to the
  view of the state; that replicas which received the same deltas in any order agree, with the hypothesis under which that is true;
  and where it is not true, a theorem that says so (\<open>ORSet_removes_diverge\<close>, \<open>ORSet_early_remove\<close>, \<open>ORSet_collected_remove\<close>, \<open>ORMap_value_diverges\<close>,
  \<open>LWWMap_stale_stamp\<close>, \<open>AWLWWMap_order_dependent\<close>, \<open>DeltaMap_remove_order\<close>, \<open>MVRegister_reordered\<close>, \<open>MVRegister_answer_drops\<close>). A remove acts by the contiguous
  high-water marks: what arrived over a gap is outside its context (\<open>AWLWWMap_Put_Remove\<close>, \<open>DeltaMap_RemoveKey_spec\<close>). For anti-entropy: that the deltas selected for a
  peer are what it lacks, that a round of messages brings them over, and where digests are never answered (\<open>PNCounter_no_anti_entropy\<close>, \<open>DeltaMap_no_anti_entropy\<close>).

  \<^bold>\<open>Bounds.\<close> Deltas are shorter than \<open>2 ^ 63\<close> bytes and clocks have fewer than \<open>2 ^ 32\<close> entries, the widths of the encoded lengths
  and counts; above them \<open>crafted_message_panics\<close> shows what happens. Every loop is a total function: \<open>advanceLoop\<close> by the size
  of the pending set, \<open>insertDown\<close> and \<open>decodeEntries\<close> by their index and count, \<open>PutUvarint\<close> by the value. No fuel is used. The
  anti-entropy goroutine consumes the events its \<^verbatim>\<open>select\<close> sees. \<open>Wait\<close> stops at each of its \<^verbatim>\<open>select\<close> statements and goes on
  with a case that is ready, or blocks; \<open>Wait_returns\<close> bounds its steps and says when it cannot block, \<open>Wait_blocks\<close> when it can.

  \<^bold>\<open>Parameters.\<close> \<^verbatim>\<open>hash/maphash\<close> is the record \<open>maphash\<close> (a keyed hash and a fresh seed, never zero, as documented); a codec is the record
  \<open>Codec\<close>; the bbolt database is the record \<open>boltDB\<close> with its documented behaviour in \<open>bolt_laws\<close>.

  \<^bold>\<open>Not modelled.\<close> The scheduling of goroutines within one call, the ticker's timing, contexts beyond the event that they end, and the
  implementations of \<^verbatim>\<open>Transport\<close> and \<^verbatim>\<open>TopologyProvider\<close>, which are the caller's: a provider is represented by the peers it
  answers, a transport by the sends it is handed. The replicas of the storage types run on the in-memory backend; that the disk backend
  answers alike is \<open>Bolt_refines_memory\<close>. Iteration over a Go map takes one order, that of the association list; results that
  depend on it are stated as sets or shown to be independent of it. Text of errors is not kept.
\<close>

section \<open>Messages of arbitrary bytes\<close>

lemma varint_panic:
  assumes "2 ^ 63 \<le> uint n" "length (PutUvarint n @ rest) < 2 ^ 63"
  shows "readVarintBytes (PutUvarint n @ rest) 0 = Panic"
proof -
  have n: "0 < int (length (PutUvarint n))" using PutUvarint_nonempty [of n] by simp
  then have "0 < int (length (PutUvarint n @ rest))" by (simp add: add_pos_nonneg)
  with n have "readVarintBytes (PutUvarint n @ rest) 0 = Panic \<longleftrightarrow> 2 ^ 63 \<le> 0 + int (length (PutUvarint n)) + uint n"
    using assms(2) by (intro readVarintBytes_Panic_iff) simp_all
  with assms(1) show ?thesis by simp
qed

text \<open>
  C26: a received message can crash a replica: when the length prefix of the first field is at least \<open>2 ^ 63\<close>, the conversion
  to \<^verbatim>\<open>int\<close> wraps and the slice expression panics, whatever the state, in each of the eight storage types whose deltas have
  varint fields: all but the two counters.
\<close>

theorem crafted_message_panics:
  assumes "2 ^ 63 \<le> uint n" "length (PutUvarint n @ rest) < 2 ^ 63"
  defines "put \<equiv> msgDelta # opPut # PutUvarint n @ rest" and "val \<equiv> msgDelta # PutUvarint n @ rest"
  shows "replica_handleMessage mh orSetM r1 from dot put = Panic \<and> replica_handleMessage mh orMapM r2 from dot put = Panic \<and>
    replica_handleMessage mh lwwMapM r3 from dot put = Panic \<and> replica_handleMessage mh awLWWMapM r4 from dot put = Panic \<and>
    replica_handleMessage mh deltaMapM r5 from dot put = Panic \<and> replica_handleMessage mh gListM r6 from dot val = Panic \<and>
    replica_handleMessage mh lwwRegisterM r7 from dot val = Panic \<and> replica_handleMessage mh mvRegisterM r8 from dot val = Panic"
proof -
  note p = varint_panic [OF assms(1,2)]
  show ?thesis
    by (intro conjI)
      (simp_all add: put_def val_def replica_handleMessage_def replica_applyDelta_def Let_def split_beta p orSetState_ParseDelta_def
        orSetState_parseAddDelta_def orMapState_ParseDelta_def orMapState_parsePutDelta_def lwwMapState_ParseDelta_def
        lwwMapState_parsePutDelta_def awLWWMapState_ParseDelta_def awLWWMapState_parsePutDelta_def deltaMapState_ParseDelta_def
        gListState_ParseDelta_def lwwRegisterState_ParseDelta_def mvRegisterState_ParseDelta_def)
qed

theorem crafted_message_panics_witness:
  "\<exists>(r :: bytes ORSet) (q :: bytes MVRegister). NewORSet demo_hash 1 (Some StringCodec) [] = Ok r \<and>
     replica_handleMessage demo_hash orSetM r 2 (mkDot 2 1) (msgDelta # opPut # PutUvarint (2 ^ 63) @ []) = Panic \<and>
     NewMVRegister demo_hash 1 (Some StringCodec) [] = Ok q \<and>
     replica_handleMessage demo_hash mvRegisterM q 2 (mkDot 2 1) (msgDelta # PutUvarint (2 ^ 63) @ []) = Panic"
proof -
  obtain r :: "bytes ORSet" where r: "NewORSet demo_hash 1 (Some StringCodec) [] = Ok r" using demo_ORSet [of 1] by blast
  have "MakeSeed demo_hash \<noteq> 0" by simp
  then obtain q :: "bytes MVRegister" where q: "NewMVRegister demo_hash 1 (Some StringCodec) [] = Ok q" by (rule NewMVRegister_Ok)
  have "2 ^ 63 \<le> uint (2 ^ 63 :: u64)" "length (PutUvarint (2 ^ 63) @ []) < 2 ^ 63"
    by (simp_all add: PutUvarint.simps word_le_nat_alt)
  note p = crafted_message_panics [OF this]
  show ?thesis using r q p by blast
qed

text \<open>
  C17: whatever messages a set receives without a panic, in whatever order and however malformed, its storage,
  received clock and hash map stay well formed, and the hash map holds for every non-empty element the metadata
  of the storage, so that two replicas with the same seed differ in it exactly on the non-empty
  elements whose metadata differ.
\<close>

theorem ORSet_messages:
  assumes "MakeSeed mh \<noteq> 0" "oBackend (applyOptions opts) = None" "NewORSet mh i (Some c) opts = Ok r"
    and "receive_all mh orSetM ms r = Ok r'"
  shows "mb_inv (osBackend (rData r')) \<and> rc_inv (rReceived r') \<and> mm_inv mh (rMerkle r') \<and> wf_map (rPeerHWMs r') \<and>
    (\<forall>k. k \<noteq> [] \<longrightarrow> merkleMap_Get (rMerkle r') k =
      (case orSetState_EntryMeta (rData r') k of Some m \<Rightarrow> Some m | None \<Rightarrow> orSetState_TombstoneMeta (rData r') k))"
proof -
  have inv: "orset.replica_inv mh r" using NewORSet_Ok [OF assms(1,2), of i c] assms(3) by (auto simp: osr_inv_def)
  have "tracked orSetM r"
    using assms(2,3)
    by (auto simp: NewORSet_def newORSetState_def requireCodec_def applyOptions_def Let_def tracked_def meta_of_def
        orSetState_EntryMeta_def orSetState_TombstoneMeta_def memory.get_empty memory.tget_empty merkleMap_Get_def newMerkleMap_def)
  from orset.receive_all_tracked [OF inv this assms(4)] show ?thesis
    by (auto simp: orset.replica_inv_def tracked_def meta_of_def split: option.splits)
qed

theorem ORSet_messages_witness:
  "\<exists>(r :: bytes ORSet) r'. NewORSet demo_hash 1 (Some StringCodec) [] = Ok r \<and>
     receive_all demo_hash orSetM [(2, \<lparr>tmFrom = 2, tmDot = mkDot 2 1, tmDelta = [0, 9, 9], tmAck = True\<rparr>),
       (3, \<lparr>tmFrom = 3, tmDot = mkDot 3 1, tmDelta = tagDelta (os_delta (OsAdd [7] [(3, 1)])), tmAck = False\<rparr>)] r = Ok r' \<and>
     mb_inv (osBackend (rData r')) \<and> mm_inv demo_hash (rMerkle r')"
proof -
  let ?x = "OsAdd [7] [(3, 1)]"
  obtain r :: "bytes ORSet" where r: "NewORSet demo_hash 1 (Some StringCodec) [] = Ok r" using demo_ORSet [of 1] by blast
  let ?ms = "[(2, \<lparr>tmFrom = 2, tmDot = mkDot 2 1, tmDelta = [0, 9, 9], tmAck = True\<rparr>),
    (3, \<lparr>tmFrom = 3, tmDot = mkDot 3 1, tmDelta = tagDelta (os_delta ?x), tmAck = False\<rparr>)]"
  have "os_fits demo_cluster ?x" by (auto simp: os_fits_short demo_clock demo_cluster_card)
  note x = os_delta_ok [OF demo_cluster_card this]
  have "snd (replica_applyDelta demo_hash orSetM q 0 (mkDot 0 0) (os_delta ?x)) = Ok ()" for q :: "bytes ORSet"
    by (rule applyDelta_ok [where info = "os_info ?x"]) (simp_all add: x del: os_delta.simps os_info.simps)
  then have "\<exists>r'. replica_receive demo_hash orSetM 3 \<lparr>tmFrom = 3, tmDot = mkDot 3 1, tmDelta = tagDelta (os_delta ?x), tmAck = False\<rparr> r = Ok r'"
    using receive_delta [of "\<lparr>tmFrom = 3, tmDot = mkDot 3 1, tmDelta = tagDelta (os_delta ?x), tmAck = False\<rparr>" "os_delta ?x" demo_hash orSetM r 3]
    by (simp del: os_delta.simps)
  moreover have "replica_receive demo_hash orSetM 2 \<lparr>tmFrom = 2, tmDot = mkDot 2 1, tmDelta = [0, 9, 9], tmAck = True\<rparr> r = Ok r"
    by (simp add: replica_receive_def replica_handleMessage_def replica_applyDelta_def msgDelta_def orSetState_ParseDelta_def opPut_def opRemove_def)
  ultimately obtain r' where r': "receive_all demo_hash orSetM ?ms r = Ok r'" by (auto simp del: os_delta.simps)
  have "MakeSeed demo_hash \<noteq> 0" "oBackend (applyOptions []) = None" by (simp_all add: applyOptions_def)
  from ORSet_messages [OF this r r'] r r' show ?thesis by blast
qed

section \<open>The wire\<close>

text \<open>
  C27: what is sent is what is received: vector clocks, remove tombstones, digests and whole
  messages survive encoding and decoding, for clocks of fewer than \<open>2 ^ 32\<close> replicas.
\<close>

theorem wire_roundtrip:
  assumes "wf_map vc" "length vc < 2 ^ 32"
  shows "decodeVClock (encodeVClock vc) = Ok (sorted_map vc) \<and> same_map (sorted_map vc) vc \<and>
    decodeRemoveTombstone (encodeRemoveTombstone d vc) = Ok (d, sorted_map vc) \<and>
    decodeAEDigest (drop 1 (encodeAEDigest h vc)) = Ok (h, sorted_map vc) \<and>
    UnmarshalTransportMessage from (TransportMessage_Marshal m) = Ok (Some (m\<lparr>tmFrom := from\<rparr>))"
  using assms decodeAEDigest_encode [OF assms, of h] by (simp add: decodeVClock_encodeVClock' Unmarshal_Marshal same_map_def)

theorem wire_roundtrip_witness: "decodeVClock (encodeVClock [(2, 5), (1, 3)]) = Ok (sorted_map [(2, 5), (1, 3)])"
  using wire_roundtrip [of "[(2, 5), (1, 3)]"] by (simp add: wf_map_def)

text \<open>
  C28: the encoding is canonical: two dot maps have the same bytes exactly when they hold the
  same dots, whatever the iteration order of the maps. The insertion sort of the replica ids
  is a sort.
\<close>

theorem encodeDotMap_canonical:
  assumes "wf_map a" "wf_map b" "length a < 2 ^ 32" "length b < 2 ^ 32"
  shows "(encodeDotMap a = encodeDotMap b \<longleftrightarrow> mget a = mget b) \<and> sortedReplicaIDs a = sort (map fst a)"
proof -
  have "mget a = mget b" if e: "encodeDotMap a = encodeDotMap b"
  proof -
    have "sorted_map a = sorted_map b"
      using decodeDotMap_encodeDotMap [of a "[]"] decodeDotMap_encodeDotMap [of b "[]"] assms e by simp
    from arg_cong [OF this, of map_of] show ?thesis by simp
  qed
  with encodeDotMap_cong [OF assms(1,2)] sortedReplicaIDs_sort show ?thesis by blast
qed

theorem encodeDotMap_canonical_witness: "encodeDotMap [(2, 5), (1, 3)] = encodeDotMap [(1, 3), (2, 5)]"
proof -
  have "mget [(2 :: ReplicaID, 5 :: u64), (1, 3)] = mget [(1, 3), (2, 5)]" by (auto simp: fun_eq_iff)
  with encodeDotMap_canonical [of "[(2, 5), (1, 3)]" "[(1, 3), (2, 5)]"] show ?thesis by (simp add: wf_map_def)
qed

section \<open>Write concerns\<close>

text \<open>
  C29: a majority write is sent to every peer, and \<open>Wait\<close> succeeds exactly when the first half of the peers whose channels it
  receives acknowledge, one after the other. Whenever it has succeeded, the peers that have acknowledged are, with the
  writer itself, more than half of the cluster.
\<close>

theorem majority_write:
  assumes "rTransport r" "rTopology r = Some peers" "peers \<noteq> []" "rConcern r = WMajority" "replica_propagate r d delta = (out, w)"
  shows "map fst out = peers \<and>
    (WriteResult_Wait (Some w) es = Some (Ok ()) \<longleftrightarrow>
       (\<exists>ps. length ps = wrNeeded w \<and> take (2 * wrNeeded w) es = concat (map (\<lambda>p. [AckChan p, AckDone]) ps))) \<and>
    (\<forall>n s. write_run w n s \<and> wsPoint s = Returned (Ok ()) \<longrightarrow> 2 * (card (wsAcked s) + 1) > length peers + 1) \<and>
    2 * (wrNeeded w + 1) > length peers + 1 \<and> wrNeeded w \<le> length peers"
proof -
  define q where "q = (length peers + 1) div 2"
  have n: "length peers \<noteq> 0" using assms(3) by simp
  then have q: "0 < q" "q \<le> length peers" "2 * (q + 1) > length peers + 1" unfolding q_def by presburger+
  have "quorumSize r (length peers) = q" using quorumSize_majority [OF assms(4)] by (simp add: q_def)
  then have "replica_propagate r d delta =
      (map (\<lambda>peer. (peer, \<lparr>tmFrom = 0, tmDot = d, tmDelta = tagDelta delta, tmAck = True\<rparr>)) peers,
       \<lparr>wrAckCh = True, wrNeeded = q, wrTotal = length peers\<rparr>)"
    using assms(1,2) n q by (simp add: replica_propagate_def)
  then have w: "w = \<lparr>wrAckCh = True, wrNeeded = q, wrTotal = length peers\<rparr>" "map fst out = peers"
    using assms(5) by (auto simp: comp_def)
  have acked: "q \<le> card (wsAcked s)" if "write_run w n s" "wsPoint s = Returned (Ok ())" for n s
    using run_result [OF run_ok [OF that(1)] that(2)] q by (simp add: w)
  have "2 * (card (wsAcked s) + 1) > length peers + 1" if "write_run w n s \<and> wsPoint s = Returned (Ok ())" for n s
  proof -
    have "q \<le> card (wsAcked s)" using acked that by blast
    with q(3) show ?thesis by simp
  qed
  then have "\<forall>n s. write_run w n s \<and> wsPoint s = Returned (Ok ()) \<longrightarrow> 2 * (card (wsAcked s) + 1) > length peers + 1" by blast
  moreover have "WriteResult_Wait (Some w) es = Some (Ok ()) \<longleftrightarrow> (\<exists>ps. length ps = wrNeeded w \<and> take (2 * wrNeeded w) es = acks ps)"
    by (rule Wait_Ok_iff) (use w q in simp_all)
  moreover have "2 * (wrNeeded w + 1) > length peers + 1" "wrNeeded w \<le> length peers" using w q by simp_all
  ultimately show ?thesis using w(2) by blast
qed

theorem majority_write_witness:
  "\<exists>out w. replica_propagate (NewGCounter demo_hash 1 [WithTransport True, WithTopology (Some [2, 3]), WithWriteConcern WMajority])
      (mkDot 1 1) [9] = (out, w) \<and> map fst out = [2, 3] \<and> WriteResult_Wait (Some w) [AckChan 1, AckDone] = Some (Ok ())"
proof -
  let ?r = "NewGCounter demo_hash 1 [WithTransport True, WithTopology (Some [2, 3]), WithWriteConcern WMajority]"
  have f: "rTransport ?r" "rTopology ?r = Some [2, 3]" "rConcern ?r = WMajority"
    by (simp_all add: NewGCounter_def newReplica_def Let_def applyOptions_def WithTransport_def WithTopology_def WithWriteConcern_def)
  obtain out w where p: "replica_propagate ?r (mkDot 1 1) [9] = (out, w)" by fastforce
  have "wrNeeded w = 1" using p f by (auto simp: replica_propagate_def Let_def quorumSize_def WMajority_def)
  with majority_write [OF f(1,2) _ f(3) p, of "[AckChan 1, AckDone]"] p show ?thesis by (auto intro: exI [of _ "[1]"])
qed

end
